(* ===== verification/Prelude.thy ===== *)
theory Prelude
  imports Main "HOL-Library.Word"
begin

text \<open>
  Shared vocabulary of the development: the C integer types as machine words, byte memory with
  little-endian 32-bit access, the outcome monad in which stateful kernel code is written, a weakest
  precondition for it, and the generic lemmas the component theories use.
\<close>

unbundle bit_operations_syntax

section \<open>C integer types and memory\<close>

type_synonym byte = "8 word"
type_synonym ushort = "16 word"
type_synonym uint = "32 word"
type_synonym addr = "32 word"
type_synonym memory = "addr \<Rightarrow> byte"

named_theorems xv6_consts \<open>unfolding rules for the constants of the C headers\<close>
named_theorems kM_simps \<open>evaluation rules for the outcome monad\<close>
named_theorems wp_rules \<open>weakest-precondition rules of component operations\<close>

text \<open>Little-endian 32-bit and 16-bit access to byte memory, as the processor does it.\<close>

definition load32 :: "memory \<Rightarrow> addr \<Rightarrow> uint" where
  "load32 m a = ucast (m a) OR push_bit 8 (ucast (m (a + 1))) OR
     push_bit 16 (ucast (m (a + 2))) OR push_bit 24 (ucast (m (a + 3)))"

definition store32 :: "memory \<Rightarrow> addr \<Rightarrow> uint \<Rightarrow> memory" where
  "store32 m a v = m(a := ucast v, a + 1 := ucast (drop_bit 8 v),
     a + 2 := ucast (drop_bit 16 v), a + 3 := ucast (drop_bit 24 v))"

text \<open>The bytes of a 32-bit and of a 16-bit value in memory order.\<close>

definition le32 :: "uint \<Rightarrow> byte list" where
  "le32 v = [ucast v, ucast (drop_bit 8 v), ucast (drop_bit 16 v), ucast (drop_bit 24 v)]"

definition le16 :: "ushort \<Rightarrow> byte list" where
  "le16 v = [ucast v, ucast (drop_bit 8 v)]"

definition of_le32 :: "byte \<Rightarrow> byte \<Rightarrow> byte \<Rightarrow> byte \<Rightarrow> uint" where
  "of_le32 a b c d = ucast a OR push_bit 8 (ucast b) OR push_bit 16 (ucast c) OR push_bit 24 (ucast d)"

definition of_le16 :: "byte \<Rightarrow> byte \<Rightarrow> ushort" where
  "of_le16 a b = ucast a OR push_bit 8 (ucast b)"

text \<open>Little-endian words inside a block of bytes.\<close>

definition get32 :: "byte list \<Rightarrow> nat \<Rightarrow> uint" where
  "get32 bs i = of_le32 (bs ! i) (bs ! (i + 1)) (bs ! (i + 2)) (bs ! (i + 3))"

definition get16 :: "byte list \<Rightarrow> nat \<Rightarrow> ushort" where
  "get16 bs i = of_le16 (bs ! i) (bs ! (i + 1))"

definition splice :: "byte list \<Rightarrow> nat \<Rightarrow> byte list \<Rightarrow> byte list" where
  "splice bs i xs = take i bs @ xs @ drop (i + length xs) bs"

definition put32 :: "byte list \<Rightarrow> nat \<Rightarrow> uint \<Rightarrow> byte list" where
  "put32 bs i v = splice bs i (le32 v)"

definition put16 :: "byte list \<Rightarrow> nat \<Rightarrow> ushort \<Rightarrow> byte list" where
  "put16 bs i v = splice bs i (le16 v)"

lemma of_le32_le32: "of_le32 (ucast v) (ucast (drop_bit 8 v)) (ucast (drop_bit 16 v)) (ucast (drop_bit 24 v)) = v"
proof (rule bit_word_eqI)
  fix n :: nat
  assume "n < LENGTH(32)"
  then consider "n < 8" | "8 \<le> n" "n < 16" | "16 \<le> n" "n < 24" | "24 \<le> n" "n < 32" by fastforce
  then show "bit (of_le32 (ucast v) (ucast (drop_bit 8 v)) (ucast (drop_bit 16 v))
      (ucast (drop_bit 24 v))) n = bit v n"
    by cases (auto simp: of_le32_def bit_simps)
qed

lemma of_le16_le16: "of_le16 (ucast v) (ucast (drop_bit 8 v)) = v"
  by (rule bit_word_eqI) (auto simp: of_le16_def bit_simps)

lemma length_splice [simp]: "i + length xs \<le> length bs \<Longrightarrow> length (splice bs i xs) = length bs"
  by (simp add: splice_def)

lemma length_put [simp]:
  "i + 4 \<le> length bs \<Longrightarrow> length (put32 bs i v) = length bs"
  "i + 2 \<le> length bs \<Longrightarrow> length (put16 bs i w) = length bs"
  by (simp_all add: put32_def put16_def le32_def le16_def)

lemma nth_splice:
  "i + length xs \<le> length bs \<Longrightarrow> j < length bs \<Longrightarrow>
   splice bs i xs ! j = (if i \<le> j \<and> j < i + length xs then xs ! (j - i) else bs ! j)"
  by (auto simp: splice_def nth_append min_def)

lemma get32_put32 [simp]: "i + 4 \<le> length bs \<Longrightarrow> get32 (put32 bs i v) i = v"
  by (simp add: get32_def put32_def nth_splice le32_def of_le32_le32 nth_Cons')

lemma get32_put32_other:
  "i + 4 \<le> length bs \<Longrightarrow> j + 4 \<le> length bs \<Longrightarrow> j + 4 \<le> i \<or> i + 4 \<le> j \<Longrightarrow> get32 (put32 bs i v) j = get32 bs j"
  by (auto simp: get32_def put32_def nth_splice le32_def)

lemma get16_put16 [simp]: "i + 2 \<le> length bs \<Longrightarrow> get16 (put16 bs i v) i = v"
  by (simp add: get16_def put16_def nth_splice le16_def of_le16_le16 nth_Cons')

lemma get_put_other:
  "i + 2 \<le> length bs \<Longrightarrow> j + 2 \<le> length bs \<Longrightarrow> j + 2 \<le> i \<or> i + 2 \<le> j \<Longrightarrow> get16 (put16 bs i w) j = get16 bs j"
  "i + 4 \<le> length bs \<Longrightarrow> j + 2 \<le> length bs \<Longrightarrow> j + 2 \<le> i \<or> i + 4 \<le> j \<Longrightarrow> get16 (put32 bs i v) j = get16 bs j"
  "i + 2 \<le> length bs \<Longrightarrow> j + 4 \<le> length bs \<Longrightarrow> j + 4 \<le> i \<or> i + 2 \<le> j \<Longrightarrow> get32 (put16 bs i w) j = get32 bs j"
  by (auto simp: get32_def put32_def get16_def put16_def nth_splice le32_def le16_def)

lemma load32_alt: "load32 m a = of_le32 (m a) (m (a + 1)) (m (a + 2)) (m (a + 3))"
  by (simp add: load32_def of_le32_def)

text \<open>Two 4-byte cells at \<open>a\<close> and \<open>b\<close> do not overlap.\<close>

definition sep4 :: "addr \<Rightarrow> addr \<Rightarrow> bool" where
  "sep4 a b \<longleftrightarrow> 4 \<le> unat (b - a) \<and> 4 \<le> unat (a - b)"

lemma load32_store32_same [simp]: "load32 (store32 m a v) a = v"
proof -
  have "a + 1 \<noteq> a" "a + 2 \<noteq> a" "a + 3 \<noteq> a" "a + 2 \<noteq> a + 1" "a + 3 \<noteq> a + 1" "a + 3 \<noteq> a + 2"
    by (simp_all add: add_eq_0_iff)
  then show ?thesis by (simp add: load32_alt store32_def of_le32_le32)
qed

lemma store32_other: "4 \<le> unat (b - a) \<Longrightarrow> store32 m a v b = m b"
  by (auto simp: store32_def)

lemma sep4_far:
  assumes "sep4 a b" and "i < 4"
  shows "4 \<le> unat (b + of_nat i - a)"
proof -
  let ?d = "b - a"
  have d: "4 \<le> unat ?d" "4 \<le> unat (- ?d)" using assms(1) by (simp_all add: sep4_def)
  have nz: "?d \<noteq> 0" using d by auto
  then have "0 < unat ?d" by (simp add: unat_gt_0)
  then have "unat (0 - ?d) = 2 ^ 32 - unat ?d" by (subst unat_sub_if') simp
  then have "unat (- ?d) = 2 ^ 32 - unat ?d" by simp
  with d have lt: "unat ?d + i < 2 ^ 32" using assms(2) by linarith
  have "b + of_nat i - a = ?d + of_nat i" by simp
  then have "unat (b + of_nat i - a) = unat ?d + i"
    using lt by (simp only: unat_word_ariths(1)) (simp add: unat_of_nat)
  then show ?thesis using d by simp
qed

lemma load32_store32_other:
  assumes "sep4 a b"
  shows "load32 (store32 m a v) b = load32 m b"
  using sep4_far[OF assms, of 0] sep4_far[OF assms, of 1] sep4_far[OF assms, of 2]
    sep4_far[OF assms, of 3]
  by (simp add: load32_alt store32_other)

text \<open>
  Addresses that are multiples of four: distinct cells do not overlap. Page tables, the allocator's
  free list and every kernel structure accessed by word live at such addresses.
\<close>

definition aligned4 :: "addr \<Rightarrow> bool" where
  "aligned4 a \<longleftrightarrow> unat a mod 4 = 0"

lemma aligned4_diff: "aligned4 a \<Longrightarrow> aligned4 b \<Longrightarrow> unat (a - b) mod 4 = 0"
proof -
  assume "aligned4 a" "aligned4 b"
  then have "4 dvd unat a" "4 dvd unat b" by (simp_all add: aligned4_def mod_eq_0_iff_dvd)
  moreover have "unat (a - b) = (if unat b \<le> unat a then unat a - unat b else unat a + 2 ^ 32 - unat b)"
    by (simp add: unat_sub_if' )
  moreover have "4 dvd (2 ^ 32 :: nat)" by simp
  ultimately show ?thesis
    by (metis dvd_add dvd_diff_nat mod_eq_0_iff_dvd)
qed

lemma aligned4_sep4: "aligned4 a \<Longrightarrow> aligned4 b \<Longrightarrow> a \<noteq> b \<Longrightarrow> sep4 a b"
proof -
  assume al: "aligned4 a" "aligned4 b" and ne: "a \<noteq> b"
  have "unat (b - a) \<noteq> 0" "unat (a - b) \<noteq> 0" using ne by (simp_all add: unat_eq_0)
  moreover have "unat (b - a) mod 4 = 0" "unat (a - b) mod 4 = 0"
    using al by (simp_all add: aligned4_diff)
  ultimately show ?thesis unfolding sep4_def by presburger
qed

section \<open>The outcome monad\<close>

text \<open>
  A kernel operation takes a state and ends in one of four ways: it returns a value, it calls
  \<open>panic\<close>, it waits for something that never happens in the run considered, or it leaves the defined
  behaviour of C (a null dereference, an index outside an array). A partially applied constructor is
  itself a program: \<open>Ret x\<close> returns \<open>x\<close>, \<open>Panic e\<close> is a call of \<open>panic(e)\<close>.
\<close>

datatype ('a, 's) outcome =
    Ret 'a 's
  | Panic string 's
  | Blocked 's
  | Fault string 's

type_synonym ('a, 's) prog = "'s \<Rightarrow> ('a, 's) outcome"

definition bindK :: "('a, 's) prog \<Rightarrow> ('a \<Rightarrow> ('b, 's) prog) \<Rightarrow> ('b, 's) prog" where
  "bindK m f = (\<lambda>s. case m s of Ret x s' \<Rightarrow> f x s' | Panic e s' \<Rightarrow> Panic e s'
     | Blocked s' \<Rightarrow> Blocked s' | Fault e s' \<Rightarrow> Fault e s')"

definition thenK :: "(unit, 's) prog \<Rightarrow> ('b, 's) prog \<Rightarrow> ('b, 's) prog" where
  "thenK m n = bindK m (\<lambda>_. n)"

definition whenK :: "bool \<Rightarrow> (unit, 's) prog \<Rightarrow> (unit, 's) prog" where
  "whenK b m = (if b then m else Ret ())"

definition ignoreK :: "('a, 's) prog \<Rightarrow> (unit, 's) prog" where
  "ignoreK m = bindK m (\<lambda>_. Ret ())"

fun seqK :: "(unit, 's) prog list \<Rightarrow> (unit, 's) prog" where
  "seqK [] = Ret ()"
| "seqK (m # ms) = thenK m (seqK ms)"

fun forK :: "'i list \<Rightarrow> ('i \<Rightarrow> (unit, 's) prog) \<Rightarrow> (unit, 's) prog" where
  "forK [] body = Ret ()"
| "forK (i # is) body = thenK (body i) (forK is body)"

fun repeatK :: "nat \<Rightarrow> ('a, 's) prog \<Rightarrow> ('a list, 's) prog" where
  "repeatK 0 m = Ret []"
| "repeatK (Suc n) m = bindK m (\<lambda>x. bindK (repeatK n m) (\<lambda>xs. Ret (x # xs)))"

lemma bindK_simps:
  "m s = Ret x s' \<Longrightarrow> bindK m f s = f x s'"
  "m s = Panic e s' \<Longrightarrow> bindK m f s = Panic e s'"
  "m s = Blocked s' \<Longrightarrow> bindK m f s = Blocked s'"
  "m s = Fault e s' \<Longrightarrow> bindK m f s = Fault e s'"
  by (simp_all add: bindK_def)

lemma thenK_simps:
  "m s = Ret x s' \<Longrightarrow> thenK m n s = n s'"
  "m s = Panic e s' \<Longrightarrow> thenK m n s = Panic e s'"
  "m s = Blocked s' \<Longrightarrow> thenK m n s = Blocked s'"
  "m s = Fault e s' \<Longrightarrow> thenK m n s = Fault e s'"
  by (simp_all add: thenK_def bindK_simps)

lemma bindK_eval [kM_simps]:
  "bindK m f s = (case m s of Ret x s' \<Rightarrow> f x s' | Panic e s' \<Rightarrow> Panic e s'
     | Blocked s' \<Rightarrow> Blocked s' | Fault e s' \<Rightarrow> Fault e s')"
  by (simp add: bindK_def)

lemma thenK_eval [kM_simps]:
  "thenK m n s = (case m s of Ret x s' \<Rightarrow> n s' | Panic e s' \<Rightarrow> Panic e s'
     | Blocked s' \<Rightarrow> Blocked s' | Fault e s' \<Rightarrow> Fault e s')"
  by (simp add: bindK_def thenK_def)

lemma whenK_simps [simp]: "whenK True m = m" "whenK False m = Ret ()"
  by (simp_all add: whenK_def)

lemma ignoreK_simps [kM_simps]:
  "m s = Ret x s' \<Longrightarrow> ignoreK m s = Ret () s'"
  "m s = Panic e s' \<Longrightarrow> ignoreK m s = Panic e s'"
  "m s = Blocked s' \<Longrightarrow> ignoreK m s = Blocked s'"
  by (simp_all add: ignoreK_def bindK_simps)

lemma bindK_eq_Ret: "bindK m f s = Ret y t \<longleftrightarrow> (\<exists>x s'. m s = Ret x s' \<and> f x s' = Ret y t)"
  by (auto simp: bindK_def split: outcome.splits)

lemma thenK_eq_Ret: "thenK m n s = Ret y t \<longleftrightarrow> (\<exists>s'. m s = Ret () s' \<and> n s' = Ret y t)"
  by (auto simp: thenK_def bindK_eq_Ret)

lemma whenK_eq_Ret: "whenK b m s = Ret x t \<longleftrightarrow> (if b then m s = Ret x t else t = s)"
  by (auto simp: whenK_def)

lemma ignoreK_eq_Ret: "ignoreK m s = Ret y t \<longleftrightarrow> (\<exists>x. m s = Ret x t)"
  by (auto simp: ignoreK_def bindK_eq_Ret)

lemmas kM_eq_Ret = bindK_eq_Ret thenK_eq_Ret whenK_eq_Ret ignoreK_eq_Ret

lemma bindK_assoc: "bindK (bindK m f) g = bindK m (\<lambda>x. bindK (f x) g)"
  by (rule ext) (auto simp: bindK_def split: outcome.splits)

lemma bindK_ret [simp]: "bindK (Ret x) f = f x" "bindK m Ret = m"
  by (auto simp: bindK_def fun_eq_iff split: outcome.splits)

lemma forK_append: "forK (xs @ ys) body = thenK (forK xs body) (forK ys body)"
  by (induction xs) (auto simp: thenK_def bindK_assoc)

section \<open>Weakest preconditions\<close>

text \<open>
  \<open>wp m Q s\<close>: started in \<open>s\<close>, \<open>m\<close> returns, and what it returns satisfies \<open>Q\<close>. A fact of this form
  is total: the operation neither panics, nor faults, nor waits for ever.
\<close>

definition wp :: "('a, 's) prog \<Rightarrow> ('a \<Rightarrow> 's \<Rightarrow> bool) \<Rightarrow> 's \<Rightarrow> bool" where
  "wp m Q s \<longleftrightarrow> (case m s of Ret x s' \<Rightarrow> Q x s' | _ \<Rightarrow> False)"

lemma wpI: "m s = Ret x s' \<Longrightarrow> Q x s' \<Longrightarrow> wp m Q s"
  by (simp add: wp_def)

lemma wpE: "wp m Q s \<Longrightarrow> (\<And>x s'. m s = Ret x s' \<Longrightarrow> Q x s' \<Longrightarrow> R) \<Longrightarrow> R"
  by (auto simp: wp_def split: outcome.splits)

lemma wp_iff: "wp m Q s \<longleftrightarrow> (\<exists>x s'. m s = Ret x s' \<and> Q x s')"
  by (auto simp: wp_def split: outcome.splits)

lemma wp_mono: "wp m Q s \<Longrightarrow> (\<And>x s'. Q x s' \<Longrightarrow> R x s') \<Longrightarrow> wp m R s"
  by (auto simp: wp_def split: outcome.splits)

lemma wp_Ret [simp]: "wp (Ret x) Q = Q x"
  by (simp add: wp_def fun_eq_iff)

lemma wp_Panic [simp]: "\<not> wp (Panic e) Q s"
  by (simp add: wp_def)

lemma wp_Fault [simp]: "\<not> wp (Fault e) Q s"
  by (simp add: wp_def)

lemma wp_Blocked [simp]: "\<not> wp Blocked Q s"
  by (simp add: wp_def)

lemma wp_bindK [simp]: "wp (bindK m f) Q s \<longleftrightarrow> wp m (\<lambda>x. wp (f x) Q) s"
  by (auto simp: wp_def bindK_def split: outcome.splits)

lemma wp_thenK [simp]: "wp (thenK m n) Q s \<longleftrightarrow> wp m (\<lambda>_. wp n Q) s"
  by (simp add: thenK_def)

lemma wp_whenK [simp]: "wp (whenK b m) Q s \<longleftrightarrow> (if b then wp m Q s else Q () s)"
  by (simp add: whenK_def)

lemma wp_ignoreK [simp]: "wp (ignoreK m) Q s \<longleftrightarrow> wp m (\<lambda>_. Q ()) s"
  by (simp add: ignoreK_def)

lemma wp_conj: "wp m Q s \<Longrightarrow> wp m R s \<Longrightarrow> wp m (\<lambda>x s'. Q x s' \<and> R x s') s"
  by (auto simp: wp_def split: outcome.splits)

lemma wp_bindI: "wp m P s \<Longrightarrow> (\<And>x s'. P x s' \<Longrightarrow> wp (f x) Q s') \<Longrightarrow> wp (bindK m f) Q s"
  unfolding wp_bindK by (rule wp_mono)

lemma wp_thenI: "wp m P s \<Longrightarrow> (\<And>x s'. P x s' \<Longrightarrow> wp n Q s') \<Longrightarrow> wp (thenK m n) Q s"
  unfolding wp_thenK by (rule wp_mono)

lemma wp_forK_inv:
  assumes "I [] s"
    and "\<And>xs i ys t. is = xs @ i # ys \<Longrightarrow> I xs t \<Longrightarrow> wp (body i) (\<lambda>_. I (xs @ [i])) t"
  shows "wp (forK is body) (\<lambda>_. I is) s"
proof -
  have "wp (forK ys body) (\<lambda>_. I is) t" if "is = xs @ ys" "I xs t" for xs ys t
    using that
  proof (induction ys arbitrary: xs t)
    case Nil
    then show ?case by simp
  next
    case (Cons i ys)
    from assms(2)[OF Cons.prems] have "wp (body i) (\<lambda>_. I (xs @ [i])) t" .
    moreover have "wp (forK ys body) (\<lambda>_. I is) t'" if "I (xs @ [i]) t'" for t'
      using Cons.IH[of "xs @ [i]" t'] Cons.prems(1) that by simp
    ultimately show ?case by (auto elim: wp_mono)
  qed
  from this[of "[]" "is" s] assms(1) show ?thesis by simp
qed

section \<open>Generic lemmas\<close>

text \<open>Position of the first list element with a property; the scan loops of the kernel tables.\<close>

fun first_idx :: "('a \<Rightarrow> bool) \<Rightarrow> 'a list \<Rightarrow> nat option" where
  "first_idx P [] = None"
| "first_idx P (x # xs) = (if P x then Some 0 else map_option Suc (first_idx P xs))"

lemma first_idx_Some:
  "first_idx P xs = Some i \<longleftrightarrow> i < length xs \<and> P (xs ! i) \<and> (\<forall>j<i. \<not> P (xs ! j))"
proof (induction xs arbitrary: i)
  case Nil
  then show ?case by simp
next
  case (Cons x xs)
  show ?case
  proof (cases "P x")
    case True
    then show ?thesis by (cases i) auto
  next
    case False
    then show ?thesis
    proof (cases i)
      case 0
      with False show ?thesis by auto
    next
      case (Suc k)
      have "first_idx P (x # xs) = Some i \<longleftrightarrow> first_idx P xs = Some k"
        using False Suc by (auto split: option.splits)
      also have "\<dots> \<longleftrightarrow> k < length xs \<and> P (xs ! k) \<and> (\<forall>j<k. \<not> P (xs ! j))" by (rule Cons.IH)
      also have "\<dots> \<longleftrightarrow> i < length (x # xs) \<and> P ((x # xs) ! i) \<and> (\<forall>j<i. \<not> P ((x # xs) ! j))"
        using False Suc by (auto simp: less_Suc_eq_0_disj)
      finally show ?thesis .
    qed
  qed
qed

lemma first_idx_None: "first_idx P xs = None \<longleftrightarrow> (\<forall>x\<in>set xs. \<not> P x)"
  by (induction xs) auto

lemma first_idx_bound: "first_idx P xs = Some i \<Longrightarrow> i < length xs"
  by (simp add: first_idx_Some)

lemma unat_add_small: "unat (a::uint) + n < 2 ^ 32 \<Longrightarrow> unat (a + of_nat n) = unat a + n"
  by (simp add: unat_word_ariths unat_of_nat)

lemma set_list_update_in: "i < length xs \<Longrightarrow> x \<in> set (xs[i := x])"
  by (rule set_update_memI)

lemma unat_uint_less: "unat (x :: uint) < 4294967296"
  using unsigned_less[of x, where ?'a = nat] by simp

lemma unat_uint_le: "unat (x :: uint) \<le> 4294967296"
  using unat_uint_less[of x] by simp

end
