(* ===== verification/Cstring.thy ===== *)
theory Cstring
  imports Prelude
begin

text \<open>
  The kernel's \<open>string.c\<close> and the user library's string routines (\<open>ulib.c\<close>) on byte memory, loop by
  loop and with the pointer arithmetic of a 32-bit machine, and the region and string functions they
  compute. Every function takes the memory and returns the memory it leaves behind.
\<close>

section \<open>Instructions the routines use (\<open>x86.h\<close>)\<close>

fun stosb :: "memory \<Rightarrow> addr \<Rightarrow> uint \<Rightarrow> nat \<Rightarrow> memory" where
  "stosb m a data 0 = m"
| "stosb m a data (Suc cnt) = stosb (m(a := ucast data)) (a + 1) data cnt"

fun stosl :: "memory \<Rightarrow> addr \<Rightarrow> uint \<Rightarrow> nat \<Rightarrow> memory" where
  "stosl m a data 0 = m"
| "stosl m a data (Suc cnt) = stosl (store32 m a data) (a + 4) data cnt"

section \<open>The kernel's string routines (\<open>string.c\<close>)\<close>

definition memset :: "memory \<Rightarrow> addr \<Rightarrow> uint \<Rightarrow> uint \<Rightarrow> memory" where
  "memset m dst c n =
     (if unat dst mod 4 = 0 \<and> unat n mod 4 = 0 then
        (let c = c AND 0xFF in
         stosl m dst (push_bit 24 c OR push_bit 16 c OR push_bit 8 c OR c) (unat n div 4))
      else stosb m dst c (unat n))"

fun memcmp_loop :: "memory \<Rightarrow> addr \<Rightarrow> addr \<Rightarrow> nat \<Rightarrow> int" where
  "memcmp_loop m s1 s2 0 = 0"
| "memcmp_loop m s1 s2 (Suc n) =
     (if m s1 \<noteq> m s2 then uint (m s1) - uint (m s2) else memcmp_loop m (s1 + 1) (s2 + 1) n)"

definition memcmp :: "memory \<Rightarrow> addr \<Rightarrow> addr \<Rightarrow> uint \<Rightarrow> int" where
  "memcmp m v1 v2 n = memcmp_loop m v1 v2 (unat n)"

fun copy_down :: "memory \<Rightarrow> addr \<Rightarrow> addr \<Rightarrow> nat \<Rightarrow> memory" where
  "copy_down m d s 0 = m"
| "copy_down m d s (Suc n) = copy_down (m(d - 1 := m (s - 1))) (d - 1) (s - 1) n"

fun copy_up :: "memory \<Rightarrow> addr \<Rightarrow> addr \<Rightarrow> nat \<Rightarrow> memory" where
  "copy_up m d s 0 = m"
| "copy_up m d s (Suc n) = copy_up (m(d := m s)) (d + 1) (s + 1) n"

definition memmove :: "memory \<Rightarrow> addr \<Rightarrow> addr \<Rightarrow> uint \<Rightarrow> memory" where
  "memmove m dst src n =
     (if src < dst \<and> dst < src + n then copy_down m (dst + n) (src + n) (unat n)
      else copy_up m dst src (unat n))"

definition memcpy :: "memory \<Rightarrow> addr \<Rightarrow> addr \<Rightarrow> uint \<Rightarrow> memory" where
  "memcpy m dst src n = memmove m dst src n"

fun strncmp_loop :: "memory \<Rightarrow> addr \<Rightarrow> addr \<Rightarrow> nat \<Rightarrow> int" where
  "strncmp_loop m p q 0 = 0"
| "strncmp_loop m p q (Suc n) =
     (if m p \<noteq> 0 \<and> m p = m q then strncmp_loop m (p + 1) (q + 1) n
      else uint (m p) - uint (m q))"

definition strncmp :: "memory \<Rightarrow> addr \<Rightarrow> addr \<Rightarrow> uint \<Rightarrow> int" where
  "strncmp m p q n = strncmp_loop m p q (unat n)"

fun strncpy_pad :: "memory \<Rightarrow> addr \<Rightarrow> nat \<Rightarrow> memory" where
  "strncpy_pad m s 0 = m"
| "strncpy_pad m s (Suc n) = strncpy_pad (m(s := 0)) (s + 1) n"

fun strncpy_loop :: "memory \<Rightarrow> addr \<Rightarrow> addr \<Rightarrow> nat \<Rightarrow> memory" where
  "strncpy_loop m s t 0 = m"
| "strncpy_loop m s t (Suc n) =
     (if m t \<noteq> 0 then strncpy_loop (m(s := m t)) (s + 1) (t + 1) n
      else strncpy_pad (m(s := m t)) (s + 1) n)"

definition strncpy :: "memory \<Rightarrow> addr \<Rightarrow> addr \<Rightarrow> int \<Rightarrow> memory" where
  "strncpy m s t n = strncpy_loop m s t (nat n)"

fun safestrcpy_loop :: "memory \<Rightarrow> addr \<Rightarrow> addr \<Rightarrow> nat \<Rightarrow> memory" where
  "safestrcpy_loop m s t 0 = m(s := 0)"
| "safestrcpy_loop m s t (Suc n) =
     (if m t \<noteq> 0 then safestrcpy_loop (m(s := m t)) (s + 1) (t + 1) n
      else m(s := m t, s + 1 := 0))"

definition safestrcpy :: "memory \<Rightarrow> addr \<Rightarrow> addr \<Rightarrow> int \<Rightarrow> memory" where
  "safestrcpy m s t n = (if n \<le> 0 then m else safestrcpy_loop m s t (nat (n - 1)))"

text \<open>The scan of \<open>strlen\<close> has no bound: without a NUL in memory it does not return.\<close>

partial_function (option) strlen_from :: "memory \<Rightarrow> addr \<Rightarrow> nat \<Rightarrow> nat option" where
  "strlen_from m s n = (if m (s + of_nat n) = 0 then Some n else strlen_from m s (Suc n))"

definition strlen :: "memory \<Rightarrow> addr \<Rightarrow> nat option" where
  "strlen m s = strlen_from m s 0"

section \<open>The user library (\<open>ulib.c\<close>)\<close>

partial_function (option) strcpy :: "memory \<Rightarrow> addr \<Rightarrow> addr \<Rightarrow> memory option" where
  "strcpy m s t =
     (let m' = m(s := m t) in if m t = 0 then Some m' else strcpy m' (s + 1) (t + 1))"

partial_function (option) strcmp :: "memory \<Rightarrow> addr \<Rightarrow> addr \<Rightarrow> int option" where
  "strcmp m p q =
     (if m p \<noteq> 0 \<and> m p = m q then strcmp m (p + 1) (q + 1)
      else Some (uint (m p) - uint (m q)))"

partial_function (option) strchr :: "memory \<Rightarrow> addr \<Rightarrow> byte \<Rightarrow> addr option option" where
  "strchr m s c =
     (if m s = 0 then Some None else if m s = c then Some (Some s) else strchr m (s + 1) c)"

partial_function (option) atoi_loop :: "memory \<Rightarrow> addr \<Rightarrow> uint \<Rightarrow> uint option" where
  "atoi_loop m s n =
     (if 48 \<le> m s \<and> m s \<le> 57 then atoi_loop m (s + 1) (n * 10 + ucast (m s) - 48)
      else Some n)"

definition atoi :: "memory \<Rightarrow> addr \<Rightarrow> uint option" where
  "atoi m s = atoi_loop m s 0"

definition ulib_memmove :: "memory \<Rightarrow> addr \<Rightarrow> addr \<Rightarrow> int \<Rightarrow> memory" where
  "ulib_memmove m vdst vsrc n = copy_up m vdst vsrc (nat n)"

definition ulib_memset :: "memory \<Rightarrow> addr \<Rightarrow> uint \<Rightarrow> uint \<Rightarrow> memory" where
  "ulib_memset m dst c n = stosb m dst c (unat n)"

section \<open>The regions and strings they compute\<close>

fun store_bytes :: "memory \<Rightarrow> addr \<Rightarrow> byte list \<Rightarrow> memory" where
  "store_bytes m a [] = m"
| "store_bytes m a (b # bs) = store_bytes (m(a := b)) (a + 1) bs"

definition fill :: "memory \<Rightarrow> addr \<Rightarrow> byte \<Rightarrow> nat \<Rightarrow> memory" where
  "fill m a b n = (\<lambda>x. if unat (x - a) < n then b else m x)"

definition copied :: "memory \<Rightarrow> addr \<Rightarrow> addr \<Rightarrow> nat \<Rightarrow> memory" where
  "copied m d s n = (\<lambda>x. if unat (x - d) < n then m (s + (x - d)) else m x)"

fun ctake :: "memory \<Rightarrow> addr \<Rightarrow> nat \<Rightarrow> byte list" where
  "ctake m p 0 = []"
| "ctake m p (Suc n) = (if m p = 0 then [] else m p # ctake m (p + 1) n)"

fun bytes_at :: "memory \<Rightarrow> addr \<Rightarrow> nat \<Rightarrow> byte list" where
  "bytes_at m p 0 = []"
| "bytes_at m p (Suc n) = m p # bytes_at m (p + 1) n"

text \<open>Stepping the start of a region by one.\<close>

lemma region_step:
  fixes d :: uint
  assumes "n < 2 ^ 32"
  shows "unat d < Suc n \<longleftrightarrow> d = 0 \<or> unat (d - 1) < n"
proof (cases "d = 0")
  case True
  then show ?thesis by simp
next
  case False
  then have "unat (d - 1) = unat d - 1" by (simp add: unat_minus_one)
  moreover have "0 < unat d" using False by (simp add: unat_gt_0)
  ultimately show ?thesis using False by auto
qed

lemma region_split:
  fixes d :: uint
  assumes "i + j \<le> 2 ^ 32"
  shows "unat d < i + j \<longleftrightarrow> unat d < i \<or> unat (d - of_nat i) < j"
proof (cases "i = 2 ^ 32")
  case True
  then have "unat d < i" using unat_uint_less[of d] by simp
  then show ?thesis by simp
next
  case False
  with assms have ui: "unat (of_nat i :: uint) = i" by (simp add: unat_of_nat)
  show ?thesis
  proof (cases "unat d < i")
    case True
    then show ?thesis by simp
  next
    case ge: False
    then have "unat (d - of_nat i) = unat d - i"
      by (subst unat_sub) (simp_all add: word_le_nat_alt ui)
    then show ?thesis using ge by auto
  qed
qed

lemma fill_0 [simp]: "fill m a b 0 = m"
  by (simp add: fill_def)

lemma fill_fill:
  assumes "i + j \<le> 2 ^ 32"
  shows "fill (fill m a b i) (a + of_nat i) b j = fill m a b (i + j)"
proof (rule ext)
  fix x
  have "x - (a + of_nat i) = x - a - of_nat i" by simp
  then show "fill (fill m a b i) (a + of_nat i) b j x = fill m a b (i + j) x"
    using region_split[OF assms, of "x - a"] by (simp only: fill_def) auto
qed

lemma stosb_fill: "n \<le> 2 ^ 32 \<Longrightarrow> stosb m a c n = fill m a (ucast c) n"
proof (induction n arbitrary: m a)
  case 0
  then show ?case by simp
next
  case (Suc n)
  have one: "m(a := ucast c) = fill m a (ucast c) 1"
    by (auto simp: fill_def fun_eq_iff unat_eq_0)
  show ?case using Suc fill_fill[of 1 n m a "ucast c"] by (simp add: one)
qed

lemma store32_fill:
  assumes "ucast v = b" "ucast (drop_bit 8 v) = b" "ucast (drop_bit 16 v) = b" "ucast (drop_bit 24 v) = b"
  shows "store32 m a v = fill m a b 4"
proof (rule ext)
  fix x
  have "unat (x - a) < 4 \<longleftrightarrow> x = a \<or> x = a + 1 \<or> x = a + 2 \<or> x = a + 3"
  proof -
    have "unat (x - a) < 4 \<longleftrightarrow> x - a = 0 \<or> x - a = 1 \<or> x - a = 2 \<or> x - a = 3"
      by (simp only: word_unat_eq_iff) (simp, arith)
    then show ?thesis by (auto simp: diff_eq_eq add.commute)
  qed
  then show "store32 m a v x = fill m a b 4 x"
    using assms by (auto simp: store32_def fill_def)
qed

lemma stosl_fill:
  assumes "\<And>m a. store32 m a v = fill m a b 4" and "4 * k \<le> 2 ^ 32"
  shows "stosl m a v k = fill m a b (4 * k)"
  using assms(2)
proof (induction k arbitrary: m a)
  case 0
  then show ?case by simp
next
  case (Suc k)
  then show ?case using fill_fill[of 4 "4 * k" m a b] by (simp add: assms(1))
qed

lemma splat_bytes:
  fixes c :: uint
  defines "v \<equiv> push_bit 24 (c AND 0xFF) OR push_bit 16 (c AND 0xFF) OR push_bit 8 (c AND 0xFF) OR (c AND 0xFF)"
  shows "(ucast v :: byte) = ucast c" "(ucast (drop_bit 8 v) :: byte) = ucast c"
    "(ucast (drop_bit 16 v) :: byte) = ucast c" "(ucast (drop_bit 24 v) :: byte) = ucast c"
proof -
  have m: "(0xFF :: uint) = mask 8" by (simp add: mask_eq_exp_minus_1)
  show "(ucast v :: byte) = ucast c" "(ucast (drop_bit 8 v) :: byte) = ucast c"
    "(ucast (drop_bit 16 v) :: byte) = ucast c" "(ucast (drop_bit 24 v) :: byte) = ucast c"
    unfolding v_def m by (rule bit_word_eqI; auto simp: bit_simps)+
qed

lemma memset_eq_fill: "memset m dst c n = fill m dst (ucast c) (unat n)"
proof (cases "unat dst mod 4 = 0 \<and> unat n mod 4 = 0")
  case True
  have le: "unat n \<le> 2 ^ 32" using unat_uint_less[of n] by simp
  have st: "\<And>m a. store32 m a (push_bit 24 (c AND 0xFF) OR push_bit 16 (c AND 0xFF) OR
      push_bit 8 (c AND 0xFF) OR (c AND 0xFF)) = fill m a (ucast c) 4"
    by (rule store32_fill; rule splat_bytes)
  have "4 * (unat n div 4) = unat n" using True by presburger
  then show ?thesis
    using True stosl_fill[OF st, of "unat n div 4" m dst] le by (simp add: memset_def Let_def)
next
  case False
  then show ?thesis
    using stosb_fill[of "unat n" m dst c] unat_uint_less[of n] by (auto simp: memset_def)
qed

subsection \<open>Copying\<close>

lemma copied_0 [simp]: "copied m d s 0 = m"
  by (simp add: copied_def)

lemma copy_up_copied:
  assumes "n \<le> 2 ^ 32" and "\<And>i. i < n \<Longrightarrow> i \<le> unat (s + of_nat i - d)"
  shows "copy_up m d s n = copied m d s n"
  using assms
proof (induction n arbitrary: m d s)
  case 0
  then show ?case by simp
next
  case (Suc n)
  have "copied (m(d := m s)) (d + 1) (s + 1) n = copied m d s (Suc n)"
  proof (rule ext)
    fix x
    have eq: "x - (d + 1) = (x - d) - 1" "s + 1 + (x - d - 1) = s + (x - d)" by simp_all
    have out: "s + (x - d) \<noteq> d" if "x \<noteq> d" "unat (x - d) < Suc n"
    proof
      assume "s + (x - d) = d"
      then have "unat (x - d) \<le> 0" using Suc.prems(2)[OF that(2)] by simp
      then show False using that(1) by (simp add: unat_eq_0)
    qed
    show "copied (m(d := m s)) (d + 1) (s + 1) n x = copied m d s (Suc n) x"
    proof (cases "x = d")
      case True
      then show ?thesis using Suc.prems(1) by (simp add: copied_def)
    next
      case False
      then show ?thesis
        using region_step[of n "x - d"] Suc.prems(1) out by (simp only: copied_def eq) auto
    qed
  qed
  moreover have "i \<le> unat (s + 1 + of_nat i - (d + 1))" if "i < n" for i
    using Suc.prems(2)[of i] that by (simp add: algebra_simps)
  then have "copy_up (m(d := m s)) (d + 1) (s + 1) n = copied (m(d := m s)) (d + 1) (s + 1) n"
    using Suc.prems(1) by (intro Suc.IH) auto
  ultimately show ?case by simp
qed

lemma copy_down_copied:
  assumes "n < 2 ^ 32" and "\<And>i j. i < j \<Longrightarrow> j < n \<Longrightarrow> s + of_nat i \<noteq> d + of_nat j"
  shows "copy_down m (d + of_nat n) (s + of_nat n) n = copied m d s n"
  using assms
proof (induction n arbitrary: m)
  case 0
  then show ?case by simp
next
  case (Suc n)
  let ?m = "m(d + of_nat n := m (s + of_nat n))"
  have n: "unat (of_nat n :: uint) = n" using Suc.prems(1) by (simp add: unat_of_nat)
  have "copied ?m d s n = copied m d s (Suc n)"
  proof (rule ext)
    fix x
    have "s + (x - d) \<noteq> d + of_nat n" if "unat (x - d) < n"
      using Suc.prems(2)[of "unat (x - d)" n] that by simp
    moreover have "x = d + of_nat n \<longleftrightarrow> unat (x - d) = n"
      using n by auto
    moreover have "s + (x - d) = s + of_nat n" if "unat (x - d) = n" using that by auto
    ultimately show "copied ?m d s n x = copied m d s (Suc n) x"
      by (auto simp: copied_def less_Suc_eq)
  qed
  moreover have "copy_down ?m (d + of_nat n) (s + of_nat n) n = copied ?m d s n"
    by (rule Suc.IH) (use Suc.prems in auto)
  ultimately show ?case by (simp add: algebra_simps)
qed

lemma no_clobber_up:
  fixes s d :: addr
  assumes "unat s + n < 2 ^ 32" and "d \<le> s \<or> unat s + n \<le> unat d" and "i < n"
  shows "i \<le> unat (s + of_nat i - d)"
proof -
  have u: "unat (s + of_nat i) = unat s + i" using assms by (intro unat_add_small) simp
  from assms(2) show ?thesis
  proof
    assume "d \<le> s"
    then have le: "unat d \<le> unat s" by (simp add: word_le_nat_alt)
    then have "d \<le> s + of_nat i" using u by (simp add: word_le_nat_alt)
    then show ?thesis using u le by (simp add: unat_sub)
  next
    assume le: "unat s + n \<le> unat d"
    then have "unat (s + of_nat i - d) = 2 ^ 32 + (unat s + i) - unat d"
      using u assms(3) by (simp add: unat_sub_if')
    then show ?thesis using unat_uint_less[of d] by simp
  qed
qed

lemma no_clobber_down:
  fixes s d :: addr
  assumes "s < d" and "unat d + n \<le> 2 ^ 32" and "i < j" and "j < n"
  shows "s + of_nat i \<noteq> d + of_nat j"
proof
  assume eq: "s + of_nat i = d + of_nat j"
  have "unat s < unat d" using assms(1) by (simp add: word_less_nat_alt)
  moreover from this have "unat (s + of_nat i) = unat s + i" using assms by (intro unat_add_small) simp
  moreover have "unat (d + of_nat j) = unat d + j" using assms by (intro unat_add_small) simp
  ultimately show False using eq assms(3) by simp
qed

text \<open>
  C28: \<open>memmove\<close> copies the source region as it was before the call, also when the two regions
  overlap, and leaves every byte outside the destination alone. The hypotheses say that neither
  region wraps around the end of the address space.
\<close>

theorem memmove_correct:
  assumes "unat src + unat n < 2 ^ 32" and "unat dst + unat n \<le> 2 ^ 32"
  shows "memmove m dst src n =
    (\<lambda>x. if unat (x - dst) < unat n then m (src + (x - dst)) else m x)"
proof -
  have sum: "unat (src + n) = unat src + unat n" using unat_add_small[OF assms(1)] by simp
  have "memmove m dst src n = copied m dst src (unat n)"
  proof (cases "src < dst \<and> dst < src + n")
    case True
    then have "s < dst" if "s = src" for s using that by simp
    then have "copy_down m (dst + of_nat (unat n)) (src + of_nat (unat n)) (unat n)
        = copied m dst src (unat n)"
      using assms unat_uint_less[of n] no_clobber_down[of src dst "unat n"] by (intro copy_down_copied) auto
    then show ?thesis using True by (simp add: memmove_def)
  next
    case False
    then have "dst \<le> src \<or> unat src + unat n \<le> unat dst"
      using sum by (auto simp: word_less_nat_alt word_le_nat_alt)
    then have "copy_up m dst src (unat n) = copied m dst src (unat n)"
      using assms unat_uint_le[of n] no_clobber_up[of src "unat n" dst] by (intro copy_up_copied) auto
    then show ?thesis using False by (auto simp: memmove_def)
  qed
  then show ?thesis by (simp add: copied_def)
qed

theorem memmove_correct_witness:
  "memmove (\<lambda>a. ucast a) 102 100 4 105 = 103 \<and> memmove (\<lambda>a. ucast a) 102 100 4 101 = 101"
proof -
  have "memmove (\<lambda>a. ucast a) 102 100 4 =
    (\<lambda>x. if unat (x - 102) < unat (4 :: uint) then ucast (100 + (x - 102)) else ucast x)"
    by (rule memmove_correct) simp_all
  then show ?thesis by (simp add: unat_sub_if')
qed

subsection \<open>Comparing and copying strings\<close>

lemma ctake_cong: "(\<And>i. i < n \<Longrightarrow> m (p + of_nat i) = m' (p + of_nat i)) \<Longrightarrow> ctake m p n = ctake m' p n"
proof (induction n arbitrary: p)
  case 0
  then show ?case by simp
next
  case (Suc n)
  have "ctake m (p + 1) n = ctake m' (p + 1) n"
    by (rule Suc.IH) (use Suc.prems[of "Suc _"] in \<open>simp add: algebra_simps\<close>)
  then show ?case using Suc.prems[of 0] by simp
qed

lemma length_ctake: "length (ctake m p n) \<le> n"
  by (induction n arbitrary: p) auto

lemma ctake_numeral [simp]:
  "ctake m p (numeral k) = (if m p = 0 then [] else m p # ctake m (p + 1) (pred_numeral k))"
  by (simp add: numeral_eq_Suc)

lemma strncmp_loop_zero: "strncmp_loop m p q n = 0 \<longleftrightarrow> ctake m p n = ctake m q n"
  by (induction n arbitrary: p q) (auto simp: word_uint_eq_iff)

lemma memcmp_loop_zero:
  "memcmp_loop m p q n = 0 \<longleftrightarrow> bytes_at m p n = bytes_at m q n"
  by (induction n arbitrary: p q) (auto simp: word_uint_eq_iff)

lemma strlen_from_Some:
  assumes "m (s + of_nat k) = 0" "\<And>i. i < k \<Longrightarrow> m (s + of_nat i) \<noteq> 0" "j \<le> k"
  shows "strlen_from m s j = Some k"
  using assms(3)
proof (induction "k - j" arbitrary: j)
  case 0
  then show ?case using assms(1) by (simp add: strlen_from.simps)
next
  case (Suc d)
  then have "m (s + of_nat j) \<noteq> 0" using assms(2)[of j] by simp
  then show ?case using Suc.hyps(1)[of "Suc j"] Suc.hyps(2) by (simp add: strlen_from.simps)
qed

lemma strlen_Some:
  "m (s + of_nat k) = 0 \<Longrightarrow> (\<And>i. i < k \<Longrightarrow> m (s + of_nat i) \<noteq> 0) \<Longrightarrow> strlen m s = Some k"
  unfolding strlen_def by (rule strlen_from_Some) auto

lemma safestrcpy_loop_frame:
  "n + 1 < 2 ^ 32 \<Longrightarrow> n < unat (x - s) \<Longrightarrow> safestrcpy_loop m s t n x = m x"
proof (induction n arbitrary: m s t)
  case 0
  then show ?case by auto
next
  case (Suc n)
  have e: "x - (s + 1) = x - s - 1" by simp
  have "unat (x - s - 1) = unat (x - s) - 1"
    using Suc.prems(2) by (subst unat_minus_one) auto
  then have "n < unat (x - (s + 1))" using Suc.prems(2) by (simp only: e)
  moreover from this have "x \<noteq> s + 1" by auto
  moreover have "x \<noteq> s" using Suc.prems(2) by auto
  ultimately show ?case using Suc.prems(1) by (simp add: Suc.IH)
qed

lemma safestrcpy_loop_ctake:
  assumes "n + 1 < 2 ^ 32" and "\<And>i j. i \<le> n \<Longrightarrow> j \<le> n \<Longrightarrow> s + of_nat i \<noteq> t + of_nat j"
  shows "ctake (safestrcpy_loop m s t n) s (Suc n) = ctake m t n"
  using assms
proof (induction n arbitrary: m s t)
  case 0
  then show ?case by simp
next
  case (Suc n)
  let ?m = "m(s := m t)" and ?r = "safestrcpy_loop m s t (Suc n)"
  have far: "n < unat (s - (s + 1))" using Suc.prems(1) by (simp add: unsigned_minus_1_eq_mask mask_eq_exp_minus_1)
  have "s \<noteq> t + 1 + of_nat i" if "i < n" for i
    using Suc.prems(2)[of 0 "Suc i"] that by (simp add: algebra_simps)
  then have src: "ctake ?m (t + 1) n = ctake m (t + 1) n" by (intro ctake_cong) auto
  have IH: "ctake (safestrcpy_loop ?m (s + 1) (t + 1) n) (s + 1) (Suc n) = ctake ?m (t + 1) n"
    by (rule Suc.IH) (use Suc.prems(1) Suc.prems(2)[of "Suc _" "Suc _"] in \<open>auto simp: algebra_simps\<close>)
  show ?case
  proof (cases "m t = 0")
    case True
    then show ?thesis by simp
  next
    case False
    have "?r s = m t"
      using False far Suc.prems(1) by (simp add: safestrcpy_loop_frame)
    then show ?thesis using False IH src by simp
  qed
qed

text \<open>
  \<open>safestrcpy\<close> into a buffer of \<open>n > 0\<close> bytes disjoint from the source leaves a NUL-terminated
  string there, the source cut to \<open>n - 1\<close> bytes, and writes nothing outside the buffer.
\<close>

lemma safestrcpy_correct:
  assumes "0 < n" "n < 2 ^ 31"
    and "\<And>i j. i < nat n \<Longrightarrow> j < nat n \<Longrightarrow> s + of_nat i \<noteq> t + of_nat j"
  shows "ctake (safestrcpy m s t n) s (nat n) = ctake m t (nat n - 1) \<and>
    length (ctake (safestrcpy m s t n) s (nat n)) < nat n \<and>
    (\<forall>x. nat n \<le> unat (x - s) \<longrightarrow> safestrcpy m s t n x = m x)"
proof -
  obtain k where k: "nat n = Suc k" using assms(1) by (metis gr0_implies_Suc zero_less_nat_eq)
  then have n: "nat (n - 1) = k" and b: "k + 1 < 2 ^ 32" using assms(1,2) by auto
  have def: "safestrcpy m s t n = safestrcpy_loop m s t k" using assms(1) n by (simp add: safestrcpy_def)
  have "ctake (safestrcpy_loop m s t k) s (Suc k) = ctake m t k"
    by (rule safestrcpy_loop_ctake[OF b]) (use assms(3) k in auto)
  moreover have "length (ctake m t k) \<le> k" by (rule length_ctake)
  ultimately show ?thesis unfolding def k
    using safestrcpy_loop_frame[OF b] by (auto simp: Suc_le_eq)
qed

text \<open>
  \<open>memset\<close> computes the same byte-wise fill on its word-store path (\<open>stosl\<close>) as on its byte-store
  path: exactly the bytes of the region get the low byte of \<open>c\<close>, whatever its alignment and size.
\<close>

theorem memset_correct:
  "memset m dst c n = (\<lambda>x. if unat (x - dst) < unat n then ucast c else m x)"
  by (simp add: memset_eq_fill fill_def)

text \<open>
  \<open>strncmp\<close> returns 0 exactly when the two strings, each cut at its NUL or at \<open>n\<close> bytes, are equal.
\<close>

theorem strncmp_zero_iff:
  "strncmp m p q n = 0 \<longleftrightarrow> ctake m p (unat n) = ctake m q (unat n)"
  by (simp add: strncmp_def strncmp_loop_zero)

end
