(* ===== verification/Kstate.thy ===== *)
theory Kstate
  imports Prelude
begin

text \<open>
  The constants (\<open>param.h\<close>, \<open>memlayout.h\<close>, \<open>mmu.h\<close>, \<open>fs.h\<close>) and the C structures of the kernel, and the
  record \<open>kernel\<close> that gathers its global variables and the parts of the machine it drives.

  Pointers into a static table (processes, CPUs, buffers, inodes, files) are indices, null is \<open>None\<close>.
  Pointers to pages and page tables are 32-bit addresses into the byte memory \<open>mem\<close>, which is indexed by
  kernel virtual address. Spin locks, sleep locks and sleep channels, which the code passes around by
  address, are named by the datatypes \<open>lockid\<close>, \<open>slid\<close> and \<open>chan\<close>.

  A kernel program runs on one thread. Its state is the kernel record and a list of \<open>interference\<close>
  steps: what the rest of the machine does to the state while the thread waits, once for each failed
  \<open>xchg\<close> of a spin lock and once for each switch to the scheduler. A thread that waits when the list is
  empty is \<open>Blocked\<close>.
\<close>

section \<open>Constants\<close>

abbreviation (input) NPROC :: nat where "NPROC \<equiv> 64"
abbreviation (input) KSTACKSIZE :: uint where "KSTACKSIZE \<equiv> 4096"
abbreviation (input) NCPU :: nat where "NCPU \<equiv> 8"
abbreviation (input) NOFILE :: nat where "NOFILE \<equiv> 16"
abbreviation (input) NFILE :: nat where "NFILE \<equiv> 100"
abbreviation (input) NINODE :: nat where "NINODE \<equiv> 50"
abbreviation (input) CONSOLE :: nat where "CONSOLE \<equiv> 1"
abbreviation (input) NDEV :: nat where "NDEV \<equiv> 10"
abbreviation (input) ROOTDEV :: uint where "ROOTDEV \<equiv> 1"
abbreviation (input) MAXARG :: nat where "MAXARG \<equiv> 32"
abbreviation (input) MAXOPBLOCKS :: nat where "MAXOPBLOCKS \<equiv> 10"
abbreviation (input) LOGSIZE :: nat where "LOGSIZE \<equiv> 30"
abbreviation (input) NBUF :: nat where "NBUF \<equiv> 30"
abbreviation (input) FSSIZE :: uint where "FSSIZE \<equiv> 1000"

abbreviation (input) EXTMEM :: uint where "EXTMEM \<equiv> 0x100000"
abbreviation (input) PHYSTOP :: uint where "PHYSTOP \<equiv> 0xE000000"
abbreviation (input) DEVSPACE :: uint where "DEVSPACE \<equiv> 0xFE000000"
abbreviation (input) KERNBASE :: uint where "KERNBASE \<equiv> 0x80000000"
abbreviation (input) KERNLINK :: uint where "KERNLINK \<equiv> 0x80100000"

definition V2P :: "addr \<Rightarrow> uint" where
  "V2P a = a - KERNBASE"

definition P2V :: "uint \<Rightarrow> addr" where
  "P2V a = a + KERNBASE"

abbreviation (input) FL_IF :: uint where "FL_IF \<equiv> 0x200"

abbreviation (input) BSIZE :: nat where "BSIZE \<equiv> 512"
abbreviation (input) NDIRECT :: nat where "NDIRECT \<equiv> 12"
abbreviation (input) NINDIRECT :: nat where "NINDIRECT \<equiv> 128"
abbreviation (input) MAXFILE :: nat where "MAXFILE \<equiv> 140"

section \<open>Processors and locks\<close>

datatype slid = BufSl nat | InodeSl nat

datatype lockid =
    PtableLock | KmemLock | ConsLock | BcacheLock | LogLock | IcacheLock | FtableLock | TicksLock
  | IdeLock | SlLock slid | PipeLock addr

datatype chan =
    ChProc nat | ChTicks | ChLog | ChSleeplock slid | ChPipeRead addr | ChPipeWrite addr
  | ChInput | ChBuf nat

record spinlock =
  lk_locked :: uint
  lk_name :: string
  lk_cpu :: "nat option"
  lk_pcs :: "uint list"

record sleeplock =
  sl_locked :: uint
  sl_name :: string
  sl_pid :: int

record segdesc =
  sd_type :: nat
  sd_s :: nat
  sd_dpl :: nat
  sd_base :: uint
  sd_lim :: uint
  sd_g :: bool

record cpu =
  c_apicid :: byte
  c_gdt :: "nat \<Rightarrow> segdesc"
  c_ts_ss0 :: ushort
  c_ts_esp0 :: uint
  c_ts_iomb :: ushort
  c_started :: uint
  c_ncli :: int
  c_intena :: uint
  c_proc :: "nat option"

section \<open>Processes\<close>

record kcontext =
  ctx_edi :: uint
  ctx_esi :: uint
  ctx_ebx :: uint
  ctx_ebp :: uint
  ctx_eip :: uint

datatype procstate = UNUSED | EMBRYO | SLEEPING | RUNNABLE | RUNNING | ZOMBIE

record trapframe =
  tf_edi :: uint
  tf_esi :: uint
  tf_ebp :: uint
  tf_ebx :: uint
  tf_edx :: uint
  tf_ecx :: uint
  tf_eax :: uint
  tf_gs :: ushort
  tf_fs :: ushort
  tf_es :: ushort
  tf_ds :: ushort
  tf_trapno :: uint
  tf_err :: uint
  tf_eip :: uint
  tf_cs :: ushort
  tf_eflags :: uint
  tf_esp :: uint
  tf_ss :: ushort

text \<open>The reference a process holds to a shared region (HW3): the region's index and its address.\<close>

record sharedReference =
  sf_region :: "nat option"
  sf_va :: addr

record sharedRegion =
  sr_valid :: int
  sr_refCount :: int
  sr_pageCount :: int
  sr_pages :: "nat \<Rightarrow> uint"

text \<open>
  \<open>struct proc\<close>: the counters are those of the HW2 kernel, the shared references those of HW3.
  The trap frame and the saved context, which live on the kernel stack, are held with the process.
\<close>

record proc =
  p_sz :: uint
  p_pgdir :: addr
  p_kstack :: addr
  p_state :: procstate
  p_pid :: int
  p_parent :: "nat option"
  p_tf :: trapframe
  p_context :: kcontext
  p_chan :: "chan option"
  p_killed :: int
  p_ofile :: "nat \<Rightarrow> nat option"
  p_cwd :: "nat option"
  p_name :: "byte list"
  p_trapcounts :: "int list"
  p_syscounts :: "int list"
  p_shaddr :: addr
  p_shared :: "nat \<Rightarrow> sharedReference"

section \<open>Files and the disk\<close>

datatype ftype = FD_NONE | FD_PIPE | FD_INODE

record kfile =
  f_type :: ftype
  f_ref :: int
  f_readable :: bool
  f_writable :: bool
  f_pipe :: addr
  f_ip :: "nat option"
  f_off :: uint

record inode =
  i_dev :: uint
  i_inum :: uint
  i_ref :: int
  i_valid :: int
  i_type :: ushort
  i_major :: ushort
  i_minor :: ushort
  i_nlink :: ushort
  i_size :: uint
  i_addrs :: "nat \<Rightarrow> uint"

text \<open>Entries of the device switch: the only device that installs functions is the console.\<close>

datatype devfun = ConsoleDev

record superblock =
  sb_size :: uint
  sb_nblocks :: uint
  sb_ninodes :: uint
  sb_nlog :: uint
  sb_logstart :: uint
  sb_inodestart :: uint
  sb_bmapstart :: uint

text \<open>\<open>struct buf\<close>; the list head of the cache is entry \<open>NBUF\<close> of the table.\<close>

record buf =
  b_flags :: uint
  b_dev :: uint
  b_blockno :: uint
  b_refcnt :: uint
  b_prev :: nat
  b_next :: nat
  b_data :: "byte list"

record logheader =
  lh_n :: int
  lh_block :: "nat \<Rightarrow> uint"

record klog =
  lg_start :: uint
  lg_size :: uint
  lg_outstanding :: int
  lg_committing :: int
  lg_dev :: uint
  lg_lh :: logheader

record pipe =
  pi_data :: "nat \<Rightarrow> byte"
  pi_nread :: uint
  pi_nwrite :: uint
  pi_readopen :: int
  pi_writeopen :: int

record inputbuf =
  in_buf :: "nat \<Rightarrow> byte"
  in_r :: uint
  in_w :: uint
  in_e :: uint

section \<open>The kernel\<close>

text \<open>Addresses the linker fixes: the end of the kernel image, its data section, two entry points.\<close>

record ksyms =
  sym_end :: addr
  sym_data :: addr
  sym_forkret :: addr
  sym_trapret :: addr

record kernel =
  cpus :: "nat \<Rightarrow> cpu"
  ncpu :: nat
  lapic_id :: byte
  eflags_if :: bool
  cr3 :: uint
  tr :: ushort
  frame :: addr
  syms :: ksyms
  mem :: memory
  locks :: "lockid \<Rightarrow> spinlock"
  sleeplocks :: "slid \<Rightarrow> sleeplock"
  ptable :: "nat \<Rightarrow> proc"
  nextpid :: int
  forkret_first :: bool
  initproc :: "nat option"
  use_lock :: bool
  freelist :: addr
  kpgdir :: addr
  sharedRegions :: "nat \<Rightarrow> sharedRegion"
  bcache :: "nat \<Rightarrow> buf"
  klog :: klog
  disk :: "nat \<Rightarrow> byte list"
  disksize :: uint
  diskwrites :: "(nat \<times> byte list) list"
  sb :: superblock
  icache :: "nat \<Rightarrow> inode"
  devsw :: "nat \<Rightarrow> devfun option"
  ftable :: "nat \<Rightarrow> kfile"
  pipes :: "addr \<Rightarrow> pipe"
  ticks :: uint
  cons_locking :: bool
  panicked :: bool
  input :: inputbuf
  uart :: bool
  serial :: "byte list"
  crt :: "nat \<Rightarrow> ushort"
  crtc14 :: byte
  crtc15 :: byte

type_synonym interference = "kernel \<Rightarrow> kernel"
type_synonym kstate = "kernel \<times> interference list"
type_synonym 'a kprog = "kstate \<Rightarrow> ('a, kstate) outcome"

text \<open>Reading and changing the kernel record, and giving up the processor.\<close>

definition gets :: "(kernel \<Rightarrow> 'a) \<Rightarrow> 'a kprog" where
  "gets f = (\<lambda>(k, env). Ret (f k) (k, env))"

definition modify :: "(kernel \<Rightarrow> kernel) \<Rightarrow> unit kprog" where
  "modify f = (\<lambda>(k, env). Ret () (f k, env))"

definition interfere :: "unit kprog" where
  "interfere = (\<lambda>(k, env). case env of [] \<Rightarrow> Blocked (k, []) | e # env' \<Rightarrow> Ret () (e k, env'))"

text \<open>
  A loop whose body waits: every round uses up at least one step of interference, so one more round
  than there are steps is enough fuel.
\<close>

fun whileK :: "nat \<Rightarrow> (kernel \<Rightarrow> bool) \<Rightarrow> unit kprog \<Rightarrow> unit kprog" where
  "whileK 0 cond body = Blocked"
| "whileK (Suc n) cond body = bindK (gets cond) (\<lambda>c. if c then thenK body (whileK n cond body) else Ret ())"

definition wait_while :: "(kernel \<Rightarrow> bool) \<Rightarrow> unit kprog \<Rightarrow> unit kprog" where
  "wait_while cond body = (\<lambda>(k, env). whileK (Suc (length env)) cond body (k, env))"

text \<open>
  Loops that a test in their middle may leave: a round gives \<open>Some x\<close> to stop with \<open>x\<close> and \<open>None\<close> to go round
  again.
\<close>

fun retryK :: "nat \<Rightarrow> 'a option kprog \<Rightarrow> 'a kprog" where
  "retryK 0 round = Blocked"
| "retryK (Suc n) round = bindK round (\<lambda>r. case r of Some x \<Rightarrow> Ret x | None \<Rightarrow> retryK n round)"

definition wait_for :: "'a option kprog \<Rightarrow> 'a kprog" where
  "wait_for round = (\<lambda>(k, env). retryK (Suc (length env)) round (k, env))"

lemma gets_Ret [kM_simps]: "gets f (k, env) = Ret (f k) (k, env)"
  by (simp add: gets_def)

lemma modify_Ret [kM_simps]: "modify f (k, env) = Ret () (f k, env)"
  by (simp add: modify_def)

lemma interfere_simps [kM_simps]:
  "interfere (k, []) = Blocked (k, [])"
  "interfere (k, e # env) = Ret () (e k, env)"
  by (simp_all add: interfere_def)

lemma wp_gets [simp]: "wp (gets f) Q (k, env) = Q (f k) (k, env)"
  by (simp add: wp_def gets_def)

lemma wp_modify [simp]: "wp (modify f) Q (k, env) = Q () (f k, env)"
  by (simp add: wp_def modify_def)

lemma wp_interfere:
  "wp interfere Q (k, env) \<longleftrightarrow> (\<exists>e env'. env = e # env' \<and> Q () (e k, env'))"
  by (cases env) (simp_all add: wp_def interfere_def)

lemma wait_while_done: "\<not> cond k \<Longrightarrow> wait_while cond body (k, env) = Ret () (k, env)"
  by (simp add: wait_while_def kM_simps)

lemma wp_wait_while_done [simp]: "\<not> cond k \<Longrightarrow> wp (wait_while cond body) Q (k, env) = Q () (k, env)"
  by (simp add: wp_def wait_while_done)

text \<open>Loops of plain updates are folds.\<close>

lemma gets_when_modify:
  "bindK (gets f) (\<lambda>b. whenK b (modify g)) = modify (\<lambda>k. if f k then g k else k)"
  by (auto simp: fun_eq_iff bindK_def gets_def modify_def whenK_def)

lemma forK_modify: "forK xs (\<lambda>i. modify (g i)) = modify (fold g xs)"
  by (induction xs) (auto simp: fun_eq_iff thenK_def bindK_def modify_def)

lemma modify_eval: "modify f s = Ret () (f (fst s), snd s)"
  by (cases s) (simp add: modify_def)

text \<open>
  The zero-initialised globals of a machine with one processor, all tables empty: the state in which
  the C program starts, and the base of the concrete examples.
\<close>

definition zero_kernel :: kernel where
  "zero_kernel = \<lparr>
     cpus = (\<lambda>_. \<lparr>c_apicid = 0, c_gdt = (\<lambda>_. \<lparr>sd_type = 0, sd_s = 0, sd_dpl = 0, sd_base = 0, sd_lim = 0, sd_g = False\<rparr>),
       c_ts_ss0 = 0, c_ts_esp0 = 0, c_ts_iomb = 0, c_started = 0, c_ncli = 0, c_intena = 0, c_proc = None\<rparr>),
     ncpu = 1, lapic_id = 0, eflags_if = False, cr3 = 0, tr = 0, frame = 0,
     syms = \<lparr>sym_end = 0x80110000, sym_data = 0x80108000, sym_forkret = 0x80103000, sym_trapret = 0x80105000\<rparr>,
     mem = (\<lambda>_. 0),
     locks = (\<lambda>_. \<lparr>lk_locked = 0, lk_name = [], lk_cpu = None, lk_pcs = replicate 10 0\<rparr>),
     sleeplocks = (\<lambda>_. \<lparr>sl_locked = 0, sl_name = [], sl_pid = 0\<rparr>),
     ptable = (\<lambda>_. \<lparr>p_sz = 0, p_pgdir = 0, p_kstack = 0, p_state = UNUSED, p_pid = 0, p_parent = None,
       p_tf = \<lparr>tf_edi = 0, tf_esi = 0, tf_ebp = 0, tf_ebx = 0, tf_edx = 0, tf_ecx = 0, tf_eax = 0, tf_gs = 0,
         tf_fs = 0, tf_es = 0, tf_ds = 0, tf_trapno = 0, tf_err = 0, tf_eip = 0, tf_cs = 0, tf_eflags = 0,
         tf_esp = 0, tf_ss = 0\<rparr>,
       p_context = \<lparr>ctx_edi = 0, ctx_esi = 0, ctx_ebx = 0, ctx_ebp = 0, ctx_eip = 0\<rparr>,
       p_chan = None, p_killed = 0, p_ofile = (\<lambda>_. None), p_cwd = None, p_name = replicate 16 0,
       p_trapcounts = replicate 23 0, p_syscounts = replicate 23 0, p_shaddr = 0,
       p_shared = (\<lambda>_. \<lparr>sf_region = None, sf_va = 0\<rparr>)\<rparr>),
     nextpid = 1, forkret_first = True, initproc = None, use_lock = False, freelist = 0, kpgdir = 0,
     sharedRegions = (\<lambda>_. \<lparr>sr_valid = 0, sr_refCount = 0, sr_pageCount = 0, sr_pages = (\<lambda>_. 0)\<rparr>),
     bcache = (\<lambda>_. \<lparr>b_flags = 0, b_dev = 0, b_blockno = 0, b_refcnt = 0, b_prev = 0, b_next = 0,
       b_data = replicate BSIZE 0\<rparr>),
     klog = \<lparr>lg_start = 0, lg_size = 0, lg_outstanding = 0, lg_committing = 0, lg_dev = 0,
       lg_lh = \<lparr>lh_n = 0, lh_block = (\<lambda>_. 0)\<rparr>\<rparr>,
     disk = (\<lambda>_. replicate BSIZE 0), disksize = 1000, diskwrites = [],
     sb = \<lparr>sb_size = 0, sb_nblocks = 0, sb_ninodes = 0, sb_nlog = 0, sb_logstart = 0, sb_inodestart = 0,
       sb_bmapstart = 0\<rparr>,
     icache = (\<lambda>_. \<lparr>i_dev = 0, i_inum = 0, i_ref = 0, i_valid = 0, i_type = 0, i_major = 0, i_minor = 0,
       i_nlink = 0, i_size = 0, i_addrs = (\<lambda>_. 0)\<rparr>),
     devsw = (\<lambda>_. None),
     ftable = (\<lambda>_. \<lparr>f_type = FD_NONE, f_ref = 0, f_readable = False, f_writable = False, f_pipe = 0,
       f_ip = None, f_off = 0\<rparr>),
     pipes = (\<lambda>_. \<lparr>pi_data = (\<lambda>_. 0), pi_nread = 0, pi_nwrite = 0, pi_readopen = 0, pi_writeopen = 0\<rparr>),
     ticks = 0, cons_locking = False, panicked = False,
     input = \<lparr>in_buf = (\<lambda>_. 0), in_r = 0, in_w = 0, in_e = 0\<rparr>,
     uart = False, serial = [], crt = (\<lambda>_. 0), crtc14 = 0, crtc15 = 0\<rparr>"

end
