(* ===== verification/Spinlock.thy ===== *)
theory Spinlock
  imports Kstate
begin

text \<open>
  Spin locks and interrupt nesting (\<open>spinlock.c\<close>) and the functions of \<open>proc.c\<close> that find the current
  processor and process. The second half states what a critical section leaves behind (\<open>synced\<close>), the
  third is the interleaving of several processors on one lock and its mutual exclusion.
\<close>

section \<open>The current processor\<close>

definition this_cpu :: "kernel \<Rightarrow> nat option" where
  "this_cpu k = find (\<lambda>i. c_apicid (cpus k i) = lapic_id k) [0..<ncpu k]"

definition mycpu :: "nat kprog" where
  "mycpu = bindK (gets eflags_if) (\<lambda>iflag.
     if iflag then Panic ''mycpu called with interrupts enabled''
     else bindK (gets this_cpu) (\<lambda>c. case c of
       Some i \<Rightarrow> Ret i
     | None \<Rightarrow> Panic ''unknown apicid''))"

definition cpuid :: "nat kprog" where
  "cpuid = mycpu"

definition mycpu_get :: "(cpu \<Rightarrow> 'a) \<Rightarrow> 'a kprog" where
  "mycpu_get f = bindK mycpu (\<lambda>c. gets (\<lambda>k. f (cpus k c)))"

definition mycpu_set :: "(cpu \<Rightarrow> cpu) \<Rightarrow> unit kprog" where
  "mycpu_set f = bindK mycpu (\<lambda>c. modify (\<lambda>k. k\<lparr>cpus := (cpus k)(c := f (cpus k c))\<rparr>))"

definition cli :: "unit kprog" where
  "cli = modify (\<lambda>k. k\<lparr>eflags_if := False\<rparr>)"

definition sti :: "unit kprog" where
  "sti = modify (\<lambda>k. k\<lparr>eflags_if := True\<rparr>)"

definition readeflags :: "uint kprog" where
  "readeflags = gets (\<lambda>k. if eflags_if k then FL_IF else 0)"

section \<open>\<open>spinlock.c\<close>\<close>

definition set_lock :: "lockid \<Rightarrow> (spinlock \<Rightarrow> spinlock) \<Rightarrow> kernel \<Rightarrow> kernel" where
  "set_lock l f k = k\<lparr>locks := (locks k)(l := f (locks k l))\<rparr>"

definition initlock :: "lockid \<Rightarrow> string \<Rightarrow> unit kprog" where
  "initlock lk nm = modify (set_lock lk (\<lambda>l. l\<lparr>lk_name := nm, lk_locked := 0, lk_cpu := None\<rparr>))"

definition pushcli :: "unit kprog" where
  "pushcli = bindK readeflags (\<lambda>eflags.
     seqK [
       cli,
       bindK (mycpu_get c_ncli) (\<lambda>n. whenK (n = 0)
         (mycpu_set (\<lambda>c. c\<lparr>c_intena := eflags AND FL_IF\<rparr>))),
       mycpu_set (\<lambda>c. c\<lparr>c_ncli := c_ncli c + 1\<rparr>)])"

definition popcli :: "unit kprog" where
  "popcli = bindK readeflags (\<lambda>eflags.
     if eflags AND FL_IF \<noteq> 0 then Panic ''popcli - interruptible''
     else thenK (mycpu_set (\<lambda>c. c\<lparr>c_ncli := c_ncli c - 1\<rparr>))
       (bindK (mycpu_get c_ncli) (\<lambda>n.
         if n < 0 then Panic ''popcli''
         else bindK (mycpu_get c_intena) (\<lambda>intena. whenK (n = 0 \<and> intena \<noteq> 0) sti))))"

definition holding :: "lockid \<Rightarrow> bool kprog" where
  "holding lk = thenK pushcli
     (bindK mycpu (\<lambda>c.
      bindK (gets (\<lambda>k. lk_locked (locks k lk) \<noteq> 0 \<and> lk_cpu (locks k lk) = Some c)) (\<lambda>r.
      thenK popcli (Ret r))))"

text \<open>The walk up the saved frame pointers: \<open>ebp[0]\<close> is the caller's, \<open>ebp[1]\<close> its return address.\<close>

fun callerpcs :: "memory \<Rightarrow> addr \<Rightarrow> nat \<Rightarrow> uint list" where
  "callerpcs m ebp 0 = []"
| "callerpcs m ebp (Suc n) =
     (if ebp = 0 \<or> ebp < KERNBASE \<or> ebp = 0xffffffff then replicate (Suc n) 0
      else load32 m (ebp + 4) # callerpcs m (load32 m ebp) n)"

definition getcallerpcs :: "memory \<Rightarrow> addr \<Rightarrow> uint list" where
  "getcallerpcs m v = callerpcs m (v - 8) 10"

text \<open>
  The loop on \<open>xchg\<close>: every failed exchange gives the rest of the machine one step.
\<close>

fun xchg_spin :: "lockid \<Rightarrow> interference list \<Rightarrow> kernel \<Rightarrow> (unit, kstate) outcome" where
  "xchg_spin lk env k =
     (let k' = set_lock lk (\<lambda>l. l\<lparr>lk_locked := 1\<rparr>) k in
      if lk_locked (locks k lk) = 0 then Ret () (k', env)
      else case env of [] \<Rightarrow> Blocked (k', []) | e # env' \<Rightarrow> xchg_spin lk env' (e k'))"

declare xchg_spin.simps [simp del]

definition acquire :: "lockid \<Rightarrow> unit kprog" where
  "acquire lk = thenK pushcli
     (bindK (holding lk) (\<lambda>h. if h then Panic ''acquire'' else
       seqK [
         (\<lambda>(k, env). xchg_spin lk env k),
         bindK mycpu (\<lambda>c. modify (set_lock lk (\<lambda>l. l\<lparr>lk_cpu := Some c\<rparr>))),
         modify (\<lambda>k. set_lock lk (\<lambda>l. l\<lparr>lk_pcs := getcallerpcs (mem k) (frame k)\<rparr>) k)]))"

definition release :: "lockid \<Rightarrow> unit kprog" where
  "release lk = bindK (holding lk) (\<lambda>h. if \<not> h then Panic ''release'' else
     seqK [
       modify (set_lock lk (\<lambda>l. l\<lparr>lk_pcs := (lk_pcs l)[0 := 0], lk_cpu := None\<rparr>)),
       modify (set_lock lk (\<lambda>l. l\<lparr>lk_locked := 0\<rparr>)),
       popcli])"

definition myproc :: "nat option kprog" where
  "myproc = thenK pushcli
     (bindK mycpu (\<lambda>c. bindK (gets (\<lambda>k. c_proc (cpus k c))) (\<lambda>p. thenK popcli (Ret p))))"

section \<open>What the operations do when they return\<close>

text \<open>
  \<open>cpu_ok k\<close>: the thread runs on a known processor whose nesting depth is non-negative, with
  interrupts off while the depth is positive.
\<close>

definition cpu_of :: "kernel \<Rightarrow> cpu" where
  "cpu_of k = cpus k (the (this_cpu k))"

definition cpu_ok :: "kernel \<Rightarrow> bool" where
  "cpu_ok k \<longleftrightarrow> this_cpu k \<noteq> None \<and> 0 \<le> c_ncli (cpu_of k) \<and> (0 < c_ncli (cpu_of k) \<longrightarrow> \<not> eflags_if k)"

definition set_cpu :: "(cpu \<Rightarrow> cpu) \<Rightarrow> kernel \<Rightarrow> kernel" where
  "set_cpu f k = k\<lparr>cpus := (cpus k)(the (this_cpu k) := f (cpu_of k))\<rparr>"

definition push_k :: "kernel \<Rightarrow> kernel" where
  "push_k k = (set_cpu (\<lambda>c. c\<lparr>c_ncli := c_ncli c + 1,
     c_intena := if c_ncli c = 0 then (if eflags_if k then FL_IF else 0) else c_intena c\<rparr>) k)
     \<lparr>eflags_if := False\<rparr>"

definition pop_k :: "kernel \<Rightarrow> kernel" where
  "pop_k k = (set_cpu (\<lambda>c. c\<lparr>c_ncli := c_ncli c - 1\<rparr>) k)
     \<lparr>eflags_if := (c_ncli (cpu_of k) = 1 \<and> c_intena (cpu_of k) \<noteq> 0)\<rparr>"

definition acq :: "lockid \<Rightarrow> kernel \<Rightarrow> kernel" where
  "acq l k = set_lock l (\<lambda>lk. lk\<lparr>lk_locked := 1, lk_cpu := this_cpu k,
     lk_pcs := getcallerpcs (mem k) (frame k)\<rparr>) (push_k k)"

definition rel :: "lockid \<Rightarrow> kernel \<Rightarrow> kernel" where
  "rel l k = pop_k (set_lock l (\<lambda>lk. lk\<lparr>lk_pcs := (lk_pcs lk)[0 := 0], lk_cpu := None,
     lk_locked := 0\<rparr>) k)"

definition lock_free :: "lockid \<Rightarrow> kernel \<Rightarrow> bool" where
  "lock_free l k \<longleftrightarrow> lk_locked (locks k l) = 0"

definition lock_mine :: "lockid \<Rightarrow> kernel \<Rightarrow> bool" where
  "lock_mine l k \<longleftrightarrow> lk_locked (locks k l) \<noteq> 0 \<and> this_cpu k \<noteq> None \<and> lk_cpu (locks k l) = this_cpu k
     \<and> 0 < c_ncli (cpu_of k) \<and> \<not> eflags_if k"

lemma this_cpu_upd [simp]:
  "\<forall>c. c_apicid (f c) = c_apicid c \<Longrightarrow> this_cpu (set_cpu f k) = this_cpu k"
  "this_cpu (k\<lparr>eflags_if := b\<rparr>) = this_cpu k"
  "this_cpu (set_lock l g k) = this_cpu k"
proof -
  assume "\<forall>c. c_apicid (f c) = c_apicid c"
  then have "\<And>i. c_apicid (cpus (set_cpu f k) i) = c_apicid (cpus k i)"
    by (simp add: set_cpu_def cpu_of_def)
  then show "this_cpu (set_cpu f k) = this_cpu k" by (simp add: this_cpu_def set_cpu_def)
qed (simp_all add: this_cpu_def set_lock_def)

lemma cpu_of_upd [simp]:
  "\<forall>c. c_apicid (f c) = c_apicid c \<Longrightarrow> cpu_of (set_cpu f k) = f (cpu_of k)"
  "cpu_of (k\<lparr>eflags_if := b\<rparr>) = cpu_of k"
  "cpu_of (set_lock l g k) = cpu_of k"
  by (simp_all add: cpu_of_def, simp_all add: set_cpu_def cpu_of_def set_lock_def)

lemma mycpu_Ret: "\<not> eflags_if k \<Longrightarrow> this_cpu k = Some c \<Longrightarrow> mycpu (k, env) = Ret c (k, env)"
  by (simp add: mycpu_def kM_simps)

lemma mycpu_get_Ret:
  "\<not> eflags_if k \<Longrightarrow> this_cpu k \<noteq> None \<Longrightarrow> mycpu_get f (k, env) = Ret (f (cpu_of k)) (k, env)"
  by (auto simp: mycpu_get_def mycpu_Ret kM_simps cpu_of_def)

lemma mycpu_set_Ret:
  "\<not> eflags_if k \<Longrightarrow> this_cpu k \<noteq> None \<Longrightarrow> mycpu_set f (k, env) = Ret () (set_cpu f k, env)"
  by (auto simp: mycpu_set_def mycpu_Ret kM_simps cpu_of_def set_cpu_def)

lemma set_cpu_eflags [simp]:
  "eflags_if (set_cpu f k) = eflags_if k"
  "set_cpu f (k\<lparr>eflags_if := b\<rparr>) = (set_cpu f k)\<lparr>eflags_if := b\<rparr>"
  "(set_lock l g k)\<lparr>eflags_if := b\<rparr> = set_lock l g (k\<lparr>eflags_if := b\<rparr>)"
  "eflags_if (set_lock l g k) = eflags_if k"
  by (simp_all add: set_cpu_def set_lock_def cpu_of_def this_cpu_def)

lemma set_cpu_set_cpu [simp]:
  "\<forall>c. c_apicid (g c) = c_apicid c \<Longrightarrow> set_cpu f (set_cpu g k) = set_cpu (\<lambda>c. f (g c)) k"
proof -
  assume a: "\<forall>c. c_apicid (g c) = c_apicid c"
  have "set_cpu f (set_cpu g k) =
      (set_cpu g k)\<lparr>cpus := (cpus (set_cpu g k))(the (this_cpu k) := f (g (cpu_of k)))\<rparr>"
    using a by (simp add: set_cpu_def[of f])
  then show ?thesis by (simp add: set_cpu_def)
qed

lemma set_cpu_set_lock [simp]: "set_cpu f (set_lock l g k) = set_lock l g (set_cpu f k)"
  by (simp add: set_cpu_def set_lock_def cpu_of_def this_cpu_def)

lemma set_cpu_cong: "f (cpu_of k) = g (cpu_of k) \<Longrightarrow> set_cpu f k = set_cpu g k"
  by (simp add: set_cpu_def)

lemma set_cpu_id: "f (cpu_of k) = cpu_of k \<Longrightarrow> set_cpu f k = k"
  by (simp add: set_cpu_def) (simp add: cpu_of_def)

lemma set_lock_set_lock [simp]: "set_lock l f (set_lock l g k) = set_lock l (\<lambda>x. f (g x)) k"
  by (simp add: set_lock_def)

lemma locks_set [simp]:
  "locks (set_lock l f k) = (locks k)(l := f (locks k l))" "locks (set_cpu g k) = locks k"
  "cpus (set_lock l f k) = cpus k"
  "locks (k\<lparr>eflags_if := b\<rparr>) = locks k" "cpus (k\<lparr>eflags_if := b\<rparr>) = cpus k"
  by (simp_all add: set_lock_def set_cpu_def)

lemma pushcli_Ret: "this_cpu k \<noteq> None \<Longrightarrow> pushcli (k, env) = Ret () (push_k k, env)"
  by (cases "c_ncli (cpu_of k) = 0"; cases "eflags_if k")
    (simp_all add: pushcli_def readeflags_def cli_def kM_simps mycpu_get_Ret mycpu_set_Ret push_k_def
      cong: if_cong, auto intro!: arg_cong[where f = "eflags_if_update _"] set_cpu_cong)

lemma popcli_Ret:
  assumes "\<not> eflags_if k" "this_cpu k \<noteq> None" "0 < c_ncli (cpu_of k)"
  shows "popcli (k, env) = Ret () (pop_k k, env)"
  using assms by (cases "c_ncli (cpu_of k) = 1 \<and> c_intena (cpu_of k) \<noteq> 0")
    (auto simp: popcli_def readeflags_def sti_def kM_simps mycpu_get_Ret mycpu_set_Ret pop_k_def)

lemma popcli_Panic:
  "eflags_if k \<Longrightarrow> popcli (k, env) = Panic ''popcli - interruptible'' (k, env)"
  "\<not> eflags_if k \<Longrightarrow> this_cpu k \<noteq> None \<Longrightarrow> c_ncli (cpu_of k) \<le> 0 \<Longrightarrow>
    \<exists>s. popcli (k, env) = Panic ''popcli'' s"
  by (simp_all add: popcli_def readeflags_def kM_simps mycpu_get_Ret mycpu_set_Ret)

lemma push_pop_sel [simp]:
  "this_cpu (push_k k) = this_cpu k" "this_cpu (pop_k k) = this_cpu k"
  "locks (push_k k) = locks k" "locks (pop_k k) = locks k"
  "eflags_if (push_k k) = False"
  "c_ncli (cpu_of (push_k k)) = c_ncli (cpu_of k) + 1" "c_proc (cpu_of (push_k k)) = c_proc (cpu_of k)"
  "c_ncli (cpu_of (pop_k k)) = c_ncli (cpu_of k) - 1" "c_proc (cpu_of (pop_k k)) = c_proc (cpu_of k)"
  by (simp_all add: push_k_def pop_k_def)

text \<open>A matched \<open>pushcli\<close>/\<open>popcli\<close> pair: at depth 0 it leaves the saved flag, deeper nothing.\<close>

definition touch :: "kernel \<Rightarrow> kernel" where
  "touch k = (if c_ncli (cpu_of k) = 0 then set_cpu (\<lambda>c. c\<lparr>c_intena := if eflags_if k then FL_IF else 0\<rparr>) k
     else k)"

lemma set_cpu_eflags_id:
  "eflags_if k = b \<Longrightarrow> f (cpu_of k) = g (cpu_of k) \<Longrightarrow> (set_cpu f k)\<lparr>eflags_if := b\<rparr> = set_cpu g k"
  "eflags_if k = b \<Longrightarrow> f (cpu_of k) = cpu_of k \<Longrightarrow> (set_cpu f k)\<lparr>eflags_if := b\<rparr> = k"
  by (auto simp: set_cpu_def cpu_of_def)

lemma pop_push: "cpu_ok k \<Longrightarrow> pop_k (push_k k) = touch k"
  by (cases "eflags_if k")
    (auto simp: cpu_ok_def push_k_def pop_k_def touch_def intro!: set_cpu_eflags_id)

lemma cpu_ok_push: "cpu_ok k \<Longrightarrow> cpu_ok (push_k k)"
  by (auto simp: cpu_ok_def)

lemma touch_push: "cpu_ok k \<Longrightarrow> touch (push_k k) = push_k k"
  by (auto simp: cpu_ok_def touch_def)

lemma holding_Ret:
  assumes "cpu_ok k"
  shows "holding l (k, env) =
    Ret (lk_locked (locks k l) \<noteq> 0 \<and> lk_cpu (locks k l) = this_cpu k) (touch k, env)"
  using assms
  by (auto simp: holding_def cpu_ok_def pushcli_Ret mycpu_Ret popcli_Ret pop_push[OF assms] kM_simps)

lemma myproc_Ret:
  assumes "cpu_ok k"
  shows "myproc (k, env) = Ret (c_proc (cpu_of k)) (touch k, env)"
proof -
  have "c_proc (cpus (push_k k) (the (this_cpu k))) = c_proc (cpu_of k)"
    by (metis cpu_of_def push_pop_sel(1,7))
  then show ?thesis using assms
    by (auto simp: myproc_def cpu_ok_def pushcli_Ret mycpu_Ret popcli_Ret pop_push[OF assms] kM_simps)
qed

lemma acquire_Ret:
  assumes "cpu_ok k" "lock_free l k"
  shows "acquire l (k, env) = Ret () (acq l k, env)"
proof -
  have m: "mem (set_lock l f (push_k k)) = mem k" "frame (set_lock l f (push_k k)) = frame k" for f
    by (simp_all add: set_lock_def push_k_def set_cpu_def)
  have "holding l (push_k k, env) = Ret False (push_k k, env)"
    using assms by (simp add: holding_Ret cpu_ok_push touch_push lock_free_def)
  then show ?thesis using assms
    by (auto simp: acquire_def pushcli_Ret lock_free_def cpu_ok_def
        kM_simps xchg_spin.simps Let_def mycpu_Ret acq_def m)
qed

lemma acquire_Panic:
  assumes "lock_mine l k"
  shows "acquire l (k, env) = Panic ''acquire'' (push_k k, env)"
proof -
  have ok: "cpu_ok k" using assms by (auto simp: lock_mine_def cpu_ok_def)
  then show ?thesis using assms
    by (auto simp: acquire_def pushcli_Ret holding_Ret cpu_ok_push touch_push lock_mine_def kM_simps)
qed

lemma release_Ret:
  assumes "lock_mine l k"
  shows "release l (k, env) = Ret () (rel l k, env)"
proof -
  have ok: "cpu_ok k" and t: "touch k = k" using assms by (auto simp: lock_mine_def cpu_ok_def touch_def)
  show ?thesis using assms
    by (auto simp: release_def holding_Ret[OF ok] t lock_mine_def kM_simps popcli_Ret rel_def)
qed

lemma release_Panic:
  assumes "cpu_ok k" "lk_locked (locks k l) = 0 \<or> lk_cpu (locks k l) \<noteq> this_cpu k"
  shows "release l (k, env) = Panic ''release'' (touch k, env)"
  using assms by (auto simp: release_def holding_Ret kM_simps)

lemma acq_sel [simp]:
  "this_cpu (acq l k) = this_cpu k" "\<not> eflags_if (acq l k)"
  "c_ncli (cpu_of (acq l k)) = c_ncli (cpu_of k) + 1" "c_proc (cpu_of (acq l k)) = c_proc (cpu_of k)"
  "l' \<noteq> l \<Longrightarrow> locks (acq l k) l' = locks k l'"
  "ncpu (acq l k) = ncpu k" "lapic_id (acq l k) = lapic_id k" "cr3 (acq l k) = cr3 k"
  "tr (acq l k) = tr k" "frame (acq l k) = frame k" "syms (acq l k) = syms k"
  "mem (acq l k) = mem k" "sleeplocks (acq l k) = sleeplocks k" "ptable (acq l k) = ptable k"
  "nextpid (acq l k) = nextpid k" "forkret_first (acq l k) = forkret_first k"
  "initproc (acq l k) = initproc k" "use_lock (acq l k) = use_lock k"
  "freelist (acq l k) = freelist k" "kpgdir (acq l k) = kpgdir k"
  "sharedRegions (acq l k) = sharedRegions k" "bcache (acq l k) = bcache k"
  "klog (acq l k) = klog k" "disk (acq l k) = disk k" "disksize (acq l k) = disksize k"
  "diskwrites (acq l k) = diskwrites k" "sb (acq l k) = sb k" "icache (acq l k) = icache k"
  "devsw (acq l k) = devsw k" "ftable (acq l k) = ftable k" "pipes (acq l k) = pipes k"
  "ticks (acq l k) = ticks k" "cons_locking (acq l k) = cons_locking k"
  "panicked (acq l k) = panicked k" "input (acq l k) = input k" "uart (acq l k) = uart k" "serial (acq l k) = serial k"
  "crt (acq l k) = crt k" "crtc14 (acq l k) = crtc14 k" "crtc15 (acq l k) = crtc15 k"
  by (simp_all add: acq_def) (simp_all add: set_lock_def push_k_def set_cpu_def)

lemma rel_sel [simp]:
  "this_cpu (rel l k) = this_cpu k"
  "c_ncli (cpu_of (rel l k)) = c_ncli (cpu_of k) - 1" "c_proc (cpu_of (rel l k)) = c_proc (cpu_of k)"
  "l' \<noteq> l \<Longrightarrow> locks (rel l k) l' = locks k l'"
  "ncpu (rel l k) = ncpu k" "lapic_id (rel l k) = lapic_id k" "cr3 (rel l k) = cr3 k"
  "tr (rel l k) = tr k" "frame (rel l k) = frame k" "syms (rel l k) = syms k"
  "mem (rel l k) = mem k" "sleeplocks (rel l k) = sleeplocks k" "ptable (rel l k) = ptable k"
  "nextpid (rel l k) = nextpid k" "forkret_first (rel l k) = forkret_first k"
  "initproc (rel l k) = initproc k" "use_lock (rel l k) = use_lock k"
  "freelist (rel l k) = freelist k" "kpgdir (rel l k) = kpgdir k"
  "sharedRegions (rel l k) = sharedRegions k" "bcache (rel l k) = bcache k"
  "klog (rel l k) = klog k" "disk (rel l k) = disk k" "disksize (rel l k) = disksize k"
  "diskwrites (rel l k) = diskwrites k" "sb (rel l k) = sb k" "icache (rel l k) = icache k"
  "devsw (rel l k) = devsw k" "ftable (rel l k) = ftable k" "pipes (rel l k) = pipes k"
  "ticks (rel l k) = ticks k" "cons_locking (rel l k) = cons_locking k"
  "panicked (rel l k) = panicked k" "input (rel l k) = input k" "uart (rel l k) = uart k" "serial (rel l k) = serial k"
  "crt (rel l k) = crt k" "crtc14 (rel l k) = crtc14 k" "crtc15 (rel l k) = crtc15 k"
  by (simp_all add: rel_def) (simp_all add: set_lock_def pop_k_def set_cpu_def)

lemma touch_sel [simp]:
  "this_cpu (touch k) = this_cpu k" "eflags_if (touch k) = eflags_if k" "locks (touch k) = locks k"
  "c_ncli (cpu_of (touch k)) = c_ncli (cpu_of k)" "c_proc (cpu_of (touch k)) = c_proc (cpu_of k)"
  "ncpu (touch k) = ncpu k" "lapic_id (touch k) = lapic_id k" "cr3 (touch k) = cr3 k"
  "tr (touch k) = tr k" "frame (touch k) = frame k" "syms (touch k) = syms k"
  "mem (touch k) = mem k" "sleeplocks (touch k) = sleeplocks k" "ptable (touch k) = ptable k"
  "nextpid (touch k) = nextpid k" "forkret_first (touch k) = forkret_first k"
  "initproc (touch k) = initproc k" "use_lock (touch k) = use_lock k"
  "freelist (touch k) = freelist k" "kpgdir (touch k) = kpgdir k"
  "sharedRegions (touch k) = sharedRegions k" "bcache (touch k) = bcache k"
  "klog (touch k) = klog k" "disk (touch k) = disk k" "disksize (touch k) = disksize k"
  "diskwrites (touch k) = diskwrites k" "sb (touch k) = sb k" "icache (touch k) = icache k"
  "devsw (touch k) = devsw k" "ftable (touch k) = ftable k" "pipes (touch k) = pipes k"
  "ticks (touch k) = ticks k" "cons_locking (touch k) = cons_locking k"
  "panicked (touch k) = panicked k" "input (touch k) = input k" "uart (touch k) = uart k" "serial (touch k) = serial k"
  "crt (touch k) = crt k" "crtc14 (touch k) = crtc14 k" "crtc15 (touch k) = crtc15 k"
  by (simp_all add: touch_def) (simp_all add: set_lock_def set_cpu_def)

lemma lock_mine_acq: "cpu_ok k \<Longrightarrow> lock_mine l (acq l k)"
  by (auto simp: lock_mine_def cpu_ok_def, simp_all add: acq_def)

lemma lock_free_other:
  "l' \<noteq> l \<Longrightarrow> lock_free l' (acq l k) = lock_free l' k"
  "l' \<noteq> l \<Longrightarrow> lock_free l' (rel l k) = lock_free l' k"
  "lock_free l' (touch k) = lock_free l' k"
  by (simp_all add: lock_free_def)

lemma cpu_ok_acq: "cpu_ok k \<Longrightarrow> cpu_ok (acq l k)"
  by (simp add: cpu_ok_def)

lemma cpu_ok_mine: "lock_mine l k \<Longrightarrow> cpu_ok k"
  by (auto simp: lock_mine_def cpu_ok_def)

lemma cpu_ok_rel: "lock_mine l k \<Longrightarrow> cpu_ok (rel l k)"
  by (auto simp: lock_mine_def cpu_ok_def, simp add: rel_def pop_k_def)

lemma cpu_ok_touch: "cpu_ok k \<Longrightarrow> cpu_ok (touch k)"
  by (simp add: cpu_ok_def)

text \<open>Other fields play no part in the state of locks and processors.\<close>

lemma this_cpu_field [simp]:
  "this_cpu (k\<lparr>cr3 := x0\<rparr>) = this_cpu k"
  "this_cpu (k\<lparr>tr := x1\<rparr>) = this_cpu k"
  "this_cpu (k\<lparr>frame := x2\<rparr>) = this_cpu k"
  "this_cpu (k\<lparr>syms := x3\<rparr>) = this_cpu k"
  "this_cpu (k\<lparr>mem := x4\<rparr>) = this_cpu k"
  "this_cpu (k\<lparr>sleeplocks := x5\<rparr>) = this_cpu k"
  "this_cpu (k\<lparr>ptable := x6\<rparr>) = this_cpu k"
  "this_cpu (k\<lparr>nextpid := x7\<rparr>) = this_cpu k"
  "this_cpu (k\<lparr>forkret_first := x8\<rparr>) = this_cpu k"
  "this_cpu (k\<lparr>initproc := x9\<rparr>) = this_cpu k"
  "this_cpu (k\<lparr>use_lock := x10\<rparr>) = this_cpu k"
  "this_cpu (k\<lparr>freelist := x11\<rparr>) = this_cpu k"
  "this_cpu (k\<lparr>kpgdir := x12\<rparr>) = this_cpu k"
  "this_cpu (k\<lparr>sharedRegions := x13\<rparr>) = this_cpu k"
  "this_cpu (k\<lparr>bcache := x14\<rparr>) = this_cpu k"
  "this_cpu (k\<lparr>klog := x15\<rparr>) = this_cpu k"
  "this_cpu (k\<lparr>disk := x16\<rparr>) = this_cpu k"
  "this_cpu (k\<lparr>disksize := x17\<rparr>) = this_cpu k"
  "this_cpu (k\<lparr>diskwrites := x18\<rparr>) = this_cpu k"
  "this_cpu (k\<lparr>sb := x19\<rparr>) = this_cpu k"
  "this_cpu (k\<lparr>icache := x20\<rparr>) = this_cpu k"
  "this_cpu (k\<lparr>devsw := x21\<rparr>) = this_cpu k"
  "this_cpu (k\<lparr>ftable := x22\<rparr>) = this_cpu k"
  "this_cpu (k\<lparr>pipes := x23\<rparr>) = this_cpu k"
  "this_cpu (k\<lparr>ticks := x24\<rparr>) = this_cpu k"
  "this_cpu (k\<lparr>cons_locking := x25\<rparr>) = this_cpu k"
  "this_cpu (k\<lparr>panicked := x26\<rparr>) = this_cpu k"
  "this_cpu (k\<lparr>input := x27\<rparr>) = this_cpu k"
  "this_cpu (k\<lparr>uart := x28\<rparr>) = this_cpu k"
  "this_cpu (k\<lparr>serial := x29\<rparr>) = this_cpu k"
  "this_cpu (k\<lparr>crt := x30\<rparr>) = this_cpu k"
  "this_cpu (k\<lparr>crtc14 := x31\<rparr>) = this_cpu k"
  "this_cpu (k\<lparr>crtc15 := x32\<rparr>) = this_cpu k"
  by (simp_all add: this_cpu_def)

lemma cpu_of_field [simp]:
  "cpu_of (k\<lparr>cr3 := x0\<rparr>) = cpu_of k"
  "cpu_of (k\<lparr>tr := x1\<rparr>) = cpu_of k"
  "cpu_of (k\<lparr>frame := x2\<rparr>) = cpu_of k"
  "cpu_of (k\<lparr>syms := x3\<rparr>) = cpu_of k"
  "cpu_of (k\<lparr>mem := x4\<rparr>) = cpu_of k"
  "cpu_of (k\<lparr>sleeplocks := x5\<rparr>) = cpu_of k"
  "cpu_of (k\<lparr>ptable := x6\<rparr>) = cpu_of k"
  "cpu_of (k\<lparr>nextpid := x7\<rparr>) = cpu_of k"
  "cpu_of (k\<lparr>forkret_first := x8\<rparr>) = cpu_of k"
  "cpu_of (k\<lparr>initproc := x9\<rparr>) = cpu_of k"
  "cpu_of (k\<lparr>use_lock := x10\<rparr>) = cpu_of k"
  "cpu_of (k\<lparr>freelist := x11\<rparr>) = cpu_of k"
  "cpu_of (k\<lparr>kpgdir := x12\<rparr>) = cpu_of k"
  "cpu_of (k\<lparr>sharedRegions := x13\<rparr>) = cpu_of k"
  "cpu_of (k\<lparr>bcache := x14\<rparr>) = cpu_of k"
  "cpu_of (k\<lparr>klog := x15\<rparr>) = cpu_of k"
  "cpu_of (k\<lparr>disk := x16\<rparr>) = cpu_of k"
  "cpu_of (k\<lparr>disksize := x17\<rparr>) = cpu_of k"
  "cpu_of (k\<lparr>diskwrites := x18\<rparr>) = cpu_of k"
  "cpu_of (k\<lparr>sb := x19\<rparr>) = cpu_of k"
  "cpu_of (k\<lparr>icache := x20\<rparr>) = cpu_of k"
  "cpu_of (k\<lparr>devsw := x21\<rparr>) = cpu_of k"
  "cpu_of (k\<lparr>ftable := x22\<rparr>) = cpu_of k"
  "cpu_of (k\<lparr>pipes := x23\<rparr>) = cpu_of k"
  "cpu_of (k\<lparr>ticks := x24\<rparr>) = cpu_of k"
  "cpu_of (k\<lparr>cons_locking := x25\<rparr>) = cpu_of k"
  "cpu_of (k\<lparr>panicked := x26\<rparr>) = cpu_of k"
  "cpu_of (k\<lparr>input := x27\<rparr>) = cpu_of k"
  "cpu_of (k\<lparr>uart := x28\<rparr>) = cpu_of k"
  "cpu_of (k\<lparr>serial := x29\<rparr>) = cpu_of k"
  "cpu_of (k\<lparr>crt := x30\<rparr>) = cpu_of k"
  "cpu_of (k\<lparr>crtc14 := x31\<rparr>) = cpu_of k"
  "cpu_of (k\<lparr>crtc15 := x32\<rparr>) = cpu_of k"
  by (simp_all add: cpu_of_def)

lemma cpu_ok_field [simp]:
  "cpu_ok (k\<lparr>cr3 := x0\<rparr>) = cpu_ok k"
  "cpu_ok (k\<lparr>tr := x1\<rparr>) = cpu_ok k"
  "cpu_ok (k\<lparr>frame := x2\<rparr>) = cpu_ok k"
  "cpu_ok (k\<lparr>syms := x3\<rparr>) = cpu_ok k"
  "cpu_ok (k\<lparr>mem := x4\<rparr>) = cpu_ok k"
  "cpu_ok (k\<lparr>sleeplocks := x5\<rparr>) = cpu_ok k"
  "cpu_ok (k\<lparr>ptable := x6\<rparr>) = cpu_ok k"
  "cpu_ok (k\<lparr>nextpid := x7\<rparr>) = cpu_ok k"
  "cpu_ok (k\<lparr>forkret_first := x8\<rparr>) = cpu_ok k"
  "cpu_ok (k\<lparr>initproc := x9\<rparr>) = cpu_ok k"
  "cpu_ok (k\<lparr>use_lock := x10\<rparr>) = cpu_ok k"
  "cpu_ok (k\<lparr>freelist := x11\<rparr>) = cpu_ok k"
  "cpu_ok (k\<lparr>kpgdir := x12\<rparr>) = cpu_ok k"
  "cpu_ok (k\<lparr>sharedRegions := x13\<rparr>) = cpu_ok k"
  "cpu_ok (k\<lparr>bcache := x14\<rparr>) = cpu_ok k"
  "cpu_ok (k\<lparr>klog := x15\<rparr>) = cpu_ok k"
  "cpu_ok (k\<lparr>disk := x16\<rparr>) = cpu_ok k"
  "cpu_ok (k\<lparr>disksize := x17\<rparr>) = cpu_ok k"
  "cpu_ok (k\<lparr>diskwrites := x18\<rparr>) = cpu_ok k"
  "cpu_ok (k\<lparr>sb := x19\<rparr>) = cpu_ok k"
  "cpu_ok (k\<lparr>icache := x20\<rparr>) = cpu_ok k"
  "cpu_ok (k\<lparr>devsw := x21\<rparr>) = cpu_ok k"
  "cpu_ok (k\<lparr>ftable := x22\<rparr>) = cpu_ok k"
  "cpu_ok (k\<lparr>pipes := x23\<rparr>) = cpu_ok k"
  "cpu_ok (k\<lparr>ticks := x24\<rparr>) = cpu_ok k"
  "cpu_ok (k\<lparr>cons_locking := x25\<rparr>) = cpu_ok k"
  "cpu_ok (k\<lparr>panicked := x26\<rparr>) = cpu_ok k"
  "cpu_ok (k\<lparr>input := x27\<rparr>) = cpu_ok k"
  "cpu_ok (k\<lparr>uart := x28\<rparr>) = cpu_ok k"
  "cpu_ok (k\<lparr>serial := x29\<rparr>) = cpu_ok k"
  "cpu_ok (k\<lparr>crt := x30\<rparr>) = cpu_ok k"
  "cpu_ok (k\<lparr>crtc14 := x31\<rparr>) = cpu_ok k"
  "cpu_ok (k\<lparr>crtc15 := x32\<rparr>) = cpu_ok k"
  by (simp_all add: cpu_ok_def)

lemma lock_free_field [simp]:
  "lock_free l (k\<lparr>cr3 := x0\<rparr>) = lock_free l k"
  "lock_free l (k\<lparr>tr := x1\<rparr>) = lock_free l k"
  "lock_free l (k\<lparr>frame := x2\<rparr>) = lock_free l k"
  "lock_free l (k\<lparr>syms := x3\<rparr>) = lock_free l k"
  "lock_free l (k\<lparr>mem := x4\<rparr>) = lock_free l k"
  "lock_free l (k\<lparr>sleeplocks := x5\<rparr>) = lock_free l k"
  "lock_free l (k\<lparr>ptable := x6\<rparr>) = lock_free l k"
  "lock_free l (k\<lparr>nextpid := x7\<rparr>) = lock_free l k"
  "lock_free l (k\<lparr>forkret_first := x8\<rparr>) = lock_free l k"
  "lock_free l (k\<lparr>initproc := x9\<rparr>) = lock_free l k"
  "lock_free l (k\<lparr>use_lock := x10\<rparr>) = lock_free l k"
  "lock_free l (k\<lparr>freelist := x11\<rparr>) = lock_free l k"
  "lock_free l (k\<lparr>kpgdir := x12\<rparr>) = lock_free l k"
  "lock_free l (k\<lparr>sharedRegions := x13\<rparr>) = lock_free l k"
  "lock_free l (k\<lparr>bcache := x14\<rparr>) = lock_free l k"
  "lock_free l (k\<lparr>klog := x15\<rparr>) = lock_free l k"
  "lock_free l (k\<lparr>disk := x16\<rparr>) = lock_free l k"
  "lock_free l (k\<lparr>disksize := x17\<rparr>) = lock_free l k"
  "lock_free l (k\<lparr>diskwrites := x18\<rparr>) = lock_free l k"
  "lock_free l (k\<lparr>sb := x19\<rparr>) = lock_free l k"
  "lock_free l (k\<lparr>icache := x20\<rparr>) = lock_free l k"
  "lock_free l (k\<lparr>devsw := x21\<rparr>) = lock_free l k"
  "lock_free l (k\<lparr>ftable := x22\<rparr>) = lock_free l k"
  "lock_free l (k\<lparr>pipes := x23\<rparr>) = lock_free l k"
  "lock_free l (k\<lparr>ticks := x24\<rparr>) = lock_free l k"
  "lock_free l (k\<lparr>cons_locking := x25\<rparr>) = lock_free l k"
  "lock_free l (k\<lparr>panicked := x26\<rparr>) = lock_free l k"
  "lock_free l (k\<lparr>input := x27\<rparr>) = lock_free l k"
  "lock_free l (k\<lparr>uart := x28\<rparr>) = lock_free l k"
  "lock_free l (k\<lparr>serial := x29\<rparr>) = lock_free l k"
  "lock_free l (k\<lparr>crt := x30\<rparr>) = lock_free l k"
  "lock_free l (k\<lparr>crtc14 := x31\<rparr>) = lock_free l k"
  "lock_free l (k\<lparr>crtc15 := x32\<rparr>) = lock_free l k"
  by (simp_all add: lock_free_def)

lemma lock_mine_field [simp]:
  "lock_mine l (k\<lparr>cr3 := x0\<rparr>) = lock_mine l k"
  "lock_mine l (k\<lparr>tr := x1\<rparr>) = lock_mine l k"
  "lock_mine l (k\<lparr>frame := x2\<rparr>) = lock_mine l k"
  "lock_mine l (k\<lparr>syms := x3\<rparr>) = lock_mine l k"
  "lock_mine l (k\<lparr>mem := x4\<rparr>) = lock_mine l k"
  "lock_mine l (k\<lparr>sleeplocks := x5\<rparr>) = lock_mine l k"
  "lock_mine l (k\<lparr>ptable := x6\<rparr>) = lock_mine l k"
  "lock_mine l (k\<lparr>nextpid := x7\<rparr>) = lock_mine l k"
  "lock_mine l (k\<lparr>forkret_first := x8\<rparr>) = lock_mine l k"
  "lock_mine l (k\<lparr>initproc := x9\<rparr>) = lock_mine l k"
  "lock_mine l (k\<lparr>use_lock := x10\<rparr>) = lock_mine l k"
  "lock_mine l (k\<lparr>freelist := x11\<rparr>) = lock_mine l k"
  "lock_mine l (k\<lparr>kpgdir := x12\<rparr>) = lock_mine l k"
  "lock_mine l (k\<lparr>sharedRegions := x13\<rparr>) = lock_mine l k"
  "lock_mine l (k\<lparr>bcache := x14\<rparr>) = lock_mine l k"
  "lock_mine l (k\<lparr>klog := x15\<rparr>) = lock_mine l k"
  "lock_mine l (k\<lparr>disk := x16\<rparr>) = lock_mine l k"
  "lock_mine l (k\<lparr>disksize := x17\<rparr>) = lock_mine l k"
  "lock_mine l (k\<lparr>diskwrites := x18\<rparr>) = lock_mine l k"
  "lock_mine l (k\<lparr>sb := x19\<rparr>) = lock_mine l k"
  "lock_mine l (k\<lparr>icache := x20\<rparr>) = lock_mine l k"
  "lock_mine l (k\<lparr>devsw := x21\<rparr>) = lock_mine l k"
  "lock_mine l (k\<lparr>ftable := x22\<rparr>) = lock_mine l k"
  "lock_mine l (k\<lparr>pipes := x23\<rparr>) = lock_mine l k"
  "lock_mine l (k\<lparr>ticks := x24\<rparr>) = lock_mine l k"
  "lock_mine l (k\<lparr>cons_locking := x25\<rparr>) = lock_mine l k"
  "lock_mine l (k\<lparr>panicked := x26\<rparr>) = lock_mine l k"
  "lock_mine l (k\<lparr>input := x27\<rparr>) = lock_mine l k"
  "lock_mine l (k\<lparr>uart := x28\<rparr>) = lock_mine l k"
  "lock_mine l (k\<lparr>serial := x29\<rparr>) = lock_mine l k"
  "lock_mine l (k\<lparr>crt := x30\<rparr>) = lock_mine l k"
  "lock_mine l (k\<lparr>crtc14 := x31\<rparr>) = lock_mine l k"
  "lock_mine l (k\<lparr>crtc15 := x32\<rparr>) = lock_mine l k"
  by (simp_all add: lock_mine_def)

section \<open>Critical sections\<close>

text \<open>
  \<open>synced k k'\<close>: \<open>k'\<close> is \<open>k\<close> up to what matched lock and interrupt operations may leave behind: the
  debugging fields of free locks, and the saved interrupt flag of a processor at depth 0.
\<close>

definition cpu_same :: "cpu \<Rightarrow> cpu \<Rightarrow> bool" where
  "cpu_same a b \<longleftrightarrow> b = a\<lparr>c_intena := c_intena b\<rparr> \<and> (c_ncli a \<noteq> 0 \<longrightarrow> c_intena b = c_intena a)"

definition lock_same :: "spinlock \<Rightarrow> spinlock \<Rightarrow> bool" where
  "lock_same a b \<longleftrightarrow> lk_locked b = lk_locked a \<and> lk_name b = lk_name a \<and>
     (lk_locked a \<noteq> 0 \<longrightarrow> b = a)"

definition synced :: "kernel \<Rightarrow> kernel \<Rightarrow> bool" where
  "synced k k' \<longleftrightarrow> k' = k\<lparr>cpus := cpus k', locks := locks k'\<rparr> \<and>
     (\<forall>c. cpu_same (cpus k c) (cpus k' c)) \<and> (\<forall>l. lock_same (locks k l) (locks k' l))"

definition unsync :: "kernel \<Rightarrow> kernel \<Rightarrow> kernel" where
  "unsync k K = K\<lparr>cpus := cpus k, locks := locks k, eflags_if := eflags_if k\<rparr>"

lemma cpu_same_refl [simp]: "cpu_same a a"
  by (simp add: cpu_same_def)

lemma lock_same_refl [simp]: "lock_same a a"
  by (simp add: lock_same_def)

lemma cpu_same_sel:
  "cpu_same a b \<Longrightarrow> c_ncli b = c_ncli a" "cpu_same a b \<Longrightarrow> c_proc b = c_proc a"
  "cpu_same a b \<Longrightarrow> c_apicid b = c_apicid a"
  by (auto simp: cpu_same_def, (metis cpu.select_convs cpu.surjective cpu.update_convs)+)

lemma cpu_same_trans: "cpu_same a b \<Longrightarrow> cpu_same b c \<Longrightarrow> cpu_same a c"
  using cpu_same_sel(1)[of a b]
  by (cases a; cases b; cases c) (auto simp: cpu_same_def)

lemma lock_same_trans: "lock_same a b \<Longrightarrow> lock_same b c \<Longrightarrow> lock_same a c"
  by (auto simp: lock_same_def)

lemma synced_refl [simp]: "synced k k"
  by (simp add: synced_def)

lemma synced_trans:
  assumes "synced a b" "synced b c"
  shows "synced a c"
proof -
  have "c = a\<lparr>cpus := cpus c, locks := locks c\<rparr>"
    using assms by (cases a; cases b; cases c) (simp add: synced_def)
  then show ?thesis
    using assms cpu_same_trans lock_same_trans unfolding synced_def by blast
qed

lemma syncedE:
  assumes "synced k k'"
  obtains cs ls where "k' = k\<lparr>cpus := cs, locks := ls\<rparr>"
    "\<And>c. cpu_same (cpus k c) (cs c)" "\<And>l. lock_same (locks k l) (ls l)"
  using assms unfolding synced_def by blast

lemma synced_cpu:
  assumes "synced k k'"
  shows "this_cpu k' = this_cpu k" "c_ncli (cpu_of k') = c_ncli (cpu_of k)"
    "c_proc (cpu_of k') = c_proc (cpu_of k)" "eflags_if k' = eflags_if k"
proof -
  from assms obtain cs ls where k': "k' = k\<lparr>cpus := cs, locks := ls\<rparr>"
    and cs: "\<And>c. cpu_same (cpus k c) (cs c)" by (metis syncedE)
  show t: "this_cpu k' = this_cpu k" by (simp add: this_cpu_def k' cpu_same_sel(3)[OF cs])
  show "c_ncli (cpu_of k') = c_ncli (cpu_of k)" "c_proc (cpu_of k') = c_proc (cpu_of k)"
    unfolding cpu_of_def t by (simp_all add: k' cpu_same_sel[OF cs])
  show "eflags_if k' = eflags_if k" by (simp add: k')
qed

lemma synced_locks:
  assumes "synced k k'"
  shows "lock_free l k' = lock_free l k" "lock_mine l k \<Longrightarrow> lock_mine l k'" "cpu_ok k' = cpu_ok k"
proof -
  have "lock_same (locks k l) (locks k' l)" using assms by (simp add: synced_def)
  then show "lock_free l k' = lock_free l k" "lock_mine l k \<Longrightarrow> lock_mine l k'"
    by (auto simp: lock_free_def lock_mine_def lock_same_def synced_cpu[OF assms])
  show "cpu_ok k' = cpu_ok k" by (simp add: cpu_ok_def synced_cpu[OF assms])
qed

lemma synced_touch: "synced k (touch k)"
  by (auto simp: synced_def touch_def set_cpu_def cpu_of_def cpu_same_def)

lemma unsync_upd [simp]:
  "unsync k (K\<lparr>cpus := x\<rparr>) = unsync k K" "unsync k (K\<lparr>locks := y\<rparr>) = unsync k K"
  "unsync k (K\<lparr>eflags_if := z\<rparr>) = unsync k K" "unsync k k = k"
  "unsync k (K\<lparr>ncpu := x0\<rparr>) = (unsync k K)\<lparr>ncpu := x0\<rparr>"
  "unsync k (K\<lparr>lapic_id := x1\<rparr>) = (unsync k K)\<lparr>lapic_id := x1\<rparr>"
  "unsync k (K\<lparr>cr3 := x2\<rparr>) = (unsync k K)\<lparr>cr3 := x2\<rparr>"
  "unsync k (K\<lparr>tr := x3\<rparr>) = (unsync k K)\<lparr>tr := x3\<rparr>"
  "unsync k (K\<lparr>frame := x4\<rparr>) = (unsync k K)\<lparr>frame := x4\<rparr>"
  "unsync k (K\<lparr>syms := x5\<rparr>) = (unsync k K)\<lparr>syms := x5\<rparr>"
  "unsync k (K\<lparr>mem := x6\<rparr>) = (unsync k K)\<lparr>mem := x6\<rparr>"
  "unsync k (K\<lparr>sleeplocks := x7\<rparr>) = (unsync k K)\<lparr>sleeplocks := x7\<rparr>"
  "unsync k (K\<lparr>ptable := x8\<rparr>) = (unsync k K)\<lparr>ptable := x8\<rparr>"
  "unsync k (K\<lparr>nextpid := x9\<rparr>) = (unsync k K)\<lparr>nextpid := x9\<rparr>"
  "unsync k (K\<lparr>forkret_first := x10\<rparr>) = (unsync k K)\<lparr>forkret_first := x10\<rparr>"
  "unsync k (K\<lparr>initproc := x11\<rparr>) = (unsync k K)\<lparr>initproc := x11\<rparr>"
  "unsync k (K\<lparr>use_lock := x12\<rparr>) = (unsync k K)\<lparr>use_lock := x12\<rparr>"
  "unsync k (K\<lparr>freelist := x13\<rparr>) = (unsync k K)\<lparr>freelist := x13\<rparr>"
  "unsync k (K\<lparr>kpgdir := x14\<rparr>) = (unsync k K)\<lparr>kpgdir := x14\<rparr>"
  "unsync k (K\<lparr>sharedRegions := x15\<rparr>) = (unsync k K)\<lparr>sharedRegions := x15\<rparr>"
  "unsync k (K\<lparr>bcache := x16\<rparr>) = (unsync k K)\<lparr>bcache := x16\<rparr>"
  "unsync k (K\<lparr>klog := x17\<rparr>) = (unsync k K)\<lparr>klog := x17\<rparr>"
  "unsync k (K\<lparr>disk := x18\<rparr>) = (unsync k K)\<lparr>disk := x18\<rparr>"
  "unsync k (K\<lparr>disksize := x19\<rparr>) = (unsync k K)\<lparr>disksize := x19\<rparr>"
  "unsync k (K\<lparr>diskwrites := x20\<rparr>) = (unsync k K)\<lparr>diskwrites := x20\<rparr>"
  "unsync k (K\<lparr>sb := x21\<rparr>) = (unsync k K)\<lparr>sb := x21\<rparr>"
  "unsync k (K\<lparr>icache := x22\<rparr>) = (unsync k K)\<lparr>icache := x22\<rparr>"
  "unsync k (K\<lparr>devsw := x23\<rparr>) = (unsync k K)\<lparr>devsw := x23\<rparr>"
  "unsync k (K\<lparr>ftable := x24\<rparr>) = (unsync k K)\<lparr>ftable := x24\<rparr>"
  "unsync k (K\<lparr>pipes := x25\<rparr>) = (unsync k K)\<lparr>pipes := x25\<rparr>"
  "unsync k (K\<lparr>ticks := x26\<rparr>) = (unsync k K)\<lparr>ticks := x26\<rparr>"
  "unsync k (K\<lparr>cons_locking := x27\<rparr>) = (unsync k K)\<lparr>cons_locking := x27\<rparr>"
  "unsync k (K\<lparr>panicked := x28\<rparr>) = (unsync k K)\<lparr>panicked := x28\<rparr>"
  "unsync k (K\<lparr>input := x29\<rparr>) = (unsync k K)\<lparr>input := x29\<rparr>"
  "unsync k (K\<lparr>uart := xu\<rparr>) = (unsync k K)\<lparr>uart := xu\<rparr>"
  "unsync k (K\<lparr>serial := x30\<rparr>) = (unsync k K)\<lparr>serial := x30\<rparr>"
  "unsync k (K\<lparr>crt := x31\<rparr>) = (unsync k K)\<lparr>crt := x31\<rparr>"
  "unsync k (K\<lparr>crtc14 := x32\<rparr>) = (unsync k K)\<lparr>crtc14 := x32\<rparr>"
  "unsync k (K\<lparr>crtc15 := x33\<rparr>) = (unsync k K)\<lparr>crtc15 := x33\<rparr>"
  by (simp_all add: unsync_def)

lemma unsync_acq [simp]: "unsync k (acq l k) = k"
  by (simp add: acq_def push_k_def set_lock_def set_cpu_def)

lemma unsync_rel [simp]: "unsync k (rel l K) = unsync k K"
  by (simp add: rel_def pop_k_def set_lock_def set_cpu_def unsync_def)

text \<open>
  Releasing after acquiring, whatever the section changed besides locks and interrupt state (\<open>K\<close> is
  the state at the end of the section).
\<close>

lemma critical_synced:
  assumes ok: "cpu_ok k" and free: "lock_free l k"
    and K: "cpus K = cpus (acq l k)" "locks K = locks (acq l k)" "\<not> eflags_if K"
    "lapic_id K = lapic_id k" "ncpu K = ncpu k"
  shows "synced (unsync k K) (rel l K)"
proof -
  obtain c where c: "this_cpu k = Some c" using ok by (auto simp: cpu_ok_def)
  have tK: "this_cpu K = Some c"
    using c K acq_sel(1)[of l k] by (simp add: this_cpu_def)
  have cK: "cpus K = cpus (push_k k)" using K(1) by (simp add: acq_def)
  have e: "eflags_if (rel l K) = eflags_if k"
    using ok c by (auto simp: rel_def pop_k_def cpu_of_def tK cK push_k_def set_cpu_def cpu_ok_def)
  have cp: "cpu_same (cpus k i) (cpus (rel l K) i)" for i
    using ok c by (auto simp: rel_def pop_k_def set_cpu_def cpu_of_def tK cK push_k_def cpu_ok_def cpu_same_def)
  have lk: "lock_same (locks k i) (locks (rel l K) i)" for i
    using free by (simp add: rel_def K(2)) (simp add: acq_def lock_same_def lock_free_def)
  have "rel l K = (unsync k K)\<lparr>cpus := cpus (rel l K), locks := locks (rel l K)\<rparr>"
    using e by (simp add: unsync_def)
  moreover have "cpus (unsync k K) = cpus k" "locks (unsync k K) = locks k"
    by (simp_all add: unsync_def)
  ultimately show ?thesis using cp lk by (simp add: synced_def)
qed

lemma wp_acquire:
  "cpu_ok k \<Longrightarrow> lock_free l k \<Longrightarrow> wp (acquire l) Q (k, env) = Q () (acq l k, env)"
  by (simp add: wp_def acquire_Ret)

lemma wp_release:
  "lock_mine l k \<Longrightarrow> wp (release l) Q (k, env) = Q () (rel l k, env)"
  by (simp add: wp_def release_Ret)

lemma wp_myproc:
  "cpu_ok k \<Longrightarrow> wp myproc Q (k, env) = Q (c_proc (cpu_of k)) (touch k, env)"
  by (simp add: wp_def myproc_Ret)

lemma wp_holding:
  "cpu_ok k \<Longrightarrow> wp (holding l) Q (k, env) =
     Q (lk_locked (locks k l) \<noteq> 0 \<and> lk_cpu (locks k l) = this_cpu k) (touch k, env)"
  by (simp add: wp_def holding_Ret)

text \<open>A processor with interrupts off and its saved flag: the invariant of nested \<open>pushcli\<close>s.\<close>

fun push_n :: "nat \<Rightarrow> kernel \<Rightarrow> kernel" where
  "push_n 0 k = k"
| "push_n (Suc n) k = push_k (push_n n k)"

lemma push_n_sel [simp]:
  "this_cpu (push_n n k) = this_cpu k" "c_ncli (cpu_of (push_n n k)) = c_ncli (cpu_of k) + int n"
  "0 < n \<Longrightarrow> \<not> eflags_if (push_n n k)"
  by (induction n) (auto simp: gr0_conv_Suc)

lemma cpu_ok_push_n: "cpu_ok k \<Longrightarrow> cpu_ok (push_n n k)"
  by (induction n) (simp_all add: cpu_ok_push)

lemma seqK_append: "seqK (xs @ ys) = thenK (seqK xs) (seqK ys)"
  by (induction xs) (simp_all add: thenK_def bindK_assoc)

lemma pushes_Ret: "this_cpu k \<noteq> None \<Longrightarrow> seqK (replicate n pushcli) (k, env) = Ret () (push_n n k, env)"
proof (induction n)
  case 0
  then show ?case by simp
next
  case (Suc n)
  have "replicate (Suc n) pushcli = replicate n pushcli @ [pushcli]"
    by (simp add: replicate_append_same)
  then show ?case using Suc by (simp only: seqK_append) (simp add: kM_simps pushcli_Ret)
qed

lemma pops_Ret:
  assumes "cpu_ok k" "0 < n"
  shows "seqK (replicate n popcli) (push_n n k, env) = Ret () (touch k, env)"
  using assms(2)
proof (induction n)
  case 0
  then show ?case by simp
next
  case (Suc n)
  have ok: "cpu_ok (push_n n k)" by (rule cpu_ok_push_n[OF assms(1)])
  then have "popcli (push_k (push_n n k), env) = Ret () (touch (push_n n k), env)"
    by (subst popcli_Ret) (auto simp: cpu_ok_def pop_push[OF ok])
  moreover have "touch (push_n n k) = push_n n k" if "0 < n"
    using that assms(1) by (auto simp: touch_def cpu_ok_def)
  ultimately show ?case using Suc by (cases n) (simp_all add: kM_simps)
qed

text \<open>
  It takes \<open>n\<close> \<open>popcli\<close> to undo \<open>n\<close> \<open>pushcli\<close>: interrupts are off after the pushes, and after as
  many pops the interrupt flag and the nesting depth are those from before, with nothing else
  changed but the saved flag of a processor that was at depth 0. No call panics.
\<close>

lemma pushcli_popcli_matched:
  assumes "cpu_ok k" "0 < n"
  shows "wp (seqK (replicate n pushcli))
    (\<lambda>_ (k1, env1). \<not> eflags_if k1 \<and> c_ncli (cpu_of k1) = c_ncli (cpu_of k) + int n \<and>
      wp (seqK (replicate n popcli))
        (\<lambda>_ (k2, env2). synced k k2 \<and> eflags_if k2 = eflags_if k \<and>
           c_ncli (cpu_of k2) = c_ncli (cpu_of k) \<and> env2 = env) (k1, env1)) (k, env)"
proof -
  have "this_cpu k \<noteq> None" using assms(1) by (simp add: cpu_ok_def)
  then show ?thesis
    using assms by (simp add: wp_def pushes_Ret pops_Ret synced_touch)
qed

lemma cpu_ok_zero: "cpu_ok zero_kernel" "lock_free l zero_kernel"
  by (simp_all add: cpu_ok_def this_cpu_def cpu_of_def lock_free_def zero_kernel_def)

text \<open>
  C21: A critical section: \<open>acquire\<close> of a free lock returns with the lock held by this processor and
  interrupts off; if the section then changes anything but locks and interrupt state, \<open>release\<close>
  returns, frees the lock and restores the interrupt state, keeping the section's changes.
\<close>

theorem acquire_release_critical:
  assumes "cpu_ok k" "lock_free l k"
    and "\<And>k1. lapic_id (f k1) = lapic_id k1 \<and> ncpu (f k1) = ncpu k1 \<and> cpus (f k1) = cpus k1 \<and>
           locks (f k1) = locks k1 \<and> eflags_if (f k1) = eflags_if k1"
  shows "wp (acquire l)
    (\<lambda>_ (k1, env1). lock_mine l k1 \<and> \<not> eflags_if k1 \<and>
      wp (thenK (modify f) (release l))
        (\<lambda>_ (k2, env2). lock_free l k2 \<and> eflags_if k2 = eflags_if k \<and>
           synced (unsync k (f (acq l k))) k2 \<and> env2 = env) (k1, env1)) (k, env)"
proof -
  let ?K = "f (acq l k)"
  have tc: "this_cpu ?K = this_cpu (acq l k)" using assms(3) by (simp add: this_cpu_def)
  have mine: "lock_mine l ?K"
    using lock_mine_acq[OF assms(1), of l] assms(3)[of "acq l k"]
    by (simp add: lock_mine_def tc cpu_of_def)
  have sy: "synced (unsync k ?K) (rel l ?K)"
    using assms(3)[of "acq l k"] by (intro critical_synced[OF assms(1,2)]) simp_all
  have fr: "lock_free l (rel l ?K)" "eflags_if (rel l ?K) = eflags_if k"
    using synced_locks(1)[OF sy, of l] synced_cpu(4)[OF sy] assms(2)
    by (simp_all add: lock_free_def unsync_def)
  show ?thesis
    using assms(1,2) by (simp add: wp_acquire lock_mine_acq wp_release mine fr sy)
qed

theorem acquire_release_critical_witness:
  "wp (acquire KmemLock)
    (\<lambda>_ (k1, env1). lock_mine KmemLock k1 \<and> \<not> eflags_if k1 \<and>
      wp (thenK (modify (freelist_update (\<lambda>_. 0x80400000))) (release KmemLock))
        (\<lambda>_ (k2, env2). lock_free KmemLock k2 \<and> eflags_if k2 = eflags_if zero_kernel \<and>
           synced (unsync zero_kernel ((acq KmemLock zero_kernel)\<lparr>freelist := 0x80400000\<rparr>)) k2 \<and>
           env2 = []) (k1, env1)) (zero_kernel, [])"
  by (rule acquire_release_critical) (simp_all add: cpu_ok_zero)

section \<open>Several processors on one lock\<close>

text \<open>
  The loads and stores of \<open>acquire\<close>, \<open>holding\<close> and \<open>release\<close> on one lock, interleaved over all
  processors. The program counter of a processor says which access comes next: in \<open>acquire\<close> the two
  loads of \<open>holding\<close>, the exchange and the store of the owner; in \<open>release\<close> the two loads, the store
  that clears the owner and the store that frees the lock.
\<close>

datatype spc = Outside | AcqLoadLocked | AcqLoadCpu | Xchg | SetCpu | Inside
  | RelLoadLocked | RelLoadCpu | ClearCpu | Unlock | Panicked

record smp =
  sm_locked :: uint
  sm_cpu :: "nat option"
  sm_pc :: "nat \<Rightarrow> spc"

definition goto :: "nat \<Rightarrow> spc \<Rightarrow> smp \<Rightarrow> smp" where
  "goto c l s = s\<lparr>sm_pc := (sm_pc s)(c := l)\<rparr>"

inductive smp_step :: "smp \<Rightarrow> smp \<Rightarrow> bool" where
  enter: "sm_pc s c = Outside \<Longrightarrow> smp_step s (goto c AcqLoadLocked s)"
| acq_load_locked: "sm_pc s c = AcqLoadLocked \<Longrightarrow>
    smp_step s (goto c (if sm_locked s \<noteq> 0 then AcqLoadCpu else Xchg) s)"
| acq_load_cpu: "sm_pc s c = AcqLoadCpu \<Longrightarrow>
    smp_step s (goto c (if sm_cpu s = Some c then Panicked else Xchg) s)"
| xchg: "sm_pc s c = Xchg \<Longrightarrow>
    smp_step s (goto c (if sm_locked s \<noteq> 0 then Xchg else SetCpu) (s\<lparr>sm_locked := 1\<rparr>))"
| set_owner: "sm_pc s c = SetCpu \<Longrightarrow> smp_step s (goto c Inside (s\<lparr>sm_cpu := Some c\<rparr>))"
| leave: "sm_pc s c = Inside \<Longrightarrow> smp_step s (goto c RelLoadLocked s)"
| rel_load_locked: "sm_pc s c = RelLoadLocked \<Longrightarrow>
    smp_step s (goto c (if sm_locked s \<noteq> 0 then RelLoadCpu else Panicked) s)"
| rel_load_cpu: "sm_pc s c = RelLoadCpu \<Longrightarrow>
    smp_step s (goto c (if sm_cpu s = Some c then ClearCpu else Panicked) s)"
| clear_owner: "sm_pc s c = ClearCpu \<Longrightarrow> smp_step s (goto c Unlock (s\<lparr>sm_cpu := None\<rparr>))"
| unlock: "sm_pc s c = Unlock \<Longrightarrow> smp_step s (goto c Outside (s\<lparr>sm_locked := 0\<rparr>))"

definition smp_init :: smp where
  "smp_init = \<lparr>sm_locked = 0, sm_cpu = None, sm_pc = (\<lambda>_. Outside)\<rparr>"

inductive smp_reach :: "smp \<Rightarrow> bool" where
  smp_start: "smp_reach smp_init"
| smp_next: "smp_reach s \<Longrightarrow> smp_step s s' \<Longrightarrow> smp_reach s'"

definition owns :: "spc \<Rightarrow> bool" where
  "owns l \<longleftrightarrow> l \<in> {SetCpu, Inside, RelLoadLocked, RelLoadCpu, ClearCpu, Unlock}"

definition named :: "spc \<Rightarrow> bool" where
  "named l \<longleftrightarrow> l \<in> {Inside, RelLoadLocked, RelLoadCpu, ClearCpu}"

definition smp_inv :: "smp \<Rightarrow> bool" where
  "smp_inv s \<longleftrightarrow>
     (\<forall>c d. owns (sm_pc s c) \<longrightarrow> owns (sm_pc s d) \<longrightarrow> c = d) \<and>
     (sm_locked s = 0 \<longrightarrow> (\<forall>c. \<not> owns (sm_pc s c))) \<and>
     (\<forall>c. named (sm_pc s c) \<longleftrightarrow> sm_cpu s = Some c) \<and>
     (\<forall>c. sm_pc s c \<noteq> Panicked)"

lemma smp_inv_init: "smp_inv smp_init"
  by (simp add: smp_inv_def smp_init_def owns_def named_def)

text \<open>Steps that change only the program counter, and steps of the exchange, owner and unlock stores.\<close>

lemma smp_inv_move:
  assumes "smp_inv s" "owns l = owns (sm_pc s c)" "named l = named (sm_pc s c)" "l \<noteq> Panicked"
  shows "smp_inv (goto c l s)"
  using assms unfolding smp_inv_def goto_def by (simp, metis)

lemma smp_inv_take:
  assumes "smp_inv s" "sm_pc s c = Xchg" "sm_locked s = 0"
  shows "smp_inv (goto c SetCpu (s\<lparr>sm_locked := 1\<rparr>))"
proof -
  have "named SetCpu = named (sm_pc s c)" using assms(2) by (simp add: named_def)
  then show ?thesis using assms unfolding smp_inv_def goto_def by (simp, metis)
qed

lemma smp_inv_name:
  assumes "smp_inv s" "sm_pc s c = SetCpu"
  shows "smp_inv (goto c Inside (s\<lparr>sm_cpu := Some c\<rparr>))"
proof -
  have own: "owns SetCpu" "owns Inside" "named Inside" and sub: "\<And>l. named l \<Longrightarrow> owns l"
    by (auto simp: owns_def named_def)
  have "\<not> named (sm_pc s d)" if "d \<noteq> c" for d
    using assms own(1) sub[of "sm_pc s d"] that unfolding smp_inv_def by metis
  then show ?thesis using assms own unfolding smp_inv_def goto_def by (simp, metis)
qed

lemma smp_inv_unname:
  assumes "smp_inv s" "sm_pc s c = ClearCpu"
  shows "smp_inv (goto c Unlock (s\<lparr>sm_cpu := None\<rparr>))"
proof -
  have own: "owns Unlock" "owns ClearCpu" "named ClearCpu" "\<not> named Unlock" by (auto simp: owns_def named_def)
  have "sm_cpu s = Some c" using assms own(3) unfolding smp_inv_def by metis
  then have "\<not> named (sm_pc s d)" if "d \<noteq> c" for d
    using assms(1) that unfolding smp_inv_def by simp
  then show ?thesis using assms own unfolding smp_inv_def goto_def by (simp, metis)
qed

lemma smp_inv_free:
  assumes "smp_inv s" "sm_pc s c = Unlock"
  shows "smp_inv (goto c Outside (s\<lparr>sm_locked := 0\<rparr>))"
proof -
  have own: "owns Unlock" "\<not> owns Outside" "\<not> named Unlock" "\<not> named Outside" by (auto simp: owns_def named_def)
  have "\<not> owns (sm_pc s d)" if "d \<noteq> c" for d
    using assms own(1) that unfolding smp_inv_def by metis
  moreover have "sm_cpu s \<noteq> Some c" using assms own(3) unfolding smp_inv_def by metis
  ultimately show ?thesis using assms own unfolding smp_inv_def goto_def by simp
qed

lemma smp_inv_checks:
  assumes "smp_inv s"
  shows "sm_pc s c = AcqLoadCpu \<Longrightarrow> sm_cpu s \<noteq> Some c" "sm_pc s c = RelLoadCpu \<Longrightarrow> sm_cpu s = Some c"
    "sm_pc s c = RelLoadLocked \<Longrightarrow> sm_locked s \<noteq> 0"
proof -
  have l: "\<not> named AcqLoadCpu" "named RelLoadCpu" "owns RelLoadLocked" by (auto simp: owns_def named_def)
  show "sm_pc s c = AcqLoadCpu \<Longrightarrow> sm_cpu s \<noteq> Some c" "sm_pc s c = RelLoadCpu \<Longrightarrow> sm_cpu s = Some c"
    "sm_pc s c = RelLoadLocked \<Longrightarrow> sm_locked s \<noteq> 0"
    using assms l unfolding smp_inv_def by metis+
qed

lemma smp_inv_locked: "smp_inv s \<Longrightarrow> sm_locked s \<noteq> 0 \<Longrightarrow> smp_inv (s\<lparr>sm_locked := 1\<rparr>)"
  unfolding smp_inv_def by simp

lemma smp_inv_step:
  assumes "smp_step s s'" "smp_inv s"
  shows "smp_inv s'"
  using assms(1)
proof cases
  case (enter c)
  show ?thesis unfolding enter(1) by (rule smp_inv_move[OF assms(2)]) (simp_all add: enter owns_def named_def)
next
  case (acq_load_locked c)
  show ?thesis unfolding acq_load_locked(1)
    by (rule smp_inv_move[OF assms(2)]) (simp_all add: acq_load_locked owns_def named_def)
next
  case (acq_load_cpu c)
  show ?thesis unfolding acq_load_cpu(1)
    by (rule smp_inv_move[OF assms(2)])
      (simp_all add: acq_load_cpu smp_inv_checks(1)[OF assms(2)] owns_def named_def)
next
  case (xchg c)
  show ?thesis
  proof (cases "sm_locked s = 0")
    case True
    then show ?thesis using smp_inv_take[OF assms(2) xchg(2)] xchg(1) by simp
  next
    case False
    have "smp_inv (goto c Xchg (s\<lparr>sm_locked := 1\<rparr>))"
      by (rule smp_inv_move[OF smp_inv_locked[OF assms(2) False]]) (simp_all add: xchg)
    then show ?thesis using False xchg(1) by simp
  qed
next
  case (set_owner c)
  show ?thesis unfolding set_owner(1) by (rule smp_inv_name[OF assms(2) set_owner(2)])
next
  case (leave c)
  show ?thesis unfolding leave(1) by (rule smp_inv_move[OF assms(2)]) (simp_all add: leave owns_def named_def)
next
  case (rel_load_locked c)
  show ?thesis unfolding rel_load_locked(1)
    by (rule smp_inv_move[OF assms(2)])
      (simp_all add: rel_load_locked smp_inv_checks(3)[OF assms(2) rel_load_locked(2)] owns_def named_def)
next
  case (rel_load_cpu c)
  show ?thesis unfolding rel_load_cpu(1)
    by (rule smp_inv_move[OF assms(2)])
      (simp_all add: rel_load_cpu smp_inv_checks(2)[OF assms(2)] owns_def named_def)
next
  case (clear_owner c)
  show ?thesis unfolding clear_owner(1) by (rule smp_inv_unname[OF assms(2) clear_owner(2)])
next
  case (unlock c)
  show ?thesis unfolding unlock(1) by (rule smp_inv_free[OF assms(2) unlock(2)])
qed

lemma smp_inv_reach: "smp_reach s \<Longrightarrow> smp_inv s"
  by (induction rule: smp_reach.induct) (rule smp_inv_init, rule smp_inv_step)

text \<open>Processor 3 holds the lock and processor 5 is about to try for it.\<close>

definition smp_two :: smp where
  "smp_two = \<lparr>sm_locked = 1, sm_cpu = Some 3, sm_pc = (\<lambda>_. Outside)(3 := Inside, 5 := Xchg)\<rparr>"

lemma smp_two_reach: "smp_reach smp_two"
proof -
  have 1: "smp_reach \<lparr>sm_locked = 0, sm_cpu = None, sm_pc = (\<lambda>_. Outside)(3 := AcqLoadLocked)\<rparr>"
    using smp_next[OF smp_start enter[of smp_init 3]] by (simp add: goto_def smp_init_def)
  have 2: "smp_reach \<lparr>sm_locked = 0, sm_cpu = None, sm_pc = (\<lambda>_. Outside)(3 := Xchg)\<rparr>"
    using smp_next[OF 1 acq_load_locked[where c = 3]] by (simp add: goto_def)
  have 3: "smp_reach \<lparr>sm_locked = 1, sm_cpu = None, sm_pc = (\<lambda>_. Outside)(3 := SetCpu)\<rparr>"
    using smp_next[OF 2 xchg[where c = 3]] by (simp add: goto_def)
  have 4: "smp_reach \<lparr>sm_locked = 1, sm_cpu = Some 3, sm_pc = (\<lambda>_. Outside)(3 := Inside)\<rparr>"
    using smp_next[OF 3 set_owner[where c = 3]] by (simp add: goto_def)
  have 5: "smp_reach \<lparr>sm_locked = 1, sm_cpu = Some 3, sm_pc = (\<lambda>_. Outside)(3 := Inside, 5 := AcqLoadLocked)\<rparr>"
    using smp_next[OF 4 enter[where c = 5]] by (simp add: goto_def)
  have 6: "smp_reach \<lparr>sm_locked = 1, sm_cpu = Some 3, sm_pc = (\<lambda>_. Outside)(3 := Inside, 5 := AcqLoadCpu)\<rparr>"
    using smp_next[OF 5 acq_load_locked[where c = 5]] by (simp add: goto_def)
  show ?thesis
    using smp_next[OF 6 acq_load_cpu[where c = 5]] by (simp add: goto_def smp_two_def)
qed

text \<open>
  C20: Mutual exclusion: however the loads and stores of any number of processors interleave, no two
  processors are inside the critical section at once, and no processor panics in \<open>acquire\<close> or
  \<open>release\<close>.
\<close>

theorem spinlock_mutual_exclusion:
  assumes "smp_reach s"
  shows "(\<forall>c d. sm_pc s c = Inside \<and> sm_pc s d = Inside \<longrightarrow> c = d) \<and> (\<forall>c. sm_pc s c \<noteq> Panicked)"
proof -
  have inv: "smp_inv s" by (rule smp_inv_reach[OF assms])
  have "owns Inside" by (simp add: owns_def)
  with inv show ?thesis unfolding smp_inv_def by metis
qed

theorem spinlock_mutual_exclusion_witness:
  "smp_reach smp_two \<and> sm_pc smp_two 3 = Inside \<and> sm_pc smp_two 5 \<noteq> Inside \<and> sm_pc smp_two 5 \<noteq> Panicked"
  using spinlock_mutual_exclusion[OF smp_two_reach] smp_two_reach
  by (auto simp: smp_two_def dest: spec[of _ 5])

end
