(* ===== verification/Console_Out.thy ===== *)
theory Console_Out
  imports Spinlock
begin

text \<open>
  Console output: \<open>printint\<close>, \<open>cprintf\<close>, \<open>cgaputc\<close> and \<open>consputc\<close> of \<open>console.c\<close>, and \<open>uartputc\<close> of
  \<open>uart.c\<close>. The serial line is the list of bytes sent to it; the screen is the character memory of
  the CGA adapter with the two cursor registers behind port \<open>CRTPORT\<close>. The arguments after the format
  of \<open>cprintf\<close> are a list; asking for one that is missing or of the other kind is a \<open>Fault\<close>.
\<close>

section \<open>The devices\<close>

abbreviation (input) BACKSPACE :: uint where "BACKSPACE \<equiv> 0x100"

definition uartputc :: "uint \<Rightarrow> unit kprog" where
  "uartputc c = modify (\<lambda>k. if uart k then k\<lparr>serial := serial k @ [ucast c]\<rparr> else k)"

definition cursor :: "kernel \<Rightarrow> int" where
  "cursor k = uint (crtc14 k) * 256 + uint (crtc15 k)"

definition set_cursor :: "int \<Rightarrow> kernel \<Rightarrow> kernel" where
  "set_cursor pos k = k\<lparr>crtc14 := word_of_int (pos div 256), crtc15 := word_of_int pos\<rparr>"

definition cga_scroll :: "(nat \<Rightarrow> ushort) \<Rightarrow> int \<Rightarrow> nat \<Rightarrow> ushort" where
  "cga_scroll cells pos =
     (let moved = (\<lambda>i. if i < 23 * 80 then cells (i + 80) else cells i) in
      (\<lambda>i. if pos \<le> int i \<and> int i < 24 * 80 then 0 else moved i))"

definition cga_advance :: "uint \<Rightarrow> int kprog" where
  "cga_advance c =
     bindK (gets cursor) (\<lambda>pos.
     if c = 10 then Ret (pos + (80 - pos mod 80))
     else if c = BACKSPACE then Ret (if 0 < pos then pos - 1 else pos)
     else thenK (modify (\<lambda>k. k\<lparr>crt := (crt k)(nat pos := ucast (c AND 0xff) OR 0x0700)\<rparr>))
            (Ret (pos + 1)))"

definition cga_place :: "int \<Rightarrow> unit kprog" where
  "cga_place pos =
     (if pos < 0 \<or> 25 * 80 < pos then Panic ''pos under/overflow''
      else
        bindK (if 24 \<le> pos div 80
               then thenK (modify (\<lambda>k. k\<lparr>crt := cga_scroll (crt k) (pos - 80)\<rparr>)) (Ret (pos - 80))
               else Ret pos) (\<lambda>pos.
        seqK [
          modify (set_cursor pos),
          modify (\<lambda>k. k\<lparr>crt := (crt k)(nat pos := 0x0720)\<rparr>)]))"

definition cgaputc :: "uint \<Rightarrow> unit kprog" where
  "cgaputc c = bindK (cga_advance c) cga_place"

definition consputc :: "uint \<Rightarrow> unit kprog" where
  "consputc c =
     bindK (gets panicked) (\<lambda>dead.
     if dead then thenK cli Blocked
     else thenK (if c = BACKSPACE then seqK [uartputc 8, uartputc 32, uartputc 8] else uartputc c)
            (cgaputc c))"

section \<open>Formatting\<close>

definition digit :: "uint \<Rightarrow> byte" where
  "digit d = of_char (''0123456789abcdef'' ! unat d)"

partial_function (option) itoa :: "uint \<Rightarrow> uint \<Rightarrow> byte list option" where
  "itoa base x =
     (if x div base = 0 then Some [digit (x mod base)]
      else Option.bind (itoa base (x div base)) (\<lambda>ds. Some (digit (x mod base) # ds)))"

definition printint_text :: "uint \<Rightarrow> uint \<Rightarrow> bool \<Rightarrow> byte list option" where
  "printint_text xx base sign =
     (let neg = (sign \<and> sint xx < 0); x = (if neg then - xx else xx) in
      Option.bind (itoa base x) (\<lambda>ds. Some (rev (ds @ (if neg then [45] else [])))))"

definition printint :: "uint \<Rightarrow> uint \<Rightarrow> bool \<Rightarrow> unit kprog" where
  "printint xx base sign =
     (case printint_text xx base sign of
        None \<Rightarrow> Blocked
      | Some txt \<Rightarrow> forK txt (\<lambda>b. consputc (ucast b)))"

datatype carg = CInt uint | CStr "byte list option"

definition string_bytes :: "string \<Rightarrow> byte list" where
  "string_bytes s = map of_char s"

fun cprintf_loop :: "string \<Rightarrow> carg list \<Rightarrow> unit kprog" where
  "cprintf_loop [] args = Ret ()"
| "cprintf_loop (c # fmt) args =
     (if c \<noteq> CHR ''%'' then thenK (consputc (of_char c)) (cprintf_loop fmt args)
      else case fmt of
        [] \<Rightarrow> Ret ()
      | c' # fmt' \<Rightarrow>
          if c' = CHR ''d'' then
            (case args of CInt x # args' \<Rightarrow> thenK (printint x 10 True) (cprintf_loop fmt' args')
             | _ \<Rightarrow> Fault ''cprintf argument'')
          else if c' = CHR ''x'' \<or> c' = CHR ''p'' then
            (case args of CInt x # args' \<Rightarrow> thenK (printint x 16 False) (cprintf_loop fmt' args')
             | _ \<Rightarrow> Fault ''cprintf argument'')
          else if c' = CHR ''s'' then
            (case args of CStr s # args' \<Rightarrow>
               thenK (forK (case s of None \<Rightarrow> string_bytes ''(null)'' | Some bs \<Rightarrow> takeWhile (\<lambda>b. b \<noteq> 0) bs)
                       (\<lambda>b. consputc (ucast b)))
                 (cprintf_loop fmt' args')
             | _ \<Rightarrow> Fault ''cprintf argument'')
          else if c' = CHR ''%'' then thenK (consputc 37) (cprintf_loop fmt' args)
          else thenK (consputc 37) (thenK (consputc (of_char c')) (cprintf_loop fmt' args)))"

definition cprintf :: "string \<Rightarrow> carg list \<Rightarrow> unit kprog" where
  "cprintf fmt args =
     bindK (gets cons_locking) (\<lambda>locking.
     seqK [
       whenK locking (acquire ConsLock),
       cprintf_loop fmt args,
       whenK locking (release ConsLock)])"

section \<open>Numbers\<close>

text \<open>Reading a number back: the value of a digit character, and of a digit string.\<close>

definition digit_val :: "byte \<Rightarrow> nat" where
  "digit_val b = (if b < 58 then unat b - 48 else unat b - 87)"

definition number_of :: "nat \<Rightarrow> byte list \<Rightarrow> nat" where
  "number_of base bs = foldl (\<lambda>n b. base * n + digit_val b) 0 bs"

lemma digit_vals: "map (\<lambda>c. digit_val (of_char c)) ''0123456789abcdef'' = [0..<16]"
  by code_simp

lemma digit_val_digit: "unat d < 16 \<Longrightarrow> digit_val (digit d) = unat d"
  using arg_cong[OF digit_vals, of "\<lambda>xs. xs ! unat d"] by (simp add: digit_def nth_map del: list.map)

lemma itoa_value:
  assumes "2 \<le> unat base" "unat base \<le> 16"
  shows "\<exists>ds. itoa base x = Some ds \<and> number_of (unat base) (rev ds) = unat x \<and>
    0 < length ds \<and> unat base ^ (length ds - 1) \<le> max 1 (unat x)"
proof (induction "unat x" arbitrary: x rule: less_induct)
  case less
  have d: "unat (x div base) = unat x div unat base" and m: "unat (x mod base) = unat x mod unat base"
    by (simp_all add: unat_div unat_mod)
  have dv: "digit_val (digit (x mod base)) = unat x mod unat base"
    using assms m by (simp add: digit_val_digit less_le_trans[OF mod_less_divisor])
  show ?case
  proof (cases "x div base = 0")
    case True
    then have "unat x div unat base = 0" using d by simp
    then have "unat x mod unat base = unat x" using assms by (auto simp: div_eq_0_iff)
    then show ?thesis using True dv by (simp add: itoa.simps number_of_def)
  next
    case False
    then have "0 < unat x div unat base" using d by (metis gr0I unat_eq_0)
    then have lt: "unat (x div base) < unat x" and ge: "unat base \<le> unat x"
      using assms d by (simp_all add: div_less_dividend div_greater_zero_iff)
    from less[OF lt] obtain ds where ds: "itoa base (x div base) = Some ds"
      "number_of (unat base) (rev ds) = unat (x div base)" "0 < length ds"
      "unat base ^ (length ds - 1) \<le> max 1 (unat (x div base))" by blast
    have "number_of (unat base) (rev (digit (x mod base) # ds)) = unat x"
      using ds(2) dv d by (simp add: number_of_def)
    moreover have "unat base ^ length ds \<le> unat x"
    proof -
      have "unat base ^ (length ds - 1) \<le> unat x div unat base"
        using ds(4) \<open>0 < unat x div unat base\<close> d by simp
      then have "unat base * unat base ^ (length ds - 1) \<le> unat base * (unat x div unat base)" by simp
      also have "\<dots> \<le> unat x" by simp
      finally show ?thesis using ds(3) by (simp add: power_eq_if)
    qed
    ultimately show ?thesis using False ds(1) by (simp add: itoa.simps[of base x])
  qed
qed

lemma itoa_length:
  assumes "10 \<le> unat base" "unat base \<le> 16" "itoa base x = Some ds"
  shows "length ds \<le> 10"
proof -
  obtain ds' where ds': "itoa base x = Some ds'" "unat base ^ (length ds' - 1) \<le> max 1 (unat x)"
    using itoa_value[of base x] assms by auto
  have "(10::nat) ^ (length ds - 1) \<le> unat base ^ (length ds - 1)"
    using assms(1) by (rule power_mono) simp
  also have "\<dots> < 10 ^ 10" using ds' assms(3) unat_uint_less[of x] by (simp add: max_def split: if_splits)
  finally have "length ds - 1 < 10" by (rule power_less_imp_less_exp[rotated]) simp
  then show ?thesis by simp
qed

text \<open>
  C39: \<open>printint\<close> returns a text that fits its 16-byte buffer, and the text reads back as the number
  printed: the two's-complement value with its sign in signed mode, the unsigned value otherwise.
\<close>

theorem printint_correct:
  assumes "base = 10 \<or> base = 16"
  shows "\<exists>txt. printint_text xx base sign = Some txt \<and> length txt \<le> 16 \<and>
    (if sign \<and> sint xx < 0 then hd txt = 45 \<and> int (number_of (unat base) (tl txt)) = - sint xx
     else number_of (unat base) txt = unat xx)"
proof -
  define x where "x = (if sign \<and> sint xx < 0 then - xx else xx)"
  have b: "10 \<le> unat base" "unat base \<le> 16" using assms by auto
  obtain ds where ds: "itoa base x = Some ds" "number_of (unat base) (rev ds) = unat x"
    using itoa_value[of base x] b by auto
  have len: "length ds \<le> 10" by (rule itoa_length[OF b ds(1)])
  have "int (unat (- xx)) = - sint xx" if "sint xx < 0"
  proof -
    have "- xx = word_of_int (- sint xx)" by simp
    then have "uint (- xx) = - sint xx mod 2 ^ 32" by (simp only: unsigned_of_int) (simp add: take_bit_eq_mod)
    moreover have "- (2 ^ 31) \<le> sint xx" using sint_greater_eq[of xx] by simp
    ultimately show ?thesis using that by simp
  qed
  then show ?thesis using ds len by (auto simp: printint_text_def x_def Let_def)
qed

theorem printint_correct_witness:
  "\<exists>txt. printint_text (- 42) 10 True = Some txt \<and> length txt \<le> 16 \<and>
    (if True \<and> sint (- 42 :: uint) < 0
     then hd txt = 45 \<and> int (number_of (unat (10 :: uint)) (tl txt)) = - sint (- 42 :: uint)
     else number_of (unat (10 :: uint)) txt = unat (- 42 :: uint))"
  by (rule printint_correct) simp

section \<open>Output returns and stays on the devices\<close>

definition con_frame :: "kernel \<Rightarrow> kernel \<Rightarrow> bool" where
  "con_frame k k' \<longleftrightarrow> k' = k\<lparr>serial := serial k', crt := crt k', crtc14 := crtc14 k', crtc15 := crtc15 k'\<rparr>"

definition con_ok :: "kernel \<Rightarrow> bool" where
  "con_ok k \<longleftrightarrow> \<not> panicked k \<and> cursor k < 24 * 80"

lemma con_frame_refl [simp]: "con_frame k k"
  by (simp add: con_frame_def)

lemma con_frame_trans: "con_frame a b \<Longrightarrow> con_frame b c \<Longrightarrow> con_frame a c"
  by (cases a; cases b; cases c) (simp add: con_frame_def)

lemma con_frame_upd [simp]:
  "con_frame k k1 \<Longrightarrow> con_frame k (k1\<lparr>serial := a\<rparr>)" "con_frame k k1 \<Longrightarrow> con_frame k (k1\<lparr>crt := b\<rparr>)"
  "con_frame k k1 \<Longrightarrow> con_frame k (set_cursor p k1)"
  by (cases k; cases k1; simp add: con_frame_def set_cursor_def)+

lemma con_frame_panicked: "con_frame k k' \<Longrightarrow> panicked k' = panicked k"
  by (cases k; cases k') (simp add: con_frame_def)

lemma cursor_nonneg: "0 \<le> cursor k"
  by (simp add: cursor_def)

lemma cursor_set [simp]: "0 \<le> p \<Longrightarrow> p < 65536 \<Longrightarrow> cursor (set_cursor p k) = p"
  by (simp add: cursor_def set_cursor_def unsigned_of_int take_bit_eq_mod pos_imp_zdiv_nonneg_iff)

lemma cursor_upd [simp]:
  "cursor (k\<lparr>crt := b\<rparr>) = cursor k" "cursor (k\<lparr>serial := a\<rparr>) = cursor k"
  by (simp_all add: cursor_def)

lemma next_line: "(0::int) \<le> p \<Longrightarrow> p < 1920 \<Longrightarrow> p + (80 - p mod 80) \<le> 1920 \<and> p < p + (80 - p mod 80)"
  by presburger

lemma cga_advance_wp:
  "cursor k < 1920 \<Longrightarrow> wp (cga_advance c) (\<lambda>pos (k', env'). 0 \<le> pos \<and> pos \<le> 1920 \<and> con_frame k k' \<and>
     env' = env) (k, env)"
  using next_line[OF cursor_nonneg, of k] cursor_nonneg[of k] by (simp add: cga_advance_def)

lemma cga_place_wp:
  "0 \<le> pos \<Longrightarrow> pos \<le> 1920 \<Longrightarrow> con_frame k k1 \<Longrightarrow>
   wp (cga_place pos) (\<lambda>_ (k', env'). 0 \<le> cursor k' \<and> cursor k' < 1920 \<and> con_frame k k' \<and> env' = env) (k1, env)"
  by (auto simp: cga_place_def)

lemma cgaputc_wp:
  assumes "cursor k < 1920"
  shows "wp (cgaputc c) (\<lambda>_ (k', env'). 0 \<le> cursor k' \<and> cursor k' < 1920 \<and> con_frame k k' \<and> env' = env) (k, env)"
  unfolding cgaputc_def wp_bindK
  by (rule wp_mono[OF cga_advance_wp[OF assms]]) (auto intro: cga_place_wp)

text \<open>
  C40: Writing any character with the cursor on the screen (above its last line) returns without
  panicking, leaves the cursor there again, scrolling when the line is full, and touches only the
  adapter.
\<close>

theorem cgaputc_keeps_cursor:
  assumes "cursor k < 24 * 80"
  shows "wp (cgaputc c) (\<lambda>_ (k', env'). 0 \<le> cursor k' \<and> cursor k' < 24 * 80 \<and> con_frame k k' \<and> env' = env)
    (k, env)"
  using cgaputc_wp[of k c env] assms by simp

theorem cgaputc_keeps_cursor_witness:
  "wp (cgaputc 65) (\<lambda>_ (k', env'). 0 \<le> cursor k' \<and> cursor k' < 24 * 80 \<and>
     con_frame (zero_kernel\<lparr>crtc14 := 7, crtc15 := 127\<rparr>) k' \<and> env' = []) (zero_kernel\<lparr>crtc14 := 7, crtc15 := 127\<rparr>, [])"
  by (rule cgaputc_keeps_cursor) (simp add: cursor_def)

text \<open>
  \<open>prints m\<close>: from a working console \<open>m\<close> returns, with the console working and nothing else touched.
\<close>

definition prints :: "unit kprog \<Rightarrow> bool" where
  "prints m \<longleftrightarrow> (\<forall>k env. con_ok k \<longrightarrow>
     wp m (\<lambda>_ (k', env'). con_ok k' \<and> con_frame k k' \<and> env' = env) (k, env))"

lemma prints_wp:
  "prints m \<Longrightarrow> con_ok k \<Longrightarrow> wp m (\<lambda>_ (k', env'). con_ok k' \<and> con_frame k k' \<and> env' = env) (k, env)"
  by (simp add: prints_def)

lemma prints_Ret [simp]: "prints (Ret ())"
  by (simp add: prints_def)

lemma prints_thenK:
  assumes "prints m" "prints n"
  shows "prints (thenK m n)"
  unfolding prints_def
proof (intro allI impI)
  fix k env
  assume "con_ok k"
  show "wp (thenK m n) (\<lambda>_ (k', env'). con_ok k' \<and> con_frame k k' \<and> env' = env) (k, env)"
    using prints_wp[OF assms(1) \<open>con_ok k\<close>]
  proof (rule wp_thenI)
    fix x s'
    assume "case s' of (k', env') \<Rightarrow> con_ok k' \<and> con_frame k k' \<and> env' = env"
    then show "wp n (\<lambda>_ (k', env'). con_ok k' \<and> con_frame k k' \<and> env' = env) s'"
      by (cases s') (auto intro!: wp_mono[OF prints_wp[OF assms(2)]] intro: con_frame_trans)
  qed
qed

lemma prints_forK: "(\<And>b. prints (body b)) \<Longrightarrow> prints (forK bs body)"
  by (induction bs) (simp_all add: prints_thenK)

lemma prints_uartputc: "prints (uartputc c)"
  by (simp add: prints_def uartputc_def con_ok_def)

lemma prints_cgaputc: "prints (cgaputc c)"
  unfolding prints_def con_ok_def
  by (auto intro!: wp_mono[OF cgaputc_wp] dest: con_frame_panicked)

lemma prints_consputc: "prints (consputc c)"
proof -
  let ?u = "if c = BACKSPACE then seqK [uartputc 8, uartputc 32, uartputc 8] else uartputc c"
  have "prints (thenK ?u (cgaputc c))"
    by (auto intro!: prints_thenK simp: prints_uartputc prints_cgaputc)
  then show ?thesis
    by (auto simp: prints_def consputc_def con_ok_def)
qed

lemma prints_printint:
  assumes "base = 10 \<or> base = 16"
  shows "prints (printint x base sg)"
proof -
  have "2 \<le> unat base" "unat base \<le> 16" using assms by auto
  then obtain ds where "itoa base (if sg \<and> sint x < 0 then - x else x) = Some ds"
    using itoa_value by blast
  then show ?thesis
    by (simp add: printint_def printint_text_def Let_def prints_forK prints_consputc)
qed

text \<open>The arguments a format asks for.\<close>

fun args_ok :: "string \<Rightarrow> carg list \<Rightarrow> bool" where
  "args_ok [] args = True"
| "args_ok (c # fmt) args =
     (if c \<noteq> CHR ''%'' then args_ok fmt args
      else case fmt of
        [] \<Rightarrow> True
      | c' # fmt' \<Rightarrow>
          if c' \<in> {CHR ''d'', CHR ''x'', CHR ''p''} then
            (case args of CInt x # args' \<Rightarrow> args_ok fmt' args' | _ \<Rightarrow> False)
          else if c' = CHR ''s'' then (case args of CStr x # args' \<Rightarrow> args_ok fmt' args' | _ \<Rightarrow> False)
          else args_ok fmt' args)"

lemma prints_cprintf_loop: "args_ok fmt args \<Longrightarrow> prints (cprintf_loop fmt args)"
proof (induction "length fmt" arbitrary: fmt args rule: less_induct)
  case less
  note IH = less(1)
  have step: "prints (cprintf_loop (CHR ''%'' # c' # fmt') args)"
    if ok: "args_ok (CHR ''%'' # c' # fmt') args" and len: "length fmt' < length fmt" for c' fmt'
  proof (cases "c' \<in> {CHR ''d'', CHR ''x'', CHR ''p''}")
    case True
    then obtain x args' where a: "args = CInt x # args'" "args_ok fmt' args'"
      using ok by (auto split: list.splits carg.splits)
    then show ?thesis using True IH[OF len a(2)] by (auto simp: prints_printint prints_thenK)
  next
    case num: False
    show ?thesis
    proof (cases "c' = CHR ''s''")
      case True
      then obtain x args' where a: "args = CStr x # args'" "args_ok fmt' args'"
        using ok by (auto split: list.splits carg.splits)
      then show ?thesis using True IH[OF len a(2)] by (simp add: prints_forK prints_consputc prints_thenK)
    next
      case False
      then have "args_ok fmt' args" using ok num by simp
      then show ?thesis using False num IH[OF len] by (simp add: prints_consputc prints_thenK)
    qed
  qed
  show ?case
  proof (cases fmt)
    case Nil
    then show ?thesis by simp
  next
    case fmt: (Cons c r)
    show ?thesis
    proof (cases "c = CHR ''%''")
      case False
      then have "prints (cprintf_loop r args)" using less.prems fmt by (intro IH) simp_all
      then show ?thesis using False fmt by (simp add: prints_consputc prints_thenK)
    next
      case pc: True
      show ?thesis
      proof (cases r)
        case Nil
        then show ?thesis using pc fmt by simp
      next
        case (Cons c' fmt')
        then show ?thesis using step[of c' fmt'] less.prems pc fmt by simp
      qed
    qed
  qed
qed

lemma con_frame_sync:
  "con_frame k k' \<Longrightarrow> cpus k' = cpus k" "con_frame k k' \<Longrightarrow> locks k' = locks k"
  "con_frame k k' \<Longrightarrow> eflags_if k' = eflags_if k" "con_frame k k' \<Longrightarrow> lapic_id k' = lapic_id k"
  "con_frame k k' \<Longrightarrow> ncpu k' = ncpu k" "con_frame k k' \<Longrightarrow> cons_locking k' = cons_locking k"
  by (cases k; cases k'; simp add: con_frame_def)+

lemma con_frame_cpu:
  assumes "con_frame k k'"
  shows "this_cpu k' = this_cpu k" "cpu_of k' = cpu_of k" "lock_mine l k' = lock_mine l k" "cpu_ok k' = cpu_ok k"
  using con_frame_sync[OF assms]
  by (simp_all add: this_cpu_def cpu_of_def lock_mine_def cpu_ok_def)

lemma con_frame_unsync:
  assumes "con_frame (acq l k) K"
  shows "con_frame k (unsync k K)"
proof -
  obtain a b c d where "K = (acq l k)\<lparr>serial := a, crt := b, crtc14 := c, crtc15 := d\<rparr>"
    using assms unfolding con_frame_def by blast
  then show ?thesis by (simp add: con_frame_def)
qed

text \<open>
  \<open>cprintf\<close> with the arguments its format asks for returns, leaves the locks as they were and changes
  only the devices.
\<close>

lemma cprintf_wp:
  assumes "cpu_ok k" "lock_free ConsLock k" "con_ok k" "args_ok fmt args"
  shows "wp (cprintf fmt args) (\<lambda>_ (k', env'). env' = env \<and>
    (\<exists>k1. con_frame k k1 \<and> con_ok k1 \<and> synced k1 k')) (k, env)"
proof (cases "cons_locking k")
  case False
  have "wp (cprintf_loop fmt args) (\<lambda>_ (k', env'). con_ok k' \<and> con_frame k k' \<and> env' = env) (k, env)"
    by (rule prints_wp[OF prints_cprintf_loop[OF assms(4)] assms(3)])
  then show ?thesis using False
    by (auto simp: cprintf_def elim!: wp_mono) (use synced_refl in blast)
next
  case True
  let ?k = "acq ConsLock k"
  have ok: "con_ok ?k" using assms(3) by (simp add: con_ok_def cursor_def)
  have rel: "wp (release ConsLock) (\<lambda>_ (k', env'). env' = env \<and>
      (\<exists>k1. con_frame k k1 \<and> con_ok k1 \<and> synced k1 k')) (K, env)" if "con_ok K" "con_frame ?k K" for K
  proof -
    have mine: "lock_mine ConsLock K"
      using lock_mine_acq[OF assms(1)] con_frame_cpu[OF that(2)] by simp
    have "synced (unsync k K) (rel ConsLock K)"
      using con_frame_sync[OF that(2)] by (intro critical_synced[OF assms(1,2)]) simp_all
    moreover have "con_frame k (unsync k K)"
      by (rule con_frame_unsync[OF that(2)])
    moreover have "con_ok (unsync k K)" using that(1) by (simp add: con_ok_def cursor_def unsync_def)
    ultimately show ?thesis by (auto simp: wp_release[OF mine])
  qed
  have "wp (cprintf_loop fmt args) (\<lambda>_ (k', env'). con_ok k' \<and> con_frame ?k k' \<and> env' = env) (?k, env)"
    by (rule prints_wp[OF prints_cprintf_loop[OF assms(4)] ok])
  then show ?thesis using True assms(1,2)
    by (auto simp: cprintf_def wp_acquire elim!: wp_mono intro!: rel)
qed

end
