(* ===== verification/Kalloc.thy ===== *)
theory Kalloc
  imports Console_Out Cstring
begin

text \<open>
  The physical page allocator (\<open>kalloc.c\<close>). The free list is threaded through the free pages
  themselves: the first word of a free page is the address of the next one. The second half abstracts
  the list to a stack of page addresses and shows that \<open>kalloc\<close> and \<open>kfree\<close> are its pop and push.
\<close>

abbreviation (input) PGSIZE :: uint where "PGSIZE \<equiv> 4096"

definition PGROUNDUP :: "uint \<Rightarrow> uint" where
  "PGROUNDUP sz = (sz + PGSIZE - 1) AND NOT (PGSIZE - 1)"

definition PGROUNDDOWN :: "uint \<Rightarrow> uint" where
  "PGROUNDDOWN a = a AND NOT (PGSIZE - 1)"

definition kfree :: "addr \<Rightarrow> unit kprog" where
  "kfree v =
     bindK (gets (\<lambda>k. sym_end (syms k))) (\<lambda>end.
     if v mod PGSIZE \<noteq> 0 \<or> v < end \<or> PHYSTOP \<le> V2P v then Panic ''kfree''
     else seqK [
       modify (\<lambda>k. k\<lparr>mem := memset (mem k) v 1 PGSIZE\<rparr>),
       bindK (gets use_lock) (\<lambda>u. whenK u (acquire KmemLock)),
       modify (\<lambda>k. k\<lparr>mem := store32 (mem k) v (freelist k)\<rparr>),
       modify (\<lambda>k. k\<lparr>freelist := v\<rparr>),
       bindK (gets use_lock) (\<lambda>u. whenK u (release KmemLock))])"

definition kalloc :: "addr kprog" where
  "kalloc =
     thenK (bindK (gets use_lock) (\<lambda>u. whenK u (acquire KmemLock)))
     (bindK (gets freelist) (\<lambda>r.
     thenK (whenK (r \<noteq> 0) (modify (\<lambda>k. k\<lparr>freelist := load32 (mem k) r\<rparr>)))
     (thenK (bindK (gets use_lock) (\<lambda>u. whenK u (release KmemLock)))
     (Ret r))))"

text \<open>
  The loop \<open>for(; p + PGSIZE <= vend; p += PGSIZE)\<close> with its wrapping comparison; it runs at most
  \<open>2 ^ 20\<close> times when \<open>vend\<close> is not in the last page, which bounds the fuel.
\<close>

fun freerange_loop :: "nat \<Rightarrow> addr \<Rightarrow> addr \<Rightarrow> unit kprog" where
  "freerange_loop 0 p vend = Blocked"
| "freerange_loop (Suc n) p vend =
     (if p + PGSIZE \<le> vend then thenK (kfree p) (freerange_loop n (p + PGSIZE) vend) else Ret ())"

definition freerange :: "addr \<Rightarrow> addr \<Rightarrow> unit kprog" where
  "freerange vstart vend = freerange_loop (2 ^ 20 + 1) (PGROUNDUP vstart) vend"

definition kinit1 :: "addr \<Rightarrow> addr \<Rightarrow> unit kprog" where
  "kinit1 vstart vend = seqK [
     initlock KmemLock ''kmem'',
     modify (\<lambda>k. k\<lparr>use_lock := False\<rparr>),
     freerange vstart vend]"

definition kinit2 :: "addr \<Rightarrow> addr \<Rightarrow> unit kprog" where
  "kinit2 vstart vend = seqK [
     freerange vstart vend,
     modify (\<lambda>k. k\<lparr>use_lock := True\<rparr>)]"

section \<open>Page arithmetic\<close>

lemma aligned_unat: "v mod PGSIZE = 0 \<longleftrightarrow> unat v mod 4096 = 0"
  by (simp add: word_unat_eq_iff unat_mod)

lemma mask12: "PGSIZE - 1 = (mask 12 :: uint)"
  by (simp add: mask_eq_exp_minus_1)

lemma word_mod_page: "(x :: uint) mod PGSIZE = take_bit 12 x"
  using take_bit_eq_mod[of 12 x] by simp

lemma rounddown_aligned [simp]: "PGROUNDDOWN a mod PGSIZE = 0"
  unfolding PGROUNDDOWN_def word_mod_page mask12 by (rule bit_word_eqI) (auto simp: bit_simps)

lemma roundup_rounddown: "PGROUNDUP sz = PGROUNDDOWN (sz + 4095)"
  by (simp add: PGROUNDUP_def PGROUNDDOWN_def add.commute)

lemma roundup_aligned [simp]: "PGROUNDUP sz mod PGSIZE = 0"
  unfolding roundup_rounddown by (rule rounddown_aligned)

lemma unat_rounddown: "unat (PGROUNDDOWN a) = unat a - unat a mod 4096"
proof -
  have "a - take_bit 12 a = a AND NOT (take_bit 12 a)"
    by (rule disjunctive_diff) (simp add: bit_simps)
  also have "\<dots> = PGROUNDDOWN a"
    unfolding PGROUNDDOWN_def mask12 by (rule bit_word_eqI) (auto simp: bit_simps)
  finally have "PGROUNDDOWN a = a - take_bit 12 a" by simp
  then show ?thesis by (simp add: unat_sub_if' word_mod_page[symmetric] unat_mod)
qed

lemma page_diff:
  fixes p q :: addr
  assumes "p mod PGSIZE = 0" "q mod PGSIZE = 0" "p \<noteq> q"
  shows "4096 \<le> unat (q - p)" "unat (q - p) + 4096 \<le> 2 ^ 32"
proof -
  have al: "unat p mod 4096 = 0" "unat q mod 4096 = 0" using assms(1,2) by (simp_all add: aligned_unat)
  have "unat (q - p) mod 4096 = 0"
    using al unat_uint_less[of p] unat_uint_less[of q] by (auto simp: unat_sub_if' split: if_splits)
  then obtain j where j: "unat (q - p) = 4096 * j" by auto
  moreover have "unat (q - p) \<noteq> 0" using assms(3) by (simp add: unat_eq_0)
  moreover have "j < 1048576" using unat_uint_less[of "q - p"] j by simp
  ultimately show "4096 \<le> unat (q - p)" "unat (q - p) + 4096 \<le> 2 ^ 32" by simp_all
qed

lemma page_far:
  fixes p q :: addr
  assumes "p mod PGSIZE = 0" "q mod PGSIZE = 0" "p \<noteq> q" "i < 4096"
  shows "4096 \<le> unat (q + of_nat i - p)"
proof -
  have e: "q + of_nat i - p = (q - p) + of_nat i" by simp
  have "unat ((q - p) + of_nat i) = unat (q - p) + i"
    using page_diff[OF assms(1-3)] assms(4) by (intro unat_add_small) simp
  then show ?thesis using page_diff(1)[OF assms(1-3)] unfolding e by simp
qed

text \<open>Word reads at one page are not affected by stores into another.\<close>

definition page_of :: "addr \<Rightarrow> addr set" where
  "page_of p = {x. unat (x - p) < 4096}"

lemma page_of_offset: "i < 4096 \<Longrightarrow> p + of_nat i \<in> page_of p"
  by (simp add: page_of_def unat_of_nat)

lemma page_of_disjoint:
  assumes "p mod PGSIZE = 0" "q mod PGSIZE = 0" "p \<noteq> q" "x \<in> page_of q"
  shows "x \<notin> page_of p"
proof -
  have "x = q + of_nat (unat (x - q))" by simp
  then show ?thesis using page_far[OF assms(1-3), of "unat (x - q)"] assms(4) by (simp add: page_of_def)
qed

lemma load32_cong:
  "(\<And>i. i < 4 \<Longrightarrow> m (a + of_nat i) = m' (a + of_nat i)) \<Longrightarrow> load32 m a = load32 m' a"
proof -
  assume a: "\<And>i. i < 4 \<Longrightarrow> m (a + of_nat i) = m' (a + of_nat i)"
  show ?thesis using a[of 0] a[of 1] a[of 2] a[of 3] by (simp add: load32_def)
qed

lemma load32_page_cong:
  assumes "\<And>x. x \<in> page_of q \<Longrightarrow> m x = m' x" "i < 4093"
  shows "load32 m (q + of_nat i) = load32 m' (q + of_nat i)"
proof (rule load32_cong)
  fix j :: nat
  assume "j < 4"
  then have "q + of_nat (i + j) \<in> page_of q" using assms(2) by (intro page_of_offset) simp
  then show "m (q + of_nat i + of_nat j) = m' (q + of_nat i + of_nat j)"
    using assms(1) by (simp add: add.assoc)
qed

lemma store32_outside:
  assumes "x \<notin> page_of p" "i < 4093"
  shows "store32 m (p + of_nat i) v x = m x"
proof -
  have "x \<noteq> p + of_nat i + of_nat j" if "j < 4" for j
    using page_of_offset[of "i + j" p] that assms by (auto simp: add.assoc)
  from this[of 0] this[of 1] this[of 2] this[of 3] show ?thesis by (simp add: store32_def)
qed

lemma memset_page:
  "memset m p c PGSIZE x = (if x \<in> page_of p then ucast c else m x)"
  by (simp add: memset_eq_fill fill_def page_of_def)

section \<open>The allocator as a stack of pages\<close>

definition page_ok :: "kernel \<Rightarrow> addr \<Rightarrow> bool" where
  "page_ok k p \<longleftrightarrow> p mod PGSIZE = 0 \<and> sym_end (syms k) \<le> p \<and> V2P p < PHYSTOP"

fun chain :: "memory \<Rightarrow> addr \<Rightarrow> addr list \<Rightarrow> bool" where
  "chain m p [] \<longleftrightarrow> p = 0"
| "chain m p (q # qs) \<longleftrightarrow> p = q \<and> q \<noteq> 0 \<and> chain m (load32 m q) qs"

definition free_pages :: "kernel \<Rightarrow> addr list \<Rightarrow> bool" where
  "free_pages k ps \<longleftrightarrow> chain (mem k) (freelist k) ps \<and> distinct ps \<and> (\<forall>p\<in>set ps. page_ok k p)"

definition kready :: "kernel \<Rightarrow> bool" where
  "kready k \<longleftrightarrow> (use_lock k \<longrightarrow> cpu_ok k \<and> lock_free KmemLock k)"

lemma page_ok_nonzero: "page_ok k p \<Longrightarrow> p \<noteq> 0"
  by (auto simp: page_ok_def V2P_def word_less_nat_alt unat_sub_if')

lemma chain_cong:
  "(\<And>q. q \<in> set ps \<Longrightarrow> load32 m q = load32 m' q) \<Longrightarrow> chain m p ps = chain m' p ps"
  by (induction ps arbitrary: p) auto

lemma synced_sel:
  assumes "synced k k'"
  shows "mem k' = mem k" "freelist k' = freelist k" "syms k' = syms k" "use_lock k' = use_lock k"
  using assms by (auto elim!: syncedE)

lemma free_pages_synced: "synced k k' \<Longrightarrow> free_pages k' = free_pages k"
  by (auto simp: fun_eq_iff free_pages_def page_ok_def synced_sel)

lemma kready_synced: "synced k k' \<Longrightarrow> kready k' = kready k"
  by (simp add: kready_def synced_sel synced_locks)

lemma kready_upd [simp]: "kready (k\<lparr>freelist := x\<rparr>) = kready k" "kready (k\<lparr>mem := m\<rparr>) = kready k"
  by (simp_all add: kready_def)

text \<open>What the two operations return and leave behind.\<close>

lemma kalloc_Ret:
  assumes "kready k"
  obtains k' where "kalloc (k, env) = Ret (freelist k) (k', env)"
    "synced (if freelist k = 0 then k else k\<lparr>freelist := load32 (mem k) (freelist k)\<rparr>) k'"
proof (cases "use_lock k")
  case False
  then show ?thesis using that by (cases "freelist k = 0") (auto simp: kalloc_def kM_simps)
next
  case True
  then have ok: "cpu_ok k" "lock_free KmemLock k" using assms by (auto simp: kready_def)
  define K where "K = (if freelist k = 0 then acq KmemLock k
    else (acq KmemLock k)\<lparr>freelist := load32 (mem k) (freelist k)\<rparr>)"
  have "kalloc (k, env) = Ret (freelist k) (rel KmemLock K, env)"
    using True by (simp add: kalloc_def kM_simps acquire_Ret[OF ok] release_Ret lock_mine_acq[OF ok(1)] K_def)
  moreover have "synced (unsync k K) (rel KmemLock K)"
    by (rule critical_synced[OF ok]) (simp_all add: K_def)
  moreover have "unsync k K = (if freelist k = 0 then k else k\<lparr>freelist := load32 (mem k) (freelist k)\<rparr>)"
    by (simp add: K_def)
  ultimately show ?thesis using that by simp
qed

lemma kfree_Ret:
  assumes "kready k" "page_ok k v"
  obtains k' where "kfree v (k, env) = Ret () (k', env)"
    "synced (k\<lparr>mem := store32 (memset (mem k) v 1 PGSIZE) v (freelist k), freelist := v\<rparr>) k'"
proof -
  let ?m = "memset (mem k) v 1 PGSIZE"
  have v: "v mod 4096 = 0" "\<not> v < sym_end (syms k)" "\<not> PHYSTOP \<le> V2P v"
    using assms(2) by (auto simp: page_ok_def)
  show ?thesis
  proof (cases "use_lock k")
    case False
    then show ?thesis using that v by (simp add: kfree_def kM_simps)
  next
    case True
    let ?k = "k\<lparr>mem := ?m\<rparr>"
    let ?K = "(acq KmemLock ?k)\<lparr>mem := store32 ?m v (freelist k), freelist := v\<rparr>"
    have ok: "cpu_ok ?k" "lock_free KmemLock ?k" using assms(1) True by (auto simp: kready_def)
    have "kfree v (k, env) = Ret () (rel KmemLock ?K, env)"
      using True v by (simp add: kfree_def kM_simps acquire_Ret[OF ok] release_Ret lock_mine_acq[OF ok(1)])
    moreover have "synced (unsync ?k ?K) (rel KmemLock ?K)"
      by (rule critical_synced[OF ok]) simp_all
    ultimately show ?thesis using that by simp
  qed
qed

lemma kfree_Panic:
  "v mod PGSIZE \<noteq> 0 \<or> v < sym_end (syms k) \<or> PHYSTOP \<le> V2P v \<Longrightarrow>
   kfree v (k, env) = Panic ''kfree'' (k, env)"
  by (auto simp: kfree_def kM_simps)

text \<open>
  The contract of a page allocator, for its clients: \<open>pages\<close> abstracts the state to the stack of
  free pages.
\<close>

locale page_allocator =
  fixes alloc :: "addr kprog" and free :: "addr \<Rightarrow> unit kprog"
    and pages :: "kernel \<Rightarrow> addr list \<Rightarrow> bool" and ready :: "kernel \<Rightarrow> bool"
    and valid :: "kernel \<Rightarrow> addr \<Rightarrow> bool"
  assumes alloc_empty: "ready k \<Longrightarrow> pages k [] \<Longrightarrow>
      wp alloc (\<lambda>r (k', env'). r = 0 \<and> pages k' [] \<and> ready k' \<and> mem k' = mem k \<and> env' = env) (k, env)"
    and alloc_pop: "ready k \<Longrightarrow> pages k (p # ps) \<Longrightarrow>
      wp alloc (\<lambda>r (k', env'). r = p \<and> pages k' ps \<and> ready k' \<and> mem k' = mem k \<and> env' = env) (k, env)"
    and free_push: "ready k \<Longrightarrow> pages k ps \<Longrightarrow> valid k p \<Longrightarrow> p \<notin> set ps \<Longrightarrow>
      wp (free p) (\<lambda>_ (k', env'). pages k' (p # ps) \<and> ready k' \<and>
        (\<forall>x. x \<notin> page_of p \<longrightarrow> mem k' x = mem k x) \<and> env' = env) (k, env)"
    and pages_distinct: "pages k ps \<Longrightarrow> distinct ps"
    and pages_nonzero: "pages k ps \<Longrightarrow> 0 \<notin> set ps"
begin

lemma alloc_many:
  assumes "ready k" "pages k ps" "n \<le> length ps"
  shows "wp (repeatK n alloc) (\<lambda>rs (k', env'). rs = take n ps \<and> pages k' (drop n ps) \<and> ready k' \<and>
    mem k' = mem k \<and> env' = env) (k, env)"
  using assms
proof (induction n arbitrary: k ps)
  case 0
  then show ?case by simp
next
  case (Suc n)
  then obtain p qs where ps: "ps = p # qs" by (cases ps) auto
  have "wp (bindK (repeatK n alloc) (\<lambda>xs. Ret (p # xs))) (\<lambda>rs (k', env'). rs = take (Suc n) ps \<and>
      pages k' (drop (Suc n) ps) \<and> ready k' \<and> mem k' = mem k \<and> env' = env) (k1, env)"
    if "pages k1 qs" "ready k1" "mem k1 = mem k" for k1
    unfolding wp_bindK
    by (rule wp_mono[OF Suc.IH[OF that(2,1)]]) (use Suc.prems ps that in auto)
  then show ?case
    using Suc.prems ps by (simp only: repeatK.simps) (rule wp_bindI[OF alloc_pop[of k p qs]], auto)
qed

lemma alloc_distinct:
  assumes "ready k" "pages k ps" "n \<le> length ps"
  shows "wp (repeatK n alloc) (\<lambda>rs _. distinct rs \<and> 0 \<notin> set rs \<and> length rs = n) (k, env)"
  using pages_distinct[OF assms(2)] pages_nonzero[OF assms(2)] assms(3)
  by (intro wp_mono[OF alloc_many[OF assms]]) (auto dest: in_set_takeD)

lemma free_alloc:
  assumes "ready k" "pages k ps" "valid k p" "p \<notin> set ps"
  shows "wp (thenK (free p) alloc) (\<lambda>r (k', env'). r = p \<and> pages k' ps \<and> ready k' \<and>
    (\<forall>x. x \<notin> page_of p \<longrightarrow> mem k' x = mem k x) \<and> env' = env) (k, env)"
  by (rule wp_thenI[OF free_push[OF assms]]) (auto intro!: wp_mono[OF alloc_pop])

end

lemma free_pages_push:
  assumes "free_pages k ps" "page_ok k v" "v \<notin> set ps"
  shows "free_pages (k\<lparr>mem := store32 (memset (mem k) v 1 PGSIZE) v (freelist k), freelist := v\<rparr>) (v # ps)"
proof -
  let ?m = "store32 (memset (mem k) v 1 PGSIZE) v (freelist k)"
  have "load32 ?m q = load32 (mem k) q" if "q \<in> set ps" for q
  proof -
    have al: "v mod PGSIZE = 0" "q mod PGSIZE = 0" "v \<noteq> q"
      using assms that by (auto simp: free_pages_def page_ok_def)
    have "?m x = mem k x" if "x \<in> page_of q" for x
      using page_of_disjoint[OF al that] store32_outside[of x v 0] by (simp add: memset_page)
    then show ?thesis using load32_page_cong[of q ?m "mem k" 0] by simp
  qed
  then have "chain ?m (freelist k) ps"
    using assms(1) chain_cong[of ps ?m "mem k"] by (simp add: free_pages_def)
  then show ?thesis
    using assms page_ok_nonzero[OF assms(2)] by (simp add: free_pages_def page_ok_def)
qed

lemma kalloc_stack:
  assumes "kready k" "free_pages k ps"
  shows "wp kalloc (\<lambda>r (k', env'). (case ps of [] \<Rightarrow> r = 0 \<and> free_pages k' [] | p # qs \<Rightarrow> r = p \<and> free_pages k' qs) \<and>
    kready k' \<and> mem k' = mem k \<and> env' = env) (k, env)"
proof -
  let ?k = "if freelist k = 0 then k else k\<lparr>freelist := load32 (mem k) (freelist k)\<rparr>"
  obtain k' where r: "kalloc (k, env) = Ret (freelist k) (k', env)" and s: "synced ?k k'"
    by (rule kalloc_Ret[OF assms(1)])
  have "kready k'" "mem k' = mem k"
    using kready_synced[OF s] assms(1) synced_sel(1)[OF s] by (simp_all split: if_splits)
  moreover have "case ps of [] \<Rightarrow> freelist k = 0 \<and> free_pages k' [] | p # qs \<Rightarrow> freelist k = p \<and> free_pages k' qs"
    using assms(2) by (cases ps) (auto simp: free_pages_synced[OF s] free_pages_def page_ok_def)
  ultimately show ?thesis by (simp add: wp_def r)
qed

lemma kfree_stack:
  assumes "kready k" "free_pages k ps" "page_ok k v" "v \<notin> set ps"
  shows "wp (kfree v) (\<lambda>_ (k', env'). free_pages k' (v # ps) \<and> kready k' \<and> syms k' = syms k \<and>
    (\<forall>x. x \<notin> page_of v \<longrightarrow> mem k' x = mem k x) \<and> env' = env) (k, env)"
proof -
  let ?k = "k\<lparr>mem := store32 (memset (mem k) v 1 PGSIZE) v (freelist k), freelist := v\<rparr>"
  obtain k' where r: "kfree v (k, env) = Ret () (k', env)" and s: "synced ?k k'"
    by (rule kfree_Ret[OF assms(1,3)])
  have "mem k' x = mem k x" if "x \<notin> page_of v" for x
    using synced_sel(1)[OF s] store32_outside[OF that, of 0] that by (simp add: memset_page)
  then show ?thesis
    using free_pages_push[OF assms(2-4)] kready_synced[OF s] assms(1) synced_sel(3)[OF s]
    by (simp add: wp_def r free_pages_synced[OF s])
qed

interpretation km: page_allocator kalloc kfree free_pages kready page_ok
proof unfold_locales
  show "wp kalloc (\<lambda>r (k', env'). r = 0 \<and> free_pages k' [] \<and> kready k' \<and> mem k' = mem k \<and> env' = env) (k, env)"
    if "kready k" "free_pages k []" for k env
    using kalloc_stack[OF that] by simp
  show "wp kalloc (\<lambda>r (k', env'). r = p \<and> free_pages k' ps \<and> kready k' \<and> mem k' = mem k \<and> env' = env) (k, env)"
    if "kready k" "free_pages k (p # ps)" for k p ps env
    using kalloc_stack[OF that] by simp
  show "wp (kfree p) (\<lambda>_ (k', env'). free_pages k' (p # ps) \<and> kready k' \<and>
      (\<forall>x. x \<notin> page_of p \<longrightarrow> mem k' x = mem k x) \<and> env' = env) (k, env)"
    if "kready k" "free_pages k ps" "page_ok k p" "p \<notin> set ps" for k ps p env
    by (rule wp_mono[OF kfree_stack[OF that]]) auto
  show "distinct ps" "0 \<notin> set ps" if "free_pages k ps" for k ps
    using that page_ok_nonzero by (auto simp: free_pages_def)
qed

text \<open>
  C27: \<open>kalloc\<close> refines the pop of a stack of free pages: it returns the top page, or 0 when none is
  left, and changes no memory.
\<close>

theorem kalloc_refines_pop:
  assumes "kready k" "free_pages k ps"
  shows "wp kalloc (\<lambda>r (k', env'). (case ps of [] \<Rightarrow> r = 0 \<and> free_pages k' [] | p # qs \<Rightarrow> r = p \<and> free_pages k' qs) \<and>
    kready k' \<and> mem k' = mem k \<and> env' = env) (k, env)"
  by (rule kalloc_stack[OF assms])

text \<open>
  C26: \<open>kfree\<close> of an aligned page between the kernel and \<open>PHYSTOP\<close> that is not already free refines
  the push: the page goes on top of the stack, and only its own bytes are overwritten.
\<close>

theorem kfree_refines_push:
  assumes "kready k" "free_pages k ps" "page_ok k v" "v \<notin> set ps"
  shows "wp (kfree v) (\<lambda>_ (k', env'). free_pages k' (v # ps) \<and> kready k' \<and>
    (\<forall>x. x \<notin> page_of v \<longrightarrow> mem k' x = mem k x) \<and> env' = env) (k, env)"
  by (rule km.free_push[OF assms])

text \<open>
  No page is handed out twice: as many calls of \<open>kalloc\<close> as there are free pages return pairwise
  different, non-null pages.
\<close>

lemma kalloc_distinct:
  assumes "kready k" "free_pages k ps" "n \<le> length ps"
  shows "wp (repeatK n kalloc) (\<lambda>rs _. distinct rs \<and> 0 \<notin> set rs \<and> length rs = n) (k, env)"
  by (rule km.alloc_distinct[OF assms])

text \<open>A machine with one free page, for the examples.\<close>

definition one_page_kernel :: kernel where
  "one_page_kernel = zero_kernel\<lparr>freelist := 0x80400000\<rparr>"

lemma one_page_facts:
  "kready one_page_kernel" "free_pages one_page_kernel [0x80400000]" "page_ok one_page_kernel 0x80500000"
  by (simp_all add: kready_def one_page_kernel_def free_pages_def page_ok_def zero_kernel_def load32_def V2P_def)

lemma one_page_sync: "cpu_ok one_page_kernel" "lock_free l one_page_kernel"
  by (simp_all add: one_page_kernel_def cpu_ok_zero)

theorem kalloc_refines_pop_witness:
  "wp kalloc (\<lambda>r (k', env'). (case [0x80400000] of [] \<Rightarrow> r = 0 \<and> free_pages k' []
      | p # qs \<Rightarrow> r = p \<and> free_pages k' qs) \<and>
    kready k' \<and> mem k' = mem one_page_kernel \<and> env' = []) (one_page_kernel, [])"
  by (rule kalloc_refines_pop[OF one_page_facts(1,2)])

theorem kfree_refines_push_witness:
  "wp (kfree 0x80500000) (\<lambda>_ (k', env'). free_pages k' [0x80500000, 0x80400000] \<and> kready k' \<and>
    (\<forall>x. x \<notin> page_of 0x80500000 \<longrightarrow> mem k' x = mem one_page_kernel x) \<and> env' = []) (one_page_kernel, [])"
  by (rule kfree_refines_push[OF one_page_facts]) simp

subsection \<open>Filling the free list at boot\<close>

definition pages_from :: "addr \<Rightarrow> nat \<Rightarrow> addr list" where
  "pages_from p c = map (\<lambda>i. p + of_nat (4096 * i)) [0..<c]"

lemma pages_from_Suc: "pages_from p (Suc c) = p # pages_from (p + 4096) c"
  by (simp add: pages_from_def upt_conv_Cons map_Suc_upt[symmetric] o_def algebra_simps del: upt_Suc)

lemma unat_page_step:
  fixes p :: addr
  assumes "unat p + 4096 < 2 ^ 32"
  shows "unat (p + 4096) = unat p + 4096"
  using unat_add_small[of p 4096] assms by simp

lemma freerange_loop_frees:
  assumes "kready k" "free_pages k ps" "p mod PGSIZE = 0" "c < n"
    and "unat p + 4096 * c \<le> unat vend" "unat vend < unat p + 4096 * (c + 1)" "unat vend + 4096 < 2 ^ 32"
    and "\<And>i. i < c \<Longrightarrow> page_ok k (p + of_nat (4096 * i)) \<and> p + of_nat (4096 * i) \<notin> set ps"
  shows "wp (freerange_loop n p vend) (\<lambda>_ (k', env'). free_pages k' (rev (pages_from p c) @ ps) \<and>
    kready k' \<and> env' = env) (k, env)"
  using assms
proof (induction c arbitrary: k ps p n)
  case 0
  then have up: "unat (p + 4096) = unat p + 4096" by (intro unat_page_step) simp
  then have "\<not> p + 4096 \<le> vend" using 0 by (simp add: word_le_nat_alt)
  then show ?case using 0 by (cases n) (simp_all add: pages_from_def)
next
  case (Suc c)
  then obtain n' where n: "n = Suc n'" by (cases n) auto
  have up: "unat (p + 4096) = unat p + 4096" using Suc.prems by (intro unat_page_step) simp
  have le: "p + 4096 \<le> vend" using Suc.prems up by (simp add: word_le_nat_alt)
  have al: "(p + 4096) mod PGSIZE = 0" using Suc.prems(3) by (simp add: aligned_unat up)
  have p0: "page_ok k p" "p \<notin> set ps" using Suc.prems(8)[of 0] by simp_all
  have ne: "p + 4096 + of_nat (4096 * i) \<noteq> p" if "i < c" for i
  proof -
    have "unat (p + of_nat (4096 * Suc i)) = unat p + 4096 * Suc i"
      using that Suc.prems by (intro unat_add_small) simp
    then show ?thesis by (auto simp: algebra_simps)
  qed
  have rest: "wp (freerange_loop n' (p + 4096) vend) (\<lambda>_ (k', env'). free_pages k' (rev (pages_from p (Suc c)) @ ps) \<and>
      kready k' \<and> env' = env) (k1, env)"
    if "free_pages k1 (p # ps)" "kready k1" "syms k1 = syms k" for k1
  proof -
    have "page_ok k1 (p + 4096 + of_nat (4096 * i)) \<and> p + 4096 + of_nat (4096 * i) \<notin> set (p # ps)" if "i < c" for i
      using Suc.prems(8)[of "Suc i"] ne that \<open>syms k1 = syms k\<close> by (auto simp: page_ok_def algebra_simps)
    then have "wp (freerange_loop n' (p + 4096) vend) (\<lambda>_ (k', env').
        free_pages k' (rev (pages_from (p + 4096) c) @ p # ps) \<and> kready k' \<and> env' = env) (k1, env)"
      using that Suc.prems n up al by (intro Suc.IH) simp_all
    then show ?thesis by (simp add: pages_from_Suc)
  qed
  show ?case unfolding n using le
    by (simp del: wp_thenK) (rule wp_thenI[OF kfree_stack[OF Suc.prems(1,2) p0]], auto intro: rest)
qed

text \<open>
  C29: At boot \<open>freerange\<close> terminates and puts on the empty free list exactly the whole pages of the
  range: those from the first page boundary at or after \<open>vstart\<close> up to \<open>vend\<close>.
\<close>

theorem freerange_frees_range:
  assumes "kready k" "free_pages k []" "c < 2 ^ 20"
    and "sym_end (syms k) \<le> PGROUNDUP vstart"
    and "unat (PGROUNDUP vstart) + 4096 * c \<le> unat vend" "unat vend < unat (PGROUNDUP vstart) + 4096 * (c + 1)"
    and "KERNBASE \<le> PGROUNDUP vstart" "vend \<le> P2V PHYSTOP"
  shows "wp (freerange vstart vend) (\<lambda>_ (k', env'). free_pages k' (rev (pages_from (PGROUNDUP vstart) c)) \<and>
    kready k' \<and> env' = env) (k, env)"
proof -
  let ?p = "PGROUNDUP vstart"
  have top: "unat vend \<le> 0x8E000000" using assms(8) by (simp add: P2V_def word_le_nat_alt)
  have base: "0x80000000 \<le> unat ?p" using assms(7) by (simp add: word_le_nat_alt)
  have "page_ok k (?p + of_nat (4096 * i))" if "i < c" for i
  proof -
    have u: "unat (?p + of_nat (4096 * i)) = unat ?p + 4096 * i"
      using that assms(5) top by (intro unat_add_small) simp
    have le: "unat ?p + 4096 * i < 0x8E000000" using that assms(5) top by simp
    have "unat (V2P (?p + of_nat (4096 * i))) = unat ?p + 4096 * i - 0x80000000"
      using u base by (simp add: V2P_def unat_sub_if')
    then show ?thesis
      using assms(4) u le base roundup_aligned[of vstart, unfolded aligned_unat] by (simp add: page_ok_def aligned_unat word_le_nat_alt word_less_nat_alt)
  qed
  then have "wp (freerange_loop (2 ^ 20 + 1) ?p vend)
      (\<lambda>_ (k', env'). free_pages k' (rev (pages_from ?p c) @ []) \<and> kready k' \<and> env' = env) (k, env)"
    using assms top by (intro freerange_loop_frees) auto
  then show ?thesis by (simp only: freerange_def append_Nil2)
qed

theorem freerange_frees_range_witness:
  "wp (freerange 0x80400001 0x80402FFF) (\<lambda>_ (k', env').
     free_pages k' (rev (pages_from (PGROUNDUP 0x80400001) 1)) \<and> kready k' \<and> env' = []) (zero_kernel, [])"
  by (rule freerange_frees_range)
    (simp_all add: kready_def free_pages_def zero_kernel_def PGROUNDUP_def P2V_def)

end
