(* ===== verification/Vm.thy ===== *)
theory Vm
  imports Kalloc
begin

text \<open>
  Page tables (\<open>vm.c\<close>, with the address macros of \<open>mmu.h\<close>). Page directories and page tables are
  pages of \<open>mem\<close> read and written word by word. Loops over virtual addresses carry a fuel of
  \<open>2 ^ 20 + 1\<close>, one more than there are pages in the address space, and are \<open>Blocked\<close> without it.
  \<open>loaduvm\<close>, which reads an inode, is in the theory \<open>Exec\<close>.
\<close>

section \<open>Addresses and entries (\<open>mmu.h\<close>)\<close>

definition PDX :: "addr \<Rightarrow> uint" where
  "PDX va = drop_bit 22 va AND 0x3FF"

definition PTX :: "addr \<Rightarrow> uint" where
  "PTX va = drop_bit 12 va AND 0x3FF"

definition PGADDR :: "uint \<Rightarrow> uint \<Rightarrow> uint \<Rightarrow> addr" where
  "PGADDR d t off = push_bit 22 d OR push_bit 12 t OR off"

abbreviation (input) PTE_P :: uint where "PTE_P \<equiv> 1"
abbreviation (input) PTE_W :: uint where "PTE_W \<equiv> 2"
abbreviation (input) PTE_U :: uint where "PTE_U \<equiv> 4"

definition PTE_ADDR :: "uint \<Rightarrow> uint" where
  "PTE_ADDR pte = pte AND NOT 0xFFF"

definition PTE_FLAGS :: "uint \<Rightarrow> uint" where
  "PTE_FLAGS pte = pte AND 0xFFF"

definition vmfuel :: nat where
  "vmfuel = 2 ^ 20 + 1"

section \<open>Segments\<close>

definition SEG :: "nat \<Rightarrow> uint \<Rightarrow> uint \<Rightarrow> nat \<Rightarrow> segdesc" where
  "SEG type base lim dpl = \<lparr>sd_type = type, sd_s = 1, sd_dpl = dpl, sd_base = base, sd_lim = lim, sd_g = True\<rparr>"

definition SEG16 :: "nat \<Rightarrow> uint \<Rightarrow> uint \<Rightarrow> nat \<Rightarrow> segdesc" where
  "SEG16 type base lim dpl = \<lparr>sd_type = type, sd_s = 1, sd_dpl = dpl, sd_base = base, sd_lim = lim, sd_g = False\<rparr>"

definition seginit :: "unit kprog" where
  "seginit = mycpu_set (\<lambda>c. c\<lparr>c_gdt := (c_gdt c)(
     1 := SEG 0xA 0 0xffffffff 0,
     2 := SEG 0x2 0 0xffffffff 0,
     3 := SEG 0xA 0 0xffffffff 3,
     4 := SEG 0x2 0 0xffffffff 3)\<rparr>)"

section \<open>Walking and mapping\<close>

definition setmem :: "(memory \<Rightarrow> memory) \<Rightarrow> unit kprog" where
  "setmem f = modify (\<lambda>k. k\<lparr>mem := f (mem k)\<rparr>)"

definition walkpgdir :: "addr \<Rightarrow> addr \<Rightarrow> bool \<Rightarrow> addr kprog" where
  "walkpgdir pgdir va alloc =
     (let pde = pgdir + 4 * PDX va in
      bindK (gets (\<lambda>k. load32 (mem k) pde)) (\<lambda>e.
      if e AND PTE_P \<noteq> 0 then Ret (P2V (PTE_ADDR e) + 4 * PTX va)
      else if \<not> alloc then Ret 0
      else bindK kalloc (\<lambda>pgtab.
        if pgtab = 0 then Ret 0
        else thenK (setmem (\<lambda>m. memset m pgtab 0 PGSIZE))
             (thenK (setmem (\<lambda>m. store32 m pde (V2P pgtab OR PTE_P OR PTE_W OR PTE_U)))
             (Ret (pgtab + 4 * PTX va))))))"

fun mappages_loop :: "nat \<Rightarrow> addr \<Rightarrow> addr \<Rightarrow> addr \<Rightarrow> uint \<Rightarrow> uint \<Rightarrow> int kprog" where
  "mappages_loop 0 pgdir a lastp pa perm = Blocked"
| "mappages_loop (Suc n) pgdir a lastp pa perm =
     bindK (walkpgdir pgdir a True) (\<lambda>pte.
     if pte = 0 then Ret (- 1)
     else bindK (gets (\<lambda>k. load32 (mem k) pte)) (\<lambda>e.
     if e AND PTE_P \<noteq> 0 then Panic ''remap''
     else thenK (setmem (\<lambda>m. store32 m pte (pa OR perm OR PTE_P)))
       (if a = lastp then Ret 0
        else mappages_loop n pgdir (a + PGSIZE) lastp (pa + PGSIZE) perm)))"

definition mappages :: "addr \<Rightarrow> addr \<Rightarrow> uint \<Rightarrow> uint \<Rightarrow> uint \<Rightarrow> int kprog" where
  "mappages pgdir va sz pa perm =
     mappages_loop vmfuel pgdir (PGROUNDDOWN va) (PGROUNDDOWN (va + sz - 1)) pa perm"

section \<open>Freeing\<close>

fun deallocuvm_loop :: "nat \<Rightarrow> addr \<Rightarrow> uint \<Rightarrow> addr \<Rightarrow> unit kprog" where
  "deallocuvm_loop 0 pgdir oldsz a = Blocked"
| "deallocuvm_loop (Suc n) pgdir oldsz a =
     (if a < oldsz then
        bindK (walkpgdir pgdir a False) (\<lambda>pte.
        if pte = 0 then deallocuvm_loop n pgdir oldsz (PGADDR (PDX a + 1) 0 0 - PGSIZE + PGSIZE)
        else bindK (gets (\<lambda>k. load32 (mem k) pte)) (\<lambda>e.
          thenK (whenK (e AND PTE_P \<noteq> 0)
                  (if PTE_ADDR e = 0 then Panic ''kfree''
                   else thenK (kfree (P2V (PTE_ADDR e))) (setmem (\<lambda>m. store32 m pte 0))))
            (deallocuvm_loop n pgdir oldsz (a + PGSIZE))))
      else Ret ())"

definition deallocuvm :: "addr \<Rightarrow> uint \<Rightarrow> uint \<Rightarrow> uint kprog" where
  "deallocuvm pgdir oldsz newsz =
     (if oldsz \<le> newsz then Ret oldsz
      else thenK (deallocuvm_loop vmfuel pgdir oldsz (PGROUNDUP newsz)) (Ret newsz))"

definition freevm :: "addr \<Rightarrow> unit kprog" where
  "freevm pgdir =
     (if pgdir = 0 then Panic ''freevm: no pgdir''
      else seqK [
        ignoreK (deallocuvm pgdir KERNBASE 0),
        forK [0..<1024] (\<lambda>i.
          bindK (gets (\<lambda>k. load32 (mem k) (pgdir + 4 * of_nat i))) (\<lambda>e.
          whenK (e AND PTE_P \<noteq> 0) (kfree (P2V (PTE_ADDR e))))),
        kfree pgdir])"

section \<open>The kernel part of a page table\<close>

definition kmap :: "kernel \<Rightarrow> (addr \<times> uint \<times> uint \<times> uint) list" where
  "kmap k = (let data = sym_data (syms k) in
     [(KERNBASE, 0, EXTMEM, PTE_W),
      (KERNLINK, V2P KERNLINK, V2P data, 0),
      (data, V2P data, PHYSTOP, PTE_W),
      (DEVSPACE, DEVSPACE, 0, PTE_W)])"

fun setupkvm_loop :: "addr \<Rightarrow> (addr \<times> uint \<times> uint \<times> uint) list \<Rightarrow> addr kprog" where
  "setupkvm_loop pgdir [] = Ret pgdir"
| "setupkvm_loop pgdir ((virt, phys_start, phys_end, perm) # ms) =
     bindK (mappages pgdir virt (phys_end - phys_start) phys_start perm) (\<lambda>r.
     if r < 0 then thenK (freevm pgdir) (Ret 0) else setupkvm_loop pgdir ms)"

definition setupkvm :: "addr kprog" where
  "setupkvm =
     bindK kalloc (\<lambda>pgdir.
     if pgdir = 0 then Ret 0
     else thenK (setmem (\<lambda>m. memset m pgdir 0 PGSIZE))
       (if DEVSPACE < P2V PHYSTOP then Panic ''PHYSTOP too high''
        else bindK (gets kmap) (setupkvm_loop pgdir)))"

definition lcr3 :: "uint \<Rightarrow> unit kprog" where
  "lcr3 v = modify (\<lambda>k. k\<lparr>cr3 := v\<rparr>)"

definition switchkvm :: "unit kprog" where
  "switchkvm = bindK (gets kpgdir) (\<lambda>d. lcr3 (V2P d))"

definition kvmalloc :: "unit kprog" where
  "kvmalloc = bindK setupkvm (\<lambda>d. thenK (modify (\<lambda>k. k\<lparr>kpgdir := d\<rparr>)) switchkvm)"

text \<open>The base of the task state segment is the address of \<open>cpus[i].ts\<close>, which has no model; it is 0.\<close>

definition switchuvm :: "nat option \<Rightarrow> unit kprog" where
  "switchuvm p = (case p of
     None \<Rightarrow> Panic ''switchuvm: no process''
   | Some i \<Rightarrow> bindK (gets (\<lambda>k. ptable k i)) (\<lambda>pr.
       if p_kstack pr = 0 then Panic ''switchuvm: no kstack''
       else if p_pgdir pr = 0 then Panic ''switchuvm: no pgdir''
       else seqK [
         pushcli,
         mycpu_set (\<lambda>c. c\<lparr>c_gdt := (c_gdt c)(5 := (SEG16 0x9 0 103 0)\<lparr>sd_s := 0\<rparr>)\<rparr>),
         mycpu_set (\<lambda>c. c\<lparr>c_ts_ss0 := 16, c_ts_esp0 := p_kstack pr + KSTACKSIZE, c_ts_iomb := 0xFFFF\<rparr>),
         modify (\<lambda>k. k\<lparr>tr := 40\<rparr>),
         lcr3 (V2P (p_pgdir pr)),
         popcli]))"

section \<open>User memory\<close>

definition inituvm :: "addr \<Rightarrow> addr \<Rightarrow> uint \<Rightarrow> unit kprog" where
  "inituvm pgdir init sz =
     (if PGSIZE \<le> sz then Panic ''inituvm: more than a page''
      else bindK kalloc (\<lambda>pg. seqK [
        setmem (\<lambda>m. memset m pg 0 PGSIZE),
        ignoreK (mappages pgdir 0 PGSIZE (V2P pg) (PTE_W OR PTE_U)),
        setmem (\<lambda>m. memmove m pg init sz)]))"

fun allocuvm_loop :: "nat \<Rightarrow> addr \<Rightarrow> uint \<Rightarrow> uint \<Rightarrow> addr \<Rightarrow> uint kprog" where
  "allocuvm_loop 0 pgdir oldsz newsz a = Blocked"
| "allocuvm_loop (Suc n) pgdir oldsz newsz a =
     (if a < newsz then
        bindK kalloc (\<lambda>pg.
        if pg = 0 then
          thenK (seqK [cprintf ''allocuvm out of memory\<newline>'' [], ignoreK (deallocuvm pgdir newsz oldsz)]) (Ret 0)
        else thenK (setmem (\<lambda>m. memset m pg 0 PGSIZE))
          (bindK (mappages pgdir a PGSIZE (V2P pg) (PTE_W OR PTE_U)) (\<lambda>r.
           if r < 0 then
             thenK (seqK [cprintf ''allocuvm out of memory (2)\<newline>'' [],
               ignoreK (deallocuvm pgdir newsz oldsz), kfree pg]) (Ret 0)
           else allocuvm_loop n pgdir oldsz newsz (a + PGSIZE))))
      else Ret newsz)"

definition allocuvm :: "addr \<Rightarrow> uint \<Rightarrow> uint \<Rightarrow> uint kprog" where
  "allocuvm pgdir oldsz newsz =
     (if KERNBASE \<le> newsz then Ret 0
      else if newsz < oldsz then Ret oldsz
      else allocuvm_loop vmfuel pgdir oldsz newsz (PGROUNDUP oldsz))"

definition clearpteu :: "addr \<Rightarrow> addr \<Rightarrow> unit kprog" where
  "clearpteu pgdir uva =
     bindK (walkpgdir pgdir uva False) (\<lambda>pte.
     if pte = 0 then Panic ''clearpteu''
     else setmem (\<lambda>m. store32 m pte (load32 m pte AND NOT PTE_U)))"

fun copyuvm_loop :: "nat \<Rightarrow> addr \<Rightarrow> addr \<Rightarrow> uint \<Rightarrow> uint \<Rightarrow> addr kprog" where
  "copyuvm_loop 0 pgdir d sz i = Blocked"
| "copyuvm_loop (Suc n) pgdir d sz i =
     (if i < sz then
        bindK (walkpgdir pgdir i False) (\<lambda>pte.
        if pte = 0 then Panic ''copyuvm: pte should exist''
        else bindK (gets (\<lambda>k. load32 (mem k) pte)) (\<lambda>e.
        if e AND PTE_P = 0 then Panic ''copyuvm: page not present''
        else bindK kalloc (\<lambda>pg.
        if pg = 0 then thenK (freevm d) (Ret 0)
        else thenK (setmem (\<lambda>m. memmove m pg (P2V (PTE_ADDR e)) PGSIZE))
          (bindK (mappages d i PGSIZE (V2P pg) (PTE_FLAGS e)) (\<lambda>r.
           if r < 0 then thenK (kfree pg) (thenK (freevm d) (Ret 0))
           else copyuvm_loop n pgdir d sz (i + PGSIZE))))))
      else Ret d)"

definition copyuvm :: "addr \<Rightarrow> uint \<Rightarrow> addr kprog" where
  "copyuvm pgdir sz =
     bindK setupkvm (\<lambda>d. if d = 0 then Ret 0 else copyuvm_loop vmfuel pgdir d sz 0)"

text \<open>\<open>uva2ka\<close> reads through the entry pointer without testing it; a null pointer is a \<open>Fault\<close>.\<close>

definition uva2ka :: "addr \<Rightarrow> addr \<Rightarrow> addr kprog" where
  "uva2ka pgdir uva =
     bindK (walkpgdir pgdir uva False) (\<lambda>pte.
     if pte = 0 then Fault ''uva2ka: null page table entry pointer''
     else bindK (gets (\<lambda>k. load32 (mem k) pte)) (\<lambda>e.
       if e AND PTE_P = 0 then Ret 0
       else if e AND PTE_U = 0 then Ret 0
       else Ret (P2V (PTE_ADDR e))))"

text \<open>The source of \<open>copyout\<close> is given by its bytes.\<close>

definition copyout_chunk :: "addr \<Rightarrow> nat \<Rightarrow> nat" where
  "copyout_chunk va len = min (unat (PGSIZE - (va - PGROUNDDOWN va))) len"

lemma copyout_chunk_pos: "0 < len \<Longrightarrow> 0 < copyout_chunk va len"
proof -
  have "unat (va - PGROUNDDOWN va) = unat va mod 4096"
    by (simp add: unat_sub_if' unat_rounddown)
  then have "unat (va - PGROUNDDOWN va) < 4096" by simp
  then have "PGSIZE - (va - PGROUNDDOWN va) \<noteq> 0" by auto
  then have "0 < unat (PGSIZE - (va - PGROUNDDOWN va))" by (simp add: unat_gt_0)
  then show "0 < len \<Longrightarrow> 0 < copyout_chunk va len" by (simp add: copyout_chunk_def)
qed

function copyout :: "addr \<Rightarrow> addr \<Rightarrow> byte list \<Rightarrow> int kprog" where
  "copyout pgdir va buf =
     (if buf = [] then Ret 0
      else bindK (uva2ka pgdir (PGROUNDDOWN va)) (\<lambda>pa0.
        if pa0 = 0 then Ret (- 1)
        else thenK (setmem (\<lambda>m. store_bytes m (pa0 + (va - PGROUNDDOWN va)) (take (copyout_chunk va (length buf)) buf)))
          (copyout pgdir (PGROUNDDOWN va + PGSIZE) (drop (copyout_chunk va (length buf)) buf))))"
  by pat_completeness auto
termination
  by (relation "measure (\<lambda>(_, _, buf). length buf)") (simp_all add: copyout_chunk_pos)

declare copyout.simps [simp del]

section \<open>Address arithmetic\<close>

lemma mask10: "(0x3FF :: uint) = mask 10"
  by (simp add: mask_eq_exp_minus_1)

lemma maskFFF: "(0xFFF :: uint) = mask 12"
  by (simp add: mask_eq_exp_minus_1)

lemma PDX_less: "unat (PDX va) < 1024"
  unfolding PDX_def mask10 take_bit_eq_mask[symmetric] using take_bit_nat_less_exp[of 10 "unat (drop_bit 22 va)"]
  by (simp add: unsigned_take_bit_eq)

lemma PTX_less: "unat (PTX va) < 1024"
  unfolding PTX_def mask10 take_bit_eq_mask[symmetric] using take_bit_nat_less_exp[of 10 "unat (drop_bit 12 va)"]
  by (simp add: unsigned_take_bit_eq)

text \<open>
  The three parts of a virtual address determine it: \<open>PGADDR\<close> of the page directory index, the
  page table index and the offset is the address itself.
\<close>

theorem PGADDR_parts: "PGADDR (PDX va) (PTX va) (va AND 0xFFF) = va"
  unfolding PGADDR_def PDX_def PTX_def mask10 maskFFF
proof (rule bit_word_eqI)
  fix n
  show "bit (push_bit 22 (drop_bit 22 va AND mask 10) OR push_bit 12 (drop_bit 12 va AND mask 10) OR
      va AND mask 12) n = bit va n" if "n < LENGTH(32)"
    using that by (cases "n < 22") (auto simp: bit_simps)
qed

lemma same_page_iff:
  "PGROUNDDOWN a = PGROUNDDOWN b \<longleftrightarrow> PDX a = PDX b \<and> PTX a = PTX b"
proof
  assume eq: "PGROUNDDOWN a = PGROUNDDOWN b"
  have parts: "PDX (PGROUNDDOWN x) = PDX x" "PTX (PGROUNDDOWN x) = PTX x" for x
    unfolding PDX_def PTX_def PGROUNDDOWN_def mask12 mask10 by (rule bit_word_eqI, auto simp: bit_simps)+
  show "PDX a = PDX b \<and> PTX a = PTX b" using arg_cong[OF eq, of PDX] arg_cong[OF eq, of PTX] by (simp add: parts)
next
  assume "PDX a = PDX b \<and> PTX a = PTX b"
  moreover have "PGADDR (PDX x) (PTX x) 0 = PGROUNDDOWN x" for x
    unfolding PGADDR_def PDX_def PTX_def PGROUNDDOWN_def mask12 mask10
  proof (rule bit_word_eqI)
    fix n
    show "bit (push_bit 22 (drop_bit 22 x AND mask 10) OR push_bit 12 (drop_bit 12 x AND mask 10) OR 0) n =
        bit (x AND NOT (mask 12)) n" if "n < LENGTH(32)"
      using that by (cases "n < 22") (auto simp: bit_simps)
  qed
  ultimately show "PGROUNDDOWN a = PGROUNDDOWN b" by metis
qed

lemma rounddown_id: "va mod PGSIZE = 0 \<Longrightarrow> PGROUNDDOWN va = va"
  by (simp add: word_unat_eq_iff unat_rounddown unat_mod)

lemma rounddown_last: "va mod PGSIZE = 0 \<Longrightarrow> PGROUNDDOWN (va + PGSIZE - 1) = va"
proof -
  assume al: "va mod PGSIZE = 0"
  then have m: "unat va mod 4096 = 0" by (simp add: word_unat_eq_iff unat_mod)
  then obtain j where j: "unat va = 4096 * j" by auto
  then have "j < 1048576" using unat_uint_less[of va] by simp
  then have "unat (va + of_nat 4095) = unat va + 4095" using j by (intro unat_add_small) simp
  then have "unat (PGROUNDDOWN (va + 4095)) = unat va" using m by (simp add: unat_rounddown mod_add_left_eq[symmetric])
  then show ?thesis by (simp add: word_unat_eq_iff add.commute[of va])
qed

lemma pte_addr_entry: "pg mod PGSIZE = 0 \<Longrightarrow> PTE_ADDR (V2P pg OR PTE_P OR PTE_W OR PTE_U) = V2P pg"
proof -
  assume "pg mod PGSIZE = 0"
  then have "(pg - KERNBASE) mod PGSIZE = 0"
    by (simp add: aligned_unat unat_sub_if' mod_add_left_eq[symmetric]) (auto; presburger)
  then have b: "\<not> bit (V2P pg) n" if "n < 12" for n
    using that unfolding word_mod_page V2P_def by (metis bit_0_eq bit_take_bit_iff bot_apply bot_bool_def)
  have "(1 :: uint) OR 2 OR 4 = 7" by simp
  moreover have "(V2P pg OR 7) AND NOT (mask 12) = (V2P pg :: uint)"
  proof (rule bit_word_eqI)
    fix n
    assume n: "n < LENGTH(32)"
    have "\<not> bit (7 :: uint) n" if "12 \<le> n"
    proof -
      have seven: "(7 :: uint) = mask 3" by (simp add: mask_eq_exp_minus_1)
      show ?thesis unfolding seven using that by (simp add: bit_mask_iff del: mask_numeral)
    qed
    then show "bit ((V2P pg OR 7) AND NOT (mask 12)) n = bit (V2P pg) n"
      using b[of n] n by (cases "n < 12") (auto simp: bit_simps not_less)
  qed
  ultimately show ?thesis by (simp add: PTE_ADDR_def maskFFF or.assoc)
qed

lemma P2V_V2P [simp]: "P2V (V2P a) = a" "V2P (P2V a) = a"
  by (simp_all add: P2V_def V2P_def)

section \<open>Page tables as maps\<close>

text \<open>
  \<open>pt_lookup m pgdir va\<close> is the present page table entry the hardware finds for \<open>va\<close>. \<open>pt_wf\<close>: the
  directory and its tables are different pages, none of them on the free list \<open>ps\<close>.
\<close>

definition pd_table :: "memory \<Rightarrow> addr \<Rightarrow> nat \<Rightarrow> addr option" where
  "pd_table m pgdir d = (let e = load32 m (pgdir + 4 * of_nat d) in
     if e AND PTE_P = 0 then None else Some (P2V (PTE_ADDR e)))"

definition pt_lookup :: "memory \<Rightarrow> addr \<Rightarrow> addr \<Rightarrow> uint option" where
  "pt_lookup m pgdir va = (case pd_table m pgdir (unat (PDX va)) of
     None \<Rightarrow> None
   | Some t \<Rightarrow> (let e = load32 m (t + 4 * PTX va) in if e AND PTE_P = 0 then None else Some e))"

definition pt_wf :: "memory \<Rightarrow> addr \<Rightarrow> addr list \<Rightarrow> bool" where
  "pt_wf m pgdir ps \<longleftrightarrow> pgdir mod PGSIZE = 0 \<and> pgdir \<noteq> 0 \<and> pgdir \<notin> set ps \<and>
     (\<forall>d<1024. \<forall>t. pd_table m pgdir d = Some t \<longrightarrow> t \<noteq> pgdir \<and> t \<notin> set ps \<and> t \<noteq> 0) \<and>
     (\<forall>d<1024. \<forall>e<1024. \<forall>t. pd_table m pgdir d = Some t \<longrightarrow> pd_table m pgdir e = Some t \<longrightarrow> d = e)"

lemma pte_addr_aligned: "P2V (PTE_ADDR e) mod PGSIZE = 0"
proof -
  have "PTE_ADDR e = PGROUNDDOWN e" by (simp add: PTE_ADDR_def PGROUNDDOWN_def)
  then have "unat (PTE_ADDR e) mod 4096 = 0" using rounddown_aligned[of e, unfolded aligned_unat] by simp
  then obtain j where j: "unat (PTE_ADDR e) = 4096 * j" by auto
  have "unat (PTE_ADDR e + KERNBASE) = (4096 * (j + 524288)) mod (4096 * 1048576)"
    by (simp add: unat_word_ariths j)
  also have "\<dots> = 4096 * ((j + 524288) mod 1048576)" by (rule mult_mod_right[symmetric])
  finally show ?thesis by (simp only: aligned_unat P2V_def) simp
qed

lemma pd_table_aligned: "pd_table m pgdir d = Some t \<Longrightarrow> t mod PGSIZE = 0"
  by (auto simp: pd_table_def Let_def pte_addr_aligned split: if_splits)

text \<open>Entries of pages are at multiples of four; two of them coincide only in the same page and slot.\<close>

definition slot :: "addr \<Rightarrow> nat \<Rightarrow> addr" where
  "slot p i = p + 4 * of_nat i"

lemma slot_in_page: "i < 1024 \<Longrightarrow> slot p i \<in> page_of p"
  using page_of_offset[of "4 * i" p] by (simp add: slot_def)

lemma slot_offset: "slot p i = p + of_nat (4 * i)"
  by (simp add: slot_def)

lemma slot_inj:
  assumes "p mod PGSIZE = 0" "q mod PGSIZE = 0" "i < 1024" "j < 1024" "slot p i = slot q j"
  shows "p = q" "i = j"
proof -
  have "slot p i \<in> page_of q" using slot_in_page[OF assms(4), of q] assms(5) by simp
  then show eq: "p = q"
    using page_of_disjoint[OF assms(1,2)] slot_in_page[OF assms(3), of p] by blast
  have off: "unat (slot r n - r) = 4 * n" if "n < 1024" for r n
  proof -
    have "unat (of_nat (4 * n) :: uint) = 4 * n" using that by (subst unat_of_nat) simp
    then show ?thesis unfolding slot_offset add_diff_cancel_left' .
  qed
  have "4 * i = unat (slot q j - q)" unfolding assms(5)[symmetric] unfolding eq[symmetric] by (rule off[OF assms(3), symmetric])
  then show "i = j" using off[OF assms(4), of q] by linarith
qed

lemma slot_aligned4: "p mod PGSIZE = 0 \<Longrightarrow> i < 1024 \<Longrightarrow> aligned4 (slot p i)"
proof -
  assume p: "p mod PGSIZE = 0" and i: "i < 1024"
  obtain j where j: "unat p = 4096 * j" using p by (auto simp: aligned_unat)
  then have "j < 1048576" using unat_uint_less[of p] by simp
  then have "unat (p + of_nat (4 * i)) = unat p + 4 * i"
    using i j by (intro unat_add_small) simp
  also have "\<dots> = 4 * (1024 * j + i)" using j by simp
  finally show "aligned4 (slot p i)" by (simp only: aligned4_def slot_offset) simp
qed

lemma load_slot_store:
  assumes "p mod PGSIZE = 0" "q mod PGSIZE = 0" "i < 1024" "j < 1024"
  shows "load32 (store32 m (slot p i) v) (slot q j) = (if p = q \<and> i = j then v else load32 m (slot q j))"
  using slot_inj[OF assms] load32_store32_other[OF aligned4_sep4[OF slot_aligned4[OF assms(1,3)] slot_aligned4[OF assms(2,4)]]]
  by auto

lemma load_slot_memset:
  assumes "p mod PGSIZE = 0" "q mod PGSIZE = 0" "j < 1024" "p \<noteq> q"
  shows "load32 (memset m p c PGSIZE) (slot q j) = load32 m (slot q j)"
proof -
  have "memset m p c PGSIZE x = m x" if "x \<in> page_of q" for x
    using page_of_disjoint[OF assms(1,2,4) that] by (simp add: memset_page)
  then show ?thesis unfolding slot_offset using assms(3) by (intro load32_page_cong) auto
qed

lemma load_slot_zeroed: "j < 1024 \<Longrightarrow> load32 (memset m p 0 PGSIZE) (slot p j) = 0"
proof -
  assume "j < 1024"
  moreover have "load32 (\<lambda>_. 0) (slot p j) = 0" by (simp add: load32_def)
  ultimately show ?thesis
    using load32_page_cong[of p "memset m p 0 PGSIZE" "\<lambda>_. 0" "4 * j"] by (simp add: memset_page slot_offset)
qed

lemma pd_table_slot: "pd_table m pgdir d = (let e = load32 m (slot pgdir d) in
    if e AND PTE_P = 0 then None else Some (P2V (PTE_ADDR e)))"
  by (simp add: pd_table_def slot_def)

lemma pt_lookup_slot: "pt_lookup m pgdir va = (case pd_table m pgdir (unat (PDX va)) of
     None \<Rightarrow> None
   | Some t \<Rightarrow> (let e = load32 m (slot t (unat (PTX va))) in if e AND PTE_P = 0 then None else Some e))"
  unfolding slot_def by (simp add: pt_lookup_def cong: option.case_cong)

lemma pd_table_store_table:
  "pgdir mod PGSIZE = 0 \<Longrightarrow> t mod PGSIZE = 0 \<Longrightarrow> t \<noteq> pgdir \<Longrightarrow> i < 1024 \<Longrightarrow> d < 1024 \<Longrightarrow>
   pd_table (store32 m (slot t i) v) pgdir d = pd_table m pgdir d"
  by (simp add: pd_table_slot load_slot_store)

lemma pd_table_memset:
  "pgdir mod PGSIZE = 0 \<Longrightarrow> p mod PGSIZE = 0 \<Longrightarrow> p \<noteq> pgdir \<Longrightarrow> d < 1024 \<Longrightarrow>
   pd_table (memset m p c PGSIZE) pgdir d = pd_table m pgdir d"
  by (simp add: pd_table_slot load_slot_memset)

lemma pd_table_store_dir:
  "pgdir mod PGSIZE = 0 \<Longrightarrow> d < 1024 \<Longrightarrow> e < 1024 \<Longrightarrow>
   pd_table (store32 m (slot pgdir d) v) pgdir e =
     (if e = d then (if v AND PTE_P = 0 then None else Some (P2V (PTE_ADDR v))) else pd_table m pgdir e)"
  by (auto simp: pd_table_slot load_slot_store)

lemma free_pages_mem:
  assumes "free_pages k ps" "\<And>q x. q \<in> set ps \<Longrightarrow> x \<in> page_of q \<Longrightarrow> m' x = mem k x"
  shows "free_pages (k\<lparr>mem := m'\<rparr>) ps"
proof -
  have "load32 m' q = load32 (mem k) q" if "q \<in> set ps" for q
    using load32_page_cong[of q m' "mem k" 0] assms(2)[OF that] by simp
  then have "chain m' (freelist k) ps"
    using assms(1) chain_cong[of ps m' "mem k"] by (simp add: free_pages_def)
  then show ?thesis using assms(1) by (simp add: free_pages_def page_ok_def)
qed

lemma free_pages_store:
  assumes "free_pages k ps" "p mod PGSIZE = 0" "p \<notin> set ps" "i < 1024"
  shows "free_pages (k\<lparr>mem := store32 (mem k) (slot p i) v\<rparr>) ps"
proof (rule free_pages_mem[OF assms(1)])
  fix q x
  assume q: "q \<in> set ps" "x \<in> page_of q"
  then have "x \<notin> page_of p"
    using assms page_of_disjoint[of p q x] by (auto simp: free_pages_def page_ok_def)
  then show "store32 (mem k) (slot p i) v x = mem k x"
    using store32_outside[of x p "4 * i"] assms(4) by (simp add: slot_offset)
qed

lemma free_pages_memset:
  assumes "free_pages k ps" "p mod PGSIZE = 0" "p \<notin> set ps"
  shows "free_pages (k\<lparr>mem := memset (mem k) p c PGSIZE\<rparr>) ps"
proof (rule free_pages_mem[OF assms(1)])
  fix q x
  assume q: "q \<in> set ps" "x \<in> page_of q"
  then have "x \<notin> page_of p"
    using assms page_of_disjoint[of p q x] by (auto simp: free_pages_def page_ok_def)
  then show "memset (mem k) p c PGSIZE x = mem k x" by (simp add: memset_page)
qed

lemma slot_nonzero: "t mod PGSIZE = 0 \<Longrightarrow> t \<noteq> 0 \<Longrightarrow> i < 1024 \<Longrightarrow> slot t i \<noteq> 0"
  using slot_inj(1)[of t 0 i 0] by (auto simp: slot_def)

lemma walkpgdir_find:
  "walkpgdir pgdir va False (k, env) = Ret (case pd_table (mem k) pgdir (unat (PDX va)) of
     None \<Rightarrow> 0 | Some t \<Rightarrow> slot t (unat (PTX va))) (k, env)"
  by (simp add: walkpgdir_def Let_def kM_simps pd_table_def slot_def)

lemma walkpgdir_present:
  "pd_table (mem k) pgdir (unat (PDX va)) = Some t \<Longrightarrow>
   walkpgdir pgdir va al (k, env) = Ret (slot t (unat (PTX va))) (k, env)"
  by (auto simp: walkpgdir_def Let_def kM_simps pd_table_def slot_def split: if_splits)

lemma new_entry: "(V2P p OR PTE_P OR PTE_W OR PTE_U) AND PTE_P \<noteq> 0"
proof
  assume "(V2P p OR PTE_P OR PTE_W OR PTE_U) AND PTE_P = 0"
  then have "bit ((V2P p OR PTE_P OR PTE_W OR PTE_U) AND PTE_P) 0 = False" by simp
  then show False by (simp add: bit_simps)
qed

text \<open>A new, empty table in the directory changes no lookup.\<close>

definition with_table :: "memory \<Rightarrow> addr \<Rightarrow> nat \<Rightarrow> addr \<Rightarrow> memory" where
  "with_table m pgdir d p = store32 (memset m p 0 PGSIZE) (slot pgdir d) (V2P p OR PTE_P OR PTE_W OR PTE_U)"

lemma pd_table_with_table:
  assumes "pgdir mod PGSIZE = 0" "p mod PGSIZE = 0" "p \<noteq> pgdir" "d < 1024" "e < 1024"
  shows "pd_table (with_table m pgdir d p) pgdir e = (if e = d then Some p else pd_table m pgdir e)"
  using assms new_entry[of p] by (simp add: with_table_def pd_table_store_dir pd_table_memset pte_addr_entry[simplified])

lemma pt_wf_with_table:
  assumes "pt_wf m pgdir (p # ps)" "p mod PGSIZE = 0" "p \<notin> set ps" "p \<noteq> 0" "d < 1024"
  shows "pt_wf (with_table m pgdir d p) pgdir ps"
proof -
  have b: "pgdir mod PGSIZE = 0" "p \<noteq> pgdir" using assms(1) by (auto simp: pt_wf_def)
  note T = pd_table_with_table[OF b(1) assms(2) b(2) assms(5)]
  show ?thesis
    using assms unfolding pt_wf_def
    by (auto simp: T split: if_splits)
qed

lemma lookup_with_table:
  assumes "pt_wf m pgdir (p # ps)" "p mod PGSIZE = 0" "d < 1024" "pd_table m pgdir d = None"
  shows "pt_lookup (with_table m pgdir d p) pgdir va = pt_lookup m pgdir va"
proof -
  have b: "pgdir mod PGSIZE = 0" "p \<noteq> pgdir" using assms(1) by (auto simp: pt_wf_def)
  note T = pd_table_with_table[OF b(1) assms(2) b(2) assms(3)]
  show ?thesis
  proof (cases "unat (PDX va) = d")
    case True
    have "load32 (with_table m pgdir d p) (slot p (unat (PTX va))) = 0"
      using b assms(2,3) by (simp add: with_table_def load_slot_store load_slot_zeroed PTX_less)
    then show ?thesis using True assms(3,4) by (simp add: pt_lookup_slot T)
  next
    case False
    have "load32 (with_table m pgdir d p) (slot t (unat (PTX va))) = load32 m (slot t (unat (PTX va)))"
      if "pd_table m pgdir (unat (PDX va)) = Some t" for t
    proof -
      have "t \<noteq> pgdir" "t \<noteq> p" using assms(1) that PDX_less[of va] by (auto simp: pt_wf_def)
      then show ?thesis using pd_table_aligned[OF that] b assms(2,3)
        by (simp add: with_table_def load_slot_store load_slot_memset PTX_less)
    qed
    then show ?thesis using False by (simp add: pt_lookup_slot T PDX_less split: option.splits)
  qed
qed

text \<open>
  What \<open>walkpgdir\<close> leaves when it may allocate: the slot of \<open>va\<close> in a well-formed page table with the
  same lookups, or a null pointer when a table is missing and no page is free.
\<close>

definition walked :: "kernel \<Rightarrow> addr list \<Rightarrow> addr \<Rightarrow> addr \<Rightarrow> addr \<Rightarrow> kernel \<Rightarrow> bool" where
  "walked k ps pgdir va pte k' \<longleftrightarrow> kready k' \<and>
     (if pte = 0 then ps = [] \<and> mem k' = mem k \<and> free_pages k' []
      else \<exists>t ps'. pte = slot t (unat (PTX va)) \<and> pd_table (mem k') pgdir (unat (PDX va)) = Some t \<and>
        (ps' = ps \<or> ps = t # ps') \<and> free_pages k' ps' \<and> pt_wf (mem k') pgdir ps' \<and>
        (\<forall>va'. pt_lookup (mem k') pgdir va' = pt_lookup (mem k) pgdir va'))"

lemma walkpgdir_new:
  assumes "pd_table (mem k) pgdir (unat (PDX va)) = None" "kalloc (k, env) = Ret p (k1, env)"
  shows "walkpgdir pgdir va True (k, env) =
    (if p = 0 then Ret 0 (k1, env)
     else Ret (slot p (unat (PTX va))) (k1\<lparr>mem := with_table (mem k1) pgdir (unat (PDX va)) p\<rparr>, env))"
  using assms
  by (auto simp: walkpgdir_def Let_def kM_simps pd_table_def slot_def with_table_def setmem_def split: if_splits)

lemma walkpgdir_alloc:
  assumes "kready k" "free_pages k ps" "pt_wf (mem k) pgdir ps"
  shows "wp (walkpgdir pgdir va True) (\<lambda>pte (k', env'). walked k ps pgdir va pte k' \<and> env' = env) (k, env)"
proof (cases "pd_table (mem k) pgdir (unat (PDX va))")
  case (Some t)
  then have "t \<noteq> 0" using assms(3) PDX_less[of va] by (auto simp: pt_wf_def)
  then have "slot t (unat (PTX va)) \<noteq> 0" by (intro slot_nonzero pd_table_aligned[OF Some] PTX_less)
  then have "walked k ps pgdir va (slot t (unat (PTX va))) k" using assms Some by (auto simp: walked_def)
  then show ?thesis by (simp add: wp_def walkpgdir_present[OF Some])
next
  case None
  obtain r k1 where r: "kalloc (k, env) = Ret r (k1, env)" and st: "kready k1" "mem k1 = mem k"
      "case ps of [] \<Rightarrow> r = 0 \<and> free_pages k1 [] | p # qs \<Rightarrow> r = p \<and> free_pages k1 qs"
    using kalloc_stack[OF assms(1,2), of env] by (auto simp: wp_def split: outcome.splits)
  show ?thesis
  proof (cases ps)
    case Nil
    then have "walked k ps pgdir va 0 k1" using st by (simp add: walked_def)
    then show ?thesis using Nil st walkpgdir_new[OF None r] by (simp add: wp_def)
  next
    case (Cons p qs)
    let ?m = "with_table (mem k) pgdir (unat (PDX va)) p" and ?i = "unat (PTX va)"
    have p: "p mod PGSIZE = 0" "p \<noteq> 0" "p \<notin> set qs" and wf: "pt_wf (mem k) pgdir (p # qs)"
      and d: "pgdir mod PGSIZE = 0" "p \<noteq> pgdir" "pgdir \<notin> set qs"
      using assms(2,3) Cons page_ok_nonzero[of k p] by (auto simp: free_pages_def page_ok_def pt_wf_def)
    have rp: "r = p" "free_pages k1 qs" using st(3) Cons by simp_all
    have fp: "free_pages (k1\<lparr>mem := ?m\<rparr>) qs"
      using free_pages_store[OF free_pages_memset[OF rp(2) p(1,3)] d(1,3) PDX_less] st(2)
      by (simp add: with_table_def)
    have "walked k ps pgdir va (slot p ?i) (k1\<lparr>mem := ?m\<rparr>)"
      using st(1) fp slot_nonzero[OF p(1,2) PTX_less] pt_wf_with_table[OF wf p(1,3,2) PDX_less]
        lookup_with_table[OF wf p(1) PDX_less None] pd_table_with_table[OF d(1) p(1) d(2) PDX_less PDX_less] Cons
      by (simp add: walked_def) blast
    then show ?thesis using p(2) rp(1) st(2) walkpgdir_new[OF None r] by (simp add: wp_def)
  qed
qed

text \<open>Filling a slot of an existing table changes exactly the lookups of its page.\<close>

lemma lookup_store:
  assumes "pt_wf m pgdir ps" "pd_table m pgdir (unat (PDX va)) = Some t"
  shows "pt_lookup (store32 m (slot t (unat (PTX va))) v) pgdir va' =
    (if PGROUNDDOWN va' = PGROUNDDOWN va then (if v AND PTE_P = 0 then None else Some v) else pt_lookup m pgdir va')"
proof -
  have t: "t mod PGSIZE = 0" "t \<noteq> pgdir" "pgdir mod PGSIZE = 0"
    using assms pd_table_aligned[OF assms(2)] PDX_less[of va] by (auto simp: pt_wf_def)
  note T = pd_table_store_table[OF t(3,1,2) PTX_less PDX_less]
  have same: "PDX va' = PDX va" if "pd_table m pgdir (unat (PDX va')) = Some t"
    using assms that PDX_less[of va] PDX_less[of va'] unfolding pt_wf_def by (metis word_unat_eq_iff)
  show ?thesis
  proof (cases "pd_table m pgdir (unat (PDX va'))")
    case None
    then show ?thesis using assms(2) by (auto simp: pt_lookup_slot T same_page_iff)
  next
    case (Some t')
    have l: "load32 (store32 m (slot t (unat (PTX va))) v) (slot t' (unat (PTX va'))) =
        (if t = t' \<and> unat (PTX va) = unat (PTX va') then v else load32 m (slot t' (unat (PTX va'))))"
      by (rule load_slot_store[OF t(1) pd_table_aligned[OF Some] PTX_less PTX_less])
    have "t = t' \<and> unat (PTX va) = unat (PTX va') \<longleftrightarrow> PGROUNDDOWN va' = PGROUNDDOWN va"
      using same Some assms(2) by (auto simp: same_page_iff word_unat_eq_iff[symmetric])
    then show ?thesis using Some by (simp add: pt_lookup_slot T l Let_def)
  qed
qed

lemma pt_wf_store:
  assumes "pt_wf m pgdir ps" "pd_table m pgdir d = Some t" "d < 1024" "i < 1024"
  shows "pt_wf (store32 m (slot t i) v) pgdir ps"
proof -
  have "t mod PGSIZE = 0" "t \<noteq> pgdir" "pgdir mod PGSIZE = 0"
    using assms pd_table_aligned[OF assms(2)] by (auto simp: pt_wf_def)
  note T = pd_table_store_table[OF this(3,1,2) assms(4)]
  show ?thesis using assms(1) by (simp add: pt_wf_def T)
qed

lemma present_or: "(pa OR perm OR PTE_P) AND PTE_P \<noteq> 0"
proof
  assume "(pa OR perm OR PTE_P) AND PTE_P = 0"
  then have "bit ((pa OR perm OR PTE_P) AND PTE_P) 0 = False" by simp
  then show False by (simp add: bit_simps)
qed

lemma vmfuel_Suc: "vmfuel = Suc (2 ^ 20)"
  by (simp add: vmfuel_def)

lemma mappages_one:
  "va mod PGSIZE = 0 \<Longrightarrow> mappages pgdir va PGSIZE pa perm =
    bindK (walkpgdir pgdir va True) (\<lambda>pte.
     if pte = 0 then Ret (- 1)
     else bindK (gets (\<lambda>k. load32 (mem k) pte)) (\<lambda>e.
     if e AND PTE_P \<noteq> 0 then Panic ''remap''
     else thenK (setmem (\<lambda>m. store32 m pte (pa OR perm OR PTE_P))) (Ret 0)))"
  unfolding mappages_def vmfuel_Suc mappages_loop.simps by (simp add: rounddown_id rounddown_last[simplified])

lemma mappages_page_wp:
  assumes "kready k" "free_pages k ps" "pt_wf (mem k) pgdir ps" "va mod PGSIZE = 0"
    and "pt_lookup (mem k) pgdir va = None"
  shows "wp (mappages pgdir va PGSIZE pa perm) (\<lambda>r (k', env'). kready k' \<and> env' = env \<and>
    (if r = 0 then (\<exists>ps'. (ps' = ps \<or> (\<exists>t. ps = t # ps')) \<and> free_pages k' ps' \<and> pt_wf (mem k') pgdir ps') \<and>
       (\<forall>va'. pt_lookup (mem k') pgdir va' =
         (if PGROUNDDOWN va' = va then Some (pa OR perm OR PTE_P) else pt_lookup (mem k) pgdir va'))
     else r = - 1 \<and> ps = [] \<and> mem k' = mem k \<and> free_pages k' [])) (k, env)"
    (is "wp _ ?post _")
proof -
  have tail: "wp (if pte = 0 then Ret (- 1)
     else bindK (gets (\<lambda>k. load32 (mem k) pte)) (\<lambda>e.
     if e AND PTE_P \<noteq> 0 then Panic ''remap''
     else thenK (setmem (\<lambda>m. store32 m pte (pa OR perm OR PTE_P))) (Ret 0))) ?post (k1, env)"
    if w: "walked k ps pgdir va pte k1" for pte k1
  proof (cases "pte = 0")
    case True
    then show ?thesis using w by (simp add: walked_def)
  next
    case False
    then obtain t ps' where t: "pte = slot t (unat (PTX va))" "pd_table (mem k1) pgdir (unat (PDX va)) = Some t"
      "ps' = ps \<or> ps = t # ps'" "free_pages k1 ps'" "pt_wf (mem k1) pgdir ps'" "kready k1"
      "\<And>va'. pt_lookup (mem k1) pgdir va' = pt_lookup (mem k) pgdir va'"
      using w by (auto simp: walked_def)
    have np: "load32 (mem k1) pte AND PTE_P = 0"
      using t(2) t(7)[of va] assms(5) by (simp add: pt_lookup_slot t(1) Let_def split: if_splits)
    have tps: "t mod PGSIZE = 0" "t \<notin> set ps'"
      using t(5) pd_table_aligned[OF t(2)] t(2) PDX_less[of va] by (auto simp: pt_wf_def)
    have "free_pages (k1\<lparr>mem := store32 (mem k1) pte (pa OR perm OR PTE_P)\<rparr>) ps'"
      unfolding t(1) by (rule free_pages_store[OF t(4) tps PTX_less])
    moreover have "pt_wf (store32 (mem k1) pte (pa OR perm OR PTE_P)) pgdir ps'"
      unfolding t(1) by (rule pt_wf_store[OF t(5,2) PDX_less PTX_less])
    moreover have "pt_lookup (store32 (mem k1) pte (pa OR perm OR PTE_P)) pgdir va' =
        (if PGROUNDDOWN va' = va then Some (pa OR perm OR PTE_P) else pt_lookup (mem k) pgdir va')" for va'
      unfolding t(1) lookup_store[OF t(5,2)]
      using present_or[of pa perm] assms(4) by (simp add: t(7) rounddown_id)
    ultimately show ?thesis using False np t(3,6) by (auto simp: setmem_def)
  qed
  show ?thesis unfolding mappages_one[OF assms(4)]
  proof (rule wp_bindI[OF walkpgdir_alloc[OF assms(1-3)]])
    fix pte s
    assume "case s of (k', env') \<Rightarrow> walked k ps pgdir va pte k' \<and> env' = env"
    then obtain k1 where k1: "s = (k1, env)" "walked k ps pgdir va pte k1" by (cases s) auto
    show "wp (if pte = 0 then Ret (- 1)
     else bindK (gets (\<lambda>k. load32 (mem k) pte)) (\<lambda>e.
     if e AND PTE_P \<noteq> 0 then Panic ''remap''
     else thenK (setmem (\<lambda>m. store32 m pte (pa OR perm OR PTE_P))) (Ret 0))) ?post s"
      unfolding k1(1) by (rule tail[OF k1(2)])
  qed
qed

text \<open>
  C30: Mapping one page into a well-formed page table: \<open>mappages\<close> either installs the entry, so that
  lookups anywhere in the page give it and lookups everywhere else are unchanged, taking at most one
  free page for a new table, or it returns -1, only when no page is free, leaving memory as it was.
\<close>

theorem mappages_page:
  assumes "kready k" "free_pages k ps" "pt_wf (mem k) pgdir ps" "va mod PGSIZE = 0"
    and "pt_lookup (mem k) pgdir va = None"
  shows "wp (mappages pgdir va PGSIZE pa perm) (\<lambda>r (k', env'). kready k' \<and> env' = env \<and>
    (if r = 0 then (\<exists>ps'. (ps' = ps \<or> (\<exists>t. ps = t # ps')) \<and> free_pages k' ps' \<and> pt_wf (mem k') pgdir ps') \<and>
       (\<forall>va'. pt_lookup (mem k') pgdir va' =
         (if PGROUNDDOWN va' = va then Some (pa OR perm OR PTE_P) else pt_lookup (mem k) pgdir va'))
     else r = - 1 \<and> ps = [] \<and> mem k' = mem k \<and> free_pages k' [])) (k, env)"
  by (rule mappages_page_wp[OF assms])

lemma empty_directory:
  assumes "pgdir mod PGSIZE = 0" "pgdir \<noteq> 0" "pgdir \<notin> set ps" "\<And>x. m x = 0"
  shows "pt_wf m pgdir ps" "pt_lookup m pgdir va = None"
  using assms by (simp_all add: pt_wf_def pt_lookup_def pd_table_def load32_def)

theorem mappages_page_witness:
  "wp (mappages 0x80600000 0x1000 PGSIZE 0x700000 6) (\<lambda>r (k', env'). kready k' \<and> env' = [] \<and>
    (if r = 0 then (\<exists>ps'. (ps' = [0x80400000] \<or> (\<exists>t. [0x80400000] = t # ps')) \<and> free_pages k' ps' \<and>
         pt_wf (mem k') 0x80600000 ps') \<and>
       (\<forall>va'. pt_lookup (mem k') 0x80600000 va' =
         (if PGROUNDDOWN va' = 0x1000 then Some (0x700000 OR 6 OR PTE_P)
          else pt_lookup (mem one_page_kernel) 0x80600000 va'))
     else r = - 1 \<and> [0x80400000 :: addr] = [] \<and> mem k' = mem one_page_kernel \<and> free_pages k' []))
   (one_page_kernel, [])"
  by (rule mappages_page[OF one_page_facts(1,2)])
    (auto simp: one_page_kernel_def zero_kernel_def intro!: empty_directory(1) empty_directory(2)[where ps = "[]"])

text \<open>
  Mapping a page that is already mapped is refused: \<open>mappages\<close> panics with \<open>remap\<close> and has written
  nothing.
\<close>

lemma mappages_remap_panics:
  assumes "va mod PGSIZE = 0" "pt_wf (mem k) pgdir ps" "pt_lookup (mem k) pgdir va = Some e"
  shows "mappages pgdir va PGSIZE pa perm (k, env) = Panic ''remap'' (k, env)"
proof -
  obtain t where t: "pd_table (mem k) pgdir (unat (PDX va)) = Some t"
    and p: "load32 (mem k) (slot t (unat (PTX va))) AND PTE_P \<noteq> 0"
    using assms(3) by (auto simp: pt_lookup_slot Let_def split: option.splits if_splits)
  have "slot t (unat (PTX va)) \<noteq> 0"
    using assms(2) t PDX_less[of va] by (intro slot_nonzero pd_table_aligned[OF t] PTX_less) (auto simp: pt_wf_def)
  then show ?thesis
    using p by (simp add: mappages_one[OF assms(1)] kM_simps walkpgdir_present[OF t])
qed

end
