(* ===== verification/Sched.thy ===== *)
theory Sched
  imports Vm
begin

text \<open>
  Processes and scheduling (\<open>proc.c\<close>, the part below the file system): the process table, sleeping and
  waking, killing, the scheduler, allocation of a table slot, growing memory, and the process listing.
  \<open>swtch\<close> gives up the processor: it is one step of \<open>interfere\<close>. Reading through a null process
  pointer is a \<open>Fault\<close>.
\<close>

definition set_proc :: "nat \<Rightarrow> (proc \<Rightarrow> proc) \<Rightarrow> kernel \<Rightarrow> kernel" where
  "set_proc i f k = k\<lparr>ptable := (ptable k)(i := f (ptable k i))\<rparr>"

definition modp :: "nat \<Rightarrow> (proc \<Rightarrow> proc) \<Rightarrow> unit kprog" where
  "modp i f = modify (set_proc i f)"

definition getp :: "nat \<Rightarrow> (proc \<Rightarrow> 'a) \<Rightarrow> 'a kprog" where
  "getp i f = gets (\<lambda>k. f (ptable k i))"

definition curproc :: "nat kprog" where
  "curproc = bindK myproc (\<lambda>p. case p of None \<Rightarrow> Fault ''null process'' | Some i \<Rightarrow> Ret i)"

definition pinit :: "unit kprog" where
  "pinit = initlock PtableLock ''ptable''"

section \<open>Switching\<close>

definition swtch :: "unit kprog" where
  "swtch = interfere"

definition sched :: "unit kprog" where
  "sched =
     bindK myproc (\<lambda>mp.
     bindK (holding PtableLock) (\<lambda>h.
     if \<not> h then Panic ''sched ptable.lock''
     else bindK (mycpu_get c_ncli) (\<lambda>n.
     if n \<noteq> 1 then Panic ''sched locks''
     else case mp of None \<Rightarrow> Fault ''null process'' | Some p \<Rightarrow>
     bindK (getp p p_state) (\<lambda>st.
     if st = RUNNING then Panic ''sched running''
     else bindK readeflags (\<lambda>fl.
     if fl AND FL_IF \<noteq> 0 then Panic ''sched interruptible''
     else bindK (mycpu_get c_intena) (\<lambda>intena.
       thenK swtch (mycpu_set (\<lambda>c. c\<lparr>c_intena := intena\<rparr>))))))))"

definition yield :: "unit kprog" where
  "yield = seqK [
     acquire PtableLock,
     bindK curproc (\<lambda>p. modp p (\<lambda>pr. pr\<lparr>p_state := RUNNABLE\<rparr>)),
     sched,
     release PtableLock]"

definition sleep :: "chan option \<Rightarrow> lockid option \<Rightarrow> unit kprog" where
  "sleep ch lk =
     bindK myproc (\<lambda>mp.
     case mp of None \<Rightarrow> Panic ''sleep'' | Some p \<Rightarrow>
     (case lk of None \<Rightarrow> Panic ''sleep without lk'' | Some l \<Rightarrow> seqK [
       whenK (l \<noteq> PtableLock) (thenK (acquire PtableLock) (release l)),
       modp p (\<lambda>pr. pr\<lparr>p_chan := ch\<rparr>),
       modp p (\<lambda>pr. pr\<lparr>p_state := SLEEPING\<rparr>),
       sched,
       modp p (\<lambda>pr. pr\<lparr>p_chan := None\<rparr>),
       whenK (l \<noteq> PtableLock) (thenK (release PtableLock) (acquire l))]))"

definition wakeup1 :: "chan option \<Rightarrow> unit kprog" where
  "wakeup1 ch = forK [0..<NPROC] (\<lambda>i.
     bindK (getp i (\<lambda>pr. p_state pr = SLEEPING \<and> p_chan pr = ch)) (\<lambda>b.
     whenK b (modp i (\<lambda>pr. pr\<lparr>p_state := RUNNABLE\<rparr>))))"

definition wakeup :: "chan option \<Rightarrow> unit kprog" where
  "wakeup ch = seqK [acquire PtableLock, wakeup1 ch, release PtableLock]"

fun kill_loop :: "int \<Rightarrow> nat list \<Rightarrow> int kprog" where
  "kill_loop pid [] = thenK (release PtableLock) (Ret (- 1))"
| "kill_loop pid (i # is) =
     bindK (getp i p_pid) (\<lambda>q.
     if q = pid then
       thenK (seqK [
         modp i (\<lambda>pr. pr\<lparr>p_killed := 1\<rparr>),
         bindK (getp i p_state) (\<lambda>st. whenK (st = SLEEPING) (modp i (\<lambda>pr. pr\<lparr>p_state := RUNNABLE\<rparr>))),
         release PtableLock]) (Ret 0)
     else kill_loop pid is)"

definition kill :: "int \<Rightarrow> int kprog" where
  "kill pid = thenK (acquire PtableLock) (kill_loop pid [0..<NPROC])"

text \<open>
  The scheduler never returns: after the given number of passes over the table it is cut off as
  \<open>Blocked\<close>. \<open>c\<close> is the processor found when it started.
\<close>

definition setcpu :: "nat \<Rightarrow> (cpu \<Rightarrow> cpu) \<Rightarrow> unit kprog" where
  "setcpu c f = modify (\<lambda>k. k\<lparr>cpus := (cpus k)(c := f (cpus k c))\<rparr>)"

definition scheduler_try :: "nat \<Rightarrow> nat \<Rightarrow> unit kprog" where
  "scheduler_try c p =
     bindK (getp p p_state) (\<lambda>st.
     whenK (st = RUNNABLE) (seqK [
       setcpu c (\<lambda>x. x\<lparr>c_proc := Some p\<rparr>),
       switchuvm (Some p),
       modp p (\<lambda>pr. pr\<lparr>p_state := RUNNING\<rparr>),
       swtch,
       switchkvm,
       setcpu c (\<lambda>x. x\<lparr>c_proc := None\<rparr>)]))"

definition scheduler_pass :: "nat \<Rightarrow> unit kprog" where
  "scheduler_pass c = seqK [
     sti,
     acquire PtableLock,
     forK [0..<NPROC] (scheduler_try c),
     release PtableLock]"

fun scheduler_loop :: "nat \<Rightarrow> nat \<Rightarrow> unit kprog" where
  "scheduler_loop 0 c = Blocked"
| "scheduler_loop (Suc n) c = thenK (scheduler_pass c) (scheduler_loop n c)"

definition scheduler :: "nat \<Rightarrow> unit kprog" where
  "scheduler passes = bindK mycpu (\<lambda>c.
     thenK (setcpu c (\<lambda>x. x\<lparr>c_proc := None\<rparr>)) (scheduler_loop passes c))"

section \<open>Process slots and memory\<close>

definition zero_context :: kcontext where
  "zero_context = \<lparr>ctx_edi = 0, ctx_esi = 0, ctx_ebx = 0, ctx_ebp = 0, ctx_eip = 0\<rparr>"

text \<open>\<open>sizeof (struct trapframe)\<close> is 76 and \<open>sizeof (struct context)\<close> is 20.\<close>

definition alloc_kstack :: "nat \<Rightarrow> nat option kprog" where
  "alloc_kstack p =
     bindK kalloc (\<lambda>st.
     thenK (modp p (\<lambda>pr. pr\<lparr>p_kstack := st\<rparr>))
     (if st = 0 then thenK (modp p (\<lambda>pr. pr\<lparr>p_state := UNUSED\<rparr>)) (Ret None)
      else thenK (seqK [
          bindK (gets (\<lambda>k. sym_trapret (syms k))) (\<lambda>t. setmem (\<lambda>m. store32 m (st + KSTACKSIZE - 76 - 4) t)),
          bindK (gets (\<lambda>k. sym_forkret (syms k))) (\<lambda>f.
            modp p (\<lambda>pr. pr\<lparr>p_context := zero_context\<lparr>ctx_eip := f\<rparr>\<rparr>))])
        (Ret (Some p))))"

definition allocproc :: "nat option kprog" where
  "allocproc =
     thenK (acquire PtableLock)
     (bindK (gets (\<lambda>k. find (\<lambda>i. p_state (ptable k i) = UNUSED) [0..<NPROC])) (\<lambda>found.
      case found of
        None \<Rightarrow> thenK (release PtableLock) (Ret None)
      | Some p \<Rightarrow>
          thenK (seqK [
            modp p (\<lambda>pr. pr\<lparr>p_state := EMBRYO\<rparr>),
            modify (\<lambda>k. set_proc p (\<lambda>pr. pr\<lparr>p_pid := nextpid k\<rparr>) k),
            modify (\<lambda>k. k\<lparr>nextpid := nextpid k + 1\<rparr>),
            release PtableLock])
          (alloc_kstack p)))"

definition growproc :: "int \<Rightarrow> int kprog" where
  "growproc n =
     bindK curproc (\<lambda>p.
     bindK (getp p p_sz) (\<lambda>sz.
     bindK (getp p p_pgdir) (\<lambda>pgdir.
     bindK (if 0 < n then allocuvm pgdir sz (sz + word_of_int n)
            else if n < 0 then deallocuvm pgdir sz (sz + word_of_int n)
            else Ret sz) (\<lambda>sz'.
     if n \<noteq> 0 \<and> sz' = 0 then Ret (- 1)
     else thenK (seqK [
         modp p (\<lambda>pr. pr\<lparr>p_sz := sz'\<rparr>),
         switchuvm (Some p)])
       (Ret 0)))))"

definition state_name :: "procstate \<Rightarrow> string" where
  "state_name st = (case st of
     UNUSED \<Rightarrow> ''unused'' | EMBRYO \<Rightarrow> ''embryo'' | SLEEPING \<Rightarrow> ''sleep '' | RUNNABLE \<Rightarrow> ''runble''
   | RUNNING \<Rightarrow> ''run   '' | ZOMBIE \<Rightarrow> ''zombie'')"

definition procdump :: "unit kprog" where
  "procdump = forK [0..<NPROC] (\<lambda>i.
     bindK (gets (\<lambda>k. ptable k i)) (\<lambda>pr.
     whenK (p_state pr \<noteq> UNUSED) (seqK [
       cprintf ''%d %s %s'' [CInt (word_of_int (p_pid pr)), CStr (Some (string_bytes (state_name (p_state pr)))),
         CStr (Some (p_name pr))],
       whenK (p_state pr = SLEEPING)
         (bindK (gets (\<lambda>k. getcallerpcs (mem k) (ctx_ebp (p_context pr) + 8))) (\<lambda>pc.
          forK (takeWhile (\<lambda>x. x \<noteq> 0) pc) (\<lambda>x. cprintf '' %p'' [CInt x]))),
       cprintf ''\<newline>'' []])))"

section \<open>Updates of the process table\<close>

lemma ptable_set_proc [simp]: "ptable (set_proc i f k) = (ptable k)(i := f (ptable k i))"
  by (simp add: set_proc_def)

lemma set_proc_sync [simp]:
  "this_cpu (set_proc i f k) = this_cpu k" "cpu_of (set_proc i f k) = cpu_of k"
  "cpu_ok (set_proc i f k) = cpu_ok k" "lock_free l (set_proc i f k) = lock_free l k"
  "lock_mine l (set_proc i f k) = lock_mine l k" "locks (set_proc i f k) = locks k"
  "cpus (set_proc i f k) = cpus k" "eflags_if (set_proc i f k) = eflags_if k"
  "lapic_id (set_proc i f k) = lapic_id k" "ncpu (set_proc i f k) = ncpu k"
  "nextpid (set_proc i f k) = nextpid k"
  by (simp_all add: set_proc_def)

lemma wp_modp [simp]: "wp (modp i f) Q (k, env) = Q () (set_proc i f k, env)"
  by (simp add: modp_def)

lemma wp_getp [simp]: "wp (getp i f) Q (k, env) = Q (f (ptable k i)) (k, env)"
  by (simp add: getp_def)

lemma synced_ptable: "synced k k' \<Longrightarrow> ptable k' = ptable k"
  by (auto elim!: syncedE)

lemma synced_ptable_upd:
  assumes "synced k k'"
  shows "synced (k\<lparr>ptable := t\<rparr>) (k'\<lparr>ptable := t\<rparr>)"
proof -
  obtain cs ls where "k' = k\<lparr>cpus := cs, locks := ls\<rparr>" "\<And>c. cpu_same (cpus k c) (cs c)"
    "\<And>l. lock_same (locks k l) (ls l)" using syncedE[OF assms] by metis
  then show ?thesis by (simp add: synced_def)
qed

text \<open>A critical section on the process table that ends in the table \<open>t\<close>.\<close>

lemma empty_section:
  "cpu_ok k \<Longrightarrow> lock_free l k \<Longrightarrow> synced k (rel l (acq l k))"
  using critical_synced[of k l "acq l k"] by simp

lemma ptable_section:
  assumes "cpu_ok k" "lock_free PtableLock k"
  shows "synced (k\<lparr>ptable := t\<rparr>) (rel PtableLock ((acq PtableLock k)\<lparr>ptable := t\<rparr>))"
  using critical_synced[OF assms, of "(acq PtableLock k)\<lparr>ptable := t\<rparr>"] by simp

subsection \<open>Waking\<close>

definition woken :: "chan option \<Rightarrow> (nat \<Rightarrow> proc) \<Rightarrow> nat \<Rightarrow> proc" where
  "woken ch t = (\<lambda>i. if i < NPROC \<and> p_state (t i) = SLEEPING \<and> p_chan (t i) = ch
     then (t i)\<lparr>p_state := RUNNABLE\<rparr> else t i)"

lemma fold_wake:
  assumes "distinct is"
  shows "fold (\<lambda>i k. if p_state (ptable k i) = SLEEPING \<and> p_chan (ptable k i) = ch
        then set_proc i (\<lambda>pr. pr\<lparr>p_state := RUNNABLE\<rparr>) k else k) is k =
    k\<lparr>ptable := (\<lambda>i. if i \<in> set is \<and> p_state (ptable k i) = SLEEPING \<and> p_chan (ptable k i) = ch
        then (ptable k i)\<lparr>p_state := RUNNABLE\<rparr> else ptable k i)\<rparr>"
  using assms
proof (induction "is" arbitrary: k)
  case Nil
  then show ?case by simp
next
  case (Cons j js)
  have "j \<notin> set js" using Cons.prems by simp
  then show ?case
    using Cons.prems
    by (simp add: Cons.IH) (auto simp: set_proc_def fun_eq_iff intro!: arg_cong[where f = "\<lambda>t. k\<lparr>ptable := t\<rparr>"])
qed

lemma wakeup1_modify: "wakeup1 ch = modify (\<lambda>k. k\<lparr>ptable := woken ch (ptable k)\<rparr>)"
proof -
  have "wakeup1 ch = modify (fold (\<lambda>i k. if p_state (ptable k i) = SLEEPING \<and> p_chan (ptable k i) = ch
        then set_proc i (\<lambda>pr. pr\<lparr>p_state := RUNNABLE\<rparr>) k else k) [0..<NPROC])"
    by (simp add: wakeup1_def getp_def modp_def gets_when_modify forK_modify del: upt.simps)
  also have "\<dots> = modify (\<lambda>k. k\<lparr>ptable := woken ch (ptable k)\<rparr>)"
    by (rule arg_cong[where f = modify]) (simp add: fold_wake woken_def fun_eq_iff)
  finally show ?thesis .
qed

text \<open>
  C23: \<open>wakeup\<close> makes runnable exactly the processes that sleep on the channel: each of them becomes
  RUNNABLE, every other entry of the process table and everything else in the kernel is unchanged.
\<close>

theorem wakeup_exact:
  assumes "cpu_ok k" "lock_free PtableLock k"
  shows "wp (wakeup ch) (\<lambda>_ (k', env'). env' = env \<and> synced (k\<lparr>ptable := woken ch (ptable k)\<rparr>) k') (k, env)"
  using assms ptable_section[OF assms, of "woken ch (ptable k)"]
  by (simp add: wakeup_def wakeup1_modify wp_acquire wp_release lock_mine_acq)

theorem wakeup_exact_witness:
  "wp (wakeup (Some ChTicks)) (\<lambda>_ (k', env'). env' = [] \<and>
     synced (zero_kernel\<lparr>ptable := woken (Some ChTicks) (ptable zero_kernel)\<rparr>) k') (zero_kernel, [])"
  by (rule wakeup_exact) (simp_all add: cpu_ok_zero)

subsection \<open>Killing\<close>

definition killed_at :: "nat \<Rightarrow> (nat \<Rightarrow> proc) \<Rightarrow> nat \<Rightarrow> proc" where
  "killed_at i t = t(i := (if p_state (t i) = SLEEPING then (t i)\<lparr>p_killed := 1, p_state := RUNNABLE\<rparr>
     else (t i)\<lparr>p_killed := 1\<rparr>))"

lemma set_proc_ptable: "set_proc i f k = k\<lparr>ptable := (ptable k)(i := f (ptable k i))\<rparr>"
  by (simp add: set_proc_def)

lemma kill_loop_wp:
  assumes "lock_mine PtableLock K"
  shows "wp (kill_loop pid is) Q (K, env) \<longleftrightarrow>
    (case find (\<lambda>i. p_pid (ptable K i) = pid) is of
       None \<Rightarrow> Q (- 1) (rel PtableLock K, env)
     | Some i \<Rightarrow> Q 0 (rel PtableLock (K\<lparr>ptable := killed_at i (ptable K)\<rparr>), env))"
proof (induction "is")
  case Nil
  then show ?case using assms by (simp add: wp_release)
next
  case (Cons i "is")
  show ?case
  proof (cases "p_pid (ptable K i) = pid")
    case True
    then show ?thesis
      using assms by (cases "p_state (ptable K i)") (simp_all add: wp_release set_proc_ptable killed_at_def)
  next
    case False
    then show ?thesis using Cons.IH by simp
  qed
qed

lemma kill_wp:
  assumes "cpu_ok k" "lock_free PtableLock k"
  shows "wp (kill pid) (\<lambda>r (k', env'). env' = env \<and>
    (case find (\<lambda>i. p_pid (ptable k i) = pid) [0..<NPROC] of
       None \<Rightarrow> r = - 1 \<and> synced k k'
     | Some i \<Rightarrow> r = 0 \<and> synced (k\<lparr>ptable := killed_at i (ptable k)\<rparr>) k')) (k, env)"
proof -
  have "synced k (rel PtableLock (acq PtableLock k))"
    by (rule empty_section[OF assms])
  then show ?thesis
    using assms ptable_section[OF assms]
    by (simp add: kill_def wp_acquire kill_loop_wp lock_mine_acq split: option.split del: upt.simps)
qed

text \<open>
  \<open>kill\<close> marks exactly the first process with the given pid as killed and makes it runnable if it
  slept, returning 0; if no process has the pid it returns -1 and changes nothing. It never waits.
\<close>

lemma kill_correct:
  assumes "cpu_ok k" "lock_free PtableLock k"
  shows "wp (kill pid) (\<lambda>r (k', env'). env' = env \<and>
    (case find (\<lambda>i. p_pid (ptable k i) = pid) [0..<NPROC] of
       None \<Rightarrow> r = - 1 \<and> synced k k'
     | Some i \<Rightarrow> r = 0 \<and> synced (k\<lparr>ptable := killed_at i (ptable k)\<rparr>) k')) (k, env)"
  by (rule kill_wp[OF assms])

subsection \<open>Allocating a process\<close>

definition first_unused :: "kernel \<Rightarrow> nat option" where
  "first_unused k = find (\<lambda>i. p_state (ptable k i) = UNUSED) [0..<NPROC]"

lemma first_unused_Some: "first_unused k = Some p \<Longrightarrow> p < NPROC \<and> p_state (ptable k p) = UNUSED"
  by (auto simp: first_unused_def find_Some_iff)

lemma wp_setmem [simp]: "wp (setmem f) Q (k, env) = Q () (k\<lparr>mem := f (mem k)\<rparr>, env)"
  by (simp add: setmem_def)

text \<open>The entry of a process that \<open>allocproc\<close> has set up on the kernel stack \<open>st\<close>.\<close>

definition embryo :: "kernel \<Rightarrow> addr \<Rightarrow> proc \<Rightarrow> proc" where
  "embryo k st pr = pr\<lparr>p_state := EMBRYO, p_pid := nextpid k, p_kstack := st,
     p_context := zero_context\<lparr>ctx_eip := sym_forkret (syms k)\<rparr>\<rparr>"

lemma free_pages_set_proc [simp]: "free_pages (set_proc i f k) = free_pages k" "kready (set_proc i f k) = kready k"
  "syms (set_proc i f k) = syms k" "mem (set_proc i f k) = mem k"
  by (auto simp: fun_eq_iff free_pages_def page_ok_def set_proc_def kready_def)

lemma kalloc_wp_full:
  assumes "kready k" "free_pages k ps"
  shows "wp kalloc (\<lambda>r (k', env'). env' = env \<and>
    (case ps of [] \<Rightarrow> r = 0 \<and> synced k k'
     | p # qs \<Rightarrow> r = p \<and> p \<noteq> 0 \<and> page_ok k p \<and> free_pages k' qs \<and> synced (k\<lparr>freelist := freelist k'\<rparr>) k')) (k, env)"
proof -
  let ?k = "if freelist k = 0 then k else k\<lparr>freelist := load32 (mem k) (freelist k)\<rparr>"
  obtain k' where r: "kalloc (k, env) = Ret (freelist k) (k', env)" and s: "synced ?k k'"
    by (rule kalloc_Ret[OF assms(1)])
  show ?thesis
  proof (cases ps)
    case Nil
    then show ?thesis using assms(2) s by (simp add: wp_def r free_pages_def)
  next
    case (Cons p qs)
    then have f: "freelist k = p" "p \<noteq> 0" "page_ok k p" using assms(2) by (auto simp: free_pages_def)
    then have "freelist k' = load32 (mem k) p" using synced_sel(2)[OF s] by simp
    moreover have "free_pages k' qs"
      using assms(2) Cons f by (auto simp: free_pages_synced[OF s] free_pages_def page_ok_def)
    ultimately show ?thesis using s f Cons by (simp add: wp_def r)
  qed
qed

definition allocproc_post :: "kernel \<Rightarrow> addr list \<Rightarrow> nat option \<Rightarrow> kernel \<Rightarrow> bool" where
  "allocproc_post k ps r k' \<longleftrightarrow>
     (case first_unused k of
        None \<Rightarrow> r = None \<and> synced k k'
      | Some p \<Rightarrow> nextpid k' = nextpid k + 1 \<and> cpu_ok k' \<and> kready k' \<and> (\<forall>l. lock_free l k' = lock_free l k) \<and>
          (case ps of
             [] \<Rightarrow> r = None \<and> ptable k' = (ptable k)(p := (ptable k p)\<lparr>p_pid := nextpid k, p_kstack := 0\<rparr>)
           | q # qs \<Rightarrow> r = Some p \<and> ptable k' = (ptable k)(p := embryo k q (ptable k p)) \<and> free_pages k' qs))"

lemma kready_ptable [simp]: "kready (k\<lparr>ptable := t\<rparr>) = kready k" "kready (k\<lparr>nextpid := n\<rparr>) = kready k"
  by (simp_all add: kready_def)

lemma free_pages_ptable [simp]:
  "free_pages (k\<lparr>ptable := t\<rparr>) = free_pages k" "free_pages (k\<lparr>nextpid := n\<rparr>) = free_pages k"
  by (simp_all add: fun_eq_iff free_pages_def page_ok_def)

lemma free_pages_kstack:
  assumes "free_pages k qs" "q mod PGSIZE = 0" "q \<notin> set qs"
  shows "free_pages (k\<lparr>mem := store32 (mem k) (4016 + q) v\<rparr>) qs"
proof (rule free_pages_mem[OF assms(1)])
  fix p x
  assume "p \<in> set qs" "x \<in> page_of p"
  then have "x \<notin> page_of q" using assms page_of_disjoint[of q p x] by (auto simp: free_pages_def page_ok_def)
  then show "store32 (mem k) (4016 + q) v x = mem k x" using store32_outside[of x q 4016] by (simp add: add.commute)
qed

lemma alloc_kstack_wp:
  assumes "kready k" "free_pages k ps" "cpu_ok k"
  shows "wp (alloc_kstack p) (\<lambda>r (k', env'). env' = env \<and> nextpid k' = nextpid k \<and> cpu_ok k' \<and> kready k' \<and>
    (\<forall>l. lock_free l k' = lock_free l k) \<and>
    (case ps of
       [] \<Rightarrow> r = None \<and> ptable k' = (ptable k)(p := (ptable k p)\<lparr>p_kstack := 0, p_state := UNUSED\<rparr>)
     | q # qs \<Rightarrow> r = Some p \<and> free_pages k' qs \<and> ptable k' = (ptable k)(p := (ptable k p)\<lparr>p_kstack := q,
         p_context := zero_context\<lparr>ctx_eip := sym_forkret (syms k)\<rparr>\<rparr>))) (k, env)"
  unfolding alloc_kstack_def
proof (rule wp_bindI[OF kalloc_wp_full[OF assms(1,2)]])
  fix st s
  assume "case s of (k', env') \<Rightarrow> env' = env \<and> (case ps of [] \<Rightarrow> st = 0 \<and> synced k k'
     | p # qs \<Rightarrow> st = p \<and> p \<noteq> 0 \<and> page_ok k p \<and> free_pages k' qs \<and> synced (k\<lparr>freelist := freelist k'\<rparr>) k')"
  then obtain k1 where s: "s = (k1, env)" and c: "case ps of [] \<Rightarrow> st = 0 \<and> synced k k1
     | p # qs \<Rightarrow> st = p \<and> p \<noteq> 0 \<and> page_ok k p \<and> free_pages k1 qs \<and> synced (k\<lparr>freelist := freelist k1\<rparr>) k1"
    by (cases s) auto
  obtain f where sy: "synced (k\<lparr>freelist := f\<rparr>) k1" using c by (cases ps) (auto intro: that[of "freelist k"])
  have k1: "ptable k1 = ptable k" "nextpid k1 = nextpid k" "syms k1 = syms k" "cpu_ok k1" "kready k1"
    "\<And>l. lock_free l k1 = lock_free l k"
    using sy synced_locks[OF sy] kready_synced[OF sy] assms by (auto elim!: syncedE)
  show "wp (thenK (modp p (\<lambda>pr. pr\<lparr>p_kstack := st\<rparr>))
     (if st = 0 then thenK (modp p (\<lambda>pr. pr\<lparr>p_state := UNUSED\<rparr>)) (Ret None)
      else thenK (seqK [
          bindK (gets (\<lambda>k. sym_trapret (syms k))) (\<lambda>t. setmem (\<lambda>m. store32 m (st + KSTACKSIZE - 76 - 4) t)),
          bindK (gets (\<lambda>k. sym_forkret (syms k))) (\<lambda>f.
            modp p (\<lambda>pr. pr\<lparr>p_context := zero_context\<lparr>ctx_eip := f\<rparr>\<rparr>))]) (Ret (Some p))))
    (\<lambda>r (k', env'). env' = env \<and> nextpid k' = nextpid k \<and> cpu_ok k' \<and> kready k' \<and>
    (\<forall>l. lock_free l k' = lock_free l k) \<and>
    (case ps of
       [] \<Rightarrow> r = None \<and> ptable k' = (ptable k)(p := (ptable k p)\<lparr>p_kstack := 0, p_state := UNUSED\<rparr>)
     | q # qs \<Rightarrow> r = Some p \<and> free_pages k' qs \<and> ptable k' = (ptable k)(p := (ptable k p)\<lparr>p_kstack := q,
         p_context := zero_context\<lparr>ctx_eip := sym_forkret (syms k)\<rparr>\<rparr>))) s"
  proof (cases ps)
    case Nil
    then show ?thesis using c k1 by (simp add: s)
  next
    case (Cons q qs)
    then have "q mod PGSIZE = 0" "q \<notin> set qs" using assms(2) by (auto simp: free_pages_def page_ok_def)
    then have "free_pages (set_proc p f (k1\<lparr>mem := store32 (mem k1) (4016 + q) v\<rparr>)) qs" for f v
      using c Cons free_pages_kstack[of k1 qs q v] by simp
    then show ?thesis using Cons c k1 by (simp add: s set_proc_ptable)
  qed
qed

lemma allocproc_wp:
  assumes "cpu_ok k" "lock_free PtableLock k" "kready k" "free_pages k ps"
  shows "wp allocproc (\<lambda>r (k', env'). env' = env \<and> allocproc_post k ps r k') (k, env)"
proof (cases "first_unused k")
  case None
  then show ?thesis
    using assms empty_section[OF assms(1,2)]
    by (simp add: allocproc_def wp_acquire first_unused_def wp_release lock_mine_acq allocproc_post_def del: upt.simps)
next
  case (Some p)
  let ?t = "(ptable k)(p := (ptable k p)\<lparr>p_state := EMBRYO, p_pid := nextpid k\<rparr>)"
  let ?K = "(acq PtableLock k)\<lparr>ptable := ?t, nextpid := nextpid k + 1\<rparr>"
  let ?k1 = "rel PtableLock ?K"
  have un: "p_state (ptable k p) = UNUSED" using first_unused_Some[OF Some] by simp
  have sy: "synced (k\<lparr>ptable := ?t, nextpid := nextpid k + 1\<rparr>) ?k1"
    using critical_synced[OF assms(1,2), of ?K] by simp
  have "wp (alloc_kstack p) (\<lambda>r (k', env'). env' = env \<and> allocproc_post k ps r k') (?k1, env)"
  proof (rule wp_mono[OF alloc_kstack_wp[where ps = ps]])
    show "kready ?k1" "free_pages ?k1 ps" "cpu_ok ?k1"
      using assms kready_synced[OF sy] free_pages_synced[OF sy] synced_locks(3)[OF sy] by simp_all
    fix r s'
    assume *: "case s' of (k', env') \<Rightarrow> env' = env \<and> nextpid k' = nextpid ?k1 \<and> cpu_ok k' \<and> kready k' \<and>
      (\<forall>l. lock_free l k' = lock_free l ?k1) \<and>
      (case ps of
         [] \<Rightarrow> r = None \<and> ptable k' = (ptable ?k1)(p := (ptable ?k1 p)\<lparr>p_kstack := 0, p_state := UNUSED\<rparr>)
       | q # qs \<Rightarrow> r = Some p \<and> free_pages k' qs \<and> ptable k' = (ptable ?k1)(p := (ptable ?k1 p)\<lparr>p_kstack := q,
           p_context := zero_context\<lparr>ctx_eip := sym_forkret (syms ?k1)\<rparr>\<rparr>))"
    have "(ptable k p)\<lparr>p_pid := x, p_kstack := 0, p_state := UNUSED\<rparr> = (ptable k p)\<lparr>p_pid := x, p_kstack := 0\<rparr>" for x
      using un by simp
    with * show "case s' of (k', env') \<Rightarrow> env' = env \<and> allocproc_post k ps r k'"
      using Some synced_locks(1)[OF sy] by (cases ps) (auto simp: allocproc_post_def embryo_def)
  qed
  then show ?thesis
    using Some assms
    by (simp add: allocproc_def wp_acquire first_unused_def[symmetric] wp_release lock_mine_acq set_proc_ptable
        first_unused_def[where k = "acq PtableLock k", simplified, folded first_unused_def] del: upt.simps)
qed

text \<open>
  Process identifiers: those in the table are below \<open>nextpid\<close>, and those of processes in use differ.
\<close>

definition pids_ok :: "kernel \<Rightarrow> bool" where
  "pids_ok k \<longleftrightarrow> (\<forall>i<NPROC. p_pid (ptable k i) < nextpid k) \<and>
     (\<forall>i<NPROC. \<forall>j<NPROC. p_state (ptable k i) \<noteq> UNUSED \<longrightarrow> p_state (ptable k j) \<noteq> UNUSED \<longrightarrow>
        p_pid (ptable k i) = p_pid (ptable k j) \<longrightarrow> i = j)"

lemma pids_ok_synced: "synced k k' \<Longrightarrow> pids_ok k' = pids_ok k"
  by (auto elim!: syncedE simp: pids_ok_def)

lemma pids_ok_fresh:
  assumes "pids_ok k" "ptable k' = (ptable k)(p := pr)" "nextpid k' = nextpid k + 1" "p_pid pr = nextpid k"
  shows "pids_ok k'"
proof -
  have lt: "p_pid (ptable k i) < nextpid k" if "i < NPROC" for i using assms(1) that by (simp add: pids_ok_def)
  then have ne: "p_pid (ptable k i) \<noteq> nextpid k" if "i < NPROC" for i using that by (metis less_irrefl)
  have "p_pid (ptable k' i) < nextpid k'" if "i < NPROC" for i
    using lt[OF that] assms by (auto simp: assms(2,3,4))
  moreover have "i = j" if "i < NPROC" "j < NPROC" "p_state (ptable k' i) \<noteq> UNUSED" "p_state (ptable k' j) \<noteq> UNUSED"
      "p_pid (ptable k' i) = p_pid (ptable k' j)" for i j
    using that ne[OF that(1)] ne[OF that(2)] assms(1) unfolding assms(2) pids_ok_def
    by (auto simp: assms(4) split: if_splits)
  ultimately show ?thesis by (simp add: pids_ok_def)
qed



text \<open>
  C25: \<open>kill(0)\<close> finds a free slot, since the pid of an unused entry is 0, reports success and marks the
  slot as killed; \<open>allocproc\<close> does not clear the mark, so the next process given the slot is born
  killed and will exit at its first trap.
\<close>

theorem kill_zero_poisons_slot:
  assumes "cpu_ok k" "lock_free PtableLock k" "kready k" "free_pages k (q # qs)"
    and "first_unused k = Some p" "find (\<lambda>i. p_pid (ptable k i) = 0) [0..<NPROC] = Some p"
  shows "wp (bindK (kill 0) (\<lambda>r. bindK allocproc (\<lambda>np. Ret (r, np))))
    (\<lambda>(r, np) (k', env'). r = 0 \<and> np = Some p \<and> p_state (ptable k' p) = EMBRYO \<and> p_killed (ptable k' p) = 1) (k, env)"
proof (rule wp_bindI[OF kill_wp[OF assms(1,2)]])
  fix r s
  assume "case s of (k', env') \<Rightarrow> env' = env \<and> (case find (\<lambda>i. p_pid (ptable k i) = 0) [0..<NPROC] of
       None \<Rightarrow> r = - 1 \<and> synced k k' | Some i \<Rightarrow> r = 0 \<and> synced (k\<lparr>ptable := killed_at i (ptable k)\<rparr>) k')"
  then obtain k1 where s: "s = (k1, env)" "r = 0" and sy: "synced (k\<lparr>ptable := killed_at p (ptable k)\<rparr>) k1"
    unfolding assms(6) by (cases s) auto
  have un: "p_state (ptable k p) = UNUSED" using first_unused_Some[OF assms(5)] by simp
  have t1: "ptable k1 = killed_at p (ptable k)" using synced_ptable[OF sy] by simp
  have "p_state (killed_at p (ptable k) i) = p_state (ptable k i)" for i using un by (simp add: killed_at_def)
  then have f1: "first_unused k1 = Some p" using assms(5) by (simp add: first_unused_def t1 del: upt.simps)
  have c: "cpu_ok k1" "lock_free PtableLock k1" "kready k1" "free_pages k1 (q # qs)"
    using assms synced_locks[OF sy] kready_synced[OF sy] free_pages_synced[OF sy] by simp_all
  show "wp (bindK allocproc (\<lambda>np. Ret (r, np))) (\<lambda>(r, np) (k', env'). r = 0 \<and> np = Some p \<and>
      p_state (ptable k' p) = EMBRYO \<and> p_killed (ptable k' p) = 1) s"
    unfolding s(1) by (rule wp_bindI[OF allocproc_wp[OF c]])
      (auto simp: s(2) allocproc_post_def f1 t1 embryo_def killed_at_def)
qed

lemma find_upt_hd: "0 < n \<Longrightarrow> P 0 \<Longrightarrow> find P [0..<n] = Some 0"
  by (simp add: upt_rec)

theorem kill_zero_poisons_slot_witness:
  "wp (bindK (kill 0) (\<lambda>r. bindK allocproc (\<lambda>np. Ret (r, np))))
    (\<lambda>(r, np) (k', env'). r = 0 \<and> np = Some 0 \<and> p_state (ptable k' 0) = EMBRYO \<and> p_killed (ptable k' 0) = 1)
    (one_page_kernel, [])"
  by (rule kill_zero_poisons_slot[OF one_page_sync one_page_facts(1,2)])
    (simp_all add: one_page_kernel_def first_unused_def find_upt_hd zero_kernel_def del: upt.simps)

subsection \<open>Sleeping\<close>

lemma rel_own [simp]: "lock_free l (rel l k)"
  by (simp add: lock_free_def rel_def)

lemma lock_mine_rel_other:
  "l' \<noteq> l \<Longrightarrow> lock_mine l k \<Longrightarrow> 1 < c_ncli (cpu_of k) \<Longrightarrow> lock_mine l (rel l' k)"
  by (simp add: lock_mine_def) (simp add: rel_def pop_k_def)

lemma lock_mine_acq_other: "l' \<noteq> l \<Longrightarrow> lock_mine l k \<Longrightarrow> lock_mine l (acq l' k)"
  by (simp add: lock_mine_def)

lemma lock_mine_set_cpu:
  assumes "\<forall>c. c_apicid (f c) = c_apicid c" "\<forall>c. c_ncli (f c) = c_ncli c"
  shows "lock_mine l (set_cpu f k) = lock_mine l k" "lock_free l (set_cpu f k) = lock_free l k"
  using assms by (simp_all add: lock_mine_def lock_free_def)

text \<open>\<open>resumed l k\<close>: the scheduler gives the processor back with its lock held and \<open>l\<close> free.\<close>

definition resumed :: "lockid \<Rightarrow> kernel \<Rightarrow> bool" where
  "resumed l k \<longleftrightarrow> lock_mine PtableLock k \<and> c_ncli (cpu_of k) = 1 \<and> lock_free l k"

text \<open>The state in which a process that sleeps on \<open>ch\<close> leaves the processor.\<close>

definition asleep :: "chan option \<Rightarrow> lockid \<Rightarrow> nat \<Rightarrow> kernel \<Rightarrow> kernel" where
  "asleep ch l p k = set_proc p (\<lambda>pr. pr\<lparr>p_state := SLEEPING\<rparr>)
     (set_proc p (\<lambda>pr. pr\<lparr>p_chan := ch\<rparr>) (rel l (acq PtableLock k)))"

lemma touch_nested: "c_ncli (cpu_of k) \<noteq> 0 \<Longrightarrow> touch k = k"
  by (simp add: touch_def)

lemma sched_eval:
  assumes "lock_mine PtableLock k" "c_ncli (cpu_of k) = 1" "c_proc (cpu_of k) = Some p"
    "p_state (ptable k p) \<noteq> RUNNING"
  shows "sched (k, []) = Blocked (k, [])"
    "lock_mine PtableLock (e k) \<Longrightarrow>
     sched (k, e # env) = Ret () (set_cpu (\<lambda>c. c\<lparr>c_intena := c_intena (cpu_of k)\<rparr>) (e k), env)"
proof -
  have ok: "cpu_ok k" "touch k = k" "\<not> eflags_if k" "this_cpu k \<noteq> None"
    using assms(1,2) by (auto simp: lock_mine_def cpu_ok_def touch_def)
  have h: "lk_locked (locks k PtableLock) \<noteq> 0 \<and> lk_cpu (locks k PtableLock) = this_cpu k"
    using assms(1) by (simp add: lock_mine_def)
  show "sched (k, []) = Blocked (k, [])"
    using assms ok h by (simp add: sched_def kM_simps myproc_Ret holding_Ret mycpu_get_Ret getp_def readeflags_def
        swtch_def)
  show "sched (k, e # env) = Ret () (set_cpu (\<lambda>c. c\<lparr>c_intena := c_intena (cpu_of k)\<rparr>) (e k), env)"
    if "lock_mine PtableLock (e k)"
  proof -
    have "\<not> eflags_if (e k)" "this_cpu (e k) \<noteq> None" using that by (simp_all add: lock_mine_def)
    then show ?thesis
      using assms ok h by (simp add: sched_def kM_simps myproc_Ret holding_Ret mycpu_get_Ret getp_def readeflags_def
          swtch_def mycpu_set_Ret)
  qed
qed

lemma asleep_facts:
  assumes "lock_mine l k" "c_ncli (cpu_of k) = 1" "lock_free PtableLock k" "l \<noteq> PtableLock"
  shows "lock_mine PtableLock (asleep ch l p k)" "c_ncli (cpu_of (asleep ch l p k)) = 1"
    "c_proc (cpu_of (asleep ch l p k)) = c_proc (cpu_of k)" "lock_free l (asleep ch l p k)"
    "p_state (ptable (asleep ch l p k) p) = SLEEPING" "p_chan (ptable (asleep ch l p k) p) = ch"
    "i \<noteq> p \<Longrightarrow> ptable (asleep ch l p k) i = ptable k i"
proof -
  have ok: "cpu_ok k" by (rule cpu_ok_mine[OF assms(1)])
  show "lock_mine PtableLock (asleep ch l p k)"
    using lock_mine_rel_other[of l PtableLock "acq PtableLock k"] lock_mine_acq[OF ok] assms
    by (simp add: asleep_def)
qed (use assms in \<open>simp_all add: asleep_def\<close>)


text \<open>A process (slot 0) running on the only processor, inside the section of the ticks lock.\<close>

definition running_kernel :: kernel where
  "running_kernel = zero_kernel\<lparr>
     cpus := (\<lambda>_. (cpus zero_kernel 0)\<lparr>c_proc := Some 0\<rparr>),
     ptable := (\<lambda>i. if i = 0 then (ptable zero_kernel 0)\<lparr>p_state := RUNNING, p_pid := 1\<rparr> else ptable zero_kernel i)\<rparr>"

lemma running_facts: "cpu_ok running_kernel" "lock_free l running_kernel" "c_proc (cpu_of running_kernel) = Some 0"
  "c_ncli (cpu_of running_kernel) = 0"
  by (simp_all add: cpu_ok_def this_cpu_def cpu_of_def lock_free_def running_kernel_def zero_kernel_def)


end
