(* ===== verification/Quiet.thy ===== *)
theory Quiet
  imports Sched
begin

text \<open>
  Reasoning about operations that find their locks free. What such an operation computes does not depend
  on the state of the spin locks and of the interrupt nesting, so it can be followed on the rest of the
  kernel: \<open>runs B C m K v C' K'\<close> says that \<open>m\<close>, started anywhere the kernel looks like \<open>K\<close> and the
  thread has taken the locks \<open>C\<close> (innermost first) over the lock state of \<open>B\<close>, returns \<open>v\<close> without
  waiting, with the kernel looking like \<open>K'\<close> and the locks \<open>C'\<close> taken. The rules below follow the
  program text; taking and releasing a lock changes \<open>C\<close> only.
\<close>

section \<open>States up to locks and interrupt nesting\<close>

definition core :: "kernel \<Rightarrow> kernel" where
  "core k = k\<lparr>cpus := \<lambda>c. (cpus k c)\<lparr>c_ncli := 0, c_intena := 0\<rparr>, locks := locks zero_kernel, eflags_if := False\<rparr>"

definition like :: "kernel \<Rightarrow> kernel \<Rightarrow> bool" where
  "like K k \<longleftrightarrow> core K = core k"

lemma like_refl [simp]: "like K K"
  by (simp add: like_def)

lemma like_trans: "like a b \<Longrightarrow> like b c \<Longrightarrow> like a c"
  by (simp add: like_def)

lemma core_upd [simp]:
  "core (k\<lparr>locks := y\<rparr>) = core k" "core (k\<lparr>eflags_if := z\<rparr>) = core k"
  by (simp_all add: core_def)

lemma core_set_cpu:
  "(f (cpu_of k))\<lparr>c_ncli := 0, c_intena := 0\<rparr> = (cpu_of k)\<lparr>c_ncli := 0, c_intena := 0\<rparr> \<Longrightarrow> core (set_cpu f k) = core k"
  by (auto simp: core_def set_cpu_def cpu_of_def fun_eq_iff)

lemma core_set_lock [simp]: "core (set_lock l f k) = core k"
  by (simp add: set_lock_def)

lemma core_push_pop [simp]: "core (push_k k) = core k" "core (pop_k k) = core k"
  by (simp_all add: push_k_def pop_k_def core_set_cpu)

lemma like_locking [simp]: "like k (acq l k)" "like k (rel l k)" "like k (touch k)"
  by (simp_all add: like_def acq_def rel_def touch_def core_set_cpu)

lemma likeE:
  assumes "like K k"
  obtains cs ls e where "k = K\<lparr>cpus := cs, locks := ls, eflags_if := e\<rparr>"
    "\<And>c. c_proc (cs c) = c_proc (cpus K c)" "\<And>c. c_apicid (cs c) = c_apicid (cpus K c)"
proof
  have eq: "core K = core k" using assms by (simp add: like_def)
  have "\<And>c. (cpus k c)\<lparr>c_ncli := 0, c_intena := 0\<rparr> = (cpus K c)\<lparr>c_ncli := 0, c_intena := 0\<rparr>"
    using arg_cong[OF eq, of cpus] by (simp add: core_def fun_eq_iff)
  from arg_cong[OF this, of c_proc] arg_cong[OF this, of c_apicid]
  show "\<And>c. c_proc (cpus k c) = c_proc (cpus K c)" "\<And>c. c_apicid (cpus k c) = c_apicid (cpus K c)" by simp_all
  show "k = K\<lparr>cpus := cpus k, locks := locks k, eflags_if := eflags_if k\<rparr>"
    using eq by (cases K; cases k) (simp add: core_def)
qed

lemma like_this_cpu: "like K k \<Longrightarrow> this_cpu k = this_cpu K"
  by (auto elim!: likeE simp: this_cpu_def)

lemma like_me: "like K k \<Longrightarrow> c_proc (cpu_of k) = c_proc (cpu_of K)"
  by (simp add: cpu_of_def like_this_cpu) (auto elim!: likeE)

section \<open>The lock state\<close>

text \<open>\<open>calm a b\<close>: the locks and the interrupt nesting of \<open>b\<close> are those of \<open>a\<close>, up to debugging fields.\<close>

definition calm :: "kernel \<Rightarrow> kernel \<Rightarrow> bool" where
  "calm a b \<longleftrightarrow> eflags_if b = eflags_if a \<and> this_cpu b = this_cpu a \<and>
     (\<forall>c. cpu_same (cpus a c) (cpus b c)) \<and> (\<forall>l. lock_same (locks a l) (locks b l))"

lemma calm_refl [simp]: "calm a a"
  by (simp add: calm_def)

lemma calm_trans: "calm a b \<Longrightarrow> calm b c \<Longrightarrow> calm a c"
  unfolding calm_def using cpu_same_trans lock_same_trans by metis

lemma calm_cpu: "calm a b \<Longrightarrow> c_ncli (cpu_of b) = c_ncli (cpu_of a)"
  using cpu_same_sel(1) by (simp add: calm_def cpu_of_def)

lemma calm_locks:
  assumes "calm a b"
  shows "cpu_ok b = cpu_ok a" "lock_free l b = lock_free l a" "lock_mine l a \<Longrightarrow> lock_mine l b"
  using assms calm_cpu[OF assms]
  by (auto simp: calm_def cpu_ok_def lock_free_def lock_mine_def lock_same_def)

lemma calm_touch: "calm k (touch k)"
  using synced_touch[of k] synced_cpu(1,4)[OF synced_touch, of k] by (simp add: calm_def synced_def)

lemma calm_release:
  assumes ok: "cpu_ok k0" and free: "lock_free l k0" and c: "calm (acq l k0) k"
  shows "calm k0 (rel l k)"
proof -
  obtain i where i: "this_cpu k0 = Some i" using ok by (auto simp: cpu_ok_def)
  have tk: "this_cpu k = Some i" using c i by (simp add: calm_def)
  have n: "c_ncli (cpus (acq l k0) i) \<noteq> 0"
    using ok acq_sel(3)[of l k0] by (simp add: cpu_ok_def cpu_of_def i)
  have same: "cpu_same (cpus (acq l k0) j) (cpus k j)" "lock_same (locks (acq l k0) m) (locks k m)" for j m
    using c by (simp_all add: calm_def)
  then have ki: "cpus k i = cpus (acq l k0) i"
    using n by (metis cpu_same_def cpu.surjective cpu.update_convs(8))
  have "eflags_if (rel l k) = eflags_if k0"
    using ok i ki by (auto simp: rel_def pop_k_def cpu_of_def tk acq_def push_k_def set_cpu_def cpu_ok_def)
  moreover have "cpu_same (cpus k0 j) (cpus (rel l k) j)" for j
    using ok i ki same(1)[of j]
    by (cases "j = i") (auto simp: rel_def pop_k_def set_cpu_def cpu_of_def tk acq_def push_k_def cpu_ok_def cpu_same_def)
  moreover have "lock_same (locks k0 m) (locks (rel l k) m)" for m
    using free same(2)[of m] by (cases "m = l") (simp_all add: rel_def acq_def lock_same_def lock_free_def)
  ultimately show ?thesis using i tk by (simp add: calm_def)
qed

fun held :: "kernel \<Rightarrow> lockid list \<Rightarrow> kernel \<Rightarrow> bool" where
  "held B [] k \<longleftrightarrow> cpu_ok B \<and> calm B k"
| "held B (l # C) k \<longleftrightarrow> (\<exists>k0. held B C k0 \<and> lock_free l k0 \<and> calm (acq l k0) k)"

lemma held_calm: "held B C k \<Longrightarrow> calm k k' \<Longrightarrow> held B C k'"
  by (cases C) (auto intro: calm_trans)

lemma held_ok: "held B C k \<Longrightarrow> cpu_ok k"
  by (induction C arbitrary: k) (auto simp: calm_locks(1) cpu_ok_acq)

lemma held_free: "held B C k \<Longrightarrow> l \<notin> set C \<Longrightarrow> lock_free l B \<Longrightarrow> lock_free l k"
  by (induction C arbitrary: k) (auto simp: calm_locks(2) lock_free_other(1))

lemma held_acquire:
  assumes "held B C k" "l \<notin> set C" "lock_free l B"
  shows "held B (l # C) (acq l k)"
  using assms held_free[OF assms] calm_refl by (auto simp del: calm_refl)

lemma held_release:
  assumes "held B (l # C) k"
  shows "lock_mine l k" "held B C (rel l k)"
proof -
  from assms obtain k0 where k0: "held B C k0" "lock_free l k0" "calm (acq l k0) k" by auto
  show "lock_mine l k" using calm_locks(3)[OF k0(3)] lock_mine_acq[OF held_ok[OF k0(1)]] .
  show "held B C (rel l k)"
    using held_calm[OF k0(1) calm_release[OF held_ok[OF k0(1)] k0(2,3)]] .
qed

section \<open>Following a program\<close>

definition runs :: "kernel \<Rightarrow> lockid list \<Rightarrow> 'a kprog \<Rightarrow> kernel \<Rightarrow> 'a \<Rightarrow> lockid list \<Rightarrow> kernel \<Rightarrow> bool" where
  "runs B C m K v C' K' \<longleftrightarrow> (\<forall>k env. like K k \<and> held B C k \<longrightarrow>
     (\<exists>k'. m (k, env) = Ret v (k', env) \<and> like K' k' \<and> held B C' k'))"

named_theorems runs_rules \<open>rules following the text of a kernel program\<close>
named_theorems upd_defs \<open>definitions of the updates of one table\<close>

lemma runs_Ret [runs_rules]: "v = w \<Longrightarrow> K = K' \<Longrightarrow> runs B C (Ret v) K w C K'"
  by (simp add: runs_def)

lemma runs_bind [runs_rules]:
  assumes "runs B C m K v C1 K1" "runs B C1 (f v) K1 w C2 K2"
  shows "runs B C (bindK m f) K w C2 K2"
  unfolding runs_def
proof (intro allI impI)
  fix k env
  assume "like K k \<and> held B C k"
  then obtain k1 where "m (k, env) = Ret v (k1, env)" "like K1 k1 \<and> held B C1 k1"
    using assms(1) unfolding runs_def by blast
  then show "\<exists>k'. bindK m f (k, env) = Ret w (k', env) \<and> like K2 k' \<and> held B C2 k'"
    using assms(2) unfolding runs_def by (simp add: bindK_def)
qed

lemma runs_then [runs_rules]:
  "runs B C m K () C1 K1 \<Longrightarrow> runs B C1 n K1 w C2 K2 \<Longrightarrow> runs B C (thenK m n) K w C2 K2"
  unfolding thenK_def by (rule runs_bind)

lemma runs_seq [runs_rules]:
  "K = K' \<Longrightarrow> runs B C (seqK []) K () C K'"
  "runs B C m K () C1 K1 \<Longrightarrow> runs B C1 (seqK ms) K1 () C2 K2 \<Longrightarrow> runs B C (seqK (m # ms)) K () C2 K2"
  by (auto intro: runs_rules)

lemma runs_when [runs_rules]:
  "(b \<Longrightarrow> runs B C m K () C' K1) \<Longrightarrow> (\<not> b \<Longrightarrow> runs B C (Ret ()) K () C' K2) \<Longrightarrow>
   runs B C (whenK b m) K () C' (if b then K1 else K2)"
  by simp

lemma runs_gets [runs_rules]:
  assumes "\<And>cs ls e. f (K\<lparr>cpus := cs, locks := ls, eflags_if := e\<rparr>) = v"
  shows "runs B C (gets f) K v C K"
  using assms by (auto simp: runs_def gets_def elim!: likeE)

text \<open>
  An update of the kernel that neither reads nor changes processors and locks.
\<close>

definition plain :: "(kernel \<Rightarrow> kernel) \<Rightarrow> kernel \<Rightarrow> bool" where
  "plain f K \<longleftrightarrow> lapic_id (f K) = lapic_id K \<and> ncpu (f K) = ncpu K \<and>
     (\<forall>cs ls e. f (K\<lparr>cpus := cs, locks := ls, eflags_if := e\<rparr>) = (f K)\<lparr>cpus := cs, locks := ls, eflags_if := e\<rparr>)"

lemma plain_upd:
  assumes "like K k" "plain f K"
  shows "like (f K) (f k)" "calm k (f k)"
proof -
  have eq: "f (K\<lparr>cpus := cs, locks := ls, eflags_if := e\<rparr>) = (f K)\<lparr>cpus := cs, locks := ls, eflags_if := e\<rparr>"
    for cs ls e using assms(2) by (simp add: plain_def)
  have fk: "f k = (f K)\<lparr>cpus := cpus k, locks := locks k, eflags_if := eflags_if k\<rparr>"
    using assms(1) by (auto elim!: likeE simp: eq)
  have K: "cpus (f K) = cpus K"
    using arg_cong[OF eq[where cs = "cpus K" and ls = "locks K" and e = "eflags_if K"], of cpus] by simp
  have c: "(\<lambda>c. (cpus k c)\<lparr>c_ncli := 0, c_intena := 0\<rparr>) = (\<lambda>c. (cpus K c)\<lparr>c_ncli := 0, c_intena := 0\<rparr>)"
    using assms(1) by (auto simp: like_def core_def dest: arg_cong[where f = cpus])
  show "like (f K) (f k)" unfolding fk by (simp add: like_def core_def K c)
  have "lapic_id (f k) = lapic_id k" "ncpu (f k) = ncpu k"
    using assms by (auto simp: fk plain_def elim!: likeE)
  moreover have "cpus (f k) = cpus k" "locks (f k) = locks k" "eflags_if (f k) = eflags_if k"
    by (simp_all add: fk)
  ultimately show "calm k (f k)" by (simp add: calm_def this_cpu_def)
qed

lemma runs_modify [runs_rules]:
  assumes "plain f K"
  shows "runs B C (modify f) K () C (f K)"
  using plain_upd[OF _ assms] held_calm by (auto simp: runs_def modify_def)

lemma runs_acquire [runs_rules]:
  assumes "lock_free l B" "l \<notin> set C"
  shows "runs B C (acquire l) K () (l # C) K"
  unfolding runs_def
proof (intro allI impI)
  fix k env
  assume k: "like K k \<and> held B C k"
  then have "acquire l (k, env) = Ret () (acq l k, env)"
    using held_ok held_free assms by (blast intro: acquire_Ret)
  moreover have "held B (l # C) (acq l k)" "like K (acq l k)"
    using k assms held_acquire like_trans like_locking(1) by blast+
  ultimately show "\<exists>k'. acquire l (k, env) = Ret () (k', env) \<and> like K k' \<and> held B (l # C) k'" by blast
qed

lemma runs_release [runs_rules]: "runs B (l # C) (release l) K () C K"
  unfolding runs_def
proof (intro allI impI)
  fix k env
  assume k: "like K k \<and> held B (l # C) k"
  then show "\<exists>k'. release l (k, env) = Ret () (k', env) \<and> like K k' \<and> held B C k'"
    using release_Ret held_release like_trans like_locking(2) by blast
qed

lemma runs_myproc [runs_rules]: "v = c_proc (cpu_of K) \<Longrightarrow> runs B C myproc K v C K"
  unfolding runs_def
proof (intro allI impI)
  fix k env
  assume v: "v = c_proc (cpu_of K)" and k: "like K k \<and> held B C k"
  then have "myproc (k, env) = Ret v (touch k, env)" 
    using myproc_Ret[of k env] held_ok[of B C k] like_me[of K k] by simp
  moreover have "like K (touch k)" "held B C (touch k)"
    using k like_trans like_locking(3) held_calm calm_touch by blast+
  ultimately show "\<exists>k'. myproc (k, env) = Ret v (k', env) \<and> like K k' \<and> held B C k'" by blast
qed

lemma runs_wait_while [runs_rules]:
  assumes "\<And>cs ls e. \<not> cond (K\<lparr>cpus := cs, locks := ls, eflags_if := e\<rparr>)"
  shows "runs B C (wait_while cond body) K () C K"
  unfolding runs_def
proof (intro allI impI)
  fix k env
  assume k: "like K k \<and> held B C k"
  then have "\<not> cond k" using assms by (metis likeE)
  then show "\<exists>k'. wait_while cond body (k, env) = Ret () (k', env) \<and> like K k' \<and> held B C k'"
    using k wait_while_done by blast
qed

lemma runs_for_fold:
  assumes "\<And>i K. i \<in> set xs \<Longrightarrow> P K \<Longrightarrow> runs B C (body i) K () C (f i K) \<and> P (f i K)" "P K"
  shows "runs B C (forK xs body) K () C (fold f xs K)"
  using assms
proof (induction xs arbitrary: K)
  case Nil
  show ?case by (simp add: runs_Ret)
next
  case (Cons x xs)
  have "runs B C (body x) K () C (f x K)" "P (f x K)" using Cons.prems by simp_all
  then show ?case using Cons by (auto intro!: runs_then)
qed

text \<open>What a run from the lock state of \<open>B\<close> back to it says of the program.\<close>

lemma like_calm_synced:
  assumes "like K k" "calm B k" "cpus K = cpus B" "locks K = locks B" "eflags_if K = eflags_if B"
  shows "synced K k"
proof -
  from likeE[OF assms(1)] obtain cs ls e where k: "k = K\<lparr>cpus := cs, locks := ls, eflags_if := e\<rparr>" by metis
  have "e = eflags_if K" using assms(2,5) by (simp add: calm_def k)
  then have "k = K\<lparr>cpus := cpus k, locks := locks k\<rparr>" by (simp add: k)
  then show ?thesis using assms(2-4) by (simp add: calm_def synced_def)
qed

lemma runsD:
  assumes "runs k [] m k v [] K" "cpu_ok k"
    and "cpus K = cpus k" "locks K = locks k" "eflags_if K = eflags_if k"
  shows "wp m (\<lambda>r (k', env'). r = v \<and> env' = env \<and> synced K k') (k, env)"
proof -
  from assms(1,2) obtain k' where k': "m (k, env) = Ret v (k', env)" "like K k'" "calm k k'"
    unfolding runs_def by force
  then show ?thesis using like_calm_synced[OF k'(2,3) assms(3-5)] by (simp add: wp_def)
qed

section \<open>The operations of \<open>Sched\<close>\<close>

lemma runs_wait_for [runs_rules]:
  assumes "runs B C round K (Some v) C' K'"
  shows "runs B C (wait_for round) K v C' K'"
proof -
  have "runs B C (retryK (Suc n) round) K v C' K'" for n
    by (auto intro!: runs_bind[OF assms] runs_Ret)
  then show ?thesis unfolding runs_def wait_for_def by simp
qed

declare set_proc_def [upd_defs]

lemma runs_getp [runs_rules]: "v = f (ptable K p) \<Longrightarrow> runs B C (getp p f) K v C K"
  unfolding getp_def by (rule runs_gets) simp

lemma runs_modp [runs_rules]: "runs B C (modp p f) K () C (set_proc p f K)"
  unfolding modp_def by (rule runs_modify) (simp add: plain_def upd_defs)

lemma runs_curproc [runs_rules]: "c_proc (cpu_of K) = Some p \<Longrightarrow> runs B C curproc K p C K"
  unfolding curproc_def by (rule runs_bind[OF runs_myproc]) (auto intro: runs_Ret)

lemma runs_wakeup1 [runs_rules]: "runs B C (wakeup1 ch) K () C (K\<lparr>ptable := woken ch (ptable K)\<rparr>)"
  unfolding wakeup1_modify by (rule runs_modify) (simp add: plain_def)

lemma runs_wakeup [runs_rules]:
  "lock_free PtableLock B \<Longrightarrow> PtableLock \<notin> set C \<Longrightarrow>
   runs B C (wakeup ch) K () C (K\<lparr>ptable := woken ch (ptable K)\<rparr>)"
  unfolding wakeup_def by (rule runs_rules refl | assumption)+

end
