(* ===== verification/Bio.thy ===== *)
theory Bio
  imports Quiet
begin

text \<open>
  Sleep locks (\<open>sleeplock.c\<close>), the memory disk (\<open>memide.c\<close>) and the buffer cache (\<open>bio.c\<close>). The disk
  is a map from block numbers to blocks; \<open>diskwrites\<close> records every block written, in order. The cache
  is the table \<open>bcache\<close> whose entry \<open>NBUF\<close> is the list head; walks along its list are cut off as
  \<open>Blocked\<close> after \<open>NBUF + 1\<close> links, which a well-formed list never needs.
\<close>

section \<open>Sleep locks\<close>

definition set_sl :: "slid \<Rightarrow> (sleeplock \<Rightarrow> sleeplock) \<Rightarrow> kernel \<Rightarrow> kernel" where
  "set_sl l f k = k\<lparr>sleeplocks := (sleeplocks k)(l := f (sleeplocks k l))\<rparr>"

definition initsleeplock :: "slid \<Rightarrow> string \<Rightarrow> unit kprog" where
  "initsleeplock lk nm = seqK [
     initlock (SlLock lk) ''sleep lock'',
     modify (set_sl lk (\<lambda>l. l\<lparr>sl_name := nm, sl_locked := 0, sl_pid := 0\<rparr>))]"

definition acquiresleep :: "slid \<Rightarrow> unit kprog" where
  "acquiresleep lk = seqK [
     acquire (SlLock lk),
     wait_while (\<lambda>k. sl_locked (sleeplocks k lk) \<noteq> 0) (sleep (Some (ChSleeplock lk)) (Some (SlLock lk))),
     modify (set_sl lk (\<lambda>l. l\<lparr>sl_locked := 1\<rparr>)),
     bindK curproc (\<lambda>p. bindK (getp p p_pid) (\<lambda>pid. modify (set_sl lk (\<lambda>l. l\<lparr>sl_pid := pid\<rparr>)))),
     release (SlLock lk)]"

definition releasesleep :: "slid \<Rightarrow> unit kprog" where
  "releasesleep lk = seqK [
     acquire (SlLock lk),
     modify (set_sl lk (\<lambda>l. l\<lparr>sl_locked := 0, sl_pid := 0\<rparr>)),
     wakeup (Some (ChSleeplock lk)),
     release (SlLock lk)]"

definition holdingsleep :: "slid \<Rightarrow> bool kprog" where
  "holdingsleep lk =
     thenK (acquire (SlLock lk))
     (bindK (gets (\<lambda>k. sl_locked (sleeplocks k lk) \<noteq> 0)) (\<lambda>locked.
      bindK (if locked then bindK curproc (\<lambda>p. gets (\<lambda>k. sl_pid (sleeplocks k lk) = p_pid (ptable k p)))
             else Ret False) (\<lambda>r.
      thenK (release (SlLock lk)) (Ret r))))"

section \<open>The disk\<close>

abbreviation (input) B_VALID :: uint where "B_VALID \<equiv> 2"
abbreviation (input) B_DIRTY :: uint where "B_DIRTY \<equiv> 4"

definition set_buf :: "nat \<Rightarrow> (buf \<Rightarrow> buf) \<Rightarrow> kernel \<Rightarrow> kernel" where
  "set_buf b f k = k\<lparr>bcache := (bcache k)(b := f (bcache k b))\<rparr>"

definition modb :: "nat \<Rightarrow> (buf \<Rightarrow> buf) \<Rightarrow> unit kprog" where
  "modb b f = modify (set_buf b f)"

definition getb :: "nat \<Rightarrow> (buf \<Rightarrow> 'a) \<Rightarrow> 'a kprog" where
  "getb b f = gets (\<lambda>k. f (bcache k b))"

definition disk_write :: "nat \<Rightarrow> byte list \<Rightarrow> kernel \<Rightarrow> kernel" where
  "disk_write n bs k = k\<lparr>disk := (disk k)(n := bs), diskwrites := diskwrites k @ [(n, bs)]\<rparr>"

definition iderw :: "nat \<Rightarrow> unit kprog" where
  "iderw b =
     bindK (holdingsleep (BufSl b)) (\<lambda>h.
     if \<not> h then Panic ''iderw: buf not locked''
     else bindK (getb b (\<lambda>x. x)) (\<lambda>bf.
     if b_flags bf AND (B_VALID OR B_DIRTY) = B_VALID then Panic ''iderw: nothing to do''
     else if b_dev bf \<noteq> 1 then Panic ''iderw: request not for disk 1''
     else bindK (gets disksize) (\<lambda>n.
     if n \<le> b_blockno bf then Panic ''iderw: block out of range''
     else seqK [
       if b_flags bf AND B_DIRTY \<noteq> 0 then
         seqK [
           modb b (\<lambda>x. x\<lparr>b_flags := b_flags x AND NOT B_DIRTY\<rparr>),
           modify (disk_write (unat (b_blockno bf)) (b_data bf))]
       else modify (\<lambda>k. set_buf b (\<lambda>x. x\<lparr>b_data := disk k (unat (b_blockno bf))\<rparr>) k),
       modb b (\<lambda>x. x\<lparr>b_flags := b_flags x OR B_VALID\<rparr>)])))"

section \<open>The buffer cache\<close>

abbreviation (input) bhead :: nat where "bhead \<equiv> NBUF"

definition link_front :: "nat \<Rightarrow> unit kprog" where
  "link_front b = seqK [
     bindK (getb bhead b_next) (\<lambda>n. modb b (\<lambda>x. x\<lparr>b_next := n\<rparr>)),
     modb b (\<lambda>x. x\<lparr>b_prev := bhead\<rparr>),
     bindK (getb bhead b_next) (\<lambda>n. modb n (\<lambda>x. x\<lparr>b_prev := b\<rparr>)),
     modb bhead (\<lambda>x. x\<lparr>b_next := b\<rparr>)]"

definition binit :: "unit kprog" where
  "binit = seqK [
     initlock BcacheLock ''bcache'',
     modb bhead (\<lambda>x. x\<lparr>b_prev := bhead\<rparr>),
     modb bhead (\<lambda>x. x\<lparr>b_next := bhead\<rparr>),
     forK [0..<NBUF] (\<lambda>b. thenK (initsleeplock (BufSl b) ''buffer'') (link_front b))]"

text \<open>Walks along the list from \<open>b\<close>: the buffer found, \<open>None\<close> at the head, nothing without fuel.\<close>

fun walk :: "(buf \<Rightarrow> nat) \<Rightarrow> (buf \<Rightarrow> bool) \<Rightarrow> nat \<Rightarrow> (nat \<Rightarrow> buf) \<Rightarrow> nat \<Rightarrow> nat option option" where
  "walk step P 0 bc b = None"
| "walk step P (Suc n) bc b =
     (if b = bhead then Some None
      else if P (bc b) then Some (Some b)
      else walk step P n bc (step (bc b)))"

definition bget_take :: "nat \<Rightarrow> nat kprog" where
  "bget_take b = thenK (release BcacheLock) (thenK (acquiresleep (BufSl b)) (Ret b))"

definition bget :: "uint \<Rightarrow> uint \<Rightarrow> nat kprog" where
  "bget dev blockno =
     thenK (acquire BcacheLock)
     (bindK (gets (\<lambda>k. walk b_next (\<lambda>x. b_dev x = dev \<and> b_blockno x = blockno) (NBUF + 1) (bcache k)
                         (b_next (bcache k bhead)))) (\<lambda>w.
      case w of
        None \<Rightarrow> Blocked
      | Some (Some b) \<Rightarrow> thenK (modb b (\<lambda>x. x\<lparr>b_refcnt := b_refcnt x + 1\<rparr>)) (bget_take b)
      | Some None \<Rightarrow>
          bindK (gets (\<lambda>k. walk b_prev (\<lambda>x. b_refcnt x = 0 \<and> b_flags x AND B_DIRTY = 0) (NBUF + 1) (bcache k)
                             (b_prev (bcache k bhead)))) (\<lambda>w.
          case w of
            None \<Rightarrow> Blocked
          | Some (Some b) \<Rightarrow>
              thenK (modb b (\<lambda>x. x\<lparr>b_dev := dev, b_blockno := blockno, b_flags := 0, b_refcnt := 1\<rparr>)) (bget_take b)
          | Some None \<Rightarrow> Panic ''bget: no buffers'')))"

definition bread :: "uint \<Rightarrow> uint \<Rightarrow> nat kprog" where
  "bread dev blockno =
     bindK (bget dev blockno) (\<lambda>b.
     bindK (getb b b_flags) (\<lambda>fl.
     thenK (whenK (fl AND B_VALID = 0) (iderw b)) (Ret b)))"

definition bwrite :: "nat \<Rightarrow> unit kprog" where
  "bwrite b =
     bindK (holdingsleep (BufSl b)) (\<lambda>h.
     if \<not> h then Panic ''bwrite''
     else thenK (modb b (\<lambda>x. x\<lparr>b_flags := b_flags x OR B_DIRTY\<rparr>)) (iderw b))"

definition brelse :: "nat \<Rightarrow> unit kprog" where
  "brelse b =
     bindK (holdingsleep (BufSl b)) (\<lambda>h.
     if \<not> h then Panic ''brelse''
     else seqK [
       releasesleep (BufSl b),
       acquire BcacheLock,
       modb b (\<lambda>x. x\<lparr>b_refcnt := b_refcnt x - 1\<rparr>),
       bindK (getb b b_refcnt) (\<lambda>n. whenK (n = 0) (seqK [
         bindK (getb b (\<lambda>x. x)) (\<lambda>bf. modb (b_next bf) (\<lambda>x. x\<lparr>b_prev := b_prev bf\<rparr>)),
         bindK (getb b (\<lambda>x. x)) (\<lambda>bf. modb (b_prev bf) (\<lambda>x. x\<lparr>b_next := b_next bf\<rparr>)),
         link_front b])),
       release BcacheLock])"

end
