(* ===== verification/Log.thy ===== *)
theory Log
  imports Bio
begin

text \<open>
  The redo log (\<open>log.c\<close>) and \<open>readsb\<close> of \<open>fs.c\<close>, which it reads its place from. Header blocks are
  decoded from and encoded into the bytes of their buffer. A header read from disk that names more than
  \<open>LOGSIZE\<close> blocks would be copied past the end of the in-memory header: that is a \<open>Fault\<close>.
\<close>

definition decode_sb :: "byte list \<Rightarrow> superblock" where
  "decode_sb bs = \<lparr>sb_size = get32 bs 0, sb_nblocks = get32 bs 4, sb_ninodes = get32 bs 8, sb_nlog = get32 bs 12,
     sb_logstart = get32 bs 16, sb_inodestart = get32 bs 20, sb_bmapstart = get32 bs 24\<rparr>"

definition readsb :: "uint \<Rightarrow> superblock kprog" where
  "readsb dev = bindK (bread dev 1) (\<lambda>bp.
     bindK (getb bp (\<lambda>x. decode_sb (b_data x))) (\<lambda>s.
     thenK (brelse bp) (Ret s)))"

definition set_log :: "(klog \<Rightarrow> klog) \<Rightarrow> kernel \<Rightarrow> kernel" where
  "set_log f k = k\<lparr>klog := f (klog k)\<rparr>"

definition set_lh :: "(logheader \<Rightarrow> logheader) \<Rightarrow> kernel \<Rightarrow> kernel" where
  "set_lh f k = set_log (\<lambda>l. l\<lparr>lg_lh := f (lg_lh l)\<rparr>) k"

definition getl :: "(klog \<Rightarrow> 'a) \<Rightarrow> 'a kprog" where
  "getl f = gets (\<lambda>k. f (klog k))"

section \<open>Moving blocks\<close>

text \<open>The body of the two copy loops: read \<open>src\<close> and \<open>dst\<close>, copy, write \<open>dst\<close>.\<close>

definition install_one :: "nat \<Rightarrow> unit kprog" where
  "install_one tail =
     bindK (getl (\<lambda>l. l)) (\<lambda>l.
     bindK (bread (lg_dev l) (lg_start l + of_nat tail + 1)) (\<lambda>lbuf.
     bindK (bread (lg_dev l) (lh_block (lg_lh l) tail)) (\<lambda>dbuf. seqK [
       modify (\<lambda>k. set_buf dbuf (\<lambda>x. x\<lparr>b_data := b_data (bcache k lbuf)\<rparr>) k),
       bwrite dbuf,
       brelse lbuf,
       brelse dbuf])))"

definition install_trans :: "unit kprog" where
  "install_trans = bindK (getl (\<lambda>l. lh_n (lg_lh l))) (\<lambda>n. forK [0..<nat n] install_one)"

definition write_log_one :: "nat \<Rightarrow> unit kprog" where
  "write_log_one tail =
     bindK (getl (\<lambda>l. l)) (\<lambda>l.
     bindK (bread (lg_dev l) (lg_start l + of_nat tail + 1)) (\<lambda>tob.
     bindK (bread (lg_dev l) (lh_block (lg_lh l) tail)) (\<lambda>frm. seqK [
       modify (\<lambda>k. set_buf tob (\<lambda>x. x\<lparr>b_data := b_data (bcache k frm)\<rparr>) k),
       bwrite tob,
       brelse frm,
       brelse tob])))"

definition write_log :: "unit kprog" where
  "write_log = bindK (getl (\<lambda>l. lh_n (lg_lh l))) (\<lambda>n. forK [0..<nat n] write_log_one)"

section \<open>The header block\<close>

definition read_head :: "unit kprog" where
  "read_head =
     bindK (getl (\<lambda>l. l)) (\<lambda>l.
     bindK (bread (lg_dev l) (lg_start l)) (\<lambda>b.
     bindK (getb b b_data) (\<lambda>bs. seqK [
       modify (set_lh (\<lambda>h. h\<lparr>lh_n := sint (get32 bs 0)\<rparr>)),
       forK [0..<nat (sint (get32 bs 0))] (\<lambda>i.
         if LOGSIZE \<le> i then Fault ''log header''
         else modify (set_lh (\<lambda>h. h\<lparr>lh_block := (lh_block h)(i := get32 bs (4 + 4 * i))\<rparr>))),
       brelse b])))"

fun put_blocks :: "byte list \<Rightarrow> (nat \<Rightarrow> uint) \<Rightarrow> nat list \<Rightarrow> byte list" where
  "put_blocks bs f [] = bs"
| "put_blocks bs f (i # is) = put_blocks (put32 bs (4 + 4 * i) (f i)) f is"

definition encode_head :: "logheader \<Rightarrow> byte list \<Rightarrow> byte list" where
  "encode_head h bs = put_blocks (put32 bs 0 (word_of_int (lh_n h))) (lh_block h) [0..<nat (lh_n h)]"

definition write_head :: "unit kprog" where
  "write_head =
     bindK (getl (\<lambda>l. l)) (\<lambda>l.
     bindK (bread (lg_dev l) (lg_start l)) (\<lambda>b. seqK [
       modb b (\<lambda>x. x\<lparr>b_data := encode_head (lg_lh l) (b_data x)\<rparr>),
       bwrite b,
       brelse b]))"

definition recover_from_log :: "unit kprog" where
  "recover_from_log = seqK [
     read_head,
     install_trans,
     modify (set_lh (\<lambda>h. h\<lparr>lh_n := 0\<rparr>)),
     write_head]"

text \<open>The test on \<open>sizeof (struct logheader)\<close>, which is 124, is decided at compile time.\<close>

definition initlog :: "uint \<Rightarrow> unit kprog" where
  "initlog dev = seqK [
     initlock LogLock ''log'',
     bindK (readsb dev) (\<lambda>s.
       modify (set_log (\<lambda>l. l\<lparr>lg_start := sb_logstart s, lg_size := sb_nlog s, lg_dev := dev\<rparr>))),
     recover_from_log]"

section \<open>Transactions\<close>

definition begin_op :: "unit kprog" where
  "begin_op = seqK [
     acquire LogLock,
     wait_while (\<lambda>k. lg_committing (klog k) \<noteq> 0 \<or>
         int LOGSIZE < lh_n (lg_lh (klog k)) + (lg_outstanding (klog k) + 1) * int MAXOPBLOCKS)
       (sleep (Some ChLog) (Some LogLock)),
     modify (set_log (\<lambda>l. l\<lparr>lg_outstanding := lg_outstanding l + 1\<rparr>)),
     release LogLock]"

definition commit :: "unit kprog" where
  "commit = bindK (getl (\<lambda>l. lh_n (lg_lh l))) (\<lambda>n.
     whenK (0 < n) (seqK [
       write_log,
       write_head,
       install_trans,
       modify (set_lh (\<lambda>h. h\<lparr>lh_n := 0\<rparr>)),
       write_head]))"

definition end_op :: "unit kprog" where
  "end_op =
     thenK (acquire LogLock)
     (thenK (modify (set_log (\<lambda>l. l\<lparr>lg_outstanding := lg_outstanding l - 1\<rparr>)))
     (bindK (getl (\<lambda>l. l)) (\<lambda>l.
      if lg_committing l \<noteq> 0 then Panic ''log.committing''
      else bindK (if lg_outstanding l = 0
                  then thenK (modify (set_log (\<lambda>l. l\<lparr>lg_committing := 1\<rparr>))) (Ret True)
                  else thenK (wakeup (Some ChLog)) (Ret False)) (\<lambda>do_commit.
      thenK (release LogLock)
      (whenK do_commit (seqK [
         commit,
         acquire LogLock,
         modify (set_log (\<lambda>l. l\<lparr>lg_committing := 0\<rparr>)),
         wakeup (Some ChLog),
         release LogLock]))))))"

text \<open>The slot \<open>log_write\<close> uses: the one that already holds the block, or the first free one.\<close>

definition log_slot :: "logheader \<Rightarrow> uint \<Rightarrow> nat" where
  "log_slot h bno = (case find (\<lambda>i. lh_block h i = bno) [0..<nat (lh_n h)] of Some i \<Rightarrow> i | None \<Rightarrow> nat (lh_n h))"

definition log_write :: "nat \<Rightarrow> unit kprog" where
  "log_write b =
     bindK (getl (\<lambda>l. l)) (\<lambda>l.
     if int LOGSIZE \<le> lh_n (lg_lh l) \<or> sint (lg_size l) - 1 \<le> lh_n (lg_lh l) then Panic ''too big a transaction''
     else if lg_outstanding l < 1 then Panic ''log_write outside of trans''
     else seqK [
       acquire LogLock,
       bindK (getb b b_blockno) (\<lambda>bno. modify (set_lh (\<lambda>h.
         let i = log_slot h bno in
         h\<lparr>lh_block := (lh_block h)(i := bno), lh_n := (if int i = lh_n h then lh_n h + 1 else lh_n h)\<rparr>))),
       modb b (\<lambda>x. x\<lparr>b_flags := b_flags x OR B_DIRTY\<rparr>),
       release LogLock])"

end
