(* ===== verification/Fs_Inode.thy ===== *)
theory Fs_Inode
  imports Log
begin

text \<open>
  The lower half of \<open>fs.c\<close>: the block allocator, the inode cache and the block map of an inode. On-disk
  inodes are decoded from and encoded into the bytes of their block. Loops over the bitmap blocks, the
  inodes and the cache entries run over the list of their indices.
\<close>

definition set_inode :: "nat \<Rightarrow> (inode \<Rightarrow> inode) \<Rightarrow> kernel \<Rightarrow> kernel" where
  "set_inode i f k = k\<lparr>icache := (icache k)(i := f (icache k i))\<rparr>"

definition modi :: "nat \<Rightarrow> (inode \<Rightarrow> inode) \<Rightarrow> unit kprog" where
  "modi i f = modify (set_inode i f)"

definition geti :: "nat \<Rightarrow> (inode \<Rightarrow> 'a) \<Rightarrow> 'a kprog" where
  "geti i f = gets (\<lambda>k. f (icache k i))"

section \<open>Blocks\<close>

abbreviation (input) BPB :: nat where "BPB \<equiv> 4096"
abbreviation (input) IPB :: nat where "IPB \<equiv> 8"

definition BBLOCK :: "uint \<Rightarrow> superblock \<Rightarrow> uint" where
  "BBLOCK b s = b div of_nat BPB + sb_bmapstart s"

definition IBLOCK :: "uint \<Rightarrow> superblock \<Rightarrow> uint" where
  "IBLOCK i s = i div of_nat IPB + sb_inodestart s"

definition bzero :: "uint \<Rightarrow> uint \<Rightarrow> unit kprog" where
  "bzero dev bno = bindK (bread dev bno) (\<lambda>bp. seqK [
     modb bp (\<lambda>x. x\<lparr>b_data := replicate BSIZE 0\<rparr>),
     log_write bp,
     brelse bp])"

definition bit_mask :: "nat \<Rightarrow> byte" where
  "bit_mask bi = push_bit (bi mod 8) 1"

definition bitmap_free :: "byte list \<Rightarrow> nat \<Rightarrow> bool" where
  "bitmap_free bs bi \<longleftrightarrow> bs ! (bi div 8) AND bit_mask bi = 0"

definition bitmap_set :: "byte list \<Rightarrow> nat \<Rightarrow> byte list" where
  "bitmap_set bs bi = bs[bi div 8 := bs ! (bi div 8) OR bit_mask bi]"

definition bitmap_clear :: "byte list \<Rightarrow> nat \<Rightarrow> byte list" where
  "bitmap_clear bs bi = bs[bi div 8 := bs ! (bi div 8) AND NOT (bit_mask bi)]"

text \<open>One round of the outer loop looks at the bitmap block of the blocks from \<open>BPB * j\<close> on.\<close>

fun balloc_loop :: "uint \<Rightarrow> nat list \<Rightarrow> uint kprog" where
  "balloc_loop dev [] = Panic ''balloc: out of blocks''"
| "balloc_loop dev (j # js) =
     bindK (gets sb) (\<lambda>s.
     bindK (bread dev (BBLOCK (of_nat (BPB * j)) s)) (\<lambda>bp.
     bindK (getb bp b_data) (\<lambda>bs.
     case find (\<lambda>bi. BPB * j + bi < unat (sb_size s) \<and> bitmap_free bs bi) [0..<BPB] of
       Some bi \<Rightarrow>
         thenK (seqK [
           modb bp (\<lambda>x. x\<lparr>b_data := bitmap_set bs bi\<rparr>),
           log_write bp,
           brelse bp,
           bzero dev (of_nat (BPB * j + bi))])
         (Ret (of_nat (BPB * j + bi)))
     | None \<Rightarrow> thenK (brelse bp) (balloc_loop dev js))))"

definition balloc :: "uint \<Rightarrow> uint kprog" where
  "balloc dev = bindK (gets sb) (\<lambda>s. balloc_loop dev [0..<(unat (sb_size s) + (BPB - 1)) div BPB])"

definition bfree :: "uint \<Rightarrow> uint \<Rightarrow> unit kprog" where
  "bfree dev b =
     bindK (gets sb) (\<lambda>s.
     bindK (bread dev (BBLOCK b s)) (\<lambda>bp.
     bindK (getb bp b_data) (\<lambda>bs.
     let bi = unat b mod BPB in
     if bitmap_free bs bi then Panic ''freeing free block''
     else seqK [
       modb bp (\<lambda>x. x\<lparr>b_data := bitmap_clear bs bi\<rparr>),
       log_write bp,
       brelse bp])))"

section \<open>On-disk inodes\<close>

record dinode =
  di_type :: ushort
  di_major :: ushort
  di_minor :: ushort
  di_nlink :: ushort
  di_size :: uint
  di_addrs :: "nat \<Rightarrow> uint"

text \<open>A \<open>struct dinode\<close> is 64 bytes: four shorts, the size and 13 block addresses.\<close>

definition decode_dinode :: "byte list \<Rightarrow> nat \<Rightarrow> dinode" where
  "decode_dinode bs i = (let o0 = 64 * i in
     \<lparr>di_type = get16 bs o0, di_major = get16 bs (o0 + 2), di_minor = get16 bs (o0 + 4),
      di_nlink = get16 bs (o0 + 6), di_size = get32 bs (o0 + 8), di_addrs = (\<lambda>j. get32 bs (o0 + 12 + 4 * j))\<rparr>)"

fun put_addrs :: "byte list \<Rightarrow> nat \<Rightarrow> (nat \<Rightarrow> uint) \<Rightarrow> nat list \<Rightarrow> byte list" where
  "put_addrs bs o0 f [] = bs"
| "put_addrs bs o0 f (j # js) = put_addrs (put32 bs (o0 + 4 * j) (f j)) o0 f js"

definition encode_dinode :: "dinode \<Rightarrow> byte list \<Rightarrow> nat \<Rightarrow> byte list" where
  "encode_dinode d bs i = (let o0 = 64 * i in
     put_addrs (put32 (put16 (put16 (put16 (put16 bs o0 (di_type d)) (o0 + 2) (di_major d)) (o0 + 4) (di_minor d))
       (o0 + 6) (di_nlink d)) (o0 + 8) (di_size d)) (o0 + 12) (di_addrs d) [0..<NDIRECT + 1])"

definition dinode_of :: "inode \<Rightarrow> dinode" where
  "dinode_of ip = \<lparr>di_type = i_type ip, di_major = i_major ip, di_minor = i_minor ip, di_nlink = i_nlink ip,
     di_size = i_size ip, di_addrs = i_addrs ip\<rparr>"

section \<open>The inode cache\<close>

definition iinit :: "uint \<Rightarrow> unit kprog" where
  "iinit dev = seqK [
     initlock IcacheLock ''icache'',
     forK [0..<NINODE] (\<lambda>i. initsleeplock (InodeSl i) ''inode''),
     bindK (readsb dev) (\<lambda>s. modify (\<lambda>k. k\<lparr>sb := s\<rparr>)),
     bindK (gets sb) (\<lambda>s. cprintf
       ''sb: size %d nblocks %d ninodes %d nlog %d logstart %d inodestart %d bmap start %d\<newline>''
       (map CInt [sb_size s, sb_nblocks s, sb_ninodes s, sb_nlog s, sb_logstart s, sb_inodestart s, sb_bmapstart s]))]"

definition iget :: "uint \<Rightarrow> uint \<Rightarrow> nat kprog" where
  "iget dev inum =
     thenK (acquire IcacheLock)
     (bindK (gets icache) (\<lambda>ic.
      case find (\<lambda>i. 0 < i_ref (ic i) \<and> i_dev (ic i) = dev \<and> i_inum (ic i) = inum) [0..<NINODE] of
        Some ip \<Rightarrow>
          thenK (modi ip (\<lambda>x. x\<lparr>i_ref := i_ref x + 1\<rparr>)) (thenK (release IcacheLock) (Ret ip))
      | None \<Rightarrow>
          (case find (\<lambda>i. i_ref (ic i) = 0) [0..<NINODE] of
             None \<Rightarrow> Panic ''iget: no inodes''
           | Some ip \<Rightarrow>
               thenK (modi ip (\<lambda>x. x\<lparr>i_dev := dev, i_inum := inum, i_ref := 1, i_valid := 0\<rparr>))
                 (thenK (release IcacheLock) (Ret ip)))))"

fun ialloc_loop :: "uint \<Rightarrow> ushort \<Rightarrow> nat list \<Rightarrow> nat kprog" where
  "ialloc_loop dev ty [] = Panic ''ialloc: no inodes''"
| "ialloc_loop dev ty (inum # is) =
     bindK (gets sb) (\<lambda>s.
     bindK (bread dev (IBLOCK (of_nat inum) s)) (\<lambda>bp.
     bindK (getb bp b_data) (\<lambda>bs.
     if di_type (decode_dinode bs (inum mod IPB)) = 0 then
       thenK (seqK [
         modb bp (\<lambda>x. x\<lparr>b_data := put16 (splice bs (64 * (inum mod IPB)) (replicate 64 0)) (64 * (inum mod IPB)) ty\<rparr>),
         log_write bp,
         brelse bp])
       (iget dev (of_nat inum))
     else thenK (brelse bp) (ialloc_loop dev ty is))))"

definition ialloc :: "uint \<Rightarrow> ushort \<Rightarrow> nat kprog" where
  "ialloc dev ty = bindK (gets sb) (\<lambda>s. ialloc_loop dev ty [1..<unat (sb_ninodes s)])"

definition iupdate :: "nat \<Rightarrow> unit kprog" where
  "iupdate ip =
     bindK (geti ip (\<lambda>x. x)) (\<lambda>x.
     bindK (gets sb) (\<lambda>s.
     bindK (bread (i_dev x) (IBLOCK (i_inum x) s)) (\<lambda>bp. seqK [
       modb bp (\<lambda>b. b\<lparr>b_data := encode_dinode (dinode_of x) (b_data b) (unat (i_inum x) mod IPB)\<rparr>),
       log_write bp,
       brelse bp])))"

definition idup :: "nat \<Rightarrow> nat kprog" where
  "idup ip = thenK (seqK [
     acquire IcacheLock,
     modi ip (\<lambda>x. x\<lparr>i_ref := i_ref x + 1\<rparr>),
     release IcacheLock]) (Ret ip)"

definition ilock :: "nat option \<Rightarrow> unit kprog" where
  "ilock mip = (case mip of None \<Rightarrow> Panic ''ilock'' | Some ip \<Rightarrow>
     bindK (geti ip i_ref) (\<lambda>r.
     if r < 1 then Panic ''ilock''
     else thenK (acquiresleep (InodeSl ip))
       (bindK (geti ip i_valid) (\<lambda>v.
        whenK (v = 0)
          (bindK (geti ip (\<lambda>x. x)) (\<lambda>x.
           bindK (gets sb) (\<lambda>s.
           bindK (bread (i_dev x) (IBLOCK (i_inum x) s)) (\<lambda>bp.
           bindK (getb bp (\<lambda>b. decode_dinode (b_data b) (unat (i_inum x) mod IPB))) (\<lambda>d. seqK [
             modi ip (\<lambda>x. x\<lparr>i_type := di_type d, i_major := di_major d, i_minor := di_minor d, i_nlink := di_nlink d,
               i_size := di_size d, i_addrs := di_addrs d\<rparr>),
             brelse bp,
             modi ip (\<lambda>x. x\<lparr>i_valid := 1\<rparr>),
             bindK (geti ip i_type) (\<lambda>t. if t = 0 then Panic ''ilock: no type'' else Ret ())])))))))))"

definition iunlock :: "nat option \<Rightarrow> unit kprog" where
  "iunlock mip = (case mip of None \<Rightarrow> Panic ''iunlock'' | Some ip \<Rightarrow>
     bindK (holdingsleep (InodeSl ip)) (\<lambda>h.
     bindK (geti ip i_ref) (\<lambda>r.
     if \<not> h \<or> r < 1 then Panic ''iunlock'' else releasesleep (InodeSl ip))))"

section \<open>The blocks of an inode\<close>

definition set_addr :: "nat \<Rightarrow> uint \<Rightarrow> inode \<Rightarrow> inode" where
  "set_addr j a x = x\<lparr>i_addrs := (i_addrs x)(j := a)\<rparr>"

definition addr_or_alloc :: "nat \<Rightarrow> nat \<Rightarrow> uint kprog" where
  "addr_or_alloc ip j =
     bindK (geti ip (\<lambda>x. x)) (\<lambda>x.
     if i_addrs x j = 0 then bindK (balloc (i_dev x)) (\<lambda>a. thenK (modi ip (set_addr j a)) (Ret a))
     else Ret (i_addrs x j))"

definition bmap :: "nat \<Rightarrow> uint \<Rightarrow> uint kprog" where
  "bmap ip bn =
     (if bn < of_nat NDIRECT then addr_or_alloc ip (unat bn)
      else let bn = bn - of_nat NDIRECT in
        if bn < of_nat NINDIRECT then
          bindK (addr_or_alloc ip NDIRECT) (\<lambda>addr.
          bindK (geti ip i_dev) (\<lambda>dev.
          bindK (bread dev addr) (\<lambda>bp.
          bindK (getb bp (\<lambda>b. get32 (b_data b) (4 * unat bn))) (\<lambda>a.
          bindK (if a = 0 then
                   bindK (balloc dev) (\<lambda>a.
                   thenK (modb bp (\<lambda>b. b\<lparr>b_data := put32 (b_data b) (4 * unat bn) a\<rparr>))
                     (thenK (log_write bp) (Ret a)))
                 else Ret a) (\<lambda>a.
          thenK (brelse bp) (Ret a))))))
        else Panic ''bmap: out of range'')"

definition itrunc :: "nat \<Rightarrow> unit kprog" where
  "itrunc ip = seqK [
     forK [0..<NDIRECT] (\<lambda>i. bindK (geti ip (\<lambda>x. x)) (\<lambda>x.
       whenK (i_addrs x i \<noteq> 0) (thenK (bfree (i_dev x) (i_addrs x i)) (modi ip (set_addr i 0))))),
     bindK (geti ip (\<lambda>x. x)) (\<lambda>x.
       whenK (i_addrs x NDIRECT \<noteq> 0)
         (bindK (bread (i_dev x) (i_addrs x NDIRECT)) (\<lambda>bp. seqK [
            forK [0..<NINDIRECT] (\<lambda>j. bindK (getb bp (\<lambda>b. get32 (b_data b) (4 * j))) (\<lambda>a.
              whenK (a \<noteq> 0) (bfree (i_dev x) a))),
            brelse bp,
            bfree (i_dev x) (i_addrs x NDIRECT),
            modi ip (set_addr NDIRECT 0)]))),
     modi ip (\<lambda>x. x\<lparr>i_size := 0\<rparr>),
     iupdate ip]"

definition iput :: "nat \<Rightarrow> unit kprog" where
  "iput ip = seqK [
     acquiresleep (InodeSl ip),
     bindK (geti ip (\<lambda>x. i_valid x \<noteq> 0 \<and> i_nlink x = 0)) (\<lambda>dead.
       whenK dead
         (thenK (acquire IcacheLock)
         (bindK (geti ip i_ref) (\<lambda>r.
          thenK (release IcacheLock)
          (whenK (r = 1) (seqK [
            itrunc ip,
            modi ip (\<lambda>x. x\<lparr>i_type := 0\<rparr>),
            iupdate ip,
            modi ip (\<lambda>x. x\<lparr>i_valid := 0\<rparr>)])))))),
     releasesleep (InodeSl ip),
     acquire IcacheLock,
     modi ip (\<lambda>x. x\<lparr>i_ref := i_ref x - 1\<rparr>),
     release IcacheLock]"

definition iunlockput :: "nat \<Rightarrow> unit kprog" where
  "iunlockput ip = seqK [iunlock (Some ip), iput ip]"

record kstat =
  st_type :: ushort
  st_dev :: uint
  st_ino :: uint
  st_nlink :: ushort
  st_size :: uint

definition stati :: "nat \<Rightarrow> kstat kprog" where
  "stati ip = geti ip (\<lambda>x. \<lparr>st_type = i_type x, st_dev = i_dev x, st_ino = i_inum x, st_nlink = i_nlink x,
     st_size = i_size x\<rparr>)"

end
