(* ===== verification/Console_In.thy ===== *)
theory Console_In
  imports Fs_Inode
begin

text \<open>
  The input half of \<open>console.c\<close> with the keyboard driver \<open>kbd.c\<close> and the receiver of \<open>uart.c\<close>. What the
  hardware delivers during one interrupt is a list: the bytes of the serial port, the scan codes of the
  keyboard.
\<close>

section \<open>Keyboard\<close>

abbreviation (input) SHIFT :: uint where "SHIFT \<equiv> 1"
abbreviation (input) CTL :: uint where "CTL \<equiv> 2"
abbreviation (input) ALT :: uint where "ALT \<equiv> 4"
abbreviation (input) CAPSLOCK :: uint where "CAPSLOCK \<equiv> 8"
abbreviation (input) NUMLOCK :: uint where "NUMLOCK \<equiv> 16"
abbreviation (input) SCROLLLOCK :: uint where "SCROLLLOCK \<equiv> 32"
abbreviation (input) E0ESC :: uint where "E0ESC \<equiv> 64"

definition shiftcode :: "uint \<Rightarrow> uint" where
  "shiftcode d =
     (if d = 0x1D \<or> d = 0x9D then CTL
      else if d = 0x2A \<or> d = 0x36 then SHIFT
      else if d = 0x38 \<or> d = 0xB8 then ALT
      else 0)"

definition togglecode :: "uint \<Rightarrow> uint" where
  "togglecode d =
     (if d = 0x3A then CAPSLOCK else if d = 0x45 then NUMLOCK else if d = 0x46 then SCROLLLOCK else 0)"

text \<open>The three maps agree on the keypad and the cursor keys.\<close>

definition keypad :: "byte \<Rightarrow> byte \<Rightarrow> uint \<Rightarrow> byte" where
  "keypad enter slash d =
     (case map_of [(0x9C, enter), (0xB5, slash), (0xC8, 0xE2), (0xD0, 0xE3), (0xC9, 0xE6), (0xD1, 0xE7),
        (0xCB, 0xE4), (0xCD, 0xE5), (0x97, 0xE0), (0xCF, 0xE1), (0xD2, 0xE8), (0xD3, 0xE9)] d of
        None \<Rightarrow> 0 | Some c \<Rightarrow> c)"

definition keymap :: "byte list \<Rightarrow> byte \<Rightarrow> byte \<Rightarrow> uint \<Rightarrow> byte" where
  "keymap main enter slash d = (if unat d < length main then main ! unat d else keypad enter slash d)"

definition normalmap :: "uint \<Rightarrow> byte" where
  "normalmap = keymap
     ([0, 0x1B] @ string_bytes ''1234567890-='' @ [8, 9]
      @ string_bytes ''qwertyuiop[]'' @ [10, 0] @ string_bytes ''asdfghjkl;''
      @ [39, 96, 0, 92] @ string_bytes ''zxcvbnm,./'' @ [0, 42, 0, 32] @ replicate 13 0
      @ string_bytes ''789-456+1230.'' @ replicate 4 0)
     10 47"

definition shiftmap :: "uint \<Rightarrow> byte" where
  "shiftmap = keymap
     ([0, 27] @ string_bytes ''!@#$%^&*()_+'' @ [8, 9]
      @ string_bytes ''QWERTYUIOP{}'' @ [10, 0] @ string_bytes ''ASDFGHJKL:''
      @ [34, 126, 0, 124] @ string_bytes ''ZXCVBNM<>?'' @ [0, 42, 0, 32] @ replicate 13 0
      @ string_bytes ''789-456+1230.'' @ replicate 4 0)
     10 47"

definition ctl :: "byte \<Rightarrow> byte" where
  "ctl c = c - 64"

definition ctlmap :: "uint \<Rightarrow> byte" where
  "ctlmap = keymap
     (replicate 16 0 @ map ctl (string_bytes ''QWERTYUIOP'') @ [0, 0, 13, 0]
      @ map ctl (string_bytes ''ASDFGHJKL'') @ [0, 0, 0, 0, ctl 92] @ map ctl (string_bytes ''ZXCVBNM'')
      @ [0, 0, ctl 47, 0, 0])
     13 (ctl 47)"

definition charcode :: "uint \<Rightarrow> uint \<Rightarrow> byte" where
  "charcode m = (if m = 0 then normalmap else if m = 1 then shiftmap else ctlmap)"

definition caps :: "uint \<Rightarrow> uint" where
  "caps c = (if 97 \<le> c \<and> c \<le> 122 then c - 32 else if 65 \<le> c \<and> c \<le> 90 then c + 32 else c)"

text \<open>One call of \<open>kbdgetc\<close> on a scan code: the character and the new shift state.\<close>

definition kbdgetc :: "uint \<Rightarrow> byte \<Rightarrow> uint \<times> uint" where
  "kbdgetc shift code =
     (let data = ucast code :: uint in
      if data = 0xE0 then (0, shift OR E0ESC)
      else if data AND 0x80 \<noteq> 0 then
        (let data = (if shift AND E0ESC \<noteq> 0 then data else data AND 0x7F)
         in (0, shift AND NOT (shiftcode data OR E0ESC)))
      else
        let (data, shift) = (if shift AND E0ESC \<noteq> 0 then (data OR 0x80, shift AND NOT E0ESC) else (data, shift));
            shift = shift OR shiftcode data;
            shift = shift XOR togglecode data;
            c = ucast (charcode (shift AND (CTL OR SHIFT)) data)
        in (if shift AND CAPSLOCK \<noteq> 0 then caps c else c, shift))"

fun kbd_codes :: "uint \<Rightarrow> byte list \<Rightarrow> uint list" where
  "kbd_codes shift [] = []"
| "kbd_codes shift (d # ds) = (let (c, shift') = kbdgetc shift d in c # kbd_codes shift' ds)"

section \<open>Line editing\<close>

definition set_input :: "(inputbuf \<Rightarrow> inputbuf) \<Rightarrow> kernel \<Rightarrow> kernel" where
  "set_input f k = k\<lparr>input := f (input k)\<rparr>"

abbreviation (input) INPUT_BUF :: nat where "INPUT_BUF \<equiv> 128"

definition rub_out :: "unit kprog" where
  "rub_out = thenK (modify (set_input (\<lambda>b. b\<lparr>in_e := in_e b - 1\<rparr>))) (consputc BACKSPACE)"

definition line_left :: "inputbuf \<Rightarrow> bool" where
  "line_left b \<longleftrightarrow> in_e b \<noteq> in_w b \<and> in_buf b (unat (in_e b - 1) mod INPUT_BUF) \<noteq> 10"

text \<open>Control-U: as many rounds as there are characters between the write and the edit index.\<close>

definition kill_line :: "unit kprog" where
  "kill_line = bindK (gets (\<lambda>k. unat (in_e (input k) - in_w (input k)))) (\<lambda>n.
     whileK (Suc n) (\<lambda>k. line_left (input k)) rub_out)"

definition type_char :: "uint \<Rightarrow> unit kprog" where
  "type_char c =
     bindK (gets (\<lambda>k. in_e (input k) - in_r (input k) < of_nat INPUT_BUF)) (\<lambda>room.
     whenK (c \<noteq> 0 \<and> room)
       (let c = (if c = 13 then 10 else c) in seqK [
          modify (set_input (\<lambda>b. b\<lparr>in_buf := (in_buf b)(unat (in_e b) mod INPUT_BUF := ucast c), in_e := in_e b + 1\<rparr>)),
          consputc c,
          bindK (gets (\<lambda>k. in_e (input k) = in_r (input k) + of_nat INPUT_BUF)) (\<lambda>full.
            whenK (c = 10 \<or> c = 4 \<or> full)
              (thenK (modify (set_input (\<lambda>b. b\<lparr>in_w := in_e b\<rparr>))) (wakeup (Some ChInput))))]))"

text \<open>The program gives whether a process listing was asked for.\<close>

fun consoleintr_loop :: "uint list \<Rightarrow> bool \<Rightarrow> bool kprog" where
  "consoleintr_loop [] dump = Ret dump"
| "consoleintr_loop (c # cs) dump =
     (if c = 16 then consoleintr_loop cs True
      else if c = 21 then thenK kill_line (consoleintr_loop cs dump)
      else if c = 8 \<or> c = 0x7f then
        thenK (bindK (gets (\<lambda>k. in_e (input k) \<noteq> in_w (input k))) (\<lambda>b. whenK b rub_out)) (consoleintr_loop cs dump)
      else thenK (type_char c) (consoleintr_loop cs dump))"

definition consoleintr :: "uint list \<Rightarrow> unit kprog" where
  "consoleintr cs =
     thenK (acquire ConsLock)
     (bindK (consoleintr_loop cs False) (\<lambda>doprocdump.
      thenK (release ConsLock) (whenK doprocdump procdump)))"

definition uartgetc :: "kernel \<Rightarrow> byte list \<Rightarrow> uint list" where
  "uartgetc k rx = (if uart k then map ucast rx else [])"

definition uartintr :: "byte list \<Rightarrow> unit kprog" where
  "uartintr rx = bindK (gets (\<lambda>k. uartgetc k rx)) consoleintr"

definition kbdintr :: "uint \<Rightarrow> byte list \<Rightarrow> unit kprog" where
  "kbdintr shift scancodes = consoleintr (kbd_codes shift scancodes)"

text \<open>The status byte of the port tells whether there is one; the interrupt controller is not modelled.\<close>

definition uartinit :: "byte \<Rightarrow> unit kprog" where
  "uartinit status = whenK (status \<noteq> 0xFF)
     (thenK (modify (\<lambda>k. k\<lparr>uart := True\<rparr>)) (forK (string_bytes ''xv6...\<newline>'') (\<lambda>c. uartputc (ucast c))))"

section \<open>The console device\<close>

text \<open>Wait for a character; \<open>None\<close> when the process was killed meanwhile.\<close>

definition console_next :: "byte option kprog" where
  "console_next = wait_for
     (bindK (gets (\<lambda>k. in_r (input k) = in_w (input k))) (\<lambda>empty.
      if empty then
        bindK curproc (\<lambda>p.
        bindK (getp p p_killed) (\<lambda>dead.
        if dead \<noteq> 0 then Ret (Some None)
        else thenK (sleep (Some ChInput) (Some ConsLock)) (Ret None)))
      else
        bindK (gets (\<lambda>k. in_buf (input k) (unat (in_r (input k)) mod INPUT_BUF))) (\<lambda>c.
        thenK (modify (set_input (\<lambda>b. b\<lparr>in_r := in_r b + 1\<rparr>))) (Ret (Some (Some c))))))"

text \<open>The loop of \<open>consoleread\<close>: the bytes read so far and the room left; \<open>None\<close> when killed.\<close>

fun consoleread_loop :: "nat \<Rightarrow> byte list \<Rightarrow> byte list option kprog" where
  "consoleread_loop 0 got = Ret (Some got)"
| "consoleread_loop (Suc n) got =
     bindK console_next (\<lambda>mc.
     case mc of None \<Rightarrow> Ret None | Some c \<Rightarrow>
       if c = 4 then
         thenK (whenK (got \<noteq> []) (modify (set_input (\<lambda>b. b\<lparr>in_r := in_r b - 1\<rparr>)))) (Ret (Some got))
       else if c = 10 then Ret (Some (got @ [c]))
       else consoleread_loop n (got @ [c]))"

definition consoleread :: "nat \<Rightarrow> int \<Rightarrow> (int \<times> byte list) kprog" where
  "consoleread ip n =
     thenK (iunlock (Some ip))
     (thenK (acquire ConsLock)
     (bindK (consoleread_loop (nat n) []) (\<lambda>r.
      thenK (release ConsLock)
      (thenK (ilock (Some ip))
      (Ret (case r of None \<Rightarrow> (- 1, []) | Some bs \<Rightarrow> (int (length bs), bs)))))))"

definition consolewrite :: "nat \<Rightarrow> byte list \<Rightarrow> int kprog" where
  "consolewrite ip bs =
     thenK (seqK [
       iunlock (Some ip),
       acquire ConsLock,
       forK bs (\<lambda>c. consputc (ucast c)),
       release ConsLock,
       ilock (Some ip)])
     (Ret (int (length bs)))"

definition consoleinit :: "unit kprog" where
  "consoleinit = seqK [
     initlock ConsLock ''console'',
     modify (\<lambda>k. k\<lparr>devsw := (devsw k)(CONSOLE := Some ConsoleDev)\<rparr>),
     modify (\<lambda>k. k\<lparr>cons_locking := True\<rparr>)]"

end
