(* ===== verification/Fs_Dir.thy ===== *)
theory Fs_Dir
  imports Console_In
begin

text \<open>
  The upper half of \<open>fs.c\<close>: reading and writing inodes, directories and path names. A user or kernel buffer
  is the list of its bytes: \<open>readi\<close> gives the bytes it stores with its return value, \<open>writei\<close> takes the bytes
  to write. Names and paths are byte lists without the terminating zero.
\<close>

abbreviation (input) T_DIR :: ushort where "T_DIR \<equiv> 1"
abbreviation (input) T_FILE :: ushort where "T_FILE \<equiv> 2"
abbreviation (input) T_DEV :: ushort where "T_DEV \<equiv> 3"
abbreviation (input) DIRSIZ :: nat where "DIRSIZ \<equiv> 14"
abbreviation (input) DIRENT :: nat where "DIRENT \<equiv> 16"
abbreviation (input) ROOTINO :: uint where "ROOTINO \<equiv> 1"

section \<open>Reading and writing\<close>

definition chunk :: "uint \<Rightarrow> nat \<Rightarrow> nat" where
  "chunk off n = min n (BSIZE - unat off mod BSIZE)"

function readi_loop :: "nat \<Rightarrow> uint \<Rightarrow> nat \<Rightarrow> byte list kprog" where
  "readi_loop ip off n =
     (if n = 0 then Ret []
      else
        bindK (bmap ip (off div of_nat BSIZE)) (\<lambda>a.
        bindK (geti ip i_dev) (\<lambda>dev.
        bindK (bread dev a) (\<lambda>bp.
        bindK (getb bp (\<lambda>b. take (chunk off n) (drop (unat off mod BSIZE) (b_data b)))) (\<lambda>bs.
        thenK (brelse bp)
        (bindK (readi_loop ip (off + of_nat (chunk off n)) (n - chunk off n)) (\<lambda>rest. Ret (bs @ rest))))))))"
  by auto
termination
  by (relation "measure (\<lambda>(ip, off, n). n)") (auto simp: chunk_def)

definition device :: "inode \<Rightarrow> kernel \<Rightarrow> devfun option" where
  "device x k = (if sint (i_major x) < 0 \<or> int NDEV \<le> sint (i_major x) then None else devsw k (unat (i_major x)))"

definition readi :: "nat \<Rightarrow> uint \<Rightarrow> uint \<Rightarrow> (int \<times> byte list) kprog" where
  "readi ip off n =
     bindK (geti ip (\<lambda>x. x)) (\<lambda>x.
     if i_type x = T_DEV then
       bindK (gets (device x)) (\<lambda>d. case d of None \<Rightarrow> Ret (- 1, []) | Some ConsoleDev \<Rightarrow> consoleread ip (sint n))
     else if i_size x < off \<or> off + n < off then Ret (- 1, [])
     else
       let n = (if i_size x < off + n then i_size x - off else n) in
       bindK (readi_loop ip off (unat n)) (\<lambda>bs. Ret (sint n, bs)))"

text \<open>The loop of \<open>writei\<close> gives the offset it ends at.\<close>

function writei_loop :: "nat \<Rightarrow> byte list \<Rightarrow> uint \<Rightarrow> uint kprog" where
  "writei_loop ip src off =
     (if src = [] then Ret off
      else
        bindK (bmap ip (off div of_nat BSIZE)) (\<lambda>a.
        bindK (geti ip i_dev) (\<lambda>dev.
        bindK (bread dev a) (\<lambda>bp.
        let m = chunk off (length src) in
        thenK (seqK [
          modb bp (\<lambda>b. b\<lparr>b_data := splice (b_data b) (unat off mod BSIZE) (take m src)\<rparr>),
          log_write bp,
          brelse bp])
        (writei_loop ip (drop m src) (off + of_nat m))))))"
  by auto
termination
  by (relation "measure (\<lambda>(ip, src, off). length src)") (auto simp: chunk_def)

definition writei :: "nat \<Rightarrow> byte list \<Rightarrow> uint \<Rightarrow> int kprog" where
  "writei ip src off =
     bindK (geti ip (\<lambda>x. x)) (\<lambda>x.
     let n = of_nat (length src) in
     if i_type x = T_DEV then
       bindK (gets (device x)) (\<lambda>d. case d of None \<Rightarrow> Ret (- 1) | Some ConsoleDev \<Rightarrow> consolewrite ip src)
     else if i_size x < off \<or> off + n < off then Ret (- 1)
     else if of_nat (MAXFILE * BSIZE) < off + n then Ret (- 1)
     else
       bindK (writei_loop ip src off) (\<lambda>off'.
       bindK (geti ip i_size) (\<lambda>sz.
       thenK (whenK (0 < n \<and> sz < off')
                (thenK (modi ip (\<lambda>x. x\<lparr>i_size := off'\<rparr>)) (iupdate ip)))
         (Ret (sint n)))))"

section \<open>Directories\<close>

definition hd0 :: "byte list \<Rightarrow> byte" where
  "hd0 bs = (case bs of [] \<Rightarrow> 0 | b # _ \<Rightarrow> b)"

text \<open>\<open>strncmp\<close> on byte lists that end in an implicit zero.\<close>

fun strncmpl :: "nat \<Rightarrow> byte list \<Rightarrow> byte list \<Rightarrow> int" where
  "strncmpl 0 p q = 0"
| "strncmpl (Suc n) p q =
     (if hd0 p \<noteq> 0 \<and> hd0 p = hd0 q then strncmpl n (tl p) (tl q) else uint (hd0 p) - uint (hd0 q))"

definition namecmp :: "byte list \<Rightarrow> byte list \<Rightarrow> int" where
  "namecmp s t = strncmpl DIRSIZ s t"

definition de_inum :: "byte list \<Rightarrow> ushort" where
  "de_inum de = get16 de 0"

definition de_name :: "byte list \<Rightarrow> byte list" where
  "de_name de = take DIRSIZ (drop 2 de)"

definition strncpyl :: "nat \<Rightarrow> byte list \<Rightarrow> byte list" where
  "strncpyl n s = take n (takeWhile (\<lambda>b. b \<noteq> 0) s @ replicate n 0)"

definition mk_dirent :: "uint \<Rightarrow> byte list \<Rightarrow> byte list" where
  "mk_dirent inum name = le16 (ucast inum) @ strncpyl DIRSIZ name"

definition dir_offsets :: "uint \<Rightarrow> uint list" where
  "dir_offsets sz = map (\<lambda>i. of_nat (DIRENT * i)) [0..<(unat sz + (DIRENT - 1)) div DIRENT]"

definition read_dirent :: "string \<Rightarrow> nat \<Rightarrow> uint \<Rightarrow> byte list kprog" where
  "read_dirent msg dp off =
     bindK (readi dp off (of_nat DIRENT)) (\<lambda>(r, de). if r \<noteq> int DIRENT then Panic msg else Ret de)"

fun dirlookup_loop :: "nat \<Rightarrow> byte list \<Rightarrow> uint list \<Rightarrow> (nat \<times> uint) option kprog" where
  "dirlookup_loop dp name [] = Ret None"
| "dirlookup_loop dp name (off # offs) =
     bindK (read_dirent ''dirlookup read'' dp off) (\<lambda>de.
     if de_inum de = 0 then dirlookup_loop dp name offs
     else if namecmp name (de_name de) = 0 then
       bindK (geti dp i_dev) (\<lambda>dev.
       bindK (iget dev (ucast (de_inum de))) (\<lambda>ip. Ret (Some (ip, off))))
     else dirlookup_loop dp name offs)"

text \<open>The inode found and the offset of its entry (\<open>*poff\<close>).\<close>

definition dirlookup :: "nat \<Rightarrow> byte list \<Rightarrow> (nat \<times> uint) option kprog" where
  "dirlookup dp name =
     bindK (geti dp (\<lambda>x. x)) (\<lambda>x.
     if i_type x \<noteq> T_DIR then Panic ''dirlookup not DIR''
     else dirlookup_loop dp name (dir_offsets (i_size x)))"

text \<open>The offset of the first free entry; \<open>past\<close> when there is none.\<close>

fun dirlink_slot :: "nat \<Rightarrow> uint \<Rightarrow> uint list \<Rightarrow> uint kprog" where
  "dirlink_slot dp past [] = Ret past"
| "dirlink_slot dp past (off # offs) =
     bindK (read_dirent ''dirlink read'' dp off) (\<lambda>de.
     if de_inum de = 0 then Ret off else dirlink_slot dp past offs)"

definition dirlink :: "nat \<Rightarrow> byte list \<Rightarrow> uint \<Rightarrow> int kprog" where
  "dirlink dp name inum =
     bindK (dirlookup dp name) (\<lambda>found.
     case found of Some (ip, _) \<Rightarrow> thenK (iput ip) (Ret (- 1))
     | None \<Rightarrow>
         bindK (geti dp i_size) (\<lambda>sz.
         bindK (dirlink_slot dp (of_nat (DIRENT * length (dir_offsets sz))) (dir_offsets sz)) (\<lambda>off.
         bindK (writei dp (mk_dirent inum name) off) (\<lambda>r.
         if r \<noteq> int DIRENT then Panic ''dirlink'' else Ret 0))))"

section \<open>Paths\<close>

abbreviation (input) SLASH :: byte where "SLASH \<equiv> 47"

text \<open>The rest of the path and the element removed, cut to \<open>DIRSIZ\<close> bytes; \<open>None\<close> when no element is left.\<close>

definition skipelem :: "byte list \<Rightarrow> (byte list \<times> byte list) option" where
  "skipelem path =
     (let s = dropWhile (\<lambda>c. c = SLASH) path in
      if s = [] then None
      else Some (dropWhile (\<lambda>c. c = SLASH) (dropWhile (\<lambda>c. c \<noteq> SLASH) s),
                 take DIRSIZ (takeWhile (\<lambda>c. c \<noteq> SLASH) s)))"

lemma skipelem_shorter: "skipelem path = Some (rest, name) \<Longrightarrow> length rest < length path"
proof -
  assume skip: "skipelem path = Some (rest, name)"
  let ?s = "dropWhile (\<lambda>c. c = SLASH) path"
  have ne: "?s \<noteq> []" and rest: "rest = dropWhile (\<lambda>c. c = SLASH) (dropWhile (\<lambda>c. c \<noteq> SLASH) ?s)"
    using skip by (auto simp: skipelem_def Let_def split: if_splits)
  then obtain c s where s: "?s = c # s"
    by (cases ?s) auto
  have "c \<noteq> SLASH"
    using hd_dropWhile [OF ne] unfolding s by simp
  then have "length rest \<le> length s"
    unfolding rest s by (auto intro: le_trans [OF length_dropWhile_le length_dropWhile_le])
  also have "\<dots> < length path"
    using length_dropWhile_le [of "\<lambda>c. c = SLASH" path] unfolding s by simp
  finally show ?thesis .
qed

text \<open>The loop of \<open>namex\<close>; the result is the inode with the last element removed.\<close>

function namex_loop :: "bool \<Rightarrow> nat \<Rightarrow> byte list \<Rightarrow> byte list \<Rightarrow> (nat \<times> byte list) option kprog" where
  "namex_loop parent ip name path =
     (case skipelem path of
        None \<Rightarrow> if parent then thenK (iput ip) (Ret None) else Ret (Some (ip, name))
      | Some (path', name') \<Rightarrow>
          thenK (ilock (Some ip))
          (bindK (geti ip i_type) (\<lambda>t.
           if t \<noteq> T_DIR then thenK (iunlockput ip) (Ret None)
           else if parent \<and> path' = [] then thenK (iunlock (Some ip)) (Ret (Some (ip, name')))
           else
             bindK (dirlookup ip name') (\<lambda>nxt.
             thenK (iunlockput ip)
             (case nxt of None \<Rightarrow> Ret None | Some (ip', _) \<Rightarrow> namex_loop parent ip' name' path')))))"
  by auto
termination
  by (relation "measure (\<lambda>(parent, ip, name, path). length path)") (auto dest: skipelem_shorter)

declare readi_loop.simps [simp del] writei_loop.simps [simp del] namex_loop.simps [simp del]

definition namex :: "byte list \<Rightarrow> bool \<Rightarrow> (nat \<times> byte list) option kprog" where
  "namex path parent =
     bindK (if hd0 path = SLASH then iget ROOTDEV ROOTINO
            else
              bindK curproc (\<lambda>p.
              bindK (getp p p_cwd) (\<lambda>cwd. case cwd of None \<Rightarrow> Fault ''null cwd'' | Some ip \<Rightarrow> idup ip)))
       (\<lambda>ip. namex_loop parent ip [] path)"

definition namei :: "byte list \<Rightarrow> nat option kprog" where
  "namei path = bindK (namex path False) (\<lambda>r. Ret (map_option fst r))"

definition nameiparent :: "byte list \<Rightarrow> (nat \<times> byte list) option kprog" where
  "nameiparent path = namex path True"

end
