(* ===== verification/Ring.thy ===== *)
theory Ring
  imports Prelude
begin

text \<open>
  Bounded queues of bytes: the interface that the pipe and the console input buffer offer, and the way
  both implement it, an array indexed by two free-running 32-bit counters taken modulo its size.
\<close>

section \<open>Rings\<close>

definition ring :: "nat \<Rightarrow> (nat \<Rightarrow> byte) \<Rightarrow> uint \<Rightarrow> uint \<Rightarrow> byte list" where
  "ring N d r w = map (\<lambda>i. d (unat (r + of_nat i) mod N)) [0..<unat (w - r)]"

lemma length_ring [simp]: "length (ring N d r w) = unat (w - r)"
  by (simp add: ring_def)

lemma ring_empty: "ring N d r w = [] \<longleftrightarrow> r = w"
  by (metis eq_iff_diff_eq_0 length_0_conv length_ring unat_eq_zero)

lemma ring_index: "N dvd 2 ^ 32 \<Longrightarrow> unat ((r :: uint) + of_nat i) mod N = (unat r + i) mod N"
  by (simp add: unat_word_ariths(1) unat_of_nat mod_mod_cancel mod_add_right_eq
      flip: mod_add_right_eq[of "unat r" "i mod 2 ^ 32" N])

lemma unat_grow:
  assumes "unat ((w :: uint) - r) < 2 ^ 32 - 1"
  shows "unat (w + 1 - r) = Suc (unat (w - r))"
proof -
  have "unat (w - r + 1) = (unat (w - r) + 1) mod 2 ^ 32" by (simp add: unat_word_ariths(1))
  then show ?thesis using assms by (simp add: algebra_simps)
qed

lemma ring_put:
  assumes N: "N dvd 2 ^ 32" "N < 2 ^ 32" and room: "unat (w - r) < N"
  shows "ring N (d(unat w mod N := b)) r (w + 1) = ring N d r w @ [b]"
proof -
  let ?m = "unat (w - r)"
  have w: "unat w mod N = (unat r + ?m) mod N"
    using ring_index[OF N(1), of r ?m] by simp
  have "?m < 2 ^ 32 - 1" using room N(2) by simp
  then have g: "unat (w + 1 - r) = Suc ?m" by (rule unat_grow)
  have ne: "(unat r + i) mod N \<noteq> (unat r + ?m) mod N" if "i < ?m" for i
  proof
    assume "(unat r + i) mod N = (unat r + ?m) mod N"
    then have "N dvd (unat r + ?m) - (unat r + i)" 
      using that mod_eq_dvd_iff_nat[of "unat r + i" "unat r + ?m" N] by simp
    then show False using that room nat_dvd_not_less[of "?m - i" N] by simp
  qed
  show ?thesis unfolding ring_def g
    by (simp add: ring_index[OF N(1)] w ne)
qed

lemma ring_get:
  assumes "r \<noteq> w"
  shows "ring N d r w = d (unat r mod N) # ring N d (r + 1) w"
proof -
  have "w - r \<noteq> 0" using assms by simp
  then have "unat (w - r) = Suc (unat (w - r - 1))"
    using unat_minus_one[of "w - r"] by (simp add: unat_gt_0 Suc_diff_1)
  then have "unat (w - r) = Suc (unat (w - (r + 1)))" by (simp add: diff_diff_eq)
  then show ?thesis
    by (simp add: ring_def upt_conv_Cons del: upt_Suc flip: map_Suc_upt) (simp add: o_def ac_simps)
qed

lemma ring_unput:
  assumes "r \<noteq> w"
  shows "ring N d r (w - 1) = butlast (ring N d r w)"
proof -
  have "w - r \<noteq> 0" using assms by simp
  then have "unat (w - 1 - r) = unat (w - r) - 1"
    using unat_minus_one[of "w - r"] by (simp add: algebra_simps)
  then show ?thesis by (simp add: ring_def butlast_conv_take take_map)
qed

section \<open>Queues\<close>

text \<open>What a client of a bounded queue of bytes relies on.\<close>

locale byte_queue =
  fixes inv full empt :: "'q \<Rightarrow> bool" and cap :: nat and contents :: "'q \<Rightarrow> byte list"
    and put :: "byte \<Rightarrow> 'q \<Rightarrow> 'q" and front :: "'q \<Rightarrow> byte" and pop :: "'q \<Rightarrow> 'q"
  assumes bounded: "inv q \<Longrightarrow> length (contents q) \<le> cap"
    and full_iff: "inv q \<Longrightarrow> full q \<longleftrightarrow> length (contents q) = cap"
    and empt_iff: "inv q \<Longrightarrow> empt q \<longleftrightarrow> contents q = []"
    and put_inv: "inv q \<Longrightarrow> \<not> full q \<Longrightarrow> inv (put b q)"
    and put_contents: "inv q \<Longrightarrow> \<not> full q \<Longrightarrow> contents (put b q) = contents q @ [b]"
    and pop_inv: "inv q \<Longrightarrow> \<not> empt q \<Longrightarrow> inv (pop q)"
    and pop_contents: "inv q \<Longrightarrow> \<not> empt q \<Longrightarrow> contents q = front q # contents (pop q)"
begin

lemma not_full: "inv q \<Longrightarrow> length (contents q) < cap \<Longrightarrow> \<not> full q"
  by (simp add: full_iff)

lemma puts:
  "inv q \<Longrightarrow> length (contents q) + length bs \<le> cap \<Longrightarrow>
   inv (fold put bs q) \<and> contents (fold put bs q) = contents q @ bs"
  by (induction bs arbitrary: q) (simp_all add: not_full put_inv put_contents)

lemma pops:
  "inv q \<Longrightarrow> n \<le> length (contents q) \<Longrightarrow>
   inv ((pop ^^ n) q) \<and> contents ((pop ^^ n) q) = drop n (contents q)"
proof (induction n arbitrary: q)
  case (Suc n)
  then have "\<not> empt q" by (auto simp: empt_iff)
  then have "inv (pop q)" "contents q = front q # contents (pop q)"
    using Suc.prems by (simp_all add: pop_inv pop_contents)
  then show ?case using Suc.IH[of "pop q"] Suc.prems by (simp add: funpow_Suc_right del: funpow.simps)
qed simp

end

text \<open>
  A writer and a reader sharing a queue: each step either puts the writer's next byte or takes one for
  the reader, and a step that would have to wait leaves the queue alone.
\<close>

datatype qstep = QPut byte | QGet

fun qrun :: "('q \<Rightarrow> bool) \<Rightarrow> ('q \<Rightarrow> bool) \<Rightarrow> (byte \<Rightarrow> 'q \<Rightarrow> 'q) \<Rightarrow> ('q \<Rightarrow> byte) \<Rightarrow> ('q \<Rightarrow> 'q) \<Rightarrow>
    qstep list \<Rightarrow> 'q \<Rightarrow> byte list \<Rightarrow> byte list \<Rightarrow> 'q \<times> byte list \<times> byte list" where
  "qrun full empt put front pop [] q sent got = (q, sent, got)"
| "qrun full empt put front pop (QPut b # ss) q sent got =
     (if full q then qrun full empt put front pop ss q sent got
      else qrun full empt put front pop ss (put b q) (sent @ [b]) got)"
| "qrun full empt put front pop (QGet # ss) q sent got =
     (if empt q then qrun full empt put front pop ss q sent got
      else qrun full empt put front pop ss (pop q) sent (got @ [front q]))"

context byte_queue
begin

lemma fifo:
  assumes "inv q" "got @ contents q = sent" "qrun full empt put front pop ss q sent got = (q', sent', got')"
  shows "inv q' \<and> got' @ contents q' = sent' \<and> length (contents q') \<le> cap"
  using assms
proof (induction ss arbitrary: q sent got)
  case Nil
  then show ?case using bounded by simp
next
  case (Cons s ss)
  show ?case
  proof (cases s)
    case (QPut b)
    then show ?thesis using Cons.prems Cons.IH[of q got sent] Cons.IH[of "put b q" got "sent @ [b]"]
      by (cases "full q") (simp_all add: put_inv put_contents flip: append_assoc)
  next
    case QGet
    then show ?thesis
      using Cons.prems Cons.IH[of q got sent] Cons.IH[of "pop q" "got @ [front q]" sent] pop_contents[of q]
      by (cases "empt q") (simp_all add: pop_inv)
  qed
qed

end

end
