(* ===== verification/File.thy ===== *)
theory File
  imports Fs_Dir Ring
begin

text \<open>
  Pipes (\<open>pipe.c\<close>) and the file table (\<open>file.c\<close>). A pipe lives in a page of the page allocator and is found
  by the address of that page; its contents are kept apart from the byte memory. Buffers are byte lists, as in
  \<open>Fs_Dir\<close>.
\<close>

section \<open>Pipes\<close>

abbreviation (input) PIPESIZE :: nat where "PIPESIZE \<equiv> 512"

definition set_pipe :: "addr \<Rightarrow> (pipe \<Rightarrow> pipe) \<Rightarrow> kernel \<Rightarrow> kernel" where
  "set_pipe p f k = k\<lparr>pipes := (pipes k)(p := f (pipes k p))\<rparr>"

definition modpipe :: "addr \<Rightarrow> (pipe \<Rightarrow> pipe) \<Rightarrow> unit kprog" where
  "modpipe p f = modify (set_pipe p f)"

definition getpipe :: "addr \<Rightarrow> (pipe \<Rightarrow> 'a) \<Rightarrow> 'a kprog" where
  "getpipe p f = gets (\<lambda>k. f (pipes k p))"

definition pipeclose :: "addr \<Rightarrow> bool \<Rightarrow> unit kprog" where
  "pipeclose p writable = seqK [
     acquire (PipeLock p),
     if writable then thenK (modpipe p (\<lambda>x. x\<lparr>pi_writeopen := 0\<rparr>)) (wakeup (Some (ChPipeRead p)))
     else thenK (modpipe p (\<lambda>x. x\<lparr>pi_readopen := 0\<rparr>)) (wakeup (Some (ChPipeWrite p))),
     bindK (getpipe p (\<lambda>x. pi_readopen x = 0 \<and> pi_writeopen x = 0)) (\<lambda>unused.
       if unused then thenK (release (PipeLock p)) (kfree p) else release (PipeLock p))]"

definition pipe_full :: "pipe \<Rightarrow> bool" where
  "pipe_full x \<longleftrightarrow> pi_nwrite x = pi_nread x + of_nat PIPESIZE"

definition pipe_put :: "byte \<Rightarrow> pipe \<Rightarrow> pipe" where
  "pipe_put b x = x\<lparr>pi_data := (pi_data x)(unat (pi_nwrite x) mod PIPESIZE := b), pi_nwrite := pi_nwrite x + 1\<rparr>"

definition pipe_get :: "pipe \<Rightarrow> byte" where
  "pipe_get x = pi_data x (unat (pi_nread x) mod PIPESIZE)"

definition pipe_drop :: "pipe \<Rightarrow> pipe" where
  "pipe_drop x = x\<lparr>pi_nread := pi_nread x + 1\<rparr>"

text \<open>Wait for room: whether the write may go on, or must give up (no reader, or killed).\<close>

definition pipewrite_wait :: "addr \<Rightarrow> bool kprog" where
  "pipewrite_wait p = wait_for
     (bindK (getpipe p pipe_full) (\<lambda>full.
      if \<not> full then Ret (Some True)
      else
        bindK (getpipe p pi_readopen) (\<lambda>r.
        bindK (if r = 0 then Ret True else bindK curproc (\<lambda>c. getp c (\<lambda>pr. p_killed pr \<noteq> 0))) (\<lambda>dead.
        if dead then Ret (Some False)
        else thenK (wakeup (Some (ChPipeRead p)))
          (thenK (sleep (Some (ChPipeWrite p)) (Some (PipeLock p))) (Ret None))))))"

fun pipewrite_loop :: "addr \<Rightarrow> byte list \<Rightarrow> bool kprog" where
  "pipewrite_loop p [] = Ret True"
| "pipewrite_loop p (b # bs) =
     bindK (pipewrite_wait p) (\<lambda>ok.
     if ok then thenK (modpipe p (pipe_put b)) (pipewrite_loop p bs) else Ret False)"

definition pipewrite :: "addr \<Rightarrow> byte list \<Rightarrow> int kprog" where
  "pipewrite p bs =
     thenK (acquire (PipeLock p))
     (bindK (pipewrite_loop p bs) (\<lambda>ok.
      if ok then thenK (wakeup (Some (ChPipeRead p))) (thenK (release (PipeLock p)) (Ret (int (length bs))))
      else thenK (release (PipeLock p)) (Ret (- 1))))"

text \<open>Wait for data or for the last writer to close; false when the process was killed.\<close>

definition piperead_wait :: "addr \<Rightarrow> bool kprog" where
  "piperead_wait p = wait_for
     (bindK (getpipe p (\<lambda>x. pi_nread x = pi_nwrite x \<and> pi_writeopen x \<noteq> 0)) (\<lambda>empty.
      if \<not> empty then Ret (Some True)
      else
        bindK curproc (\<lambda>c.
        bindK (getp c (\<lambda>pr. p_killed pr \<noteq> 0)) (\<lambda>dead.
        if dead then Ret (Some False)
        else thenK (sleep (Some (ChPipeRead p)) (Some (PipeLock p))) (Ret None)))))"

fun piperead_loop :: "addr \<Rightarrow> nat \<Rightarrow> byte list kprog" where
  "piperead_loop p 0 = Ret []"
| "piperead_loop p (Suc n) =
     bindK (getpipe p (\<lambda>x. x)) (\<lambda>x.
     if pi_nread x = pi_nwrite x then Ret []
     else thenK (modpipe p pipe_drop) (bindK (piperead_loop p n) (\<lambda>bs. Ret (pipe_get x # bs))))"

definition piperead :: "addr \<Rightarrow> int \<Rightarrow> (int \<times> byte list) kprog" where
  "piperead p n =
     thenK (acquire (PipeLock p))
     (bindK (piperead_wait p) (\<lambda>ok.
      if \<not> ok then thenK (release (PipeLock p)) (Ret (- 1, []))
      else
        bindK (piperead_loop p (nat n)) (\<lambda>bs.
        thenK (wakeup (Some (ChPipeWrite p)))
        (thenK (release (PipeLock p)) (Ret (int (length bs), bs))))))"

section \<open>The file table\<close>

definition set_file :: "nat \<Rightarrow> (kfile \<Rightarrow> kfile) \<Rightarrow> kernel \<Rightarrow> kernel" where
  "set_file f g k = k\<lparr>ftable := (ftable k)(f := g (ftable k f))\<rparr>"

definition modf :: "nat \<Rightarrow> (kfile \<Rightarrow> kfile) \<Rightarrow> unit kprog" where
  "modf f g = modify (set_file f g)"

definition getf :: "nat \<Rightarrow> (kfile \<Rightarrow> 'a) \<Rightarrow> 'a kprog" where
  "getf f g = gets (\<lambda>k. g (ftable k f))"

definition fileinit :: "unit kprog" where
  "fileinit = initlock FtableLock ''ftable''"

definition filealloc :: "nat option kprog" where
  "filealloc =
     thenK (acquire FtableLock)
     (bindK (gets (\<lambda>k. find (\<lambda>f. f_ref (ftable k f) = 0) [0..<NFILE])) (\<lambda>r.
      case r of
        Some f \<Rightarrow> thenK (modf f (\<lambda>x. x\<lparr>f_ref := 1\<rparr>)) (thenK (release FtableLock) (Ret (Some f)))
      | None \<Rightarrow> thenK (release FtableLock) (Ret None)))"

definition filedup :: "nat \<Rightarrow> nat kprog" where
  "filedup f =
     thenK (acquire FtableLock)
     (bindK (getf f f_ref) (\<lambda>r.
      if r < 1 then Panic ''filedup''
      else thenK (modf f (\<lambda>x. x\<lparr>f_ref := f_ref x + 1\<rparr>)) (thenK (release FtableLock) (Ret f))))"

definition file_inode :: "kfile \<Rightarrow> nat kprog" where
  "file_inode ff = (case f_ip ff of None \<Rightarrow> Fault ''null inode'' | Some ip \<Rightarrow> Ret ip)"

definition fileclose :: "nat \<Rightarrow> unit kprog" where
  "fileclose f =
     thenK (acquire FtableLock)
     (bindK (getf f f_ref) (\<lambda>r.
      if r < 1 then Panic ''fileclose''
      else
        thenK (modf f (\<lambda>x. x\<lparr>f_ref := f_ref x - 1\<rparr>))
        (if 0 < r - 1 then release FtableLock
         else
           bindK (getf f (\<lambda>x. x)) (\<lambda>ff.
           thenK (modf f (\<lambda>x. x\<lparr>f_ref := 0, f_type := FD_NONE\<rparr>))
           (thenK (release FtableLock)
           (case f_type ff of
              FD_PIPE \<Rightarrow> pipeclose (f_pipe ff) (f_writable ff)
            | FD_INODE \<Rightarrow> seqK [begin_op, bindK (file_inode ff) iput, end_op]
            | FD_NONE \<Rightarrow> Ret ()))))))"

definition filestat :: "nat \<Rightarrow> (int \<times> kstat option) kprog" where
  "filestat f =
     bindK (getf f (\<lambda>x. x)) (\<lambda>ff.
     if f_type ff = FD_INODE then
       thenK (ilock (f_ip ff))
       (bindK (bindK (file_inode ff) stati) (\<lambda>st.
        thenK (iunlock (f_ip ff)) (Ret (0, Some st))))
     else Ret (- 1, None))"

definition fileread :: "nat \<Rightarrow> int \<Rightarrow> (int \<times> byte list) kprog" where
  "fileread f n =
     bindK (getf f (\<lambda>x. x)) (\<lambda>ff.
     if \<not> f_readable ff then Ret (- 1, [])
     else case f_type ff of
       FD_PIPE \<Rightarrow> piperead (f_pipe ff) n
     | FD_INODE \<Rightarrow>
         thenK (ilock (f_ip ff))
         (bindK (getf f f_off) (\<lambda>off.
          bindK (bindK (file_inode ff) (\<lambda>ip. readi ip off (of_int n))) (\<lambda>(r, bs).
          thenK (whenK (0 < r) (modf f (\<lambda>x. x\<lparr>f_off := f_off x + of_int r\<rparr>)))
          (thenK (iunlock (f_ip ff)) (Ret (r, bs))))))
     | FD_NONE \<Rightarrow> Panic ''fileread'')"

text \<open>\<open>((MAXOPBLOCKS - 1 - 1 - 2) / 2) * 512\<close> bytes at most go into one transaction.\<close>

abbreviation (input) MAXWRITE :: nat where "MAXWRITE \<equiv> 1536"

function filewrite_loop :: "nat \<Rightarrow> byte list \<Rightarrow> bool kprog" where
  "filewrite_loop f bs =
     (if bs = [] then Ret True
      else
        let n1 = min (length bs) MAXWRITE in
        bindK (getf f (\<lambda>x. x)) (\<lambda>ff.
        thenK (seqK [begin_op, ilock (f_ip ff)])
        (bindK (getf f f_off) (\<lambda>off.
         bindK (bindK (file_inode ff) (\<lambda>ip. writei ip (take n1 bs) off)) (\<lambda>r.
         thenK (whenK (0 < r) (modf f (\<lambda>x. x\<lparr>f_off := f_off x + of_int r\<rparr>)))
         (thenK (seqK [iunlock (f_ip ff), end_op])
         (if r < 0 then Ret False
          else if r \<noteq> int n1 then Panic ''short filewrite''
          else filewrite_loop f (drop n1 bs))))))))"
  by auto
termination
  by (relation "measure (\<lambda>(f, bs). length bs)") auto

declare filewrite_loop.simps [simp del]

definition filewrite :: "nat \<Rightarrow> byte list \<Rightarrow> int kprog" where
  "filewrite f bs =
     bindK (getf f (\<lambda>x. x)) (\<lambda>ff.
     if \<not> f_writable ff then Ret (- 1)
     else case f_type ff of
       FD_PIPE \<Rightarrow> pipewrite (f_pipe ff) bs
     | FD_INODE \<Rightarrow> bindK (filewrite_loop f bs) (\<lambda>ok. Ret (if ok then int (length bs) else - 1))
     | FD_NONE \<Rightarrow> Panic ''filewrite'')"

section \<open>Creating a pipe\<close>

definition pipealloc_bad :: "nat option \<Rightarrow> nat option \<Rightarrow> (nat \<times> nat) option kprog" where
  "pipealloc_bad f0 f1 =
     thenK (case f0 of None \<Rightarrow> Ret () | Some f \<Rightarrow> fileclose f)
     (thenK (case f1 of None \<Rightarrow> Ret () | Some f \<Rightarrow> fileclose f) (Ret None))"

text \<open>The read end and the write end. The \<open>bad\<close> path is only reached without a page, so it frees none.\<close>

definition pipealloc :: "(nat \<times> nat) option kprog" where
  "pipealloc =
     bindK filealloc (\<lambda>m0. case m0 of None \<Rightarrow> pipealloc_bad None None | Some f0 \<Rightarrow>
     bindK filealloc (\<lambda>m1. case m1 of None \<Rightarrow> pipealloc_bad (Some f0) None | Some f1 \<Rightarrow>
     bindK kalloc (\<lambda>p.
     if p = 0 then pipealloc_bad (Some f0) (Some f1)
     else thenK (seqK [
       modpipe p (\<lambda>x. x\<lparr>pi_readopen := 1, pi_writeopen := 1, pi_nwrite := 0, pi_nread := 0\<rparr>),
       initlock (PipeLock p) ''pipe'',
       modf f0 (\<lambda>x. x\<lparr>f_type := FD_PIPE, f_readable := True, f_writable := False, f_pipe := p\<rparr>),
       modf f1 (\<lambda>x. x\<lparr>f_type := FD_PIPE, f_readable := False, f_writable := True, f_pipe := p\<rparr>)])
       (Ret (Some (f0, f1))))))"

section \<open>Pipes are queues\<close>

definition pipe_contents :: "pipe \<Rightarrow> byte list" where
  "pipe_contents x = ring PIPESIZE (pi_data x) (pi_nread x) (pi_nwrite x)"

definition pipe_ok :: "pipe \<Rightarrow> bool" where
  "pipe_ok x \<longleftrightarrow> length (pipe_contents x) \<le> PIPESIZE"

definition pipe_empty :: "pipe \<Rightarrow> bool" where
  "pipe_empty x \<longleftrightarrow> pi_nread x = pi_nwrite x"

lemma pipe_full_iff: "pipe_full x \<longleftrightarrow> length (pipe_contents x) = PIPESIZE"
proof -
  have "unat (pi_nwrite x - pi_nread x) = 512 \<longleftrightarrow> pi_nwrite x - pi_nread x = 512"
    by (simp add: word_unat_eq_iff)
  then show ?thesis by (auto simp: pipe_full_def pipe_contents_def algebra_simps)
qed

interpretation pipeq: byte_queue pipe_ok pipe_full pipe_empty PIPESIZE pipe_contents pipe_put pipe_get pipe_drop
proof
  fix x b
  assume ok: "pipe_ok x" and nf: "\<not> pipe_full x"
  then have room: "unat (pi_nwrite x - pi_nread x) < PIPESIZE"
    by (simp add: pipe_full_iff pipe_ok_def) (simp add: pipe_contents_def)
  show p: "pipe_contents (pipe_put b x) = pipe_contents x @ [b]"
    by (simp add: pipe_put_def pipe_contents_def ring_put[OF _ _ room])
  show "pipe_ok (pipe_put b x)" using room by (simp add: pipe_ok_def p) (simp add: pipe_contents_def)
next
  fix x
  assume ok: "pipe_ok x" and ne: "\<not> pipe_empty x"
  show p: "pipe_contents x = pipe_get x # pipe_contents (pipe_drop x)"
    using ring_get[of "pi_nread x" "pi_nwrite x"] ne
    by (simp add: pipe_contents_def pipe_get_def pipe_drop_def pipe_empty_def)
  show "pipe_ok (pipe_drop x)" using ok by (simp add: pipe_ok_def p)
qed (auto simp: pipe_ok_def pipe_full_iff pipe_empty_def pipe_contents_def ring_empty)

declare set_pipe_def [upd_defs]

lemma synced_pipes: "synced k k' \<Longrightarrow> pipes k' = pipes k"
  by (auto elim!: syncedE)

lemma runs_getpipe [runs_rules]: "v = f (pipes K p) \<Longrightarrow> runs B C (getpipe p f) K v C K"
  unfolding getpipe_def by (rule runs_gets) simp

lemma runs_modpipe [runs_rules]: "runs B C (modpipe p f) K () C (set_pipe p f K)"
  unfolding modpipe_def by (rule runs_modify) (simp add: plain_def upd_defs)

lemma pipes_set_pipe [simp]: "pipes (set_pipe p f K) = (pipes K)(p := f (pipes K p))"
  by (simp add: set_pipe_def)

lemma set_pipe_comp [simp]: "set_pipe p f (set_pipe p g K) = set_pipe p (f \<circ> g) K" "set_pipe p id K = K" "set_pipe p (\<lambda>x. x) K = K"
  by (simp_all add: set_pipe_def)

lemma runs_pipewrite_loop:
  assumes "pipe_ok (pipes K p)" "length (pipe_contents (pipes K p)) + length bs \<le> PIPESIZE"
  shows "runs B C (pipewrite_loop p bs) K True C (set_pipe p (fold pipe_put bs) K)"
  using assms
proof (induction bs arbitrary: K)
  case Nil
  show ?case by (simp add: runs_Ret)
next
  case (Cons b bs)
  have nf: "\<not> pipe_full (pipes K p)" using Cons.prems by (simp add: pipeq.not_full)
  have w: "runs B C (pipewrite_wait p) K True C K"
    unfolding pipewrite_wait_def using nf by - (rule runs_rules | simp)+
  have "runs B C (pipewrite_loop p bs) (set_pipe p (pipe_put b) K) True C
      (set_pipe p (fold pipe_put bs) (set_pipe p (pipe_put b) K))"
    using Cons.prems nf by (intro Cons.IH) (simp_all add: pipeq.put_inv pipeq.put_contents)
  then show ?case using w by (auto intro!: runs_rules simp: comp_def)
qed

lemma runs_piperead_loop:
  assumes "pipe_ok (pipes K p)"
  shows "runs B C (piperead_loop p n) K (take n (pipe_contents (pipes K p))) C
    (set_pipe p (pipe_drop ^^ min n (length (pipe_contents (pipes K p)))) K)"
  using assms
proof (induction n arbitrary: K)
  case 0
  then show ?case by (simp add: runs_Ret)
next
  case (Suc n)
  let ?x = "pipes K p" and ?K = "set_pipe p pipe_drop K"
  show ?case
  proof (cases "pipe_empty ?x")
    case True
    then have "pipe_contents ?x = []" using Suc.prems by (simp add: pipeq.empt_iff)
    then show ?thesis using True unfolding piperead_loop.simps pipe_empty_def
      by - (rule runs_rules | simp)+
  next
    case False
    then have c: "pipe_contents ?x = pipe_get ?x # pipe_contents (pipes ?K p)" "pipe_ok (pipes ?K p)"
      using Suc.prems by (simp_all add: pipeq.pop_contents pipeq.pop_inv)
    have "runs B C (piperead_loop p n) ?K (take n (pipe_contents (pipes ?K p))) C
        (set_pipe p (pipe_drop ^^ min n (length (pipe_contents (pipes ?K p)))) ?K)"
      by (rule Suc.IH[OF c(2)])
    moreover have "set_pipe p (pipe_drop ^^ min n (length (pipe_contents (pipes ?K p)))) ?K =
        set_pipe p (pipe_drop ^^ min (Suc n) (length (pipe_contents ?x))) K"
      using c(1) by (simp add: funpow_Suc_right del: funpow.simps)
    ultimately show ?thesis using False c(1) unfolding piperead_loop.simps pipe_empty_def
      by - (rule runs_rules | simp add: comp_def)+
  qed
qed

lemma runs_pipewrite:
  assumes "pipe_ok (pipes K p)" "length (pipe_contents (pipes K p)) + length bs \<le> PIPESIZE"
    and "lock_free (PipeLock p) B" "PipeLock p \<notin> set C" "lock_free PtableLock B" "PtableLock \<notin> set C"
  shows "runs B C (pipewrite p bs) K (int (length bs)) C
    (let K' = set_pipe p (fold pipe_put bs) K in K'\<lparr>ptable := woken (Some (ChPipeRead p)) (ptable K')\<rparr>)"
  unfolding pipewrite_def Let_def using assms
  by - (rule runs_rules runs_pipewrite_loop | simp)+

lemma runs_piperead:
  assumes "pipe_ok (pipes K p)" "pipe_contents (pipes K p) \<noteq> [] \<or> pi_writeopen (pipes K p) = 0"
    and "lock_free (PipeLock p) B" "PipeLock p \<notin> set C" "lock_free PtableLock B" "PtableLock \<notin> set C"
    and bs: "bs = take (nat n) (pipe_contents (pipes K p))"
  shows "runs B C (piperead p n) K (int (length bs), bs) C
    (let K' = set_pipe p (pipe_drop ^^ length bs) K in K'\<lparr>ptable := woken (Some (ChPipeWrite p)) (ptable K')\<rparr>)"
proof -
  have "\<not> (pi_nread (pipes K p) = pi_nwrite (pipes K p) \<and> pi_writeopen (pipes K p) \<noteq> 0)"
    using assms(1,2) pipeq.empt_iff[of "pipes K p"] by (auto simp: pipe_empty_def)
  then have "runs B C' (piperead_wait p) K True C' K" for C'
    unfolding piperead_wait_def by - (rule runs_rules | simp)+
  moreover have "runs B C' (piperead_loop p (nat n)) K bs C' (set_pipe p (pipe_drop ^^ length bs) K)" for C'
    using runs_piperead_loop[OF assms(1), of B C' "nat n"] by (simp add: bs min.commute)
  ultimately show ?thesis unfolding piperead_def Let_def
    using assms(3-6) by - (assumption | rule runs_rules | simp)+
qed

text \<open>
  C7: A pipe delivers bytes in the order in which they were written: whatever the interleaving of the
  writer's and the reader's steps, the bytes received so far followed by the bytes in the pipe are the
  bytes sent so far, and no more than 512 are in transit. The two counters may start anywhere and may
  wrap around.
\<close>

theorem pipe_fifo:
  "let (x', sent, got) = qrun pipe_full pipe_empty pipe_put pipe_get pipe_drop ss
       (x\<lparr>pi_nread := c, pi_nwrite := c\<rparr>) [] []
   in got @ pipe_contents x' = sent \<and> length (pipe_contents x') \<le> PIPESIZE"
proof -
  obtain x' sent got where r: "qrun pipe_full pipe_empty pipe_put pipe_get pipe_drop ss
       (x\<lparr>pi_nread := c, pi_nwrite := c\<rparr>) [] [] = (x', sent, got)" by (metis prod_cases3)
  show ?thesis using pipeq.fifo[OF _ _ r] by (simp add: r pipe_ok_def pipe_contents_def ring_def)
qed

text \<open>
  C8: Writing to a pipe with room for all the bytes and reading from it, both ends on a machine where the
  locks are free: the write takes every byte, the read returns the oldest bytes first, up to the number
  asked for, the rest stays in the pipe, and both calls leave the locks and the interrupt state as they
  were.
\<close>

theorem pipe_write_read:
  assumes "cpu_ok k" "lock_free (PipeLock p) k" "lock_free PtableLock k" "pipe_ok (pipes k p)"
    and "length (pipe_contents (pipes k p)) + length bs \<le> PIPESIZE" "bs \<noteq> []"
    and out: "out = take (nat n) (pipe_contents (pipes k p) @ bs)"
  shows "wp (bindK (pipewrite p bs) (\<lambda>w. bindK (piperead p n) (\<lambda>r. Ret (w, r))))
    (\<lambda>(w, r, got) (k', env'). env' = env \<and> w = int (length bs) \<and> r = int (length out) \<and> got = out \<and>
       pipe_ok (pipes k' p) \<and> pipe_contents (pipes k' p) = drop (nat n) (pipe_contents (pipes k p) @ bs) \<and>
       (\<exists>f. synced (k\<lparr>pipes := (pipes k)(p := f), ptable := woken (Some (ChPipeWrite p)) (woken (Some (ChPipeRead p)) (ptable k))\<rparr>) k'))
    (k, env)"
proof -
  let ?x = "fold pipe_put bs (pipes k p)" and ?K = "set_pipe p (fold pipe_put bs) k"
  let ?K1 = "?K\<lparr>ptable := woken (Some (ChPipeRead p)) (ptable ?K)\<rparr>"
  let ?K2 = "set_pipe p (pipe_drop ^^ length out) ?K1"
  let ?K3 = "?K2\<lparr>ptable := woken (Some (ChPipeWrite p)) (ptable ?K2)\<rparr>"
  have x: "pipe_ok ?x" "pipe_contents ?x = pipe_contents (pipes k p) @ bs"
    using pipeq.puts[OF assms(4,5)] by simp_all
  have w: "runs k [] (pipewrite p bs) k (int (length bs)) [] ?K1"
    using runs_pipewrite[OF assms(4,5,2) _ assms(3), of "[]"] by (simp add: Let_def)
  have r: "runs k [] (piperead p n) ?K1 (int (length out), out) [] ?K3"
    using runs_piperead[of ?K1 p k "[]" out n] x assms by (simp add: Let_def)
  have K3: "?K3 = k\<lparr>pipes := (pipes k)(p := (pipe_drop ^^ length out) ?x),
      ptable := woken (Some (ChPipeWrite p)) (woken (Some (ChPipeRead p)) (ptable k))\<rparr>"
    by (simp add: set_pipe_def)
  have "runs k [] (bindK (pipewrite p bs) (\<lambda>w. bindK (piperead p n) (\<lambda>r. Ret (w, r)))) k
      (int (length bs), int (length out), out) [] ?K3"
    by (rule runs_bind[OF w runs_bind[OF r runs_Ret]]) simp_all
  from runsD[OF this assms(1), of env] have wp: "wp (bindK (pipewrite p bs) (\<lambda>w. bindK (piperead p n) (\<lambda>r. Ret (w, r))))
      (\<lambda>r (k', env'). r = (int (length bs), int (length out), out) \<and> env' = env \<and> synced ?K3 k') (k, env)"
    unfolding K3 by simp
  have d: "pipe_ok ((pipe_drop ^^ length out) ?x)"
      "pipe_contents ((pipe_drop ^^ length out) ?x) = drop (nat n) (pipe_contents (pipes k p) @ bs)"
    using pipeq.pops[OF x(1), of "length out"] x(2) by (auto simp: out min_def)
  show ?thesis
    by (rule wp_mono[OF wp]) (auto simp: K3 d dest: synced_pipes intro!: exI[of _ "(pipe_drop ^^ length out) ?x"])
qed

theorem pipe_write_read_witness:
  "wp (bindK (pipewrite 4096 [1, 2, 3]) (\<lambda>w. bindK (piperead 4096 2) (\<lambda>r. Ret (w, r))))
    (\<lambda>(w, r, got) (k', env'). env' = [] \<and> w = int (length [1 :: byte, 2, 3]) \<and> r = int (length [1 :: byte, 2]) \<and>
       got = [1, 2] \<and> pipe_ok (pipes k' 4096) \<and>
       pipe_contents (pipes k' 4096) = drop (nat 2) (pipe_contents (pipes zero_kernel 4096) @ [1, 2, 3]) \<and>
       (\<exists>f. synced (zero_kernel\<lparr>pipes := (pipes zero_kernel)(4096 := f),
         ptable := woken (Some (ChPipeWrite 4096)) (woken (Some (ChPipeRead 4096)) (ptable zero_kernel))\<rparr>) k'))
    (zero_kernel, [])"
  by (rule pipe_write_read)
    (simp_all add: cpu_ok_zero, simp_all add: zero_kernel_def pipe_ok_def pipe_contents_def ring_def)

lemma runs_pipeclose:
  assumes "lock_free (PipeLock p) B" "PipeLock p \<notin> set C" "lock_free PtableLock B" "PtableLock \<notin> set C"
  shows "pi_readopen (pipes K p) \<noteq> 0 \<Longrightarrow> runs B C (pipeclose p True) K () C
      ((set_pipe p (\<lambda>x. x\<lparr>pi_writeopen := 0\<rparr>) K)\<lparr>ptable := woken (Some (ChPipeRead p)) (ptable K)\<rparr>)"
    "pi_writeopen (pipes K p) \<noteq> 0 \<Longrightarrow> runs B C (pipeclose p False) K () C
      ((set_pipe p (\<lambda>x. x\<lparr>pi_readopen := 0\<rparr>) K)\<lparr>ptable := woken (Some (ChPipeWrite p)) (ptable K)\<rparr>)"
  using assms unfolding pipeclose_def by - (rule runs_rules | simp add: set_pipe_def)+

lemma runs_pipewrite_broken:
  assumes "pipe_full (pipes K p)" "pi_readopen (pipes K p) = 0" "lock_free (PipeLock p) B" "PipeLock p \<notin> set C"
  shows "runs B C (pipewrite p (b # bs)) K (- 1) C K"
proof -
  have "runs B C' (pipewrite_wait p) K False C' K" for C'
    unfolding pipewrite_wait_def using assms by - (rule runs_rules | simp)+
  then have "runs B C' (pipewrite_loop p (b # bs)) K False C' K" for C'
    unfolding pipewrite_loop.simps by - (assumption | rule runs_rules | simp)+
  then show ?thesis unfolding pipewrite_def using assms by - (assumption | rule runs_rules | simp)+
qed

text \<open>
  C10: Closing one end lets the other end finish. Once the write end is closed a read returns at once, with
  what is left in the pipe, and 0 when nothing is; once the read end is closed a write to a full pipe
  returns -1 instead of waiting and leaves the contents alone.
\<close>

theorem pipe_close_ends_waiting:
  assumes "cpu_ok k" "lock_free (PipeLock p) k" "lock_free PtableLock k" "pipe_ok (pipes k p)"
    and "pi_readopen (pipes k p) \<noteq> 0" "pi_writeopen (pipes k p) \<noteq> 0"
  shows "wp (thenK (pipeclose p True) (piperead p n))
      (\<lambda>(r, got) (k', env'). env' = env \<and> got = take (nat n) (pipe_contents (pipes k p)) \<and> r = int (length got)) (k, env) \<and>
    (pipe_full (pipes k p) \<longrightarrow> wp (thenK (pipeclose p False) (pipewrite p (b # bs)))
      (\<lambda>r (k', env'). env' = env \<and> r = - 1 \<and> pipe_contents (pipes k' p) = pipe_contents (pipes k p)) (k, env))"
proof -
  let ?R = "(set_pipe p (\<lambda>x. x\<lparr>pi_writeopen := 0\<rparr>) k)\<lparr>ptable := woken (Some (ChPipeRead p)) (ptable k)\<rparr>"
  let ?W = "(set_pipe p (\<lambda>x. x\<lparr>pi_readopen := 0\<rparr>) k)\<lparr>ptable := woken (Some (ChPipeWrite p)) (ptable k)\<rparr>"
  have c: "pipe_contents (x\<lparr>pi_writeopen := 0\<rparr>) = pipe_contents x" "pipe_contents (x\<lparr>pi_readopen := 0\<rparr>) = pipe_contents x"
    for x by (simp_all add: pipe_contents_def)
  let ?out = "take (nat n) (pipe_contents (pipes k p))"
  let ?R1 = "set_pipe p (pipe_drop ^^ length ?out) ?R"
  have "runs k [] (piperead p n) ?R (int (length ?out), ?out) []
      (?R1\<lparr>ptable := woken (Some (ChPipeWrite p)) (ptable ?R1)\<rparr>)"
    using assms runs_piperead[of ?R p k "[]" ?out n] by (simp add: c pipe_ok_def Let_def)
  then have "runs k [] (thenK (pipeclose p True) (piperead p n)) k (int (length ?out), ?out) []
      (?R1\<lparr>ptable := woken (Some (ChPipeWrite p)) (ptable ?R1)\<rparr>)"
    using assms by (auto intro!: runs_then runs_pipeclose)
  from runsD[OF this assms(1), of env]
  have "wp (thenK (pipeclose p True) (piperead p n))
      (\<lambda>(r, got) (k', env'). env' = env \<and> got = ?out \<and> r = int (length got)) (k, env)"
    by (auto simp: set_pipe_def elim!: wp_mono)
  moreover have "wp (thenK (pipeclose p False) (pipewrite p (b # bs)))
      (\<lambda>r (k', env'). env' = env \<and> r = - 1 \<and> pipe_contents (pipes k' p) = pipe_contents (pipes k p)) (k, env)"
    if "pipe_full (pipes k p)"
  proof -
    have "runs k [] (thenK (pipeclose p False) (pipewrite p (b # bs))) k (- 1) [] ?W"
      using assms that by (auto intro!: runs_then runs_pipeclose runs_pipewrite_broken simp: pipe_full_iff c)
    from runsD[OF this assms(1), of env] show ?thesis
      by (auto simp: set_pipe_def c dest: synced_pipes elim!: wp_mono)
  qed
  ultimately show ?thesis by blast
qed

definition full_pipe_kernel :: kernel where
  "full_pipe_kernel = zero_kernel\<lparr>pipes := \<lambda>_. \<lparr>pi_data = (\<lambda>i. of_nat i), pi_nread = 5, pi_nwrite = 517,
     pi_readopen = 1, pi_writeopen = 1\<rparr>\<rparr>"

theorem pipe_close_ends_waiting_witness:
  "wp (thenK (pipeclose 4096 True) (piperead 4096 3))
      (\<lambda>(r, got) (k', env'). env' = [] \<and> got = take (nat 3) (pipe_contents (pipes full_pipe_kernel 4096)) \<and>
         r = int (length got)) (full_pipe_kernel, []) \<and>
   wp (thenK (pipeclose 4096 False) (pipewrite 4096 (7 # [8])))
      (\<lambda>r (k', env'). env' = [] \<and> r = - 1 \<and>
         pipe_contents (pipes k' 4096) = pipe_contents (pipes full_pipe_kernel 4096)) (full_pipe_kernel, [])"
proof -
  have "cpu_ok full_pipe_kernel" "lock_free l full_pipe_kernel" for l
    by (simp_all add: full_pipe_kernel_def cpu_ok_zero)
  moreover have "pipe_ok (pipes full_pipe_kernel 4096)" "pipe_full (pipes full_pipe_kernel 4096)"
      "pi_readopen (pipes full_pipe_kernel 4096) \<noteq> 0" "pi_writeopen (pipes full_pipe_kernel 4096) \<noteq> 0"
    by (simp_all add: full_pipe_kernel_def pipe_ok_def pipe_contents_def pipe_full_def)
  ultimately show ?thesis
    using pipe_close_ends_waiting[of full_pipe_kernel "4096" "3" "[]" "7" "[8]"] by blast
qed

end
