(* ===== verification/Proc_Life.thy ===== *)
theory Proc_Life
  imports File
begin

text \<open>
  Creation and end of processes (\<open>proc.c\<close>): \<open>userinit\<close>, \<open>fork\<close>, \<open>exit\<close>, \<open>wait\<close> and \<open>forkret\<close>. A process name is
  the sixteen bytes of the array.
\<close>

definition safestrcpyl :: "nat \<Rightarrow> byte list \<Rightarrow> byte list \<Rightarrow> byte list" where
  "safestrcpyl n dst src =
     (if n = 0 then dst
      else let s = takeWhile (\<lambda>b. b \<noteq> 0) (take (n - 1) src) in s @ [0] @ drop (length s + 1) dst)"

definition zero_trapframe :: trapframe where
  "zero_trapframe = \<lparr>tf_edi = 0, tf_esi = 0, tf_ebp = 0, tf_ebx = 0, tf_edx = 0, tf_ecx = 0, tf_eax = 0, tf_gs = 0,
     tf_fs = 0, tf_es = 0, tf_ds = 0, tf_trapno = 0, tf_err = 0, tf_eip = 0, tf_cs = 0, tf_eflags = 0, tf_esp = 0,
     tf_ss = 0\<rparr>"

abbreviation (input) UCODE :: ushort where "UCODE \<equiv> 27"
abbreviation (input) UDATA :: ushort where "UDATA \<equiv> 35"

text \<open>\<open>(SEG_UCODE << 3) | DPL_USER\<close> is 27 and \<open>(SEG_UDATA << 3) | DPL_USER\<close> is 35.\<close>

definition userinit :: "addr \<Rightarrow> uint \<Rightarrow> unit kprog" where
  "userinit initcode_start initcode_size =
     bindK allocproc (\<lambda>mp.
     thenK (modify (\<lambda>k. k\<lparr>initproc := mp\<rparr>))
     (case mp of None \<Rightarrow> Fault ''userinit: no process'' | Some p \<Rightarrow>
       bindK setupkvm (\<lambda>pgdir.
       thenK (modp p (\<lambda>pr. pr\<lparr>p_pgdir := pgdir\<rparr>))
       (if pgdir = 0 then Panic ''userinit: out of memory?''
        else seqK [
          inituvm pgdir initcode_start initcode_size,
          modp p (\<lambda>pr. pr\<lparr>p_sz := PGSIZE,
            p_tf := zero_trapframe\<lparr>tf_es := UDATA, tf_ds := UDATA, tf_eip := 0, tf_cs := UCODE, tf_eflags := FL_IF,
              tf_esp := PGSIZE, tf_ss := UDATA\<rparr>,
            p_name := safestrcpyl 16 (p_name pr) (string_bytes ''initcode'')\<rparr>),
          bindK (namei (string_bytes ''/'')) (\<lambda>ip. modp p (\<lambda>pr. pr\<lparr>p_cwd := ip\<rparr>)),
          acquire PtableLock,
          modp p (\<lambda>pr. pr\<lparr>p_state := RUNNABLE\<rparr>),
          release PtableLock]))))"

definition fork_files :: "nat \<Rightarrow> nat \<Rightarrow> unit kprog" where
  "fork_files c np = forK [0..<NOFILE] (\<lambda>i.
     bindK (getp c (\<lambda>pr. p_ofile pr i)) (\<lambda>mf.
     case mf of None \<Rightarrow> Ret ()
     | Some f \<Rightarrow> bindK (filedup f) (\<lambda>f. modp np (\<lambda>pr. pr\<lparr>p_ofile := (p_ofile pr)(i := Some f)\<rparr>))))"

definition proc_cwd :: "nat \<Rightarrow> nat kprog" where
  "proc_cwd c = bindK (getp c p_cwd) (\<lambda>cwd. case cwd of None \<Rightarrow> Fault ''null cwd'' | Some ip \<Rightarrow> Ret ip)"

definition fork :: "int kprog" where
  "fork =
     bindK curproc (\<lambda>c.
     bindK allocproc (\<lambda>mnp.
     case mnp of None \<Rightarrow> Ret (- 1) | Some np \<Rightarrow>
     bindK (getp c (\<lambda>pr. (p_pgdir pr, p_sz pr))) (\<lambda>(pgdir, sz).
     bindK (copyuvm pgdir sz) (\<lambda>d.
     thenK (modp np (\<lambda>pr. pr\<lparr>p_pgdir := d\<rparr>))
     (if d = 0 then
        thenK (seqK [
          bindK (getp np p_kstack) kfree,
          modp np (\<lambda>pr. pr\<lparr>p_kstack := 0, p_state := UNUSED\<rparr>)])
        (Ret (- 1))
      else
        bindK (getp c (\<lambda>pr. pr)) (\<lambda>cur.
        thenK (seqK [
          modp np (\<lambda>pr. pr\<lparr>p_sz := p_sz cur, p_parent := Some c, p_tf := (p_tf cur)\<lparr>tf_eax := 0\<rparr>\<rparr>),
          fork_files c np,
          bindK (bindK (proc_cwd c) idup) (\<lambda>ip. modp np (\<lambda>pr. pr\<lparr>p_cwd := Some ip\<rparr>)),
          bindK (getp c p_name) (\<lambda>nm. modp np (\<lambda>pr. pr\<lparr>p_name := safestrcpyl 16 (p_name pr) nm\<rparr>))])
        (bindK (getp np p_pid) (\<lambda>pid.
         thenK (seqK [
           acquire PtableLock,
           modp np (\<lambda>pr. pr\<lparr>p_state := RUNNABLE\<rparr>),
           release PtableLock])
         (Ret pid)))))))))"

text \<open>\<open>exit\<close> does not return: after \<open>sched\<close> there is only a panic.\<close>

definition exit_files :: "nat \<Rightarrow> unit kprog" where
  "exit_files c = forK [0..<NOFILE] (\<lambda>fd.
     bindK (getp c (\<lambda>pr. p_ofile pr fd)) (\<lambda>mf.
     case mf of None \<Rightarrow> Ret ()
     | Some f \<Rightarrow> thenK (fileclose f) (modp c (\<lambda>pr. pr\<lparr>p_ofile := (p_ofile pr)(fd := None)\<rparr>))))"

definition wakeup_proc :: "nat option \<Rightarrow> unit kprog" where
  "wakeup_proc mp = wakeup1 (map_option ChProc mp)"

definition reparent :: "nat \<Rightarrow> unit kprog" where
  "reparent c = forK [0..<NPROC] (\<lambda>i.
     bindK (getp i (\<lambda>pr. p_parent pr = Some c)) (\<lambda>mine.
     whenK mine (bindK (gets initproc) (\<lambda>ini.
       thenK (modp i (\<lambda>pr. pr\<lparr>p_parent := ini\<rparr>))
         (bindK (getp i p_state) (\<lambda>st. whenK (st = ZOMBIE) (wakeup_proc ini)))))))"

definition exit :: "unit kprog" where
  "exit =
     bindK curproc (\<lambda>c.
     bindK (gets initproc) (\<lambda>ini.
     if ini = Some c then Panic ''init exiting''
     else seqK [
       exit_files c,
       begin_op,
       bindK (proc_cwd c) iput,
       end_op,
       modp c (\<lambda>pr. pr\<lparr>p_cwd := None\<rparr>),
       acquire PtableLock,
       bindK (getp c p_parent) wakeup_proc,
       reparent c,
       modp c (\<lambda>pr. pr\<lparr>p_state := ZOMBIE\<rparr>),
       sched,
       Panic ''zombie exit'']))"

definition zero_counts :: "int list \<Rightarrow> int list" where
  "zero_counts xs = map (\<lambda>_. 0) xs"

definition reap :: "nat \<Rightarrow> int kprog" where
  "reap p =
     bindK (getp p p_pid) (\<lambda>pid.
     thenK (seqK [
       bindK (getp p p_kstack) kfree,
       modp p (\<lambda>pr. pr\<lparr>p_kstack := 0\<rparr>),
       bindK (getp p p_pgdir) freevm,
       modp p (\<lambda>pr. pr\<lparr>p_state := UNUSED, p_pid := 0, p_parent := None, p_killed := 0, p_name := (p_name pr)[0 := 0],
         p_trapcounts := zero_counts (p_trapcounts pr), p_syscounts := zero_counts (p_syscounts pr)\<rparr>)])
     (Ret pid))"

definition wait :: "int kprog" where
  "wait =
     bindK curproc (\<lambda>c.
     thenK (acquire PtableLock)
     (wait_for
       (bindK (gets (\<lambda>k. find (\<lambda>i. p_parent (ptable k i) = Some c \<and> p_state (ptable k i) = ZOMBIE) [0..<NPROC])) (\<lambda>z.
        case z of
          Some p \<Rightarrow> bindK (reap p) (\<lambda>pid. thenK (release PtableLock) (Ret (Some pid)))
        | None \<Rightarrow>
            bindK (gets (\<lambda>k. (\<exists>i\<in>set [0..<NPROC]. p_parent (ptable k i) = Some c))) (\<lambda>havekids.
            bindK (getp c p_killed) (\<lambda>dead.
            if \<not> havekids \<or> dead \<noteq> 0 then thenK (release PtableLock) (Ret (Some (- 1)))
            else thenK (sleep (Some (ChProc c)) (Some PtableLock)) (Ret None)))))))"

definition forkret :: "unit kprog" where
  "forkret =
     thenK (release PtableLock)
     (bindK (gets forkret_first) (\<lambda>first.
      whenK first (seqK [
        modify (\<lambda>k. k\<lparr>forkret_first := False\<rparr>),
        iinit ROOTDEV,
        initlog ROOTDEV])))"

end
