(* ===== verification/Sysargs.thy ===== *)
theory Sysargs
  imports Proc_Life
begin

text \<open>
  System call arguments (\<open>syscall.c\<close>) and the program loader (\<open>exec.c\<close>, \<open>loaduvm\<close> of \<open>vm.c\<close>). The kernel reads
  and writes user memory through the page table that is loaded; an access the table does not allow is a
  \<open>Fault\<close> (the hardware raises a page fault inside the kernel).
\<close>

section \<open>User memory\<close>

definition translate :: "memory \<Rightarrow> addr \<Rightarrow> addr \<Rightarrow> (addr \<times> uint) option" where
  "translate m pgdir va = map_option (\<lambda>e. (P2V (PTE_ADDR e) + (va AND 0xFFF), PTE_FLAGS e)) (pt_lookup m pgdir va)"

definition uload :: "addr \<Rightarrow> byte kprog" where
  "uload va = bindK (gets (\<lambda>k. map_option (\<lambda>(a, _). mem k a) (translate (mem k) (P2V (cr3 k)) va))) (\<lambda>r.
     case r of None \<Rightarrow> Fault ''page fault'' | Some b \<Rightarrow> Ret b)"

definition ustore :: "addr \<Rightarrow> byte \<Rightarrow> unit kprog" where
  "ustore va b = bindK (gets (\<lambda>k. translate (mem k) (P2V (cr3 k)) va)) (\<lambda>r.
     case r of None \<Rightarrow> Fault ''page fault''
     | Some (a, flags) \<Rightarrow> if flags AND PTE_W = 0 then Fault ''page fault'' else setmem (\<lambda>m. m(a := b)))"

fun uload_bytes :: "nat \<Rightarrow> addr \<Rightarrow> byte list kprog" where
  "uload_bytes 0 va = Ret []"
| "uload_bytes (Suc n) va = bindK (uload va) (\<lambda>b. bindK (uload_bytes n (va + 1)) (\<lambda>bs. Ret (b # bs)))"

fun ustore_bytes :: "addr \<Rightarrow> byte list \<Rightarrow> unit kprog" where
  "ustore_bytes va [] = Ret ()"
| "ustore_bytes va (b # bs) = thenK (ustore va b) (ustore_bytes (va + 1) bs)"

section \<open>Arguments\<close>

text \<open>The results are \<open>None\<close> where the code returns -1.\<close>

definition fetchint :: "addr \<Rightarrow> uint option kprog" where
  "fetchint a =
     bindK curproc (\<lambda>p.
     bindK (getp p p_sz) (\<lambda>sz.
     if sz \<le> a \<or> sz < a + 4 then Ret None
     else bindK (uload_bytes 4 a) (\<lambda>bs. Ret (Some (get32 bs 0)))))"

fun fetchstr_loop :: "nat \<Rightarrow> addr \<Rightarrow> byte list option kprog" where
  "fetchstr_loop 0 s = Ret None"
| "fetchstr_loop (Suc n) s =
     bindK (uload s) (\<lambda>b.
     if b = 0 then Ret (Some [])
     else bindK (fetchstr_loop n (s + 1)) (\<lambda>r. Ret (map_option ((#) b) r)))"

definition fetchstr :: "addr \<Rightarrow> byte list option kprog" where
  "fetchstr a =
     bindK curproc (\<lambda>p.
     bindK (getp p p_sz) (\<lambda>sz.
     if sz \<le> a then Ret None else fetchstr_loop (unat sz - unat a) a))"

definition argint :: "nat \<Rightarrow> uint option kprog" where
  "argint n = bindK curproc (\<lambda>p. bindK (getp p (\<lambda>pr. tf_esp (p_tf pr))) (\<lambda>esp. fetchint (esp + 4 + 4 * of_nat n)))"

definition argptr :: "nat \<Rightarrow> int \<Rightarrow> addr option kprog" where
  "argptr n sz =
     bindK curproc (\<lambda>p.
     bindK (argint n) (\<lambda>mi.
     case mi of None \<Rightarrow> Ret None | Some i \<Rightarrow>
     bindK (getp p p_sz) (\<lambda>psz.
     if sz < 0 \<or> psz \<le> i \<or> psz < i + of_int sz then Ret None else Ret (Some i))))"

definition argstr :: "nat \<Rightarrow> byte list option kprog" where
  "argstr n = bindK (argint n) (\<lambda>mi. case mi of None \<Rightarrow> Ret None | Some a \<Rightarrow> fetchstr a)"

section \<open>Loading a program\<close>

fun loaduvm_loop :: "nat \<Rightarrow> addr \<Rightarrow> addr \<Rightarrow> nat \<Rightarrow> uint \<Rightarrow> uint \<Rightarrow> uint \<Rightarrow> int kprog" where
  "loaduvm_loop 0 pgdir a ip offset sz i = Blocked"
| "loaduvm_loop (Suc fuel) pgdir a ip offset sz i =
     (if sz \<le> i then Ret 0
      else
        bindK (walkpgdir pgdir (a + i) False) (\<lambda>pte.
        if pte = 0 then Panic ''loaduvm: address should exist''
        else
          bindK (gets (\<lambda>k. PTE_ADDR (load32 (mem k) pte))) (\<lambda>pa.
          let n = (if sz - i < PGSIZE then sz - i else PGSIZE) in
          bindK (readi ip (offset + i) n) (\<lambda>(r, bs).
          thenK (setmem (\<lambda>m. store_bytes m (P2V pa) bs))
          (if of_int r \<noteq> n then Ret (- 1) else loaduvm_loop fuel pgdir a ip offset sz (i + PGSIZE))))))"

definition loaduvm :: "addr \<Rightarrow> addr \<Rightarrow> nat \<Rightarrow> uint \<Rightarrow> uint \<Rightarrow> int kprog" where
  "loaduvm pgdir a ip offset sz =
     (if a mod PGSIZE \<noteq> 0 then Panic ''loaduvm: addr must be page aligned''
      else loaduvm_loop vmfuel pgdir a ip offset sz 0)"

abbreviation (input) ELF_MAGIC :: uint where "ELF_MAGIC \<equiv> 0x464C457F"

record proghdr =
  ph_type :: uint
  ph_off :: uint
  ph_vaddr :: uint
  ph_filesz :: uint
  ph_memsz :: uint

definition decode_ph :: "byte list \<Rightarrow> proghdr" where
  "decode_ph bs = \<lparr>ph_type = get32 bs 0, ph_off = get32 bs 4, ph_vaddr = get32 bs 8, ph_filesz = get32 bs 16,
     ph_memsz = get32 bs 20\<rparr>"

record elfhdr =
  elf_magic :: uint
  elf_entry :: uint
  elf_phoff :: uint
  elf_phnum :: ushort

definition decode_elf :: "byte list \<Rightarrow> elfhdr" where
  "decode_elf bs = \<lparr>elf_magic = get32 bs 0, elf_entry = get32 bs 24, elf_phoff = get32 bs 28, elf_phnum = get16 bs 44\<rparr>"

definition exec_bad :: "addr \<Rightarrow> nat option \<Rightarrow> int kprog" where
  "exec_bad pgdir mip =
     thenK (seqK [
       whenK (pgdir \<noteq> 0) (freevm pgdir),
       case mip of None \<Rightarrow> Ret () | Some ip \<Rightarrow> seqK [iunlockput ip, end_op]])
     (Ret (- 1))"

text \<open>The loop over the program headers: the new len, \<open>None\<close> for \<open>goto bad\<close>.\<close>

fun exec_load :: "nat \<Rightarrow> addr \<Rightarrow> nat \<Rightarrow> uint \<Rightarrow> uint \<Rightarrow> uint option kprog" where
  "exec_load 0 pgdir ip off sz = Ret (Some sz)"
| "exec_load (Suc n) pgdir ip off sz =
     bindK (readi ip off 32) (\<lambda>(r, bs).
     if r \<noteq> 32 then Ret None
     else let ph = decode_ph bs in
       if ph_type ph \<noteq> 1 then exec_load n pgdir ip (off + 32) sz
       else if ph_memsz ph < ph_filesz ph then Ret None
       else if ph_vaddr ph + ph_memsz ph < ph_vaddr ph then Ret None
       else
         bindK (allocuvm pgdir sz (ph_vaddr ph + ph_memsz ph)) (\<lambda>sz'.
         if sz' = 0 then Ret None
         else if ph_vaddr ph mod PGSIZE \<noteq> 0 then Ret None
         else
           bindK (loaduvm pgdir (ph_vaddr ph) ip (ph_off ph) (ph_filesz ph)) (\<lambda>r.
           if r < 0 then Ret None else exec_load n pgdir ip (off + 32) sz')))"

text \<open>Push the argument strings: the stack pointer and the addresses of the strings.\<close>

fun exec_args :: "nat \<Rightarrow> addr \<Rightarrow> uint \<Rightarrow> byte list list \<Rightarrow> (uint \<times> uint list) option kprog" where
  "exec_args argc pgdir sp [] = Ret (Some (sp, []))"
| "exec_args argc pgdir sp (s # ss) =
     (if MAXARG \<le> argc then Ret None
      else let sp' = (sp - (of_nat (length s) + 1)) AND NOT 3 in
        bindK (copyout pgdir sp' (s @ [0])) (\<lambda>r.
        if r < 0 then Ret None
        else bindK (exec_args (argc + 1) pgdir sp' ss) (\<lambda>q. Ret (map_option (\<lambda>(sp, ps). (sp, sp' # ps)) q))))"

definition ustack :: "uint \<Rightarrow> uint list \<Rightarrow> uint list" where
  "ustack sp ps = [0xffffffff, of_nat (length ps), sp - (of_nat (length ps) + 1) * 4] @ ps @ [0]"

definition last_elem :: "byte list \<Rightarrow> byte list" where
  "last_elem path = rev (takeWhile (\<lambda>c. c \<noteq> SLASH) (rev path))"

text \<open>From the stack on: the inode is released already.\<close>

definition exec_stack :: "nat \<Rightarrow> byte list \<Rightarrow> byte list list \<Rightarrow> uint \<Rightarrow> addr \<Rightarrow> uint \<Rightarrow> int kprog" where
  "exec_stack c path argv entry pgdir sz =
     bindK (allocuvm pgdir (PGROUNDUP sz) (PGROUNDUP sz + 2 * PGSIZE)) (\<lambda>sz.
     if sz = 0 then exec_bad pgdir None
     else
       thenK (clearpteu pgdir (sz - 2 * PGSIZE))
       (bindK (exec_args 0 pgdir sz argv) (\<lambda>r.
        case r of None \<Rightarrow> exec_bad pgdir None | Some (sp, ps) \<Rightarrow>
        let us = ustack sp ps; sp' = sp - of_nat (length us) * 4 in
        bindK (copyout pgdir sp' (concat (map le32 us))) (\<lambda>r.
        if r < 0 then exec_bad pgdir None
        else
          thenK (modp c (\<lambda>pr. pr\<lparr>p_name := safestrcpyl 16 (p_name pr) (last_elem path)\<rparr>))
          (bindK (getp c p_pgdir) (\<lambda>oldpgdir.
           thenK (seqK [
             modp c (\<lambda>pr. pr\<lparr>p_sz := sz, p_pgdir := pgdir, p_tf := (p_tf pr)\<lparr>tf_eip := entry, tf_esp := sp'\<rparr>\<rparr>),
             switchuvm (Some c),
             freevm oldpgdir])
           (Ret 0)))))))"

definition exec_image :: "nat \<Rightarrow> byte list \<Rightarrow> byte list list \<Rightarrow> nat \<Rightarrow> elfhdr \<Rightarrow> int kprog" where
  "exec_image c path argv ip elf =
     bindK setupkvm (\<lambda>pgdir.
     if pgdir = 0 then exec_bad 0 (Some ip)
     else
       bindK (exec_load (unat (elf_phnum elf)) pgdir ip (elf_phoff elf) 0) (\<lambda>msz.
       case msz of None \<Rightarrow> exec_bad pgdir (Some ip) | Some sz \<Rightarrow>
       thenK (seqK [iunlockput ip, end_op]) (exec_stack c path argv (elf_entry elf) pgdir sz)))"

definition exec :: "byte list \<Rightarrow> byte list list \<Rightarrow> int kprog" where
  "exec path argv =
     bindK curproc (\<lambda>c.
     thenK begin_op
     (bindK (namei path) (\<lambda>mip.
      case mip of None \<Rightarrow> thenK (seqK [end_op, cprintf ''exec: fail\<newline>'' []]) (Ret (- 1))
      | Some ip \<Rightarrow>
          thenK (ilock (Some ip))
          (bindK (readi ip 0 52) (\<lambda>(r, bs).
           if r \<noteq> 52 then exec_bad 0 (Some ip)
           else if elf_magic (decode_elf bs) \<noteq> ELF_MAGIC then exec_bad 0 (Some ip)
           else exec_image c path argv ip (decode_elf bs))))))"

section \<open>Arguments stay inside the process\<close>

text \<open>
  The page table that is loaded maps every address below the len of the current process; \<open>ubyte\<close> is the byte it
  has at a user address. \<open>fits\<close> is the bound the checks are to enforce, on natural numbers, where nothing wraps
  around.
\<close>

definition user_mapped :: "nat \<Rightarrow> kernel \<Rightarrow> bool" where
  "user_mapped p k \<longleftrightarrow> c_proc (cpu_of k) = Some p \<and> p_sz (ptable k p) \<le> KERNBASE \<and>
     (\<forall>a < p_sz (ptable k p). translate (mem k) (P2V (cr3 k)) a \<noteq> None)"

definition ubyte :: "kernel \<Rightarrow> addr \<Rightarrow> byte" where
  "ubyte k a = mem k (fst (the (translate (mem k) (P2V (cr3 k)) a)))"

definition uword :: "kernel \<Rightarrow> addr \<Rightarrow> uint" where
  "uword k a = of_le32 (ubyte k a) (ubyte k (a + 1)) (ubyte k (a + 2)) (ubyte k (a + 3))"

definition fits :: "uint \<Rightarrow> addr \<Rightarrow> nat \<Rightarrow> bool" where
  "fits sz a n \<longleftrightarrow> unat a < unat sz \<and> unat a + n \<le> unat sz"

definition arg_addr :: "nat \<Rightarrow> nat \<Rightarrow> kernel \<Rightarrow> addr" where
  "arg_addr n p k = tf_esp (p_tf (ptable k p)) + 4 + 4 * of_nat n"

text \<open>The string at the start of a list of bytes, if it ends inside.\<close>

definition cstring_of :: "byte list \<Rightarrow> byte list option" where
  "cstring_of bs = (if 0 \<in> set bs then Some (takeWhile (\<lambda>b. b \<noteq> 0) bs) else None)"

lemma user_mapped_sel:
  assumes "user_mapped p k"
  shows "c_proc (cpu_of k) = Some p" "unat (p_sz (ptable k p)) \<le> 2 ^ 31"
    "a < p_sz (ptable k p) \<Longrightarrow> \<exists>x fl. translate (mem k) (P2V (cr3 k)) a = Some (x, fl)"
  using assms by (auto simp: user_mapped_def xv6_consts word_le_nat_alt)

lemma fits_iff:
  assumes "unat sz \<le> 2 ^ 31" "0 \<le> n" "n < 2 ^ 31"
  shows "fits sz a (nat n) \<longleftrightarrow> \<not> (sz \<le> a \<or> sz < a + of_int n)"
proof (cases "sz \<le> a")
  case True
  then show ?thesis by (simp add: fits_def word_le_nat_alt)
next
  case False
  then have a: "unat a < unat sz" by (simp add: word_le_nat_alt)
  obtain m where m: "n = int m" "m < 2 ^ 31" using assms by (metis nonneg_int_cases of_nat_less_numeral_power_cancel_iff)
  have "unat (a + of_nat m) = unat a + m"
    using a assms(1) m by (simp add: unat_word_ariths(1) unat_of_nat)
  then show ?thesis using False a by (auto simp: fits_def m(1) word_less_nat_alt)
qed

lemma fits_addr:
  assumes "unat sz \<le> 2 ^ 31" "fits sz a n" "i < n"
  shows "a + of_nat i < sz"
proof -
  have "unat (a + of_nat i) = unat a + i"
    using assms by (simp add: fits_def unat_word_ariths(1) unat_of_nat)
  then show ?thesis using assms by (simp add: fits_def word_less_nat_alt)
qed

lemma runs_uload [runs_rules]:
  assumes "user_mapped p K" "a < p_sz (ptable K p)" "v = ubyte K a"
  shows "runs B C (uload a) K v C K"
proof -
  obtain x fl where t: "translate (mem K) (P2V (cr3 K)) a = Some (x, fl)"
    using user_mapped_sel(3)[OF assms(1,2)] by blast
  then have v: "v = mem K x" using assms(3) by (simp add: ubyte_def)
  show ?thesis unfolding uload_def
    by (rule runs_bind[OF runs_gets[where v = "Some (mem K x)"]]) (simp_all add: t v runs_Ret)
qed

lemma runs_uload_bytes:
  assumes "user_mapped p K" "\<And>i. i < n \<Longrightarrow> a + of_nat i < p_sz (ptable K p)"
  shows "runs B C (uload_bytes n a) K (map (\<lambda>i. ubyte K (a + of_nat i)) [0..<n]) C K"
  using assms(2)
proof (induction n arbitrary: a)
  case 0
  show ?case by (simp add: runs_Ret)
next
  case (Suc n)
  have a: "a < p_sz (ptable K p)" using Suc.prems[of 0] by simp
  have "\<And>i. i < n \<Longrightarrow> (a + 1) + of_nat i < p_sz (ptable K p)"
    using Suc.prems[of "Suc i" for i] by (simp add: add.assoc)
  note ih = Suc.IH[OF this]
  have "[0..<Suc n] = 0 # map Suc [0..<n]" by (simp add: map_Suc_upt upt_conv_Cons del: upt_Suc)
  then have e: "map (\<lambda>i. ubyte K (a + of_nat i)) [0..<Suc n] =
      ubyte K a # map (\<lambda>i. ubyte K ((a + 1) + of_nat i)) [0..<n]"
    by (simp add: add.assoc o_def del: upt_Suc)
  show ?case unfolding uload_bytes.simps e
    by (rule runs_bind[OF runs_uload[OF assms(1) a refl]], rule runs_bind[OF ih]) (simp_all add: runs_Ret)
qed

lemma runs_fetchint:
  assumes u: "user_mapped p K"
  shows "runs B C (fetchint a) K (if fits (p_sz (ptable K p)) a 4 then Some (uword K a) else None) C K"
proof -
  let ?sz = "p_sz (ptable K p)"
  note m = user_mapped_sel[OF u]
  have f: "fits ?sz a 4 \<longleftrightarrow> \<not> (?sz \<le> a \<or> ?sz < a + 4)" using fits_iff[of ?sz 4 a] m(2) by simp
  have w: "get32 (map (\<lambda>i. ubyte K (a + of_nat i)) [0..<4]) 0 = uword K a"
    by (simp add: get32_def uword_def upt_rec numeral_eq_Suc)
  have "runs B C (if ?sz \<le> a \<or> ?sz < a + 4 then Ret None
      else bindK (uload_bytes 4 a) (\<lambda>bs. Ret (Some (get32 bs 0)))) K
      (if fits ?sz a 4 then Some (uword K a) else None) C K"
  proof (cases "fits ?sz a 4")
    case True
    then have "runs B C (uload_bytes 4 a) K (map (\<lambda>i. ubyte K (a + of_nat i)) [0..<4]) C K"
      using fits_addr[OF m(2)] by (intro runs_uload_bytes[OF u]) blast
    then have "runs B C (bindK (uload_bytes 4 a) (\<lambda>bs. Ret (Some (get32 bs 0)))) K (Some (uword K a)) C K"
      by (rule runs_bind) (simp add: runs_Ret w)
    then show ?thesis using True f by simp
  next
    case False
    then show ?thesis using f by (auto intro: runs_Ret)
  qed
  then show ?thesis unfolding fetchint_def
    by (intro runs_bind[OF runs_curproc[OF m(1)]] runs_bind[OF runs_getp[OF refl]])
qed

lemma runs_argint:
  assumes u: "user_mapped p K"
  shows "runs B C (argint n) K
    (if fits (p_sz (ptable K p)) (arg_addr n p K) 4 then Some (uword K (arg_addr n p K)) else None) C K"
  unfolding argint_def using runs_fetchint[OF u, of B C "arg_addr n p K"]
  by (intro runs_bind[OF runs_curproc[OF user_mapped_sel(1)[OF u]]] runs_bind[OF runs_getp[OF refl]])
    (simp add: arg_addr_def)

definition argptr_spec :: "nat \<Rightarrow> int \<Rightarrow> nat \<Rightarrow> kernel \<Rightarrow> addr option" where
  "argptr_spec n len p k =
     (let sz = p_sz (ptable k p); at = arg_addr n p k; a = uword k at in
      if fits sz at 4 \<and> 0 \<le> len \<and> fits sz a (nat len) then Some a else None)"

definition argstr_spec :: "nat \<Rightarrow> nat \<Rightarrow> kernel \<Rightarrow> byte list option" where
  "argstr_spec n p k =
     (let sz = p_sz (ptable k p); at = arg_addr n p k; a = uword k at in
      if fits sz at 4 then cstring_of (map (\<lambda>i. ubyte k (a + of_nat i)) [0..<unat sz - unat a]) else None)"

lemma runs_argptr:
  assumes u: "user_mapped p K" and s: "len < 2 ^ 31"
  shows "runs B C (argptr n len) K (argptr_spec n len p K) C K"
proof -
  let ?sz = "p_sz (ptable K p)" and ?at = "arg_addr n p K"
  note m = user_mapped_sel[OF u]
  show ?thesis
  proof (cases "fits ?sz ?at 4")
    case True
    have "(if len < 0 \<or> ?sz \<le> uword K ?at \<or> ?sz < uword K ?at + of_int len then None else Some (uword K ?at)) =
        argptr_spec n len p K"
      using fits_iff[OF m(2) _ s, of "uword K ?at"] True by (auto simp: argptr_spec_def Let_def)
    then have "runs B C (if len < 0 \<or> ?sz \<le> uword K ?at \<or> ?sz < uword K ?at + of_int len then Ret None
        else Ret (Some (uword K ?at))) K (argptr_spec n len p K) C K"
      by (auto intro: runs_Ret)
    then have "runs B C (bindK (getp p p_sz) (\<lambda>psz. if len < 0 \<or> psz \<le> uword K ?at \<or>
        psz < uword K ?at + of_int len then Ret None else Ret (Some (uword K ?at)))) K (argptr_spec n len p K) C K"
      by (rule runs_bind[OF runs_getp[OF refl]])
    then show ?thesis unfolding argptr_def using runs_argint[OF u, of B C n] True
      by (intro runs_bind[OF runs_curproc[OF m(1)]] runs_bind[where v = "Some (uword K ?at)"])
        simp_all
  next
    case False
    then show ?thesis unfolding argptr_def using runs_argint[OF u, of B C n]
      by (intro runs_bind[OF runs_curproc[OF m(1)]] runs_bind[where v = "None"])
        (auto simp: argptr_spec_def Let_def intro: runs_Ret)
  qed
qed

lemma runs_fetchstr_loop:
  assumes u: "user_mapped p K" and "\<And>i. i < n \<Longrightarrow> a + of_nat i < p_sz (ptable K p)"
  shows "runs B C (fetchstr_loop n a) K (cstring_of (map (\<lambda>i. ubyte K (a + of_nat i)) [0..<n])) C K"
  using assms(2)
proof (induction n arbitrary: a)
  case 0
  show ?case by (simp add: runs_Ret cstring_of_def)
next
  case (Suc n)
  have a: "a < p_sz (ptable K p)" using Suc.prems[of 0] by simp
  have "\<And>i. i < n \<Longrightarrow> (a + 1) + of_nat i < p_sz (ptable K p)"
    using Suc.prems[of "Suc i" for i] by (simp add: add.assoc)
  note ih = Suc.IH[OF this]
  have "[0..<Suc n] = 0 # map Suc [0..<n]" by (simp add: map_Suc_upt upt_conv_Cons del: upt_Suc)
  then have e: "map (\<lambda>i. ubyte K (a + of_nat i)) [0..<Suc n] =
      ubyte K a # map (\<lambda>i. ubyte K ((a + 1) + of_nat i)) [0..<n]"
    by (simp add: add.assoc o_def del: upt_Suc)
  have "runs B C (if ubyte K a = 0 then Ret (Some [])
      else bindK (fetchstr_loop n (a + 1)) (\<lambda>r. Ret (map_option ((#) (ubyte K a)) r))) K
      (cstring_of (ubyte K a # map (\<lambda>i. ubyte K ((a + 1) + of_nat i)) [0..<n])) C K"
    by (auto simp: cstring_of_def intro!: runs_Ret runs_bind[OF ih])
  then show ?case unfolding fetchstr_loop.simps e by (rule runs_bind[OF runs_uload[OF u a refl]])
qed

lemma runs_argstr:
  assumes u: "user_mapped p K"
  shows "runs B C (argstr n) K (argstr_spec n p K) C K"
proof -
  let ?sz = "p_sz (ptable K p)" and ?at = "arg_addr n p K"
  let ?a = "uword K ?at"
  let ?r = "cstring_of (map (\<lambda>i. ubyte K (?a + of_nat i)) [0..<unat ?sz - unat ?a])"
  note m = user_mapped_sel[OF u]
  have "runs B C (if ?sz \<le> ?a then Ret None else fetchstr_loop (unat ?sz - unat ?a) ?a) K ?r C K"
  proof (cases "?sz \<le> ?a")
    case True
    then show ?thesis by (simp add: word_le_nat_alt cstring_of_def runs_Ret)
  next
    case False
    then have "fits ?sz ?a (unat ?sz - unat ?a)" by (simp add: fits_def word_le_nat_alt)
    then show ?thesis using False fits_addr[OF m(2)] by (simp add: runs_fetchstr_loop[OF u])
  qed
  then have s: "runs B C (fetchstr ?a) K ?r C K" unfolding fetchstr_def
    by (intro runs_bind[OF runs_curproc[OF m(1)]] runs_bind[OF runs_getp[OF refl]])
  show ?thesis unfolding argstr_def
    by (rule runs_bind[OF runs_argint[OF u]]) (auto simp: argstr_spec_def Let_def s intro: runs_Ret)
qed

text \<open>
  C12: system call arguments never reach outside the calling process. When the loaded page table maps the memory
  of the process, \<open>argptr\<close> and \<open>argstr\<close> return without a fault and leave the kernel as it was. \<open>argptr\<close> gives the
  pointer the process passed exactly when the argument slot and all \<open>len\<close> bytes at the pointer lie below the len
  of the process, computed without wrap-around although the code adds 32-bit words; \<open>argstr\<close> gives the string
  exactly when it ends below the len of the process.
\<close>
theorem args_inside_process:
  assumes "user_mapped p k" and "cpu_ok k" and "len < 2 ^ 31"
  shows "wp (argptr n len) (\<lambda>r (k', env'). r = argptr_spec n len p k \<and> env' = env \<and> synced k k') (k, env) \<and>
    wp (argstr n) (\<lambda>r (k', env'). r = argstr_spec n p k \<and> env' = env \<and> synced k k') (k, env)"
  using runsD[OF runs_argptr[OF assms(1,3)] assms(2)] runsD[OF runs_argstr[OF assms(1)] assms(2)] by simp

text \<open>
  A kernel whose current process has one page, at physical address 0x700000, with the stack pointer at 0x10 and the
  word 0x100 as its first argument.
\<close>

definition args_mem :: memory where
  "args_mem = store32 (store32 (store32 (\<lambda>_. 0) 0x80600000 0x400007) 0x80400000 0x700007) 0x80700014 0x100"

definition args_kernel :: kernel where
  "args_kernel = zero_kernel\<lparr>
     cpus := \<lambda>c. (cpus zero_kernel c)\<lparr>c_proc := Some 0\<rparr>,
     ptable := \<lambda>i. (ptable zero_kernel i)\<lparr>p_sz := 0x1000, p_tf := (p_tf (ptable zero_kernel i))\<lparr>tf_esp := 0x10\<rparr>\<rparr>,
     cr3 := 0x600000, mem := args_mem\<rparr>"

lemma args_kernel_translate:
  assumes "a < 0x1000"
  shows "translate args_mem 0x80600000 a = Some (0x80700000 + (a AND 0xFFF), 7)"
proof -
  have "load32 args_mem 0x80600000 = 0x400007" "load32 args_mem 0x80400000 = 0x700007"
    by (simp_all add: args_mem_def load32_alt store32_def of_le32_def)
  moreover have "drop_bit 22 a = 0" "drop_bit 12 a = 0"
    using assms by (simp_all add: word_less_nat_alt word_unat_eq_iff drop_bit_eq_div unat_div)
  then have "PDX a = 0" "PTX a = 0" by (simp_all add: PDX_def PTX_def)
  ultimately show ?thesis
    by (simp add: translate_def pt_lookup_def pd_table_def Let_def PTE_ADDR_def PTE_FLAGS_def P2V_def)
qed

lemma args_kernel_args:
  "arg_addr 0 p args_kernel = 0x14" "p_sz (ptable args_kernel p) = 0x1000" "uword args_kernel 0x14 = 0x100"
proof -
  show "arg_addr 0 p args_kernel = 0x14" "p_sz (ptable args_kernel p) = 0x1000"
    by (simp_all add: args_kernel_def arg_addr_def)
  have "ubyte args_kernel a = args_mem (0x80700000 + (a AND 0xFFF))" if "a < 0x1000" for a
    using args_kernel_translate[OF that] by (simp add: ubyte_def args_kernel_def P2V_def)
  then show "uword args_kernel 0x14 = 0x100"
    by (simp add: uword_def args_mem_def store32_def of_le32_def)
qed

theorem args_inside_process_witness:
  "wp (argptr 0 16) (\<lambda>r (k', env'). r = argptr_spec 0 16 0 args_kernel \<and> env' = [] \<and> synced args_kernel k')
     (args_kernel, []) \<and>
   wp (argstr 0) (\<lambda>r (k', env'). r = argstr_spec 0 0 args_kernel \<and> env' = [] \<and> synced args_kernel k')
     (args_kernel, []) \<and>
   argptr_spec 0 16 0 args_kernel = Some 0x100"
proof -
  have "cpu_ok args_kernel" by (simp add: args_kernel_def zero_kernel_def cpu_ok_def this_cpu_def cpu_of_def)
  moreover have "user_mapped 0 args_kernel"
    using args_kernel_translate by (simp add: user_mapped_def args_kernel_def zero_kernel_def this_cpu_def cpu_of_def P2V_def)
  moreover have "argptr_spec 0 16 0 args_kernel = Some 0x100"
    by (simp add: argptr_spec_def fits_def args_kernel_args)
  ultimately show ?thesis using args_inside_process[of 0 args_kernel 16 0 "[]"] by simp
qed

end
