(* ===== verification/Sysfile.thy ===== *)
theory Sysfile
  imports Sysargs
begin

text \<open>
  The system calls on files and directories (\<open>sysfile.c\<close>). Each returns the integer the code returns; a failed
  argument check is the first branch.
\<close>

section \<open>File descriptors\<close>

definition argfd :: "nat \<Rightarrow> (nat \<times> nat) option kprog" where
  "argfd n =
     bindK (argint n) (\<lambda>mfd.
     case mfd of None \<Rightarrow> Ret None | Some fd \<Rightarrow>
     if sint fd < 0 \<or> int NOFILE \<le> sint fd then Ret None
     else
       bindK curproc (\<lambda>p.
       bindK (getp p (\<lambda>pr. p_ofile pr (unat fd))) (\<lambda>mf.
       Ret (map_option (\<lambda>f. (unat fd, f)) mf))))"

definition fdalloc :: "nat \<Rightarrow> int kprog" where
  "fdalloc f =
     bindK curproc (\<lambda>p.
     bindK (getp p (\<lambda>pr. find (\<lambda>fd. p_ofile pr fd = None) [0..<NOFILE])) (\<lambda>r.
     case r of None \<Rightarrow> Ret (- 1)
     | Some fd \<Rightarrow> thenK (modp p (\<lambda>pr. pr\<lparr>p_ofile := (p_ofile pr)(fd := Some f)\<rparr>)) (Ret (int fd))))"

definition sys_dup :: "int kprog" where
  "sys_dup =
     bindK (argfd 0) (\<lambda>r.
     case r of None \<Rightarrow> Ret (- 1) | Some (_, f) \<Rightarrow>
     bindK (fdalloc f) (\<lambda>fd.
     if fd < 0 then Ret (- 1) else bindK (filedup f) (\<lambda>_. Ret fd)))"

text \<open>The arguments of \<open>read\<close> and \<open>write\<close>: the file, the buffer and the number of bytes.\<close>

definition rw_args :: "(nat \<times> addr \<times> int) option kprog" where
  "rw_args =
     bindK (argfd 0) (\<lambda>r.
     case r of None \<Rightarrow> Ret None | Some (_, f) \<Rightarrow>
     bindK (argint 2) (\<lambda>mn.
     case mn of None \<Rightarrow> Ret None | Some n \<Rightarrow>
     bindK (argptr 1 (sint n)) (\<lambda>mp.
     Ret (map_option (\<lambda>p. (f, p, sint n)) mp))))"

definition sys_read :: "int kprog" where
  "sys_read =
     bindK rw_args (\<lambda>r.
     case r of None \<Rightarrow> Ret (- 1) | Some (f, p, n) \<Rightarrow>
     bindK (fileread f n) (\<lambda>(r, bs). thenK (ustore_bytes p bs) (Ret r)))"

definition sys_write :: "int kprog" where
  "sys_write =
     bindK rw_args (\<lambda>r.
     case r of None \<Rightarrow> Ret (- 1) | Some (f, p, n) \<Rightarrow>
     bindK (uload_bytes (nat n) p) (\<lambda>bs. filewrite f bs))"

definition sys_close :: "int kprog" where
  "sys_close =
     bindK (argfd 0) (\<lambda>r.
     case r of None \<Rightarrow> Ret (- 1) | Some (fd, f) \<Rightarrow>
     bindK curproc (\<lambda>p.
     thenK (modp p (\<lambda>pr. pr\<lparr>p_ofile := (p_ofile pr)(fd := None)\<rparr>))
     (thenK (fileclose f) (Ret 0))))"

text \<open>\<open>struct stat\<close> is 20 bytes: a short and padding, device, inode number, a short and padding, size.\<close>

definition sys_fstat :: "int kprog" where
  "sys_fstat =
     bindK (argfd 0) (\<lambda>r.
     case r of None \<Rightarrow> Ret (- 1) | Some (_, f) \<Rightarrow>
     bindK (argptr 1 20) (\<lambda>mp.
     case mp of None \<Rightarrow> Ret (- 1) | Some p \<Rightarrow>
     bindK (filestat f) (\<lambda>(r, mst).
     thenK (case mst of None \<Rightarrow> Ret () | Some st \<Rightarrow> seqK [
         ustore_bytes p (le16 (st_type st)),
         ustore_bytes (p + 4) (le32 (st_dev st) @ le32 (st_ino st) @ le16 (st_nlink st)),
         ustore_bytes (p + 16) (le32 (st_size st))])
       (Ret r))))"

section \<open>Links\<close>

definition link_bad :: "nat \<Rightarrow> int kprog" where
  "link_bad ip = thenK (seqK [
     ilock (Some ip),
     modi ip (\<lambda>x. x\<lparr>i_nlink := i_nlink x - 1\<rparr>),
     iupdate ip,
     iunlockput ip,
     end_op])
     (Ret (- 1))"

definition do_link :: "nat \<Rightarrow> byte list \<Rightarrow> int kprog" where
  "do_link ip new =
     bindK (nameiparent new) (\<lambda>r.
     case r of None \<Rightarrow> link_bad ip | Some (dp, name) \<Rightarrow>
     thenK (ilock (Some dp))
     (bindK (geti dp i_dev) (\<lambda>ddev.
      bindK (geti ip (\<lambda>x. (i_dev x, i_inum x))) (\<lambda>(dev, inum).
      bindK (if ddev \<noteq> dev then Ret (- 1) else dirlink dp name inum) (\<lambda>r.
      if r < 0 then thenK (iunlockput dp) (link_bad ip)
      else thenK (seqK [iunlockput dp, iput ip, end_op]) (Ret 0))))))"

definition sys_link :: "int kprog" where
  "sys_link =
     bindK (argstr 0) (\<lambda>mold.
     case mold of None \<Rightarrow> Ret (- 1) | Some old \<Rightarrow>
     bindK (argstr 1) (\<lambda>mnew.
     case mnew of None \<Rightarrow> Ret (- 1) | Some new \<Rightarrow>
     thenK begin_op
     (bindK (namei old) (\<lambda>mip.
      case mip of None \<Rightarrow> thenK end_op (Ret (- 1)) | Some ip \<Rightarrow>
      thenK (ilock (Some ip))
      (bindK (geti ip i_type) (\<lambda>t.
       if t = T_DIR then thenK (seqK [iunlockput ip, end_op]) (Ret (- 1))
       else
         thenK (seqK [
           modi ip (\<lambda>x. x\<lparr>i_nlink := i_nlink x + 1\<rparr>),
           iupdate ip,
           iunlock (Some ip)])
         (do_link ip new)))))))"

fun isdirempty_loop :: "nat \<Rightarrow> uint list \<Rightarrow> bool kprog" where
  "isdirempty_loop dp [] = Ret True"
| "isdirempty_loop dp (off # offs) =
     bindK (read_dirent ''isdirempty: readi'' dp off) (\<lambda>de.
     if de_inum de \<noteq> 0 then Ret False else isdirempty_loop dp offs)"

definition isdirempty :: "nat \<Rightarrow> bool kprog" where
  "isdirempty dp = bindK (geti dp i_size) (\<lambda>sz. isdirempty_loop dp (drop 2 (dir_offsets sz)))"

definition unlink_bad :: "nat \<Rightarrow> int kprog" where
  "unlink_bad dp = thenK (seqK [iunlockput dp, end_op]) (Ret (- 1))"

definition do_unlink :: "nat \<Rightarrow> nat \<Rightarrow> uint \<Rightarrow> int kprog" where
  "do_unlink dp ip off =
     bindK (writei dp (replicate DIRENT 0) off) (\<lambda>r.
     if r \<noteq> int DIRENT then Panic ''unlink: writei''
     else
       bindK (geti ip i_type) (\<lambda>t.
       thenK (seqK [
         whenK (t = T_DIR) (seqK [modi dp (\<lambda>x. x\<lparr>i_nlink := i_nlink x - 1\<rparr>), iupdate dp]),
         iunlockput dp,
         modi ip (\<lambda>x. x\<lparr>i_nlink := i_nlink x - 1\<rparr>),
         iupdate ip,
         iunlockput ip,
         end_op])
       (Ret 0)))"

definition sys_unlink :: "int kprog" where
  "sys_unlink =
     bindK (argstr 0) (\<lambda>mpath.
     case mpath of None \<Rightarrow> Ret (- 1) | Some path \<Rightarrow>
     thenK begin_op
     (bindK (nameiparent path) (\<lambda>r.
      case r of None \<Rightarrow> thenK end_op (Ret (- 1)) | Some (dp, name) \<Rightarrow>
      thenK (ilock (Some dp))
      (if namecmp name (string_bytes ''.'') = 0 \<or> namecmp name (string_bytes ''..'') = 0 then unlink_bad dp
       else
         bindK (dirlookup dp name) (\<lambda>found.
         case found of None \<Rightarrow> unlink_bad dp | Some (ip, off) \<Rightarrow>
         thenK (ilock (Some ip))
         (bindK (geti ip (\<lambda>x. x)) (\<lambda>x.
          if sint (i_nlink x) < 1 then Panic ''unlink: nlink < 1''
          else
            bindK (if i_type x = T_DIR then bindK (isdirempty ip) (\<lambda>e. Ret (\<not> e)) else Ret False) (\<lambda>busy.
            if busy then thenK (iunlockput ip) (unlink_bad dp)
            else do_unlink dp ip off))))))))"

section \<open>Creating and opening\<close>

text \<open>On success the new inode is locked.\<close>

definition create_new :: "nat \<Rightarrow> byte list \<Rightarrow> ushort \<Rightarrow> ushort \<Rightarrow> ushort \<Rightarrow> nat option kprog" where
  "create_new dp name ty major minor =
     bindK (bindK (geti dp i_dev) (\<lambda>dev. ialloc dev ty)) (\<lambda>ip.
     thenK (seqK [
       ilock (Some ip),
       modi ip (\<lambda>x. x\<lparr>i_major := major, i_minor := minor, i_nlink := 1\<rparr>),
       iupdate ip,
       whenK (ty = T_DIR) (seqK [
         modi dp (\<lambda>x. x\<lparr>i_nlink := i_nlink x + 1\<rparr>),
         iupdate dp,
         bindK (bindK (geti ip i_inum) (dirlink ip (string_bytes ''.''))) (\<lambda>r.
           if r < 0 then Panic ''create dots''
           else bindK (bindK (geti dp i_inum) (dirlink ip (string_bytes ''..''))) (\<lambda>r.
             if r < 0 then Panic ''create dots'' else Ret ()))]),
       bindK (bindK (geti ip i_inum) (dirlink dp name)) (\<lambda>r. if r < 0 then Panic ''create: dirlink'' else Ret ()),
       iunlockput dp])
     (Ret (Some ip)))"

definition create :: "byte list \<Rightarrow> ushort \<Rightarrow> ushort \<Rightarrow> ushort \<Rightarrow> nat option kprog" where
  "create path ty major minor =
     bindK (nameiparent path) (\<lambda>r.
     case r of None \<Rightarrow> Ret None | Some (dp, name) \<Rightarrow>
     thenK (ilock (Some dp))
     (bindK (dirlookup dp name) (\<lambda>found.
      case found of
        Some (ip, _) \<Rightarrow>
          thenK (seqK [iunlockput dp, ilock (Some ip)])
          (bindK (geti ip i_type) (\<lambda>t.
           if ty = T_FILE \<and> t = T_FILE then Ret (Some ip)
           else thenK (iunlockput ip) (Ret None)))
      | None \<Rightarrow> create_new dp name ty major minor)))"

abbreviation (input) O_WRONLY :: uint where "O_WRONLY \<equiv> 1"
abbreviation (input) O_RDWR :: uint where "O_RDWR \<equiv> 2"
abbreviation (input) O_CREATE :: uint where "O_CREATE \<equiv> 0x200"

text \<open>The inode \<open>open\<close> works on, locked; \<open>None\<close> after a failure.\<close>

definition open_inode :: "byte list \<Rightarrow> uint \<Rightarrow> nat option kprog" where
  "open_inode path omode =
     (if omode AND O_CREATE \<noteq> 0 then create path T_FILE 0 0
      else
        bindK (namei path) (\<lambda>mip.
        case mip of None \<Rightarrow> Ret None | Some ip \<Rightarrow>
        thenK (ilock (Some ip))
        (bindK (geti ip i_type) (\<lambda>t.
         if t = T_DIR \<and> omode \<noteq> 0 then thenK (iunlockput ip) (Ret None) else Ret (Some ip)))))"

definition sys_open :: "int kprog" where
  "sys_open =
     bindK (argstr 0) (\<lambda>mpath.
     case mpath of None \<Rightarrow> Ret (- 1) | Some path \<Rightarrow>
     bindK (argint 1) (\<lambda>mo.
     case mo of None \<Rightarrow> Ret (- 1) | Some omode \<Rightarrow>
     thenK begin_op
     (bindK (open_inode path omode) (\<lambda>mip.
      case mip of None \<Rightarrow> thenK end_op (Ret (- 1)) | Some ip \<Rightarrow>
      bindK filealloc (\<lambda>mf.
      bindK (case mf of None \<Rightarrow> Ret (- 1) | Some f \<Rightarrow> fdalloc f) (\<lambda>fd.
      case mf of
        None \<Rightarrow> thenK (seqK [iunlockput ip, end_op]) (Ret (- 1))
      | Some f \<Rightarrow>
          if fd < 0 then thenK (seqK [fileclose f, iunlockput ip, end_op]) (Ret (- 1))
          else
            thenK (seqK [
              iunlock (Some ip),
              end_op,
              modf f (\<lambda>x. x\<lparr>f_type := FD_INODE, f_readable := (omode AND O_WRONLY = 0),
                f_writable := (omode AND O_WRONLY \<noteq> 0 \<or> omode AND O_RDWR \<noteq> 0), f_ip := Some ip, f_off := 0\<rparr>)])
            (Ret fd)))))))"

definition finish_create :: "nat option \<Rightarrow> int kprog" where
  "finish_create mip =
     (case mip of None \<Rightarrow> thenK end_op (Ret (- 1))
      | Some ip \<Rightarrow> thenK (seqK [iunlockput ip, end_op]) (Ret 0))"

definition sys_mkdir :: "int kprog" where
  "sys_mkdir =
     thenK begin_op
     (bindK (argstr 0) (\<lambda>mpath.
      bindK (case mpath of None \<Rightarrow> Ret None | Some path \<Rightarrow> create path T_DIR 0 0) finish_create))"

definition sys_mknod :: "int kprog" where
  "sys_mknod =
     thenK begin_op
     (bindK (argstr 0) (\<lambda>mpath.
      bindK (case mpath of None \<Rightarrow> Ret None | Some path \<Rightarrow>
        bindK (argint 1) (\<lambda>mj.
        case mj of None \<Rightarrow> Ret None | Some major \<Rightarrow>
        bindK (argint 2) (\<lambda>mn.
        case mn of None \<Rightarrow> Ret None | Some minor \<Rightarrow> create path T_DEV (ucast major) (ucast minor)))) finish_create))"

definition sys_chdir :: "int kprog" where
  "sys_chdir =
     bindK curproc (\<lambda>c.
     thenK begin_op
     (bindK (argstr 0) (\<lambda>mpath.
      bindK (case mpath of None \<Rightarrow> Ret None | Some path \<Rightarrow> namei path) (\<lambda>mip.
      case mip of None \<Rightarrow> thenK end_op (Ret (- 1)) | Some ip \<Rightarrow>
      thenK (ilock (Some ip))
      (bindK (geti ip i_type) (\<lambda>t.
       if t \<noteq> T_DIR then thenK (seqK [iunlockput ip, end_op]) (Ret (- 1))
       else
         thenK (seqK [
           iunlock (Some ip),
           bindK (proc_cwd c) iput,
           end_op,
           modp c (\<lambda>pr. pr\<lparr>p_cwd := Some ip\<rparr>)])
         (Ret 0)))))))"

section \<open>exec and pipe\<close>

text \<open>\<open>n\<close> slots of \<open>argv\<close> are left; \<open>None\<close> where the code returns -1.\<close>

fun fetch_argv :: "nat \<Rightarrow> addr \<Rightarrow> byte list list option kprog" where
  "fetch_argv 0 uargv = Ret None"
| "fetch_argv (Suc n) uargv =
     bindK (fetchint uargv) (\<lambda>mu.
     case mu of None \<Rightarrow> Ret None | Some uarg \<Rightarrow>
     if uarg = 0 then Ret (Some [])
     else
       bindK (fetchstr uarg) (\<lambda>ms.
       case ms of None \<Rightarrow> Ret None | Some s \<Rightarrow>
       bindK (fetch_argv n (uargv + 4)) (\<lambda>r. Ret (map_option ((#) s) r))))"

definition sys_exec :: "int kprog" where
  "sys_exec =
     bindK (argstr 0) (\<lambda>mpath.
     case mpath of None \<Rightarrow> Ret (- 1) | Some path \<Rightarrow>
     bindK (argint 1) (\<lambda>mu.
     case mu of None \<Rightarrow> Ret (- 1) | Some uargv \<Rightarrow>
     bindK (fetch_argv MAXARG uargv) (\<lambda>margv.
     case margv of None \<Rightarrow> Ret (- 1) | Some argv \<Rightarrow> exec path argv)))"

definition sys_pipe :: "int kprog" where
  "sys_pipe =
     bindK (argptr 0 8) (\<lambda>mp.
     case mp of None \<Rightarrow> Ret (- 1) | Some fd \<Rightarrow>
     bindK pipealloc (\<lambda>r.
     case r of None \<Rightarrow> Ret (- 1) | Some (rf, wrf) \<Rightarrow>
     bindK (fdalloc rf) (\<lambda>fd0.
     bindK (if fd0 < 0 then Ret (- 1) else fdalloc wrf) (\<lambda>fd1.
     if fd0 < 0 \<or> fd1 < 0 then
       thenK (seqK [
         whenK (0 \<le> fd0) (bindK curproc (\<lambda>p.
           modp p (\<lambda>pr. pr\<lparr>p_ofile := (p_ofile pr)(nat fd0 := None)\<rparr>))),
         fileclose rf,
         fileclose wrf])
       (Ret (- 1))
     else
       thenK (ustore_bytes fd (le32 (of_int fd0) @ le32 (of_int fd1))) (Ret 0)))))"

end
