(* ===== verification/Trap.thy ===== *)
theory Trap
  imports Sysfile
begin

text \<open>
  The system calls on processes (\<open>sysproc.c\<close>), the dispatcher (\<open>syscall.c\<close>), the trap and system call counters
  of HW2 and the trap handler (\<open>trap.c\<close>), and the start of the kernel (\<open>main.c\<close>). What the devices deliver with an
  interrupt is an argument of the handler.
\<close>

section \<open>System calls on processes\<close>

definition sys_fork :: "int kprog" where
  "sys_fork = fork"

definition sys_exit :: "int kprog" where
  "sys_exit = thenK exit (Ret 0)"

definition sys_wait :: "int kprog" where
  "sys_wait = wait"

definition sys_kill :: "int kprog" where
  "sys_kill = bindK (argint 0) (\<lambda>mpid. case mpid of None \<Rightarrow> Ret (- 1) | Some pid \<Rightarrow> kill (sint pid))"

definition sys_getpid :: "int kprog" where
  "sys_getpid = bindK curproc (\<lambda>p. getp p p_pid)"

definition sys_sbrk :: "int kprog" where
  "sys_sbrk =
     bindK (argint 0) (\<lambda>mn.
     case mn of None \<Rightarrow> Ret (- 1) | Some n \<Rightarrow>
     bindK (bindK curproc (\<lambda>p. getp p p_sz)) (\<lambda>addr.
     bindK (growproc (sint n)) (\<lambda>r.
     if r < 0 then Ret (- 1) else Ret (sint addr))))"

text \<open>The comparison \<open>ticks - ticks0 < n\<close> is unsigned.\<close>

definition sys_sleep :: "int kprog" where
  "sys_sleep =
     bindK (argint 0) (\<lambda>mn.
     case mn of None \<Rightarrow> Ret (- 1) | Some n \<Rightarrow>
     thenK (acquire TicksLock)
     (bindK (gets ticks) (\<lambda>ticks0.
      wait_for
        (bindK (gets (\<lambda>k. ticks k - ticks0 < n)) (\<lambda>early.
         if \<not> early then thenK (release TicksLock) (Ret (Some 0))
         else
           bindK (bindK curproc (\<lambda>p. getp p p_killed)) (\<lambda>dead.
           if dead \<noteq> 0 then thenK (release TicksLock) (Ret (Some (- 1)))
           else thenK (sleep (Some ChTicks) (Some TicksLock)) (Ret None)))))))"

definition sys_uptime :: "int kprog" where
  "sys_uptime =
     thenK (acquire TicksLock)
     (bindK (gets ticks) (\<lambda>xticks. thenK (release TicksLock) (Ret (sint xticks))))"

section \<open>Counters\<close>

definition trapnames :: "string list" where
  "trapnames = [
     ''Divide error                 '', ''Debug exception              '', ''Non-maskable interrupt       '',
     ''Breakpoint                   '', ''Overflow                     '', ''Bounds check                 '',
     ''Illegal opcode               '', ''Device not available         '', ''Double fault                 '',
     ''Reserved (not used since 486)'', ''Invalid task switch segment  '', ''Segment not present          '',
     ''Stack exception              '', ''General protection fault     '', ''Page fault                   '',
     ''Reserved                     '', ''Floating point error         '', ''Aligment check               '',
     ''Machine check                '', ''SIMD floating point error    '', ''Interrupts                   '',
     ''System call                  '', ''Catchall                     '']"

definition trapnos :: "int \<Rightarrow> nat" where
  "trapnos trapno =
     (if 0 \<le> trapno \<and> trapno \<le> 19 then nat trapno
      else if 32 \<le> trapno \<and> trapno < 64 then 20
      else if trapno = 64 then 21
      else 22)"

text \<open>The table of names starts at \<open>SYS_fork\<close>, number 1.\<close>

definition sysnames :: "string list" where
  "sysnames = [
     ''fork       '', ''exit       '', ''wait       '', ''pipe       '', ''read       '', ''kill       '',
     ''exec       '', ''fstat      '', ''chdir      '', ''dup        '', ''getpid     '', ''sbrk       '',
     ''sleep      '', ''uptime     '', ''open       '', ''write      '', ''mknod      '', ''unlink     '',
     ''link       '', ''mkdir      '', ''close      '', ''countTraps '']"

definition sysname :: "nat \<Rightarrow> string" where
  "sysname n = sysnames ! (n - 1)"

text \<open>A loop over counters: print the ones that are not zero and add them up; \<open>int\<close> addition wraps.\<close>

fun count_loop :: "nat list \<Rightarrow> (nat \<Rightarrow> int) \<Rightarrow> (nat \<Rightarrow> string) \<Rightarrow> string \<Rightarrow> uint \<Rightarrow> uint kprog" where
  "count_loop [] cnt name fmt c = Ret c"
| "count_loop (i # is) cnt name fmt c =
     (if cnt i \<noteq> 0 then
        thenK (cprintf fmt [CStr (Some (string_bytes (name i))), CInt (of_int (cnt i))])
          (count_loop is cnt name fmt (c + of_int (cnt i)))
      else count_loop is cnt name fmt c)"

definition countSyscalls :: "uint kprog" where
  "countSyscalls =
     bindK curproc (\<lambda>p.
     thenK (cprintf ''\<newline>-----[ Syscalls ]-----\<newline>'' [])
     (bindK (getp p p_syscounts) (\<lambda>cs.
      bindK (count_loop [1..<length cs] (\<lambda>i. cs ! i) sysname ('' %s'' @ [CHR 0x09] @ '' : %d\<newline>'') 0) (\<lambda>c.
      thenK (cprintf ''  Total Syscalls : %d\<newline>'' [CInt c]) (Ret c)))))"

definition sys_countTraps :: "int kprog" where
  "sys_countTraps =
     bindK countSyscalls (\<lambda>_.
     bindK curproc (\<lambda>p.
     thenK (cprintf ''\<newline>-------------[ Traps ]--------------\<newline>'' [])
     (bindK (getp p p_trapcounts) (\<lambda>ts.
      bindK (count_loop [0..<length ts - 1] (\<lambda>i. ts ! i) (\<lambda>i. trapnames ! i) '' %s : %d\<newline>'' 0) (\<lambda>c.
      thenK (cprintf ''  Total Traps                  : %d\<newline>'' [CInt c]) (Ret (sint c)))))))"

section \<open>Dispatch\<close>

definition syscalls :: "int kprog list" where
  "syscalls = [
     sys_fork, sys_exit, sys_wait, sys_pipe, sys_read, sys_kill, sys_exec, sys_fstat, sys_chdir, sys_dup, sys_getpid,
     sys_sbrk, sys_sleep, sys_uptime, sys_open, sys_write, sys_mknod, sys_unlink, sys_link, sys_mkdir, sys_close,
     sys_countTraps]"

definition incr :: "nat \<Rightarrow> int list \<Rightarrow> int list" where
  "incr i xs = xs[i := xs ! i + 1]"

text \<open>The table starts at number 1; its entries are all non-zero.\<close>

definition syscall :: "unit kprog" where
  "syscall =
     bindK curproc (\<lambda>p.
     bindK (getp p (\<lambda>pr. sint (tf_eax (p_tf pr)))) (\<lambda>num.
     if 0 < num \<and> num < int (length syscalls) + 1 then
       thenK (modp p (\<lambda>pr. pr\<lparr>p_syscounts := incr (nat num) (p_syscounts pr)\<rparr>))
       (bindK (syscalls ! (nat num - 1)) (\<lambda>r.
        modp p (\<lambda>pr. pr\<lparr>p_tf := (p_tf pr)\<lparr>tf_eax := of_int r\<rparr>\<rparr>)))
     else
       bindK (getp p (\<lambda>pr. (p_pid pr, p_name pr))) (\<lambda>(pid, nm).
       thenK (cprintf ''%d %s: unknown sys call %d\<newline>'' [CInt (of_int pid), CStr (Some nm), CInt (of_int num)])
         (modp p (\<lambda>pr. pr\<lparr>p_tf := (p_tf pr)\<lparr>tf_eax := - 1\<rparr>\<rparr>)))))"

section \<open>The trap handler\<close>

text \<open>What the hardware has to offer: the faulting address, received bytes, scan codes, the shift keys held.\<close>

record hardware =
  hw_cr2 :: uint
  hw_rx :: "byte list"
  hw_scancodes :: "byte list"
  hw_shift :: uint

abbreviation (input) T_SYSCALL :: uint where "T_SYSCALL \<equiv> 64"
abbreviation (input) T_TIMER :: uint where "T_TIMER \<equiv> 32"
abbreviation (input) T_KBD :: uint where "T_KBD \<equiv> 33"
abbreviation (input) T_COM1 :: uint where "T_COM1 \<equiv> 36"
abbreviation (input) T_IRQ7 :: uint where "T_IRQ7 \<equiv> 39"
abbreviation (input) T_IDE :: uint where "T_IDE \<equiv> 46"
abbreviation (input) T_SPURIOUS :: uint where "T_SPURIOUS \<equiv> 63"

definition tvinit :: "unit kprog" where
  "tvinit = initlock TicksLock ''time''"

definition count_trap :: "trapframe \<Rightarrow> unit kprog" where
  "count_trap tf = bindK myproc (\<lambda>mp.
     case mp of None \<Rightarrow> Ret ()
     | Some p \<Rightarrow> modp p (\<lambda>pr. pr\<lparr>p_trapcounts := incr (trapnos (sint (tf_trapno tf))) (p_trapcounts pr)\<rparr>))"

definition killed :: "bool kprog" where
  "killed = bindK curproc (\<lambda>p. getp p (\<lambda>pr. p_killed pr \<noteq> 0))"

definition trap_syscall :: "trapframe \<Rightarrow> unit kprog" where
  "trap_syscall tf = seqK [
     bindK killed (\<lambda>d. whenK d exit),
     bindK curproc (\<lambda>p. modp p (\<lambda>pr. pr\<lparr>p_tf := tf\<rparr>)),
     syscall,
     bindK killed (\<lambda>d. whenK d exit)]"

definition timer_tick :: "unit kprog" where
  "timer_tick = bindK cpuid (\<lambda>c.
     whenK (c = 0) (seqK [
       acquire TicksLock,
       modify (\<lambda>k. k\<lparr>ticks := ticks k + 1\<rparr>),
       wakeup (Some ChTicks),
       release TicksLock]))"

definition from_user :: "trapframe \<Rightarrow> bool" where
  "from_user tf \<longleftrightarrow> tf_cs tf AND 3 = 3"

definition trap_unexpected :: "hardware \<Rightarrow> trapframe \<Rightarrow> unit kprog" where
  "trap_unexpected hw tf =
     bindK myproc (\<lambda>mp.
     bindK cpuid (\<lambda>c.
     if mp = None \<or> tf_cs tf AND 3 = 0 then
       thenK (cprintf ''unexpected trap %d from cpu %d eip %x (cr2=0x%x)\<newline>''
         [CInt (tf_trapno tf), CInt (of_nat c), CInt (tf_eip tf), CInt (hw_cr2 hw)])
       (Panic ''trap'')
     else
       bindK curproc (\<lambda>p.
       bindK (getp p (\<lambda>pr. (p_pid pr, p_name pr))) (\<lambda>(pid, nm). seqK [
         cprintf (''pid %d %s: trap %d err %d on cpu %d '' @ ''eip 0x%x addr 0x%x--kill proc\<newline>'')
           [CInt (of_int pid), CStr (Some nm), CInt (tf_trapno tf), CInt (tf_err tf), CInt (of_nat c),
            CInt (tf_eip tf), CInt (hw_cr2 hw)],
         modp p (\<lambda>pr. pr\<lparr>p_killed := 1\<rparr>)]))))"

definition trap_device :: "hardware \<Rightarrow> trapframe \<Rightarrow> unit kprog" where
  "trap_device hw tf =
     (if tf_trapno tf = T_TIMER then timer_tick
      else if tf_trapno tf = T_IDE then Ret ()
      else if tf_trapno tf = T_IDE + 1 then Ret ()
      else if tf_trapno tf = T_KBD then kbdintr (hw_shift hw) (hw_scancodes hw)
      else if tf_trapno tf = T_COM1 then uartintr (hw_rx hw)
      else if tf_trapno tf = T_IRQ7 \<or> tf_trapno tf = T_SPURIOUS then
        bindK cpuid (\<lambda>c. cprintf ''cpu%d: spurious interrupt at %x:%x\<newline>''
          [CInt (of_nat c), CInt (ucast (tf_cs tf)), CInt (tf_eip tf)])
      else trap_unexpected hw tf)"

definition exit_if_killed :: "trapframe \<Rightarrow> unit kprog" where
  "exit_if_killed tf = bindK myproc (\<lambda>mp.
     case mp of None \<Rightarrow> Ret ()
     | Some p \<Rightarrow> bindK (getp p (\<lambda>pr. p_killed pr \<noteq> 0)) (\<lambda>d. whenK (d \<and> from_user tf) exit))"

definition yield_on_tick :: "trapframe \<Rightarrow> unit kprog" where
  "yield_on_tick tf = bindK myproc (\<lambda>mp.
     case mp of None \<Rightarrow> Ret ()
     | Some p \<Rightarrow> bindK (getp p p_state) (\<lambda>st. whenK (st = RUNNING \<and> tf_trapno tf = T_TIMER) yield))"

text \<open>The disk interrupt of \<open>memide.c\<close> does nothing; acknowledging the interrupt controller is not modelled.\<close>

definition trap :: "hardware \<Rightarrow> trapframe \<Rightarrow> unit kprog" where
  "trap hw tf =
     thenK (count_trap tf)
     (if tf_trapno tf = T_SYSCALL then trap_syscall tf
      else seqK [
        trap_device hw tf,
        exit_if_killed tf,
        yield_on_tick tf,
        exit_if_killed tf])"

section \<open>Starting the kernel\<close>

definition mpmain :: "nat \<Rightarrow> unit kprog" where
  "mpmain passes = seqK [
     bindK cpuid (\<lambda>c. cprintf ''cpu%d: starting %d\<newline>'' [CInt (of_nat c), CInt (of_nat c)]),
     mycpu_set (\<lambda>c. c\<lparr>c_started := 1\<rparr>),
     scheduler passes]"

definition mpenter :: "nat \<Rightarrow> unit kprog" where
  "mpenter passes = seqK [switchkvm, seginit, mpmain passes]"

end
