(* ===== verification/Shm.thy ===== *)
theory Shm
  imports Trap
begin

text \<open>
  The shared memory of HW3: regions of pages that processes map by key (\<open>vm.c\<close>), the two system calls
  (\<open>sysproc.c\<close>) and the operations of \<open>proc.c\<close> and \<open>vm.c\<close> that HW3 changes for it. The suffix 3 marks the
  HW3 version of an operation the other theories model for HW2.
\<close>

abbreviation (input) MAX_SH_PAGES :: nat where "MAX_SH_PAGES \<equiv> 64"
abbreviation (input) MAX_SH_KEY :: nat where "MAX_SH_KEY \<equiv> 64"
abbreviation (input) FAILED :: addr where "FAILED \<equiv> - 1"

definition modr :: "nat \<Rightarrow> (sharedRegion \<Rightarrow> sharedRegion) \<Rightarrow> unit kprog" where
  "modr key f = modify (\<lambda>k. k\<lparr>sharedRegions := (sharedRegions k)(key := f (sharedRegions k key))\<rparr>)"

definition getr :: "nat \<Rightarrow> (sharedRegion \<Rightarrow> 'a) \<Rightarrow> 'a kprog" where
  "getr key f = gets (\<lambda>k. f (sharedRegions k key))"

definition set_ref :: "nat \<Rightarrow> sharedReference \<Rightarrow> proc \<Rightarrow> proc" where
  "set_ref key r pr = pr\<lparr>p_shared := (p_shared pr)(key := r)\<rparr>"

section \<open>Mapping\<close>

text \<open>The loop over the pages of a region; false when a page could not be mapped.\<close>

fun map_region_pages :: "nat \<Rightarrow> nat \<Rightarrow> nat list \<Rightarrow> bool kprog" where
  "map_region_pages p key [] = Ret True"
| "map_region_pages p key (i # is) =
     thenK (modp p (\<lambda>pr. pr\<lparr>p_shaddr := p_shaddr pr - PGSIZE\<rparr>))
     (bindK (getp p (\<lambda>pr. (p_pgdir pr, p_shaddr pr))) (\<lambda>(pgdir, va).
      bindK (getr key (\<lambda>r. sr_pages r i)) (\<lambda>pa.
      bindK (mappages pgdir va PGSIZE pa (PTE_W OR PTE_U)) (\<lambda>r.
      if r < 0 then Ret False else map_region_pages p key is))))"

text \<open>The failing path returns inside the \<open>pushcli\<close> section.\<close>

definition mapSharedRegion :: "nat \<Rightarrow> nat \<Rightarrow> addr kprog" where
  "mapSharedRegion p key =
     bindK (getp p (\<lambda>pr. p_shared pr key)) (\<lambda>ref.
     bindK (gets (\<lambda>k. case sf_region ref of None \<Rightarrow> False | Some r \<Rightarrow> sr_valid (sharedRegions k r) \<noteq> 0)) (\<lambda>mapped.
     if mapped then Ret (sf_va ref)
     else
       thenK pushcli
       (bindK (getr key sr_pageCount) (\<lambda>n.
        bindK (map_region_pages p key [0..<nat n]) (\<lambda>ok.
        if \<not> ok then Ret FAILED
        else
          thenK (seqK [
            modr key (\<lambda>r. r\<lparr>sr_refCount := sr_refCount r + 1\<rparr>),
            popcli])
          (bindK (getp p p_shaddr) (\<lambda>va.
           thenK (modp p (set_ref key \<lparr>sf_region = Some key, sf_va = va\<rparr>)) (Ret va))))))))"

text \<open>The pages of a new region; false when there is no memory left.\<close>

fun alloc_region_pages :: "nat \<Rightarrow> nat list \<Rightarrow> bool kprog" where
  "alloc_region_pages key [] = Ret True"
| "alloc_region_pages key (i # is) =
     bindK kalloc (\<lambda>m.
     if m = 0 then thenK (cprintf ''allocuvm out of memory\<newline>'' []) (Ret False)
     else
       thenK (seqK [
         setmem (\<lambda>x. memset x m 0 PGSIZE),
         modr key (\<lambda>r. r\<lparr>sr_pages := (sr_pages r)(i := V2P m)\<rparr>)])
       (alloc_region_pages key is))"

definition allocSharedVM :: "int \<Rightarrow> int \<Rightarrow> addr kprog" where
  "allocSharedVM key cnt =
     (if key < 0 \<or> int MAX_SH_KEY \<le> key \<or> cnt \<le> 0 \<or> int MAX_SH_PAGES < cnt then Ret FAILED
      else
        bindK curproc (\<lambda>p.
        bindK (getr (nat key) (\<lambda>r. r)) (\<lambda>region.
        if sr_valid region = 0 then
          thenK pushcli
          (bindK (alloc_region_pages (nat key) [0..<nat cnt]) (\<lambda>ok.
           if \<not> ok then Ret FAILED
           else
             thenK (seqK [
               modr (nat key) (\<lambda>r. r\<lparr>sr_valid := 1, sr_refCount := 0, sr_pageCount := cnt\<rparr>),
               popcli])
             (mapSharedRegion p (nat key))))
        else if sr_pageCount region < cnt then Ret FAILED
        else mapSharedRegion p (nat key))))"

section \<open>Unmapping\<close>

fun unmap_region_pages :: "nat \<Rightarrow> addr \<Rightarrow> nat list \<Rightarrow> bool kprog" where
  "unmap_region_pages p va [] = Ret True"
| "unmap_region_pages p va (i # is) =
     bindK (getp p p_pgdir) (\<lambda>pgdir.
     bindK (walkpgdir pgdir (va + of_nat i * PGSIZE) False) (\<lambda>pte.
     if pte = 0 then Ret False
     else thenK (setmem (\<lambda>m. store32 m pte 0)) (unmap_region_pages p va is)))"

fun free_region_pages :: "nat \<Rightarrow> nat list \<Rightarrow> unit kprog" where
  "free_region_pages key [] = Ret ()"
| "free_region_pages key (i # is) =
     bindK (getr key (\<lambda>r. sr_pages r i)) (\<lambda>pa.
     thenK (seqK [
       kfree (P2V pa),
       modr key (\<lambda>r. r\<lparr>sr_pages := (sr_pages r)(i := 0)\<rparr>)])
     (free_region_pages key is))"

text \<open>\<open>region->valid && (--region->refCount) == 0\<close>: the count goes down only for a valid region.\<close>

definition drop_region :: "nat \<Rightarrow> unit kprog" where
  "drop_region key =
     bindK (getr key sr_valid) (\<lambda>v.
     whenK (v \<noteq> 0)
       (thenK (modr key (\<lambda>r. r\<lparr>sr_refCount := sr_refCount r - 1\<rparr>))
       (bindK (getr key (\<lambda>r. r)) (\<lambda>r.
        whenK (sr_refCount r = 0) (seqK [
          pushcli,
          free_region_pages key [0..<nat (sr_pageCount r)],
          modr key (\<lambda>r. r\<lparr>sr_valid := 0, sr_pageCount := 0\<rparr>),
          popcli])))))"

definition deallocProcSharedVM :: "nat \<Rightarrow> int \<Rightarrow> int kprog" where
  "deallocProcSharedVM p key =
     (if key < 0 \<or> int MAX_SH_KEY \<le> key then Ret (- 1)
      else
        bindK (getp p (\<lambda>pr. p_shared pr (nat key))) (\<lambda>ref.
        if sf_region ref = None \<or> sf_va ref = 0 then Ret (- 1)
        else
          bindK (getr (nat key) sr_pageCount) (\<lambda>n.
          bindK (unmap_region_pages p (sf_va ref) [0..<nat n]) (\<lambda>ok.
          if \<not> ok then Ret (- 1)
          else
            thenK (seqK [
              modp p (set_ref (nat key) \<lparr>sf_region = None, sf_va = 0\<rparr>),
              drop_region (nat key)])
            (getr (nat key) sr_refCount)))))"

definition deallocProcAllSharedVM :: "nat \<Rightarrow> unit kprog" where
  "deallocProcAllSharedVM p = forK [0..<MAX_SH_KEY] (\<lambda>key.
     bindK (getp p (\<lambda>pr. p_shared pr key)) (\<lambda>ref.
     bindK (gets (\<lambda>k. case sf_region ref of None \<Rightarrow> False | Some r \<Rightarrow> sr_valid (sharedRegions k r) \<noteq> 0)) (\<lambda>live.
     whenK (live \<and> sf_va ref \<noteq> 0)
       (bindK (getp p p_pid) (\<lambda>pid.
        bindK (deallocProcSharedVM p (int key)) (\<lambda>n.
        cprintf ''Shared page not freed! pid:%d id:%d refs:%d\<newline>''
          [CInt (of_int pid), CInt (of_nat key), CInt (of_int n)]))))))"

definition deallocSharedVM :: "int \<Rightarrow> int kprog" where
  "deallocSharedVM key = bindK curproc (\<lambda>p. deallocProcSharedVM p key)"

section \<open>System calls\<close>

definition sys_GetSharedPage :: "int kprog" where
  "sys_GetSharedPage =
     bindK (argint 0) (\<lambda>mk.
     case mk of None \<Rightarrow> Ret (- 1) | Some key \<Rightarrow>
     bindK (argint 1) (\<lambda>mc.
     case mc of None \<Rightarrow> Ret (- 1) | Some cnt \<Rightarrow>
     bindK (allocSharedVM (sint key) (sint cnt)) (\<lambda>va. Ret (sint va))))"

definition sys_FreeSharedPage :: "int kprog" where
  "sys_FreeSharedPage =
     bindK (argint 0) (\<lambda>mk. case mk of None \<Rightarrow> Ret (- 1) | Some key \<Rightarrow> deallocSharedVM (sint key))"

section \<open>What HW3 changes elsewhere\<close>

text \<open>The heap may only grow up to the shared pages of the calling process.\<close>

definition allocuvm3 :: "addr \<Rightarrow> uint \<Rightarrow> uint \<Rightarrow> uint kprog" where
  "allocuvm3 pgdir oldsz newsz =
     bindK (bindK curproc (\<lambda>p. getp p p_shaddr)) (\<lambda>sh.
     if sh \<le> newsz then Ret 0
     else if newsz < oldsz then Ret oldsz
     else allocuvm_loop vmfuel pgdir oldsz newsz (PGROUNDUP oldsz))"

definition growproc3 :: "int \<Rightarrow> int kprog" where
  "growproc3 n =
     bindK curproc (\<lambda>p.
     bindK (getp p p_sz) (\<lambda>sz.
     bindK (getp p p_pgdir) (\<lambda>pgdir.
     bindK (if 0 < n then allocuvm3 pgdir sz (sz + word_of_int n)
            else if n < 0 then deallocuvm pgdir sz (sz + word_of_int n)
            else Ret sz) (\<lambda>sz'.
     if n \<noteq> 0 \<and> sz' = 0 then Ret (- 1)
     else thenK (seqK [
         modp p (\<lambda>pr. pr\<lparr>p_sz := sz'\<rparr>),
         switchuvm (Some p)])
       (Ret 0)))))"

definition allocproc3 :: "nat option kprog" where
  "allocproc3 =
     thenK (acquire PtableLock)
     (bindK (gets (\<lambda>k. find (\<lambda>i. p_state (ptable k i) = UNUSED) [0..<NPROC])) (\<lambda>found.
      case found of
        None \<Rightarrow> thenK (release PtableLock) (Ret None)
      | Some p \<Rightarrow>
          thenK (seqK [
            modp p (\<lambda>pr. pr\<lparr>p_state := EMBRYO\<rparr>),
            modify (\<lambda>k. set_proc p (\<lambda>pr. pr\<lparr>p_pid := nextpid k\<rparr>) k),
            modify (\<lambda>k. k\<lparr>nextpid := nextpid k + 1\<rparr>),
            modp p (\<lambda>pr. pr\<lparr>p_shaddr := KERNBASE\<rparr>),
            release PtableLock])
          (alloc_kstack p)))"

definition reap3 :: "nat \<Rightarrow> int kprog" where
  "reap3 p =
     bindK (getp p p_pid) (\<lambda>pid.
     thenK (seqK [
       deallocProcAllSharedVM p,
       bindK (getp p p_kstack) kfree,
       modp p (\<lambda>pr. pr\<lparr>p_kstack := 0\<rparr>),
       bindK (getp p p_pgdir) freevm,
       modp p (\<lambda>pr. pr\<lparr>p_state := UNUSED, p_pid := 0, p_parent := None, p_killed := 0, p_name := (p_name pr)[0 := 0]\<rparr>)])
     (Ret pid))"

definition wait3 :: "int kprog" where
  "wait3 =
     bindK curproc (\<lambda>c.
     thenK (acquire PtableLock)
     (wait_for
       (bindK (gets (\<lambda>k. find (\<lambda>i. p_parent (ptable k i) = Some c \<and> p_state (ptable k i) = ZOMBIE) [0..<NPROC])) (\<lambda>z.
        case z of
          Some p \<Rightarrow> bindK (reap3 p) (\<lambda>pid. thenK (release PtableLock) (Ret (Some pid)))
        | None \<Rightarrow>
            bindK (gets (\<lambda>k. (\<exists>i\<in>set [0..<NPROC]. p_parent (ptable k i) = Some c))) (\<lambda>havekids.
            bindK (getp c p_killed) (\<lambda>dead.
            if \<not> havekids \<or> dead \<noteq> 0 then thenK (release PtableLock) (Ret (Some (- 1)))
            else thenK (sleep (Some (ChProc c)) (Some PtableLock)) (Ret None)))))))"

end
