(* ===== verification/Shm_Map.thy ===== *)
theory Shm_Map
  imports Shm
begin

text \<open>
  What \<open>GetSharedPage\<close> gives a process: the pages of the region, below its other shared pages and in the same
  order in every process, and what is left when a page cannot be mapped.
\<close>

section \<open>Operations on memory\<close>

text \<open>What allocating and mapping pages does not change.\<close>

definition kept :: "kernel \<Rightarrow> kernel \<Rightarrow> bool" where
  "kept k k' \<longleftrightarrow> ptable k' = ptable k \<and> sharedRegions k' = sharedRegions k \<and> this_cpu k' = this_cpu k \<and>
     c_ncli (cpu_of k') = c_ncli (cpu_of k) \<and> c_proc (cpu_of k') = c_proc (cpu_of k) \<and> eflags_if k' = eflags_if k \<and>
     (c_ncli (cpu_of k) \<noteq> 0 \<longrightarrow> c_intena (cpu_of k') = c_intena (cpu_of k))"

lemma kept_refl [simp]: "kept k k"
  by (simp add: kept_def)

lemma kept_trans: "kept a b \<Longrightarrow> kept b c \<Longrightarrow> kept a c"
  by (simp add: kept_def)

lemma kept_mem [simp]: "kept k (k'\<lparr>mem := m\<rparr>) = kept k k'" "kept (k\<lparr>freelist := f\<rparr>) k' = kept k k'"
  by (simp_all add: kept_def cpu_of_def this_cpu_def)

lemma kept_synced: "synced k k' \<Longrightarrow> kept k k'"
proof -
  assume s: "synced k k'"
  then have c: "cpu_same (cpus k c) (cpus k' c)" for c by (simp add: synced_def)
  have "c_intena (cpu_of k') = c_intena (cpu_of k)" if "c_ncli (cpu_of k) \<noteq> 0"
    using c[of "the (this_cpu k)"] that synced_cpu(1)[OF s] by (simp add: cpu_of_def cpu_same_def)
  then show ?thesis using s synced_cpu[OF s] by (auto simp: kept_def elim!: syncedE)
qed

lemma kalloc_kept: "kready k \<Longrightarrow> kalloc (k, env) = Ret r (k', env') \<Longrightarrow> kept k k'"
proof -
  assume "kready k" "kalloc (k, env) = Ret r (k', env')"
  then have "synced (if freelist k = 0 then k else k\<lparr>freelist := load32 (mem k) (freelist k)\<rparr>) k'"
    using kalloc_Ret[of k env] by (metis outcome.inject(1) prod.inject)
  then show ?thesis by (auto dest: kept_synced split: if_splits)
qed

lemma walkpgdir_kept: "kready k \<Longrightarrow> walkpgdir pgdir va alloc (k, env) = Ret pte (k', env') \<Longrightarrow> kept k k'"
  by (auto simp: walkpgdir_def Let_def setmem_def bindK_eq_Ret thenK_eq_Ret gets_def modify_def dest: kalloc_kept split: if_splits)

lemma mappages_kept:
  assumes "kready k" "va mod PGSIZE = 0" "mappages pgdir va PGSIZE pa perm (k, env) = Ret r (k', env')"
  shows "kept k k'"
  using assms(3) walkpgdir_kept[OF assms(1)] unfolding mappages_one[OF assms(2)]
  by (fastforce simp: bindK_eq_Ret thenK_eq_Ret setmem_def gets_def modify_def split: if_splits)

lemma mappages_wp:
  assumes "kready k" "free_pages k ps" "pt_wf (mem k) pgdir ps" "va mod PGSIZE = 0" "pt_lookup (mem k) pgdir va = None"
  shows "wp (mappages pgdir va PGSIZE pa perm) (\<lambda>r (k', env'). kready k' \<and> env' = env \<and> kept k k' \<and>
    (if r = 0 then (\<exists>ps'. length ps \<le> length ps' + 1 \<and> free_pages k' ps' \<and> pt_wf (mem k') pgdir ps') \<and>
       (\<forall>va'. pt_lookup (mem k') pgdir va' =
         (if PGROUNDDOWN va' = va then Some (pa OR perm OR PTE_P) else pt_lookup (mem k) pgdir va'))
     else r = - 1 \<and> ps = [])) (k, env)"
proof -
  obtain r k' where r: "mappages pgdir va PGSIZE pa perm (k, env) = Ret r (k', env)" and
    q: "kready k'" "if r = 0 then (\<exists>ps'. (ps' = ps \<or> (\<exists>t. ps = t # ps')) \<and> free_pages k' ps' \<and> pt_wf (mem k') pgdir ps') \<and>
       (\<forall>va'. pt_lookup (mem k') pgdir va' =
         (if PGROUNDDOWN va' = va then Some (pa OR perm OR PTE_P) else pt_lookup (mem k) pgdir va'))
     else r = - 1 \<and> ps = [] \<and> mem k' = mem k \<and> free_pages k' []"
    using mappages_page_wp[OF assms, of pa perm env] by (auto simp: wp_iff)
  have "\<exists>ps'. length ps \<le> length ps' + 1 \<and> free_pages k' ps' \<and> pt_wf (mem k') pgdir ps'" if "r = 0"
  proof -
    from q(2) that obtain ps' where ps': "ps' = ps \<or> (\<exists>t. ps = t # ps')" "free_pages k' ps'" "pt_wf (mem k') pgdir ps'" by auto
    then have "length ps \<le> length ps' + 1" by auto
    then show ?thesis using ps' by blast
  qed
  then show ?thesis using q mappages_kept[OF assms(1,4) r] by (simp add: wp_def r split: if_splits)
qed

section \<open>Mapping a region\<close>

text \<open>The pages below \<open>sh\<close>, from the top: page \<open>j\<close> starts at \<open>shva sh j\<close>.\<close>

definition shva :: "addr \<Rightarrow> nat \<Rightarrow> addr" where
  "shva sh j = sh - of_nat (j + 1) * PGSIZE"

lemma shva_Suc: "shva sh (Suc j) = shva (sh - PGSIZE) j"
  by (simp add: shva_def algebra_simps)

lemma shva_0: "shva sh 0 = sh - PGSIZE"
  by (simp add: shva_def)

lemma aligned_sub: "sh mod PGSIZE = 0 \<Longrightarrow> (sh - PGSIZE) mod PGSIZE = 0"
proof -
  assume "sh mod PGSIZE = 0"
  then have "4096 dvd unat sh" by (simp only: aligned_unat mod_eq_0_iff_dvd)
  moreover have "unat (sh - PGSIZE) = (if 4096 \<le> unat sh then unat sh - 4096 else unat sh + 2 ^ 32 - 4096)"
    by (simp add: unat_sub_if')
  moreover have "4096 dvd (2 ^ 32 :: nat)" by simp
  ultimately have "4096 dvd unat (sh - PGSIZE)" by (metis dvd_add dvd_diff_nat dvd_refl)
  then show ?thesis by (simp only: aligned_unat mod_eq_0_iff_dvd)
qed

lemma shva_aligned: "sh mod PGSIZE = 0 \<Longrightarrow> shva sh j mod PGSIZE = 0"
  by (induction j arbitrary: sh) (simp_all add: shva_0 shva_Suc aligned_sub)

lemma shva_inj: "i < 2 ^ 19 \<Longrightarrow> j < 2 ^ 19 \<Longrightarrow> shva sh i = shva sh j \<Longrightarrow> i = j"
proof -
  assume n: "i < 2 ^ 19" "j < 2 ^ 19" and e: "shva sh i = shva sh j"
  have u: "unat (of_nat (m + 1) * PGSIZE :: addr) = (m + 1) * 4096" if "m < 2 ^ 19" for m
    using that by (simp add: unat_word_ariths(1,2) unat_of_nat)
  have "of_nat (i + 1) * PGSIZE = (of_nat (j + 1) * PGSIZE :: addr)" using e unfolding shva_def by (metis diff_left_imp_eq)
  then have "(i + 1) * 4096 = (j + 1) * 4096" using u[OF n(1)] u[OF n(2)] by metis
  then show ?thesis by simp
qed

text \<open>What a process needs to have \<open>n\<close> more shared pages mapped.\<close>

definition room_below :: "kernel \<Rightarrow> nat \<Rightarrow> nat \<Rightarrow> bool" where
  "room_below k p n \<longleftrightarrow> (let sh = p_shaddr (ptable k p) in sh mod PGSIZE = 0 \<and>
     (\<forall>j < n. pt_lookup (mem k) (p_pgdir (ptable k p)) (shva sh j) = None))"

text \<open>\<open>mapped k p key is k'\<close>: the pages \<open>is\<close> of the region have been mapped for process \<open>p\<close>, and nothing else.\<close>

definition mapped :: "kernel \<Rightarrow> nat \<Rightarrow> nat \<Rightarrow> nat list \<Rightarrow> kernel \<Rightarrow> bool" where
  "mapped k p key is k' \<longleftrightarrow> (let sh = p_shaddr (ptable k p); pgdir = p_pgdir (ptable k p) in
     kept (set_proc p (\<lambda>pr. pr\<lparr>p_shaddr := sh - of_nat (length is) * PGSIZE\<rparr>) k) k' \<and>
     (\<forall>va. pt_lookup (mem k') pgdir va = (case find (\<lambda>j. PGROUNDDOWN va = shva sh j) [0..<length is] of
        None \<Rightarrow> pt_lookup (mem k) pgdir va
      | Some j \<Rightarrow> Some (sr_pages (sharedRegions k key) (is ! j) OR (PTE_W OR PTE_U) OR PTE_P))))"

lemma set_proc_cpu [simp]: "this_cpu (set_proc p f k) = this_cpu k" "cpu_of (set_proc p f k) = cpu_of k"
  "eflags_if (set_proc p f k) = eflags_if k" "sharedRegions (set_proc p f k) = sharedRegions k" "mem (set_proc p f k) = mem k"
  by (simp_all add: set_proc_def cpu_of_def this_cpu_def)

lemma kept_set_proc: "kept k k' \<Longrightarrow> kept (set_proc p f k) (set_proc p f k')"
  by (simp add: kept_def set_proc_def[of _ _ k] set_proc_def[of _ _ k'])

lemma find_upt_Suc: "find P [0..<Suc n] = (if P 0 then Some 0 else map_option Suc (find (\<lambda>j. P (Suc j)) [0..<n]))"
proof -
  have "find P (map Suc xs) = map_option Suc (find (\<lambda>j. P (Suc j)) xs)" for xs by (induction xs) simp_all
  from this[of "[0..<n]"] show ?thesis by (simp add: upt_conv_Cons map_Suc_upt del: upt_Suc)
qed

lemma mapped_Cons:
  assumes k2: "kept (set_proc p (\<lambda>pr. pr\<lparr>p_shaddr := p_shaddr pr - PGSIZE\<rparr>) k) k2"
    and l: "\<And>va. pt_lookup (mem k2) (p_pgdir (ptable k p)) va = (if PGROUNDDOWN va = p_shaddr (ptable k p) - PGSIZE
      then Some (sr_pages (sharedRegions k key) i OR (PTE_W OR PTE_U) OR PTE_P) else pt_lookup (mem k) (p_pgdir (ptable k p)) va)"
    and m: "mapped k2 p key is k'" and n: "length (i # is) < 2 ^ 19"
  shows "mapped k p key (i # is) k'"
proof -
  let ?sh = "p_shaddr (ptable k p)" and ?pgdir = "p_pgdir (ptable k p)"
  let ?k1 = "set_proc p (\<lambda>pr. pr\<lparr>p_shaddr := p_shaddr pr - PGSIZE\<rparr>) k"
  let ?f = "\<lambda>pr. pr\<lparr>p_shaddr := ?sh - PGSIZE - of_nat (length is) * PGSIZE\<rparr> :: proc"
  have p2: "sharedRegions k2 = sharedRegions k" "p_pgdir (ptable k2 p) = ?pgdir" "p_shaddr (ptable k2 p) = ?sh - PGSIZE"
    using k2 by (simp_all add: kept_def set_proc_def[of _ _ k])
  have "kept (set_proc p ?f k2) k'" using m by (simp add: mapped_def Let_def p2)
  then have "kept (set_proc p ?f ?k1) k'" using kept_trans[OF kept_set_proc[OF k2]] by blast
  moreover have "set_proc p ?f ?k1 = set_proc p (\<lambda>pr. pr\<lparr>p_shaddr := ?sh - of_nat (length (i # is)) * PGSIZE\<rparr>) k"
    by (simp add: set_proc_def algebra_simps)
  moreover have "pt_lookup (mem k') ?pgdir va = (case find (\<lambda>j. PGROUNDDOWN va = shva ?sh j) [0..<length (i # is)] of
        None \<Rightarrow> pt_lookup (mem k) ?pgdir va
      | Some j \<Rightarrow> Some (sr_pages (sharedRegions k key) ((i # is) ! j) OR (PTE_W OR PTE_U) OR PTE_P))" for va
  proof -
    have "pt_lookup (mem k') ?pgdir va = (case find (\<lambda>j. PGROUNDDOWN va = shva ?sh (Suc j)) [0..<length is] of
        None \<Rightarrow> pt_lookup (mem k2) ?pgdir va
      | Some j \<Rightarrow> Some (sr_pages (sharedRegions k key) (is ! j) OR (PTE_W OR PTE_U) OR PTE_P))"
      using m by (simp add: mapped_def Let_def p2 shva_Suc cong: option.case_cong)
    moreover have "find (\<lambda>j. PGROUNDDOWN va = shva ?sh (Suc j)) [0..<length is] = None" if "PGROUNDDOWN va = shva ?sh 0"
    proof -
      have "shva ?sh 0 \<noteq> shva ?sh (Suc j)" if "j < length is" for j using shva_inj[of 0 "Suc j" ?sh] that n by auto
      then show ?thesis using that by (simp add: find_None_iff)
    qed
    ultimately show ?thesis unfolding length_Cons find_upt_Suc
      by (auto simp: l shva_0 split: option.split)
  qed
  ultimately show ?thesis unfolding mapped_def Let_def by simp
qed

lemma map_region_pages_wp:
  "kready k \<Longrightarrow> free_pages k ps \<Longrightarrow> pt_wf (mem k) (p_pgdir (ptable k p)) ps \<Longrightarrow> room_below k p (length is) \<Longrightarrow>
   length is < 2 ^ 19 \<Longrightarrow> length is \<le> length ps \<Longrightarrow>
   wp (map_region_pages p key is) (\<lambda>ok (k', env'). ok \<and> env' = env \<and> kready k' \<and> mapped k p key is k' \<and>
     (\<exists>ps'. length ps \<le> length ps' + length is \<and> free_pages k' ps' \<and> pt_wf (mem k') (p_pgdir (ptable k p)) ps')) (k, env)"
proof (induction "is" arbitrary: k ps)
  case Nil
  have "set_proc p (\<lambda>pr. pr\<lparr>p_shaddr := p_shaddr (ptable k p)\<rparr>) k = k" by (simp add: set_proc_def)
  then show ?case using Nil by (auto simp: mapped_def Let_def)
next
  case (Cons i "is")
  let ?sh = "p_shaddr (ptable k p)" and ?pgdir = "p_pgdir (ptable k p)"
  let ?k1 = "set_proc p (\<lambda>pr. pr\<lparr>p_shaddr := p_shaddr pr - PGSIZE\<rparr>) k"
  let ?pa = "sr_pages (sharedRegions k key) i"
  have k1: "kready ?k1" "free_pages ?k1 ps" "pt_wf (mem ?k1) ?pgdir ps" "mem ?k1 = mem k"
    using Cons.prems(1-3) by (simp_all add: set_proc_def kready_def free_pages_def page_ok_def cpu_ok_def cpu_of_def this_cpu_def lock_free_def)
  have sh: "?sh mod PGSIZE = 0" "pt_lookup (mem k) ?pgdir (?sh - PGSIZE) = None"
    using Cons.prems(4) shva_0 by (auto simp: room_below_def Let_def)
  have "wp (mappages ?pgdir (?sh - PGSIZE) PGSIZE ?pa (PTE_W OR PTE_U)) (\<lambda>r (k', env'). r = 0 \<and> kready k' \<and> env' = env \<and> kept ?k1 k' \<and>
     (\<exists>ps'. length ps \<le> length ps' + 1 \<and> free_pages k' ps' \<and> pt_wf (mem k') ?pgdir ps') \<and>
     (\<forall>va'. pt_lookup (mem k') ?pgdir va' =
        (if PGROUNDDOWN va' = ?sh - PGSIZE then Some (?pa OR (PTE_W OR PTE_U) OR PTE_P) else pt_lookup (mem k) ?pgdir va'))) (?k1, env)"
    by (rule wp_mono[OF mappages_wp[OF k1(1-3) aligned_sub[OF sh(1)]]]) (use sh Cons.prems(6) k1(4) in \<open>auto split: if_splits\<close>)
  then obtain k2 ps2 where k2: "mappages ?pgdir (?sh - PGSIZE) PGSIZE ?pa (PTE_W OR PTE_U) (?k1, env) = Ret 0 (k2, env)" "kready k2"
      "kept ?k1 k2" "length ps \<le> length ps2 + 1" "free_pages k2 ps2" "pt_wf (mem k2) ?pgdir ps2"
      "\<And>va'. pt_lookup (mem k2) ?pgdir va' =
        (if PGROUNDDOWN va' = ?sh - PGSIZE then Some (?pa OR (PTE_W OR PTE_U) OR PTE_P) else pt_lookup (mem k) ?pgdir va')"
    unfolding wp_iff by auto
  have p2: "ptable k2 = ptable ?k1" "sharedRegions k2 = sharedRegions k" "p_pgdir (ptable k2 p) = ?pgdir" "p_shaddr (ptable k2 p) = ?sh - PGSIZE"
    using k2(3) by (simp_all add: kept_def set_proc_def)
  have room2: "room_below k2 p (length is)"
    unfolding room_below_def Let_def p2(3,4)
  proof (intro conjI allI impI)
    show "(?sh - PGSIZE) mod PGSIZE = 0" by (rule aligned_sub[OF sh(1)])
    show "pt_lookup (mem k2) ?pgdir (shva (?sh - PGSIZE) j) = None" if j: "j < length is" for j
    proof -
      have "shva ?sh (Suc j) \<noteq> shva ?sh 0" using shva_inj[of "Suc j" 0 ?sh] Cons.prems(5) j by auto
      then have "PGROUNDDOWN (shva (?sh - PGSIZE) j) \<noteq> ?sh - PGSIZE"
        using rounddown_id[OF shva_aligned[OF sh(1)]] by (simp add: shva_Suc[symmetric] shva_0)
      moreover have "pt_lookup (mem k) ?pgdir (shva ?sh (Suc j)) = None"
        using Cons.prems(4) j by (simp add: room_below_def Let_def)
      ultimately show ?thesis by (simp add: k2(7) shva_Suc)
    qed
  qed
  have ih: "wp (map_region_pages p key is) (\<lambda>ok (k', env'). ok \<and> env' = env \<and> kready k' \<and> mapped k2 p key is k' \<and>
     (\<exists>ps'. length ps2 \<le> length ps' + length is \<and> free_pages k' ps' \<and> pt_wf (mem k') ?pgdir ps')) (k2, env)"
    using Cons.IH[OF k2(2,5) _ room2] k2(4,6) p2(3) Cons.prems(5,6) by simp
  have m: "mapped k p key (i # is) k'" if "mapped k2 p key is k'" for k'
    using mapped_Cons[OF k2(3,7) that Cons.prems(5)] .
  have "wp (map_region_pages p key is) (\<lambda>ok (k', env'). ok \<and> env' = env \<and> kready k' \<and> mapped k p key (i # is) k' \<and>
     (\<exists>ps'. length ps \<le> length ps' + length (i # is) \<and> free_pages k' ps' \<and> pt_wf (mem k') ?pgdir ps')) (k2, env)"
  proof (rule wp_mono[OF ih])
    fix ok s' assume "case s' of (k', env') \<Rightarrow> ok \<and> env' = env \<and> kready k' \<and> mapped k2 p key is k' \<and>
      (\<exists>ps'. length ps2 \<le> length ps' + length is \<and> free_pages k' ps' \<and> pt_wf (mem k') ?pgdir ps')"
    then obtain k' ps' where o: "s' = (k', env)" "ok" "kready k'" "mapped k2 p key is k'" "length ps2 \<le> length ps' + length is"
      "free_pages k' ps'" "pt_wf (mem k') ?pgdir ps'" by (cases s') auto
    moreover have "length ps \<le> length ps' + length (i # is)" using o(5) k2(4) by simp
    ultimately show "case s' of (k', env') \<Rightarrow> ok \<and> env' = env \<and> kready k' \<and> mapped k p key (i # is) k' \<and>
      (\<exists>ps'. length ps \<le> length ps' + length (i # is) \<and> free_pages k' ps' \<and> pt_wf (mem k') ?pgdir ps')" using m by blast
  qed
  moreover have "wp (mappages ?pgdir (?sh - PGSIZE) PGSIZE ?pa (PTE_W OR PTE_U)) (\<lambda>r s. r = 0 \<and> s = (k2, env)) (?k1, env)"
    unfolding wp_def k2(1) by simp
  ultimately show ?case
    by (simp add: modp_def getp_def getr_def set_proc_def[of p _ k]) (auto simp: set_proc_def elim!: wp_mono)
qed

section \<open>\<open>mapSharedRegion\<close>\<close>

definition got_region :: "kernel \<Rightarrow> nat \<Rightarrow> nat \<Rightarrow> nat \<Rightarrow> addr \<Rightarrow> kernel \<Rightarrow> bool" where
  "got_region k p key n va k' \<longleftrightarrow> (let pgdir = p_pgdir (ptable k p); sh = p_shaddr (ptable k p) in
     va = sh - of_nat n * PGSIZE \<and>
     ptable k' = (ptable k)(p := set_ref key \<lparr>sf_region = Some key, sf_va = va\<rparr> ((ptable k p)\<lparr>p_shaddr := va\<rparr>)) \<and>
     sharedRegions k' = (sharedRegions k)(key := (sharedRegions k key)\<lparr>sr_refCount := sr_refCount (sharedRegions k key) + 1\<rparr>) \<and>
     eflags_if k' = eflags_if k \<and> c_ncli (cpu_of k') = c_ncli (cpu_of k) \<and>
     (\<forall>i < n. pt_lookup (mem k') pgdir (va + of_nat i * PGSIZE) =
        Some (sr_pages (sharedRegions k key) (n - 1 - i) OR (PTE_W OR PTE_U) OR PTE_P)) \<and>
     (\<forall>a. (\<forall>i < n. PGROUNDDOWN a \<noteq> va + of_nat i * PGSIZE) \<longrightarrow> pt_lookup (mem k') pgdir a = pt_lookup (mem k) pgdir a))"

lemma shva_up: "i < n \<Longrightarrow> sh - of_nat n * PGSIZE + of_nat i * PGSIZE = shva sh (n - 1 - i)"
proof -
  assume "i < n"
  then have "of_nat n = (of_nat (n - 1 - i + 1) + of_nat i :: addr)" by (simp flip: of_nat_add)
  then show ?thesis by (simp add: shva_def algebra_simps)
qed

lemma mapped_pages:
  assumes m: "mapped k p key [0..<n] k'" and sh: "p_shaddr (ptable k p) mod PGSIZE = 0" and n: "n < 2 ^ 19"
  defines "va \<equiv> p_shaddr (ptable k p) - of_nat n * PGSIZE" and "pgdir \<equiv> p_pgdir (ptable k p)"
  shows "i < n \<Longrightarrow> pt_lookup (mem k') pgdir (va + of_nat i * PGSIZE) =
      Some (sr_pages (sharedRegions k key) (n - 1 - i) OR (PTE_W OR PTE_U) OR PTE_P)"
    "(\<forall>i < n. PGROUNDDOWN a \<noteq> va + of_nat i * PGSIZE) \<Longrightarrow> pt_lookup (mem k') pgdir a = pt_lookup (mem k) pgdir a"
proof -
  let ?sh = "p_shaddr (ptable k p)"
  have l: "pt_lookup (mem k') pgdir a = (case find (\<lambda>j. PGROUNDDOWN a = shva ?sh j) [0..<n] of
        None \<Rightarrow> pt_lookup (mem k) pgdir a
      | Some j \<Rightarrow> Some (sr_pages (sharedRegions k key) ([0..<n] ! j) OR (PTE_W OR PTE_U) OR PTE_P))" for a
    using m unfolding pgdir_def by (simp add: mapped_def Let_def)
  show "pt_lookup (mem k') pgdir (va + of_nat i * PGSIZE) =
      Some (sr_pages (sharedRegions k key) (n - 1 - i) OR (PTE_W OR PTE_U) OR PTE_P)" if i: "i < n"
  proof -
    let ?j = "n - 1 - i"
    have u: "shva ?sh ?j \<noteq> shva ?sh j" if "j < ?j" for j
    proof
      assume "shva ?sh ?j = shva ?sh j"
      moreover have "?j < 2 ^ 19" "j < 2 ^ 19" using that i n by linarith+
      ultimately show False using shva_inj[of ?j j ?sh] that by simp
    qed
    have "find (\<lambda>j. PGROUNDDOWN (shva ?sh ?j) = shva ?sh j) [0..<n] = Some ?j"
      unfolding rounddown_id[OF shva_aligned[OF sh]] find_Some_iff using i u by (intro exI[of _ ?j]) simp
    then show ?thesis unfolding va_def shva_up[OF i] l using i by simp
  qed
  show "pt_lookup (mem k') pgdir a = pt_lookup (mem k) pgdir a" if a: "\<forall>i < n. PGROUNDDOWN a \<noteq> va + of_nat i * PGSIZE"
  proof -
    have "PGROUNDDOWN a \<noteq> shva ?sh j" if "j < n" for j
      using a[rule_format, of "n - 1 - j"] shva_up[of "n - 1 - j" n ?sh] that by (simp add: va_def)
    then have "find (\<lambda>j. PGROUNDDOWN a = shva ?sh j) [0..<n] = None" by (simp add: find_None_iff)
    then show ?thesis by (simp add: l)
  qed
qed

lemma push_k_keeps [simp]: "mem (push_k k) = mem k" "ptable (push_k k) = ptable k" "sharedRegions (push_k k) = sharedRegions k"
  "freelist (push_k k) = freelist k" "syms (push_k k) = syms k" "use_lock (push_k k) = use_lock k" "nextpid (push_k k) = nextpid k"
  by (simp_all add: push_k_def set_cpu_def)

lemma push_k_ready: "cpu_ok k \<Longrightarrow> kready k \<Longrightarrow> kready (push_k k)" "free_pages (push_k k) ps = free_pages k ps"
  by (simp_all add: kready_def cpu_ok_push lock_free_def free_pages_def page_ok_def)

lemma pop_k_keeps [simp]: "mem (pop_k k) = mem k" "ptable (pop_k k) = ptable k" "sharedRegions (pop_k k) = sharedRegions k"
  by (simp_all add: pop_k_def set_cpu_def)

lemma pop_after_push:
  assumes "cpu_ok k" "c_ncli (cpu_of k') = c_ncli (cpu_of (push_k k))" "c_intena (cpu_of k') = c_intena (cpu_of (push_k k))"
  shows "eflags_if (pop_k k') = eflags_if k" "c_ncli (cpu_of (pop_k k')) = c_ncli (cpu_of k)"
  using assms by (auto simp: pop_k_def push_k_def cpu_ok_def)

lemma mapSharedRegion_wp:
  assumes ok: "cpu_ok k" "kready k" "free_pages k ps" "pt_wf (mem k) (p_pgdir (ptable k p)) ps" "room_below k p n"
    and n: "n = nat (sr_pageCount (sharedRegions k key))" "n < 2 ^ 19" "n \<le> length ps"
    and ref: "sf_region (p_shared (ptable k p) key) = None"
  shows "wp (mapSharedRegion p key) (\<lambda>va (k', env'). env' = env \<and> got_region k p key n va k') (k, env)"
proof -
  let ?k1 = "push_k k"
  have "wp (map_region_pages p key [0..<n]) (\<lambda>ok (k', env'). ok \<and> env' = env \<and> kready k' \<and> mapped ?k1 p key [0..<n] k' \<and>
     (\<exists>ps'. length ps \<le> length ps' + length [0..<n] \<and> free_pages k' ps' \<and> pt_wf (mem k') (p_pgdir (ptable ?k1 p)) ps')) (?k1, env)"
    using ok n push_k_ready by (intro map_region_pages_wp) (simp_all add: room_below_def)
  then obtain k2 where k2: "map_region_pages p key [0..<n] (?k1, env) = Ret True (k2, env)" "mapped ?k1 p key [0..<n] k2"
    by (auto simp: wp_iff)
  let ?va = "p_shaddr (ptable k p) - of_nat n * PGSIZE"
  have e: "ptable k2 = (ptable k)(p := (ptable k p)\<lparr>p_shaddr := ?va\<rparr>)" "sharedRegions k2 = sharedRegions k" "this_cpu k2 = this_cpu k"
      "c_ncli (cpu_of k2) = c_ncli (cpu_of ?k1)" "c_intena (cpu_of k2) = c_intena (cpu_of ?k1)" "\<not> eflags_if k2"
    using k2(2) ok(1) by (auto simp: mapped_def Let_def kept_def cpu_ok_def set_proc_def[of p])
  have sh: "p_shaddr (ptable k p) mod PGSIZE = 0" using ok(5) by (simp add: room_below_def Let_def)
  note P = mapped_pages[OF k2(2) _ n(2)]
  let ?k3 = "k2\<lparr>sharedRegions := (sharedRegions k2)(key := (sharedRegions k2 key)\<lparr>sr_refCount := sr_refCount (sharedRegions k2 key) + 1\<rparr>)\<rparr>"
  let ?k4 = "set_proc p (set_ref key \<lparr>sf_region = Some key, sf_va = ?va\<rparr>) (pop_k ?k3)"
  have c3: "cpu_of ?k3 = cpu_of k2" "this_cpu ?k3 = this_cpu k2" by (simp_all add: cpu_of_def this_cpu_def)
  have pop: "popcli (?k3, env) = Ret () (pop_k ?k3, env)"
    using e c3 ok(1) by (intro popcli_Ret) (auto simp: cpu_ok_def)
  have "mapSharedRegion p key (k, env) = Ret ?va (?k4, env)"
    using ref k2(1) e(1) pop ok(1) n(1) pushcli_Ret[of k env]
    by (simp add: mapSharedRegion_def getp_def getr_def modr_def modp_def kM_simps cpu_ok_def)
  moreover have "got_region k p key n ?va ?k4"
    unfolding got_region_def Let_def using pop_after_push[OF ok(1), of ?k3] e c3 P sh
    by (simp add: set_proc_def[of p])
  ultimately show ?thesis by (simp add: wp_def)
qed

section \<open>Creating a region\<close>

lemma pt_memset:
  assumes "pt_wf m pgdir (q # ps)" "q mod PGSIZE = 0"
  shows "pt_wf (memset m q c PGSIZE) pgdir ps" "pt_lookup (memset m q c PGSIZE) pgdir va = pt_lookup m pgdir va"
proof -
  have b: "pgdir mod PGSIZE = 0" "q \<noteq> pgdir" using assms(1) by (auto simp: pt_wf_def)
  note T = pd_table_memset[OF b(1) assms(2) b(2)]
  show "pt_wf (memset m q c PGSIZE) pgdir ps" using assms(1) unfolding pt_wf_def by (auto simp: T)
  have "load32 (memset m q c PGSIZE) (slot t (unat (PTX va))) = load32 m (slot t (unat (PTX va)))"
    if "pd_table m pgdir (unat (PDX va)) = Some t" for t
  proof -
    have "q \<noteq> t" using assms(1) that PDX_less[of va] by (auto simp: pt_wf_def)
    then show ?thesis using pd_table_aligned[OF that] assms(2) PTX_less by (intro load_slot_memset) auto
  qed
  then show "pt_lookup (memset m q c PGSIZE) pgdir va = pt_lookup m pgdir va"
    by (simp add: pt_lookup_slot T PDX_less split: option.splits)
qed

definition set_region :: "nat \<Rightarrow> (sharedRegion \<Rightarrow> sharedRegion) \<Rightarrow> kernel \<Rightarrow> kernel" where
  "set_region key f k = k\<lparr>sharedRegions := (sharedRegions k)(key := f (sharedRegions k key))\<rparr>"

lemma set_region_sel [simp]: "this_cpu (set_region key f k) = this_cpu k" "cpu_of (set_region key f k) = cpu_of k"
  "eflags_if (set_region key f k) = eflags_if k" "ptable (set_region key f k) = ptable k" "mem (set_region key f k) = mem k"
  "sharedRegions (set_region key f k) = (sharedRegions k)(key := f (sharedRegions k key))"
  "kready (set_region key f k) = kready k" "free_pages (set_region key f k) = free_pages k"
  by (auto simp: set_region_def cpu_of_def this_cpu_def kready_def cpu_ok_def lock_free_def free_pages_def page_ok_def fun_eq_iff)

lemma kept_set_region: "kept k k' \<Longrightarrow> kept (set_region key f k) (set_region key f k')"
  by (simp add: kept_def)

lemma alloc_region_pages_wp:
  "kready k \<Longrightarrow> free_pages k ps \<Longrightarrow> pt_wf (mem k) pgdir ps \<Longrightarrow> length is \<le> length ps \<Longrightarrow> distinct is \<Longrightarrow>
   wp (alloc_region_pages key is) (\<lambda>ok (k', env'). ok \<and> env' = env \<and> kready k' \<and> free_pages k' (drop (length is) ps) \<and>
     pt_wf (mem k') pgdir (drop (length is) ps) \<and> (\<forall>va. pt_lookup (mem k') pgdir va = pt_lookup (mem k) pgdir va) \<and>
     (\<exists>g. kept (set_region key (\<lambda>r. r\<lparr>sr_pages := g\<rparr>) k) k' \<and> (\<forall>j < length is. g (is ! j) = V2P (ps ! j)) \<and>
        (\<forall>i. i \<notin> set is \<longrightarrow> g i = sr_pages (sharedRegions k key) i))) (k, env)"
proof (induction "is" arbitrary: k ps)
  case Nil
  have "set_region key (\<lambda>r. r\<lparr>sr_pages := sr_pages (sharedRegions k key)\<rparr>) k = k" by (simp add: set_region_def)
  then show ?case using Nil by (auto intro!: exI[of _ "sr_pages (sharedRegions k key)"])
next
  case (Cons i "is")
  then obtain q qs where ps: "ps = q # qs" by (cases ps) auto
  have q: "q mod PGSIZE = 0" "q \<noteq> 0" "q \<notin> set qs"
    using Cons.prems(2) page_ok_nonzero[of k q] by (auto simp: free_pages_def page_ok_def ps)
  obtain k1 where k1: "kalloc (k, env) = Ret q (k1, env)" "kready k1" "mem k1 = mem k" "free_pages k1 qs"
    using kalloc_stack[OF Cons.prems(1,2), of env] by (auto simp: wp_iff ps)
  note kk = kalloc_kept[OF Cons.prems(1) k1(1)]
  let ?k2 = "k1\<lparr>mem := memset (mem k1) q 0 PGSIZE\<rparr>"
  let ?f = "\<lambda>r. r\<lparr>sr_pages := (sr_pages r)(i := V2P q)\<rparr> :: sharedRegion"
  let ?k3 = "set_region key ?f ?k2"
  note M = pt_memset[OF Cons.prems(3)[unfolded ps] q(1)]
  have k3: "kready ?k3" "free_pages ?k3 qs" "pt_wf (mem ?k3) pgdir qs" "kept (set_region key ?f k) ?k3"
    using k1 free_pages_memset[OF k1(4) q(1,3)] M(1) kept_set_region[of k ?k2 key ?f] kk by simp_all
  let ?Q = "\<lambda>ok (k', env'). ok \<and> env' = env \<and> kready k' \<and> free_pages k' (drop (length is) qs) \<and>
     pt_wf (mem k') pgdir (drop (length is) qs) \<and> (\<forall>va. pt_lookup (mem k') pgdir va = pt_lookup (mem ?k3) pgdir va) \<and>
     (\<exists>g. kept (set_region key (\<lambda>r. r\<lparr>sr_pages := g\<rparr>) ?k3) k' \<and> (\<forall>j < length is. g (is ! j) = V2P (qs ! j)) \<and>
        (\<forall>i. i \<notin> set is \<longrightarrow> g i = sr_pages (sharedRegions ?k3 key) i))"
  have ih: "wp (alloc_region_pages key is) ?Q (?k3, env)" using Cons.IH[OF k3(1-3)] Cons.prems(4,5) ps by simp
  have step: "\<exists>g'. kept (set_region key (\<lambda>r. r\<lparr>sr_pages := g'\<rparr>) k) k' \<and> (\<forall>j < length (i # is). g' ((i # is) ! j) = V2P (ps ! j)) \<and>
        (\<forall>l. l \<notin> set (i # is) \<longrightarrow> g' l = sr_pages (sharedRegions k key) l)"
    if g: "kept (set_region key (\<lambda>r. r\<lparr>sr_pages := g\<rparr>) ?k3) k'" "\<forall>j < length is. g (is ! j) = V2P (qs ! j)"
        "\<forall>i. i \<notin> set is \<longrightarrow> g i = sr_pages (sharedRegions ?k3 key) i" for g k'
  proof (intro exI[of _ g] conjI)
    have "set_region key (\<lambda>r. r\<lparr>sr_pages := g\<rparr>) (set_region key ?f k) = set_region key (\<lambda>r. r\<lparr>sr_pages := g\<rparr>) k"
      by (simp add: set_region_def)
    then show "kept (set_region key (\<lambda>r. r\<lparr>sr_pages := g\<rparr>) k) k'" using kept_trans[OF kept_set_region[OF k3(4)] g(1)] by metis
    have "sharedRegions k1 = sharedRegions k" using kk by (simp add: kept_def)
    then show "\<forall>l. l \<notin> set (i # is) \<longrightarrow> g l = sr_pages (sharedRegions k key) l" using g(3) by simp
    have "g i = V2P q" using g(3) Cons.prems(5) by simp
    then show "\<forall>j < length (i # is). g ((i # is) ! j) = V2P (ps ! j)" using g(2) by (simp add: ps nth_Cons split: nat.split)
  qed
  have "wp (alloc_region_pages key is) (\<lambda>ok (k', env'). ok \<and> env' = env \<and> kready k' \<and> free_pages k' (drop (length (i # is)) ps) \<and>
     pt_wf (mem k') pgdir (drop (length (i # is)) ps) \<and> (\<forall>va. pt_lookup (mem k') pgdir va = pt_lookup (mem k) pgdir va) \<and>
     (\<exists>g. kept (set_region key (\<lambda>r. r\<lparr>sr_pages := g\<rparr>) k) k' \<and> (\<forall>j < length (i # is). g ((i # is) ! j) = V2P (ps ! j)) \<and>
        (\<forall>l. l \<notin> set (i # is) \<longrightarrow> g l = sr_pages (sharedRegions k key) l))) (?k3, env)"
    by (rule wp_mono[OF ih]) (use M(2) k1(3) step in \<open>auto simp: ps\<close>)
  then show ?case using k1(1) q(2) by (simp add: wp_def kM_simps setmem_def modr_def set_region_def)
qed

section \<open>\<open>allocSharedVM\<close>\<close>

lemma pop_k_ready:
  assumes "cpu_ok (pop_k k)" "kready k"
  shows "kready (pop_k k)" "free_pages (pop_k k) = free_pages k"
  using assms by (auto simp: kready_def lock_free_def free_pages_def page_ok_def fun_eq_iff) (simp_all add: pop_k_def set_cpu_def)

text \<open>A new region: its pages are the first \<open>n\<close> free ones, zeroed, and no process refers to it yet.\<close>

definition new_region :: "addr list \<Rightarrow> nat \<Rightarrow> sharedRegion \<Rightarrow> bool" where
  "new_region ps n r \<longleftrightarrow> sr_valid r = 1 \<and> sr_refCount r = 0 \<and> sr_pageCount r = int n \<and> (\<forall>j < n. sr_pages r j = V2P (ps ! j))"

lemma create_region:
  assumes ok: "cpu_ok k" "kready k" "free_pages k ps" "pt_wf (mem k) pgdir ps" and n: "n \<le> length ps"
  obtains k' r where "\<And>f. thenK pushcli (bindK (alloc_region_pages key [0..<n]) (\<lambda>ok. if \<not> ok then Ret FAILED else
      thenK (seqK [modr key (\<lambda>r. r\<lparr>sr_valid := 1, sr_refCount := 0, sr_pageCount := int n\<rparr>), popcli]) f)) (k, env) = f (k', env)"
    "cpu_ok k'" "kready k'" "free_pages k' (drop n ps)" "pt_wf (mem k') pgdir (drop n ps)"
    "ptable k' = ptable k" "eflags_if k' = eflags_if k" "c_ncli (cpu_of k') = c_ncli (cpu_of k)"
    "\<And>va. pt_lookup (mem k') pgdir va = pt_lookup (mem k) pgdir va" "sharedRegions k' = (sharedRegions k)(key := r)" "new_region ps n r"
proof -
  let ?k1 = "push_k k" and ?m = "\<lambda>r. r\<lparr>sr_valid := 1, sr_refCount := 0, sr_pageCount := int n\<rparr> :: sharedRegion"
  have t: "this_cpu k \<noteq> None" using ok(1) by (simp add: cpu_ok_def)
  have "wp (alloc_region_pages key [0..<n]) (\<lambda>ok (k', env'). ok \<and> env' = env \<and> kready k' \<and> free_pages k' (drop n ps) \<and>
     pt_wf (mem k') pgdir (drop n ps) \<and> (\<forall>va. pt_lookup (mem k') pgdir va = pt_lookup (mem k) pgdir va) \<and>
     (\<exists>g. kept (set_region key (\<lambda>r. r\<lparr>sr_pages := g\<rparr>) ?k1) k' \<and> (\<forall>j < n. g j = V2P (ps ! j)))) (?k1, env)"
    using alloc_region_pages_wp[of ?k1 ps pgdir "[0..<n]" key env] push_k_ready(1)[OF ok(1,2)] push_k_ready(2)[of k ps] ok(3,4) n
    by (auto elim!: wp_mono)
  then obtain k2 g where k2: "alloc_region_pages key [0..<n] (?k1, env) = Ret True (k2, env)" "kready k2" "free_pages k2 (drop n ps)"
      "pt_wf (mem k2) pgdir (drop n ps)" "\<And>va. pt_lookup (mem k2) pgdir va = pt_lookup (mem k) pgdir va"
      "kept (set_region key (\<lambda>r. r\<lparr>sr_pages := g\<rparr>) ?k1) k2" "\<forall>j < n. g j = V2P (ps ! j)"
    by (auto simp: wp_iff)
  let ?k3 = "set_region key ?m k2"
  have e: "ptable k2 = ptable k" "this_cpu k2 = this_cpu k" "c_ncli (cpu_of k2) = c_ncli (cpu_of k) + 1"
      "c_intena (cpu_of k2) = c_intena (cpu_of ?k1)" "\<not> eflags_if k2"
      "sharedRegions k2 = (sharedRegions k)(key := (sharedRegions k key)\<lparr>sr_pages := g\<rparr>)"
    using k2(6) ok(1) by (auto simp: kept_def cpu_ok_def)
  have pop: "popcli (?k3, env) = Ret () (pop_k ?k3, env)" using e ok(1) by (intro popcli_Ret) (auto simp: cpu_ok_def)
  note P = pop_after_push[OF ok(1), of ?k3]
  have c: "cpu_ok (pop_k ?k3)" using P e ok(1) by (simp add: cpu_ok_def)
  have "thenK pushcli (bindK (alloc_region_pages key [0..<n]) (\<lambda>ok. if \<not> ok then Ret FAILED else
      thenK (seqK [modr key ?m, popcli]) f)) (k, env) = f (pop_k ?k3, env)" for f
    using pushcli_Ret[OF t, of env] k2(1) pop by (simp add: kM_simps modr_def set_region_def)
  then show ?thesis
    by (rule that[where r = "?m ((sharedRegions k key)\<lparr>sr_pages := g\<rparr>)"])
      (use c P e k2 pop_k_ready[OF c] in \<open>simp_all add: new_region_def\<close>)
qed

text \<open>
  C13: Shared memory is shared. A process that asks for a region it does not have yet, with enough free pages and
  room below its other shared pages, gets it: the call returns the lowest address, page \<open>i\<close> from there maps page
  \<open>n - 1 - i\<close> of the region for reading and writing, whichever process asks, and nothing else of its address space
  changes. A region that exists keeps its pages and counts one reference more; a new one gets free pages of its own
  and one reference. Other regions and processes are left alone and interrupts are as before.
\<close>
theorem shared_region_mapped:
  assumes "cpu_ok k" and "kready k" and "c_proc (cpu_of k) = Some p" and "free_pages k ps" and "pt_wf (mem k) (p_pgdir (ptable k p)) ps"
    and "key < MAX_SH_KEY" and "0 < cnt" and "cnt \<le> int MAX_SH_PAGES"
    and "sr_valid (sharedRegions k key) \<noteq> 0 \<Longrightarrow> cnt \<le> sr_pageCount (sharedRegions k key) \<and> sr_pageCount (sharedRegions k key) \<le> int MAX_SH_PAGES"
    and "n = nat (if sr_valid (sharedRegions k key) = 0 then cnt else sr_pageCount (sharedRegions k key))"
    and "2 * n \<le> length ps" and "room_below k p n" and "sf_region (p_shared (ptable k p) key) = None"
  shows "wp (allocSharedVM (int key) cnt) (\<lambda>va (k', env'). env' = env \<and>
    va = p_shaddr (ptable k p) - of_nat n * PGSIZE \<and>
    (\<forall>i < n. pt_lookup (mem k') (p_pgdir (ptable k p)) (va + of_nat i * PGSIZE) =
       Some (sr_pages (sharedRegions k' key) (n - 1 - i) OR (PTE_W OR PTE_U) OR PTE_P)) \<and>
    (\<forall>a. (\<forall>i < n. PGROUNDDOWN a \<noteq> va + of_nat i * PGSIZE) \<longrightarrow>
       pt_lookup (mem k') (p_pgdir (ptable k p)) a = pt_lookup (mem k) (p_pgdir (ptable k p)) a) \<and>
    (if sr_valid (sharedRegions k key) = 0
     then new_region ps n ((sharedRegions k' key)\<lparr>sr_refCount := 0\<rparr>) \<and> sr_refCount (sharedRegions k' key) = 1
     else sharedRegions k' key = (sharedRegions k key)\<lparr>sr_refCount := sr_refCount (sharedRegions k key) + 1\<rparr>) \<and>
    (\<forall>l. l \<noteq> key \<longrightarrow> sharedRegions k' l = sharedRegions k l) \<and>
    ptable k' = (ptable k)(p := set_ref key \<lparr>sf_region = Some key, sf_va = va\<rparr> ((ptable k p)\<lparr>p_shaddr := va\<rparr>)) \<and>
    eflags_if k' = eflags_if k \<and> c_ncli (cpu_of k') = c_ncli (cpu_of k)) (k, env)"
proof -
  let ?k0 = "touch k" and ?pgdir = "p_pgdir (ptable k p)"
  note s = synced_touch[of k]
  have k0: "cpu_ok ?k0" "kready ?k0" "free_pages ?k0 ps" "mem ?k0 = mem k" "ptable ?k0 = ptable k" "sharedRegions ?k0 = sharedRegions k"
      "eflags_if ?k0 = eflags_if k" "c_ncli (cpu_of ?k0) = c_ncli (cpu_of k)"
    using assms(1,2,4) synced_locks(3)[OF s] kready_synced[OF s] free_pages_synced[OF s] synced_sel(1)[OF s] synced_cpu[OF s]
    by (auto elim!: syncedE)
  have cp: "curproc (k, env) = Ret p (?k0, env)" using assms(1,3) by (simp add: curproc_def myproc_Ret kM_simps)
  have g: "\<not> (int key < 0 \<or> int MAX_SH_KEY \<le> int key \<or> cnt \<le> 0 \<or> int MAX_SH_PAGES < cnt)" using assms(6-8) by simp
  show ?thesis
  proof (cases "sr_valid (sharedRegions k key) = 0")
    case False
    have "wp (mapSharedRegion p key) (\<lambda>va (k', env'). env' = env \<and> got_region ?k0 p key n va k') (?k0, env)"
      using assms(5,9-13) k0 False by (intro mapSharedRegion_wp[where ps = ps]) (auto simp: room_below_def)
    moreover have "allocSharedVM (int key) cnt (k, env) = mapSharedRegion p key (?k0, env)"
      using g False assms(9) cp k0(6) by (simp add: allocSharedVM_def kM_simps getr_def)
    ultimately show ?thesis using False k0 by (auto simp: wp_def got_region_def Let_def split: outcome.splits)
  next
    case True
    have n: "int n = cnt" using True assms(7,10) by simp
    obtain k1 r where k1: "\<And>f. thenK pushcli (bindK (alloc_region_pages key [0..<n]) (\<lambda>ok. if \<not> ok then Ret FAILED else
        thenK (seqK [modr key (\<lambda>r. r\<lparr>sr_valid := 1, sr_refCount := 0, sr_pageCount := int n\<rparr>), popcli]) f)) (?k0, env) = f (k1, env)"
      "cpu_ok k1" "kready k1" "free_pages k1 (drop n ps)" "pt_wf (mem k1) ?pgdir (drop n ps)"
      "ptable k1 = ptable k" "eflags_if k1 = eflags_if k" "c_ncli (cpu_of k1) = c_ncli (cpu_of k)"
      "\<And>va. pt_lookup (mem k1) ?pgdir va = pt_lookup (mem k) ?pgdir va" "sharedRegions k1 = (sharedRegions k)(key := r)" "new_region ps n r"
      by (rule create_region[of ?k0 ps ?pgdir n key env]) (use k0 assms(5,11) in auto)
    have "wp (mapSharedRegion p key) (\<lambda>va (k', env'). env' = env \<and> got_region k1 p key n va k') (k1, env)"
      using assms(8,11-13) k1 n by (intro mapSharedRegion_wp[where ps = "drop n ps"]) (auto simp: room_below_def new_region_def)
    moreover have "allocSharedVM (int key) cnt (k, env) = mapSharedRegion p key (k1, env)"
      unfolding k1(1)[of "mapSharedRegion p key", symmetric] using g True cp k0(6)
      unfolding n[symmetric] allocSharedVM_def nat_int
      by (simp add: bindK_def[of curproc] bindK_def[of "gets f" for f] getr_def) (simp add: gets_def)
    ultimately show ?thesis using True k1(6-11) by (auto simp: wp_def got_region_def Let_def new_region_def split: outcome.splits)
  qed
qed

text \<open>A process with an empty page directory on a machine with two free pages.\<close>

definition two_page_kernel :: kernel where
  "two_page_kernel = zero_kernel\<lparr>freelist := 0x80400000, mem := store32 (\<lambda>_. 0) 0x80400000 0x80500000,
     cpus := (cpus zero_kernel)(0 := (cpus zero_kernel 0)\<lparr>c_proc := Some 0\<rparr>),
     ptable := (ptable zero_kernel)(0 := (ptable zero_kernel 0)\<lparr>p_pgdir := 0x80600000, p_shaddr := 0x80000000\<rparr>)\<rparr>"

lemma two_page_facts:
  "cpu_ok two_page_kernel" "kready two_page_kernel" "c_proc (cpu_of two_page_kernel) = Some 0"
  "free_pages two_page_kernel [0x80400000, 0x80500000]"
  "pt_wf (mem two_page_kernel) 0x80600000 [0x80400000, 0x80500000]" "pt_lookup (mem two_page_kernel) 0x80600000 va = None"
proof -
  let ?m = "store32 (\<lambda>_. 0) (slot 0x80400000 0) 0x80500000 :: memory"
  have m: "mem two_page_kernel = ?m" by (simp add: two_page_kernel_def slot_def)
  have z: "load32 (\<lambda>_. 0) x = 0" for x by (simp add: load32_def)
  have l: "load32 ?m (slot 0x80600000 d) = 0" "load32 ?m (slot 0x80400000 0) = 0x80500000" "load32 ?m (slot 0x80500000 0) = 0"
    if "d < 1024" for d using that by (simp_all add: load_slot_store z)
  have t: "pd_table ?m 0x80600000 d = None" if "d < 1024" for d by (simp add: pd_table_slot l(1)[OF that] Let_def)
  show "pt_wf (mem two_page_kernel) 0x80600000 [0x80400000, 0x80500000]" by (auto simp: pt_wf_def m t)
  show "pt_lookup (mem two_page_kernel) 0x80600000 va = None" by (simp add: pt_lookup_def m t PDX_less)
  show "free_pages two_page_kernel [0x80400000, 0x80500000]"
    using l[of 0] by (simp add: free_pages_def m) (simp add: slot_def two_page_kernel_def page_ok_def zero_kernel_def V2P_def)
  show "cpu_ok two_page_kernel" "kready two_page_kernel" "c_proc (cpu_of two_page_kernel) = Some 0"
    by (simp_all add: two_page_kernel_def zero_kernel_def cpu_ok_def this_cpu_def cpu_of_def kready_def)
qed

theorem shared_region_mapped_witness:
  "wp (allocSharedVM (int 3) 1) (\<lambda>va (k', env'). env' = [] \<and> va = 0x7FFFF000 \<and>
    pt_lookup (mem k') 0x80600000 va = Some (0x00400000 OR (PTE_W OR PTE_U) OR PTE_P) \<and> sr_refCount (sharedRegions k' 3) = 1)
   (two_page_kernel, [])"
proof -
  have p: "p_pgdir (ptable two_page_kernel 0) = 0x80600000" "p_shaddr (ptable two_page_kernel 0) = 0x80000000"
      "sf_region (p_shared (ptable two_page_kernel 0) 3) = None" "sr_valid (sharedRegions two_page_kernel 3) = 0"
    by (simp_all add: two_page_kernel_def zero_kernel_def)
  have r: "room_below two_page_kernel 0 1" by (simp add: room_below_def p two_page_facts(6))
  show ?thesis
    using shared_region_mapped[OF two_page_facts(1-4), of 3 1 1 "[]"] p r two_page_facts(5)
    by (auto elim!: wp_mono simp: new_region_def V2P_def)
qed

section \<open>Out of memory\<close>

lemma mappages_no_page:
  assumes "kready k" "freelist k = 0" "va mod PGSIZE = 0" "pd_table (mem k) pgdir (unat (PDX va)) = None"
  obtains k' where "mappages pgdir va PGSIZE pa perm (k, env) = Ret (- 1) (k', env)" "synced k k'"
proof -
  obtain k' where k': "kalloc (k, env) = Ret 0 (k', env)" "synced k k'" using kalloc_Ret[OF assms(1), of env] assms(2) by auto
  then have "mappages pgdir va PGSIZE pa perm (k, env) = Ret (- 1) (k', env)"
    unfolding mappages_one[OF assms(3)] using walkpgdir_new[OF assms(4) k'(1)] by (simp add: bindK_def)
  then show ?thesis using k'(2) by (rule that)
qed

text \<open>
  C14: When a page of a region that exists cannot be mapped for lack of memory, \<open>GetSharedPage\<close> returns the error
  but does not undo what it began: interrupts stay off with one \<open>pushcli\<close> that is never popped, and the address
  below which the process' shared pages start has moved down although nothing was mapped there.
\<close>
theorem shared_region_out_of_memory:
  assumes "cpu_ok k" and "kready k" and "c_proc (cpu_of k) = Some p" and "freelist k = 0"
    and "key < MAX_SH_KEY" and "0 < cnt" and "cnt \<le> int MAX_SH_PAGES"
    and "sr_valid (sharedRegions k key) \<noteq> 0" and "cnt \<le> sr_pageCount (sharedRegions k key)"
    and "sf_region (p_shared (ptable k p) key) = None" and "p_shaddr (ptable k p) mod PGSIZE = 0"
    and "pd_table (mem k) (p_pgdir (ptable k p)) (unat (PDX (p_shaddr (ptable k p) - PGSIZE))) = None"
  shows "wp (allocSharedVM (int key) cnt) (\<lambda>va (k', env'). env' = env \<and> va = FAILED \<and>
    c_ncli (cpu_of k') = c_ncli (cpu_of k) + 1 \<and> \<not> eflags_if k' \<and> mem k' = mem k \<and> sharedRegions k' = sharedRegions k \<and>
    ptable k' = (ptable k)(p := (ptable k p)\<lparr>p_shaddr := p_shaddr (ptable k p) - PGSIZE\<rparr>)) (k, env)"
proof -
  let ?k0 = "touch k" and ?va = "p_shaddr (ptable k p) - PGSIZE"
  let ?k1 = "push_k ?k0"
  let ?k2 = "set_proc p (\<lambda>pr. pr\<lparr>p_shaddr := p_shaddr pr - PGSIZE\<rparr>) ?k1"
  note s = synced_touch[of k]
  have k0: "cpu_ok ?k0" "kready ?k0" "mem ?k0 = mem k" "ptable ?k0 = ptable k" "sharedRegions ?k0 = sharedRegions k"
      "c_ncli (cpu_of ?k0) = c_ncli (cpu_of k)" "freelist ?k0 = 0"
    using assms(1,2,4) synced_locks(3)[OF s] kready_synced[OF s] synced_sel[OF s] synced_cpu[OF s]
    by (auto elim!: syncedE)
  have e: "kready ?k2" "freelist ?k2 = 0" "mem ?k2 = mem k" "sharedRegions ?k2 = sharedRegions k" "c_ncli (cpu_of ?k2) = c_ncli (cpu_of k) + 1"
      "\<not> eflags_if ?k2" "ptable ?k2 = (ptable k)(p := (ptable k p)\<lparr>p_shaddr := ?va\<rparr>)"
    using push_k_ready(1)[OF k0(1,2)] k0 by (simp_all add: set_proc_def)
  obtain k3 where k3: "mappages (p_pgdir (ptable k p)) ?va PGSIZE (sr_pages (sharedRegions k key) 0) (PTE_W OR PTE_U) (?k2, env) = Ret (- 1) (k3, env)"
      "synced ?k2 k3"
    by (rule mappages_no_page[OF e(1,2) aligned_sub[OF assms(11)] assms(12)[folded e(3)]])
  have cp: "curproc (k, env) = Ret p (?k0, env)" using assms(1,3) by (simp add: curproc_def myproc_Ret kM_simps)
  have "[0..<nat (sr_pageCount (sharedRegions k key))] = 0 # [1..<nat (sr_pageCount (sharedRegions k key))]"
    using assms(6,9) by (simp add: upt_conv_Cons)
  then have "mapSharedRegion p key (?k0, env) = Ret FAILED (k3, env)"
    using assms(10) k3(1) e k0 pushcli_Ret[of ?k0 env]
    by (simp add: mapSharedRegion_def getp_def getr_def modp_def kM_simps cpu_ok_def)
  then have "allocSharedVM (int key) cnt (k, env) = Ret FAILED (k3, env)"
    using assms(5-9) cp k0(5) by (simp add: allocSharedVM_def kM_simps getr_def)
  moreover have "kept ?k2 k3" "mem k3 = mem ?k2" using kept_synced[OF k3(2)] k3(2) by (auto elim: syncedE)
  ultimately show ?thesis using e by (simp add: wp_def kept_def)
qed

text \<open>A process and a region of one page on a machine without free pages.\<close>

definition no_page_kernel :: kernel where
  "no_page_kernel = two_page_kernel\<lparr>freelist := 0, mem := (\<lambda>_. 0),
     sharedRegions := (\<lambda>_. \<lparr>sr_valid = 1, sr_refCount = 1, sr_pageCount = 1, sr_pages = (\<lambda>_. 0x400000)\<rparr>)\<rparr>"

theorem shared_region_out_of_memory_witness:
  "wp (allocSharedVM (int 3) 1) (\<lambda>va (k', env'). va = FAILED \<and> c_ncli (cpu_of k') = 1 \<and> \<not> eflags_if k') (no_page_kernel, [])"
proof -
  have c: "cpu_ok no_page_kernel" "kready no_page_kernel" "c_proc (cpu_of no_page_kernel) = Some 0" "c_ncli (cpu_of no_page_kernel) = 0"
    by (simp_all add: no_page_kernel_def two_page_kernel_def zero_kernel_def cpu_ok_def this_cpu_def cpu_of_def kready_def)
  have p: "p_pgdir (ptable no_page_kernel 0) = 0x80600000" "p_shaddr (ptable no_page_kernel 0) = 0x80000000" "freelist no_page_kernel = 0"
      "sf_region (p_shared (ptable no_page_kernel 0) 3) = None" "sr_valid (sharedRegions no_page_kernel 3) = 1"
      "sr_pageCount (sharedRegions no_page_kernel 3) = 1" "pd_table (mem no_page_kernel) 0x80600000 d = None" for d
    by (simp_all add: no_page_kernel_def two_page_kernel_def zero_kernel_def pd_table_def load32_def)
  show ?thesis using shared_region_out_of_memory[OF c(1-3), of 3 1 "[]"] c(4) p by (auto elim!: wp_mono)
qed

end
