(* ===== verification/Trap_Count.thy ===== *)
theory Trap_Count
  imports Trap
begin

text \<open>
  The counters of HW2 from the trap to the number the program gets: the handler counts the trap, the dispatcher counts
  the system call, and \<open>countTraps\<close> prints and adds up.
\<close>

section \<open>Printing\<close>

text \<open>\<open>printed k k'\<close>: nothing happened since \<open>k\<close> but output on the console.\<close>

definition printed :: "kernel \<Rightarrow> kernel \<Rightarrow> bool" where
  "printed k k' \<longleftrightarrow> ptable k' = ptable k \<and> cpu_ok k' \<and> lock_free ConsLock k' \<and> con_ok k' \<and> c_proc (cpu_of k') = c_proc (cpu_of k)"

lemma printed_synced:
  assumes "printed k k0" "con_frame k0 k1" "con_ok k1" "synced k1 k'"
  shows "printed k k'"
proof -
  obtain a b c d where "k1 = k0\<lparr>serial := a, crt := b, crtc14 := c, crtc15 := d\<rparr>" using assms(2) unfolding con_frame_def by blast
  then have "ptable k1 = ptable k0" by simp
  moreover have "lock_free ConsLock k1 = lock_free ConsLock k0" using con_frame_sync(2)[OF assms(2)] by (simp add: lock_free_def)
  moreover have "con_ok k' = con_ok k1" "ptable k' = ptable k1" using assms(4) by (auto simp: con_ok_def cursor_def elim!: syncedE)
  ultimately show ?thesis
    using assms con_frame_cpu[OF assms(2)] synced_cpu[OF assms(4)] synced_locks[OF assms(4)] by (simp add: printed_def)
qed

lemma printed_touch: "printed k k0 \<Longrightarrow> printed k (touch k0)"
  by (rule printed_synced[OF _ con_frame_refl _ synced_touch]) (auto simp: printed_def)

text \<open>\<open>does k m v k'\<close>: from \<open>k\<close>, up to output, \<open>m\<close> returns \<open>v\<close> and leaves \<open>k'\<close>, up to output.\<close>

definition does :: "kernel \<Rightarrow> 'a kprog \<Rightarrow> 'a \<Rightarrow> kernel \<Rightarrow> bool" where
  "does k m v k' \<longleftrightarrow> (\<forall>k0 env. printed k k0 \<longrightarrow> wp m (\<lambda>r (K, env'). r = v \<and> env' = env \<and> printed k' K) (k0, env))"

lemma does_bind: "does k m v k1 \<Longrightarrow> does k1 (f v) w k2 \<Longrightarrow> does k (bindK m f) w k2"
  unfolding does_def by (fastforce intro: wp_bindI)

lemma does_then: "does k m v k1 \<Longrightarrow> does k1 n w k2 \<Longrightarrow> does k (thenK m n) w k2"
  unfolding thenK_def by (rule does_bind)

lemma does_Ret: "does k (Ret v) v k"
  by (simp add: does_def)

lemma does_cprintf: "args_ok fmt args \<Longrightarrow> does k (cprintf fmt args) () k"
  unfolding does_def
proof (intro allI impI)
  fix k0 env assume p: "printed k k0" and a: "args_ok fmt args"
  then have "wp (cprintf fmt args) (\<lambda>_ (k', env'). env' = env \<and> (\<exists>k1. con_frame k0 k1 \<and> con_ok k1 \<and> synced k1 k')) (k0, env)"
    by (intro cprintf_wp) (simp_all add: printed_def)
  then show "wp (cprintf fmt args) (\<lambda>r (K, env'). r = () \<and> env' = env \<and> printed k K) (k0, env)"
    using printed_synced[OF p] by (elim wp_mono) auto
qed

lemma does_myproc: "does k myproc (c_proc (cpu_of k)) k"
  unfolding does_def using printed_touch[of k] by (auto simp: wp_def myproc_Ret printed_def[of k])

lemma does_curproc: "c_proc (cpu_of k) = Some p \<Longrightarrow> does k curproc p k"
  unfolding curproc_def by (rule does_bind[OF does_myproc]) (simp add: does_Ret)

lemma does_getp: "does k (getp p f) (f (ptable k p)) k"
  by (simp add: does_def getp_def printed_def)

lemma does_modp: "does k (modp p f) () (set_proc p f k)"
  by (simp add: does_def modp_def printed_def set_proc_def cpu_ok_def lock_free_def con_ok_def cursor_def this_cpu_def cpu_of_def)

lemma does_killed: "c_proc (cpu_of k) = Some p \<Longrightarrow> does k killed (p_killed (ptable k p) \<noteq> 0) k"
  unfolding killed_def by (rule does_bind[OF does_curproc does_getp])

lemma set_proc_c_proc [simp]: "c_proc (cpu_of (set_proc p f k)) = c_proc (cpu_of k)"
  by (simp add: set_proc_def cpu_of_def this_cpu_def)

section \<open>\<open>countTraps\<close>\<close>

lemma does_count_loop:
  assumes "\<And>x y. args_ok fmt [CStr x, CInt y]"
  shows "does k (count_loop is cnt name fmt c) (c + of_int (\<Sum>i\<leftarrow>is. cnt i)) k"
proof (induction "is" arbitrary: c)
  case (Cons i "is")
  then show ?case using does_then[OF does_cprintf[OF assms] Cons[of "c + of_int (cnt i)"]] by (simp add: add.assoc)
qed (simp add: does_Ret)

lemma does_countSyscalls:
  assumes "c_proc (cpu_of k) = Some p"
  shows "\<exists>n. does k countSyscalls n k"
  unfolding countSyscalls_def
  by (rule exI, rule does_bind[OF does_curproc[OF assms]], rule does_then[OF does_cprintf], simp,
      rule does_bind[OF does_getp], rule does_bind[OF does_count_loop], simp, rule does_then[OF does_cprintf], simp, rule does_Ret)

text \<open>The counters that are printed and added: all but the last one.\<close>

lemma does_countTraps:
  assumes "c_proc (cpu_of k) = Some p"
  shows "does k sys_countTraps (sint (of_int (sum_list (butlast (p_trapcounts (ptable k p)))) :: uint)) k"
proof -
  let ?ts = "p_trapcounts (ptable k p)"
  obtain n where n: "does k countSyscalls n k" using does_countSyscalls[OF assms] by blast
  have "(\<Sum>i\<leftarrow>[0..<length ?ts - 1]. ?ts ! i) = sum_list (butlast ?ts)"
    by (rule arg_cong[of _ _ sum_list], rule nth_equalityI) (simp_all add: nth_butlast)
  then have c: "(0 :: uint) + of_int (\<Sum>i\<leftarrow>[0..<length ?ts - 1]. ?ts ! i) = of_int (sum_list (butlast ?ts))" by simp
  show ?thesis unfolding sys_countTraps_def c[symmetric]
    by (rule does_bind[OF n], rule does_bind[OF does_curproc[OF assms]], rule does_then[OF does_cprintf], simp,
      rule does_bind[OF does_getp], rule does_bind[OF does_count_loop], simp, rule does_then[OF does_cprintf], simp, rule does_Ret)
qed

lemma does_syscall:
  assumes p: "c_proc (cpu_of k) = Some p" and n: "sint (tf_eax (p_tf (ptable k p))) = num" "0 < num" "num \<le> 22"
    and r: "does (set_proc p (\<lambda>pr. pr\<lparr>p_syscounts := incr (nat num) (p_syscounts pr)\<rparr>) k) (syscalls ! (nat num - 1)) r k'"
  shows "does k syscall () (set_proc p (\<lambda>pr. pr\<lparr>p_tf := (p_tf pr)\<lparr>tf_eax := of_int r\<rparr>\<rparr>) k')"
proof -
  have c: "0 < num \<and> num < int (length syscalls) + 1" using n by (simp add: syscalls_def)
  show ?thesis unfolding syscall_def
    by (rule does_bind[OF does_curproc[OF p]], rule does_bind[OF does_getp], unfold n(1) if_P[OF c],
        rule does_then[OF does_modp], rule does_bind[OF r does_modp])
qed

text \<open>
  C19: \<open>countTraps\<close> end to end. When a process that is not killed makes the system call, the handler adds one to the
  counter of system call traps and the dispatcher one to the counter of this call, and the process continues with
  the sum of its trap counters, this trap included and the counter for unknown traps left out, as the result; the
  counters are otherwise kept, and so are all other processes.
\<close>
theorem countTraps_result:
  assumes "cpu_ok k" and "lock_free ConsLock k" and "con_ok k" and "c_proc (cpu_of k) = Some p"
    and "p_killed (ptable k p) = 0" and "tf_trapno tf = 64" and "tf_eax tf = 22"
  shows "wp (trap hw tf) (\<lambda>_ (k', env'). env' = env \<and>
    (let ts = incr 21 (p_trapcounts (ptable k p)) in
     ptable k' = (ptable k)(p := (ptable k p)\<lparr>p_trapcounts := ts, p_syscounts := incr 22 (p_syscounts (ptable k p)),
       p_tf := tf\<lparr>tf_eax := of_int (sum_list (butlast ts))\<rparr>\<rparr>))) (k, env)"
proof -
  let ?ts = "incr 21 (p_trapcounts (ptable k p))"
  let ?k1 = "set_proc p (\<lambda>pr. pr\<lparr>p_trapcounts := ?ts\<rparr>) k"
  let ?k2 = "set_proc p (\<lambda>pr. pr\<lparr>p_tf := tf\<rparr>) ?k1"
  let ?k3 = "set_proc p (\<lambda>pr. pr\<lparr>p_syscounts := incr 22 (p_syscounts pr)\<rparr>) ?k2"
  let ?r = "sint (of_int (sum_list (butlast ?ts)) :: uint)"
  let ?k4 = "set_proc p (\<lambda>pr. pr\<lparr>p_tf := (p_tf pr)\<lparr>tf_eax := of_int ?r\<rparr>\<rparr>) ?k3"
  have n: "trapnos (sint (tf_trapno tf)) = 21" using assms(6) by (simp add: trapnos_def)
  have c: "does k (count_trap tf) () (set_proc p (\<lambda>pr. pr\<lparr>p_trapcounts := incr 21 (p_trapcounts pr)\<rparr>) k)"
    unfolding count_trap_def n by (rule does_bind[OF does_myproc]) (simp add: assms(4) does_modp)
  have t: "does ?k3 (syscalls ! (nat 22 - 1)) ?r ?k3"
    using does_countTraps[of ?k3 p] assms(4) by (simp add: syscalls_def set_proc_def[of p])
  have s: "does ?k2 syscall () ?k4"
    by (rule does_syscall[of _ _ 22]) (use assms(4,7) t in \<open>simp_all add: set_proc_def[of p]\<close>)
  have d: "does K (bindK killed (\<lambda>d. whenK d exit)) () K" if "c_proc (cpu_of K) = Some p" "p_killed (ptable K p) = 0" for K
    by (rule does_bind[OF does_killed[OF that(1)]]) (simp add: that(2) whenK_def does_Ret)
  have "does k (trap hw tf) () ?k4"
  proof -
    have k1: "set_proc p (\<lambda>pr. pr\<lparr>p_trapcounts := incr 21 (p_trapcounts pr)\<rparr>) k = ?k1" by (simp add: set_proc_def)
    have p1: "c_proc (cpu_of ?k1) = Some p" "p_killed (ptable ?k1 p) = 0" and p4: "c_proc (cpu_of ?k4) = Some p" "p_killed (ptable ?k4 p) = 0"
      using assms(4,5) by (simp_all add: set_proc_def[of p])
    have "does ?k1 (trap_syscall tf) () ?k4" unfolding trap_syscall_def seqK.simps
      by (rule does_then[OF d[OF p1]], rule does_then[OF does_bind[OF does_curproc[OF p1(1)] does_modp]], rule does_then[OF s],
          rule does_then[OF d[OF p4]], rule does_Ret)
    then show ?thesis unfolding trap_def using does_then[OF c] assms(6) k1 by simp
  qed
  moreover have "printed k k" using assms by (simp add: printed_def)
  ultimately have "wp (trap hw tf) (\<lambda>_ (k', env'). env' = env \<and> printed ?k4 k') (k, env)" unfolding does_def by auto
  then show ?thesis by (rule wp_mono) (auto simp: printed_def set_proc_def[of p] Let_def)
qed

text \<open>A process that has made three system calls and suffered five interrupts and one unknown trap.\<close>

definition counting_kernel :: kernel where
  "counting_kernel = zero_kernel\<lparr>cpus := (cpus zero_kernel)(0 := (cpus zero_kernel 0)\<lparr>c_proc := Some 0\<rparr>),
     ptable := (ptable zero_kernel)(0 := (ptable zero_kernel 0)\<lparr>
       p_trapcounts := replicate 20 0 @ [5, 3, 1], p_syscounts := replicate 23 0\<rparr>)\<rparr>"

theorem countTraps_result_witness:
  "wp (trap \<lparr>hw_cr2 = 0, hw_rx = [], hw_scancodes = [], hw_shift = 0\<rparr> ((p_tf (ptable zero_kernel 0))\<lparr>tf_trapno := 64, tf_eax := 22\<rparr>)) (\<lambda>_ (k', env').
     tf_eax (p_tf (ptable k' 0)) = 9 \<and> p_trapcounts (ptable k' 0) = replicate 20 0 @ [5, 4, 1]) (counting_kernel, [])"
proof -
  have "cpu_ok counting_kernel" "lock_free ConsLock counting_kernel" "con_ok counting_kernel" "c_proc (cpu_of counting_kernel) = Some 0"
    "p_killed (ptable counting_kernel 0) = 0"
    by (simp_all add: counting_kernel_def zero_kernel_def cpu_ok_def this_cpu_def cpu_of_def lock_free_def con_ok_def cursor_def)
  note r = countTraps_result[OF this, of "(p_tf (ptable zero_kernel 0))\<lparr>tf_trapno := 64, tf_eax := 22\<rparr>"]
  have t: "incr 21 (p_trapcounts (ptable counting_kernel 0)) = replicate 20 0 @ [5, 4, 1]"
    by (simp add: counting_kernel_def incr_def) (simp add: numeral_eq_Suc)
  then have "sum_list (butlast (incr 21 (p_trapcounts (ptable counting_kernel 0)))) = 9" by (simp add: butlast_append sum_list_replicate)
  then show ?thesis using t by (intro wp_mono[OF r]) (auto simp: Let_def)
qed

end
