(* ===== verification/Bcache.thy ===== *)
theory Bcache
  imports Bio
begin

text \<open>
  The buffer cache is correct: its list stays a ring of all the buffers, no block is cached twice, and
  seen through \<open>bread\<close>, \<open>bwrite\<close> and \<open>brelse\<close> the cache is a block device. Everything is for a process
  that finds the spin locks free, as the file system code does on a machine where no other processor is
  inside these operations.
\<close>

section \<open>Sleep locks\<close>

definition idle :: "kernel \<Rightarrow> bool" where
  "idle B \<longleftrightarrow> (\<forall>l. lock_free l B)"

declare set_sl_def [upd_defs] set_buf_def [upd_defs]

lemma plain_set [simp]: "plain (set_sl l f) K" "plain (set_buf b g) K" "plain (disk_write n bs) K"
  by (simp_all add: plain_def upd_defs disk_write_def)

lemma runs_acquiresleep:
  assumes "idle B" "SlLock l \<notin> set C" "c_proc (cpu_of K) = Some p" "sl_locked (sleeplocks K l) = 0"
  shows "runs B C (acquiresleep l) K () C (set_sl l (\<lambda>s. s\<lparr>sl_locked := 1, sl_pid := p_pid (ptable K p)\<rparr>) K)"
  unfolding acquiresleep_def using assms
  by - (rule runs_rules | simp add: idle_def set_sl_def)+

lemma runs_releasesleep:
  assumes "idle B" "SlLock l \<notin> set C" "PtableLock \<notin> set C"
  shows "runs B C (releasesleep l) K () C
    ((set_sl l (\<lambda>s. s\<lparr>sl_locked := 0, sl_pid := 0\<rparr>) K)\<lparr>ptable := woken (Some (ChSleeplock l)) (ptable K)\<rparr>)"
  unfolding releasesleep_def using assms
  by - (rule runs_rules | simp add: idle_def set_sl_def)+

lemma runs_holdingsleep:
  assumes "idle B" "SlLock l \<notin> set C" "c_proc (cpu_of K) = Some p"
    and "v = (sl_locked (sleeplocks K l) \<noteq> 0 \<and> sl_pid (sleeplocks K l) = p_pid (ptable K p))"
  shows "runs B C (holdingsleep l) K v C K"
proof (cases "sl_locked (sleeplocks K l) \<noteq> 0")
  case True
  then show ?thesis unfolding holdingsleep_def using assms
    by - (rule runs_rules | simp add: idle_def)+
next
  case False
  then show ?thesis unfolding holdingsleep_def using assms
    by - (rule runs_rules | simp add: idle_def)+
qed

section \<open>The list\<close>

fun links :: "(nat \<Rightarrow> nat) \<Rightarrow> nat \<Rightarrow> nat list \<Rightarrow> nat \<Rightarrow> bool" where
  "links nx a [] z \<longleftrightarrow> nx a = z"
| "links nx a (y # ys) z \<longleftrightarrow> nx a = y \<and> links nx y ys z"

lemma links_append: "links nx a (ys @ b # zs) z \<longleftrightarrow> links nx a ys b \<and> links nx b zs z"
  by (induction ys arbitrary: a) auto

lemma links_other: "u \<notin> set (a # ys) \<Longrightarrow> links (nx(u := v)) a ys z = links nx a ys z"
  by (induction ys arbitrary: a) auto

lemma links_last:
  "distinct (a # ys) \<Longrightarrow> links nx a ys z \<Longrightarrow> links (nx(last (a # ys) := w)) a ys w"
  by (induction ys arbitrary: a) auto

lemma links_hd: "links nx a ys z \<Longrightarrow> nx a = hd (ys @ [z])"
  by (cases ys) auto

lemma links_end: "links nx a ys z \<Longrightarrow> nx (last (a # ys)) = z"
  by (induction ys arbitrary: a) auto

definition linked :: "(nat \<Rightarrow> buf) \<Rightarrow> nat list \<Rightarrow> bool" where
  "linked bc xs \<longleftrightarrow> distinct xs \<and> set xs = {..<NBUF} \<and>
     links (b_next \<circ> bc) bhead xs bhead \<and> links (b_prev \<circ> bc) bhead (rev xs) bhead"

lemma walk_links:
  assumes "links (nx \<circ> bc) a ys bhead" "bhead \<notin> set ys" "length ys < n"
  shows "walk nx P n bc (nx (bc a)) = Some (find (\<lambda>i. P (bc i)) ys)"
  using assms
proof (induction ys arbitrary: a n)
  case Nil
  then show ?case by (cases n) auto
next
  case (Cons y ys)
  then obtain m where n: "n = Suc m" by (cases n) auto
  then show ?case using Cons by auto
qed

lemma links_upd [simp]:
  "b_next \<circ> bc(i := (bc i)\<lparr>b_next := v\<rparr>) = (b_next \<circ> bc)(i := v)"
  "b_prev \<circ> bc(i := (bc i)\<lparr>b_next := v\<rparr>) = b_prev \<circ> bc"
  "b_prev \<circ> bc(i := (bc i)\<lparr>b_prev := v\<rparr>) = (b_prev \<circ> bc)(i := v)"
  "b_next \<circ> bc(i := (bc i)\<lparr>b_prev := v\<rparr>) = b_next \<circ> bc"
  by (auto simp: fun_eq_iff)

lemma links_unlink:
  assumes "links f a (us @ b # vs) z" "distinct (a # us @ b # vs)"
  shows "links (f(last (a # us) := hd (vs @ [z]))) a (us @ vs) z"
proof -
  have u: "links f a us b" and v: "links f b vs z" using assms(1) by (simp_all add: links_append)
  have l: "links (f(last (a # us) := hd (vs @ [z]))) a us (hd (vs @ [z]))"
    using u assms(2) by (intro links_last) auto
  have "last (a # us) \<in> set (a # us)" by (rule last_in_set) simp
  then have o: "last (a # us) \<notin> set vs" using assms(2) by auto
  show ?thesis
  proof (cases vs)
    case Nil
    then show ?thesis using l by simp
  next
    case (Cons c ws)
    then have "links (f(last (a # us) := c)) c ws z"
      using v o by (subst links_other) auto
    then show ?thesis using l Cons by (simp add: links_append)
  qed
qed

lemma links_move:
  assumes "links f a l z" "g b = f a" "\<And>i. i \<in> set l \<Longrightarrow> g i = f i"
  shows "links g b l z"
  using assms
proof (induction l arbitrary: a b)
  case (Cons y ys)
  then show ?case using Cons.IH[of y y] by auto
qed auto

text \<open>What \<open>brelse\<close> does to the links.\<close>

definition unlink :: "nat \<Rightarrow> (nat \<Rightarrow> buf) \<Rightarrow> nat \<Rightarrow> buf" where
  "unlink b bc = (let bc1 = bc(b_next (bc b) := (bc (b_next (bc b)))\<lparr>b_prev := b_prev (bc b)\<rparr>) in
     bc1(b_prev (bc1 b) := (bc1 (b_prev (bc1 b)))\<lparr>b_next := b_next (bc1 b)\<rparr>))"

definition push_front :: "nat \<Rightarrow> (nat \<Rightarrow> buf) \<Rightarrow> nat \<Rightarrow> buf" where
  "push_front b bc =
     (let bc1 = bc(b := (bc b)\<lparr>b_next := b_next (bc bhead)\<rparr>);
          bc2 = bc1(b := (bc1 b)\<lparr>b_prev := bhead\<rparr>);
          bc3 = bc2(b_next (bc2 bhead) := (bc2 (b_next (bc2 bhead)))\<lparr>b_prev := b\<rparr>) in
      bc3(bhead := (bc3 bhead)\<lparr>b_next := b\<rparr>))"

definition unlinked :: "buf \<Rightarrow> buf" where
  "unlinked x = x\<lparr>b_prev := 0, b_next := 0\<rparr>"

lemma unlinked_moved: "unlinked (push_front b bc i) = unlinked (bc i)" "unlinked (unlink b bc i) = unlinked (bc i)"
  by (simp_all add: push_front_def unlink_def unlinked_def Let_def)

lemma linked_split:
  assumes "linked bc xs" "b < NBUF"
  obtains ys zs where "xs = ys @ b # zs" "b_prev (bc b) = last (bhead # ys)" "b_next (bc b) = hd (zs @ [bhead])"
    "distinct (bhead # ys @ b # zs)"
proof -
  have "b \<in> set xs" using assms by (auto simp: linked_def)
  then obtain ys zs where xs: "xs = ys @ b # zs" by (meson split_list)
  have n: "links (b_next \<circ> bc) b zs bhead" and p: "links (b_prev \<circ> bc) b (rev ys) bhead"
    using assms(1) by (simp_all add: linked_def xs links_append)
  have "hd (rev ys @ [bhead]) = last (bhead # ys)" by (cases ys rule: rev_cases) auto
  then show ?thesis using that[of ys zs] xs links_hd[OF n] links_hd[OF p] assms(1)
    by (auto simp: linked_def)
qed

lemma linked_unlink:
  assumes "linked bc xs" "b < NBUF"
  shows "links (b_next \<circ> unlink b bc) bhead (remove1 b xs) bhead"
    "links (b_prev \<circ> unlink b bc) bhead (rev (remove1 b xs)) bhead"
proof -
  from assms obtain ys zs where xs: "xs = ys @ b # zs" and p: "b_prev (bc b) = last (bhead # ys)"
    and n: "b_next (bc b) = hd (zs @ [bhead])" and d: "distinct (bhead # ys @ b # zs)" by (rule linked_split)
  have r: "remove1 b xs = ys @ zs" using d by (simp add: xs remove1_append)
  have nb: "b_next (bc b) \<noteq> b" unfolding n using d by (cases zs) auto
  have u: "b_next \<circ> unlink b bc = (b_next \<circ> bc)(last (bhead # ys) := hd (zs @ [bhead]))"
    "b_prev \<circ> unlink b bc = (b_prev \<circ> bc)(hd (zs @ [bhead]) := last (bhead # ys))"
    using nb by (simp_all add: unlink_def Let_def p n fun_eq_iff)
  show "links (b_next \<circ> unlink b bc) bhead (remove1 b xs) bhead"
    unfolding u r using assms(1) d by (intro links_unlink[where b = b]) (auto simp: linked_def xs)
  have e: "hd (zs @ [bhead]) = last (bhead # rev zs)" "last (bhead # ys) = hd (rev ys @ [bhead])"
    by (cases zs; simp) (cases ys rule: rev_cases; simp)
  have "links (b_prev \<circ> bc) bhead (rev zs @ b # rev ys) bhead" using assms(1) by (simp add: linked_def xs)
  then show "links (b_prev \<circ> unlink b bc) bhead (rev (remove1 b xs)) bhead"
    unfolding u r e rev_append using d by (intro links_unlink[where b = b]) auto
qed

lemma linked_push_front:
  assumes "links (b_next \<circ> bc) bhead l bhead" "links (b_prev \<circ> bc) bhead (rev l) bhead"
    and d: "distinct (bhead # b # l)"
  shows "links (b_next \<circ> push_front b bc) bhead (b # l) bhead"
    "links (b_prev \<circ> push_front b bc) bhead (rev (b # l)) bhead"
proof -
  let ?h = "hd (l @ [bhead])"
  have h: "b_next (bc bhead) = ?h" using links_hd[OF assms(1)] by simp
  have hb: "?h \<noteq> b" using d by (cases l) auto
  have u: "b_next \<circ> push_front b bc = (b_next \<circ> bc)(b := ?h, bhead := b)"
    "b_prev \<circ> push_front b bc = (b_prev \<circ> bc)(b := bhead, ?h := b)"
    using d hb by (auto simp: push_front_def Let_def h fun_eq_iff)
  have "links ((b_next \<circ> bc)(b := ?h, bhead := b)) b l bhead"
    by (rule links_move[OF assms(1)]) (use d h in auto)
  then show "links (b_next \<circ> push_front b bc) bhead (b # l) bhead" unfolding u by simp
  have e: "?h = last (bhead # rev l)" by (cases l) auto
  have "links ((b_prev \<circ> bc)(b := bhead)) bhead (rev l) bhead" using assms(2) d by (subst links_other) auto
  then have "links ((b_prev \<circ> bc)(b := bhead, ?h := b)) bhead (rev l) b"
    unfolding e using d by (intro links_last) auto
  then show "links (b_prev \<circ> push_front b bc) bhead (rev (b # l)) bhead"
    unfolding u using hb by (simp add: links_append)
qed

lemma linked_mru:
  assumes "linked bc xs" "b < NBUF"
  shows "linked (push_front b (unlink b bc)) (b # remove1 b xs)"
proof -
  have "distinct (bhead # b # remove1 b xs)" "set (b # remove1 b xs) = {..<NBUF}"
    using assms by (auto simp: linked_def)
  then show ?thesis using linked_push_front[OF linked_unlink[OF assms]] by (auto simp: linked_def)
qed

section \<open>The invariant\<close>

text \<open>
  \<open>H\<close> is the set of buffers the process has locked. A buffer is empty (flags 0), valid (2), or valid and
  dirty (6). Valid clean buffers that nobody holds agree with the disk.
\<close>

definition buf_ok :: "(nat \<Rightarrow> byte list) \<Rightarrow> uint \<Rightarrow> bool \<Rightarrow> buf \<Rightarrow> bool" where
  "buf_ok D n mine x \<longleftrightarrow> b_refcnt x = (if mine then 1 else 0) \<and> b_flags x \<in> {0, 2, 6} \<and> (mine \<longrightarrow> b_flags x \<noteq> 0) \<and>
     (b_flags x \<noteq> 0 \<longrightarrow> b_dev x = 1 \<and> b_blockno x < n) \<and>
     (\<not> mine \<and> b_flags x = 2 \<longrightarrow> b_data x = D (unat (b_blockno x)))"

definition no_dups :: "(nat \<Rightarrow> buf) \<Rightarrow> bool" where
  "no_dups bc \<longleftrightarrow> (\<forall>i < NBUF. \<forall>j < NBUF. b_dev (bc i) \<noteq> 0 \<and> b_dev (bc i) = b_dev (bc j) \<and>
     b_blockno (bc i) = b_blockno (bc j) \<longrightarrow> i = j)"

definition cache_ok :: "nat set \<Rightarrow> kernel \<Rightarrow> bool" where
  "cache_ok H K \<longleftrightarrow> H \<subseteq> {..<NBUF} \<and> (\<exists>xs. linked (bcache K) xs) \<and> no_dups (bcache K) \<and>
     (\<forall>i < NBUF. buf_ok (disk K) (disksize K) (i \<in> H) (bcache K i)) \<and>
     (\<forall>i < NBUF. sl_locked (sleeplocks K (BufSl i)) \<noteq> 0 \<longleftrightarrow> i \<in> H) \<and>
     (\<exists>p. c_proc (cpu_of K) = Some p \<and> (\<forall>i \<in> H. sl_pid (sleeplocks K (BufSl i)) = p_pid (ptable K p)))"

definition caches :: "kernel \<Rightarrow> nat \<Rightarrow> uint \<Rightarrow> bool" where
  "caches K i b \<longleftrightarrow> i < NBUF \<and> b_dev (bcache K i) = 1 \<and> b_blockno (bcache K i) = b"

text \<open>The contents of block \<open>b\<close> as the file system sees it.\<close>

definition view :: "kernel \<Rightarrow> uint \<Rightarrow> byte list" where
  "view K b = (case find (\<lambda>i. caches K i b \<and> b_flags (bcache K i) \<noteq> 0) [0..<NBUF] of
     Some i \<Rightarrow> b_data (bcache K i) | None \<Rightarrow> disk K (unat b))"

definition pinned :: "kernel \<Rightarrow> uint set" where
  "pinned K = {b. \<exists>i. caches K i b \<and> b_flags (bcache K i) = 6}"

lemma caches_unique: "cache_ok H K \<Longrightarrow> caches K i b \<Longrightarrow> caches K j b \<Longrightarrow> i = j"
  unfolding cache_ok_def no_dups_def caches_def by (metis one_neq_zero)

lemma view_cached:
  assumes "cache_ok H K" "caches K i b" "b_flags (bcache K i) \<noteq> 0"
  shows "view K b = b_data (bcache K i)"
proof -
  have "find (\<lambda>i. caches K i b \<and> b_flags (bcache K i) \<noteq> 0) [0..<NBUF] \<noteq> None"
    using assms by (auto simp: find_None_iff caches_def)
  then obtain j where j: "find (\<lambda>i. caches K i b \<and> b_flags (bcache K i) \<noteq> 0) [0..<NBUF] = Some j" by blast
  then have "caches K j b" by (auto simp: find_Some_iff)
  then have "j = i" using caches_unique assms by blast
  then show ?thesis using j by (simp add: view_def)
qed

lemma view_uncached: "(\<And>i. caches K i b \<Longrightarrow> b_flags (bcache K i) = 0) \<Longrightarrow> view K b = disk K (unat b)"
proof -
  assume "\<And>i. caches K i b \<Longrightarrow> b_flags (bcache K i) = 0"
  then have "find (\<lambda>i. caches K i b \<and> b_flags (bcache K i) \<noteq> 0) [0..<NBUF] = None"
    by (auto simp: find_None_iff)
  then show ?thesis by (simp add: view_def)
qed

lemma cache_ok_buf: "cache_ok H K \<Longrightarrow> j < NBUF \<Longrightarrow> buf_ok (disk K) (disksize K) (j \<in> H) (bcache K j)"
  by (simp add: cache_ok_def)

lemma cache_okD:
  assumes "cache_ok H K" "i < NBUF"
  shows "b_refcnt (bcache K i) = (if i \<in> H then 1 else 0)" "b_flags (bcache K i) \<in> {0, 2, 6}"
    "i \<in> H \<Longrightarrow> b_flags (bcache K i) \<noteq> 0"
    "b_flags (bcache K i) \<noteq> 0 \<Longrightarrow> caches K i (b_blockno (bcache K i))"
    "b_flags (bcache K i) \<noteq> 0 \<Longrightarrow> b_blockno (bcache K i) < disksize K"
    "i \<notin> H \<Longrightarrow> b_flags (bcache K i) = 2 \<Longrightarrow> b_data (bcache K i) = disk K (unat (b_blockno (bcache K i)))"
    "sl_locked (sleeplocks K (BufSl i)) \<noteq> 0 \<longleftrightarrow> i \<in> H"
  using assms by (auto simp: cache_ok_def buf_ok_def caches_def)

lemma cache_ok_me:
  assumes "cache_ok H K"
  obtains p where "c_proc (cpu_of K) = Some p" "\<And>i. i \<in> H \<Longrightarrow> sl_pid (sleeplocks K (BufSl i)) = p_pid (ptable K p)"
  using assms by (auto simp: cache_ok_def)

lemma flag_bits: "x \<in> {0, 2, 6 :: uint} \<Longrightarrow> (x AND 2 = 0 \<longleftrightarrow> x = 0)" "x \<in> {0, 2, 6 :: uint} \<Longrightarrow> (x AND 4 = 0 \<longleftrightarrow> x \<noteq> 6)"
  "x \<in> {0, 2, 6 :: uint} \<Longrightarrow> (x AND (2 OR 4) = 2 \<longleftrightarrow> x = 2)" "x \<in> {0, 2, 6 :: uint} \<Longrightarrow> x \<noteq> 0 \<Longrightarrow> x OR 4 = 6"
  by auto

text \<open>Blocks other than those of a changed buffer look the same.\<close>

lemma view_eqI:
  assumes "cache_ok H K" "cache_ok H' K'" "disk K' = disk K"
    and "\<And>j. caches K j b \<Longrightarrow> b_flags (bcache K j) \<noteq> 0 \<Longrightarrow>
      (\<exists>j'. caches K' j' b \<and> b_flags (bcache K' j') \<noteq> 0 \<and> b_data (bcache K' j') = b_data (bcache K j)) \<or>
      (\<forall>j'. caches K' j' b \<longrightarrow> b_flags (bcache K' j') = 0) \<and> b_data (bcache K j) = disk K (unat b)"
    and "\<And>j. caches K' j b \<Longrightarrow> b_flags (bcache K' j) \<noteq> 0 \<Longrightarrow>
      (\<exists>j'. caches K j' b \<and> b_flags (bcache K j') \<noteq> 0) \<or> b_data (bcache K' j) = disk K (unat b)"
  shows "view K' b = view K b"
proof (cases "\<exists>j. caches K j b \<and> b_flags (bcache K j) \<noteq> 0")
  case True
  then obtain j where j: "caches K j b" "b_flags (bcache K j) \<noteq> 0" by blast
  show ?thesis using view_cached[OF assms(1) j] assms(4)[OF j] view_cached[OF assms(2)] view_uncached[of K' b] assms(3)
    by metis
next
  case False
  then have v: "view K b = disk K (unat b)" using view_uncached by blast
  show ?thesis
  proof (cases "\<exists>j. caches K' j b \<and> b_flags (bcache K' j) \<noteq> 0")
    case True
    then obtain j where j: "caches K' j b" "b_flags (bcache K' j) \<noteq> 0" by blast
    then show ?thesis using view_cached[OF assms(2) j] assms(5)[OF j] False v by simp
  next
    case False
    then show ?thesis using v view_uncached[of K' b] assms(3) by auto
  qed
qed

section \<open>Reading a block\<close>

lemma set_buf_sel [simp]:
  "bcache (set_buf b f K) = (bcache K)(b := f (bcache K b))" "sleeplocks (set_buf b f K) = sleeplocks K"
  "disk (set_buf b f K) = disk K" "disksize (set_buf b f K) = disksize K" "ptable (set_buf b f K) = ptable K"
  "cpu_of (set_buf b f K) = cpu_of K" "klog (set_buf b f K) = klog K" "diskwrites (set_buf b f K) = diskwrites K"
  "cpus (set_buf b f K) = cpus K" "locks (set_buf b f K) = locks K" "eflags_if (set_buf b f K) = eflags_if K"
  by (simp_all add: set_buf_def)

lemma set_sl_sel [simp]:
  "bcache (set_sl l f K) = bcache K" "sleeplocks (set_sl l f K) = (sleeplocks K)(l := f (sleeplocks K l))"
  "disk (set_sl l f K) = disk K" "disksize (set_sl l f K) = disksize K" "ptable (set_sl l f K) = ptable K"
  "cpu_of (set_sl l f K) = cpu_of K" "klog (set_sl l f K) = klog K" "diskwrites (set_sl l f K) = diskwrites K"
  "cpus (set_sl l f K) = cpus K" "locks (set_sl l f K) = locks K" "eflags_if (set_sl l f K) = eflags_if K"
  by (simp_all add: set_sl_def)

lemma runs_getb [runs_rules]: "v = f (bcache K b) \<Longrightarrow> runs B C (getb b f) K v C K"
  unfolding getb_def by (rule runs_gets) simp

lemma runs_modb [runs_rules]: "runs B C (modb b f) K () C (set_buf b f K)"
  unfolding modb_def by (rule runs_modify) simp

lemma runs_bget_take:
  assumes "idle B" "c_proc (cpu_of K) = Some p" "sl_locked (sleeplocks K (BufSl i)) = 0"
  shows "runs B [BcacheLock] (bget_take i) K i [] (set_sl (BufSl i) (\<lambda>s. s\<lparr>sl_locked := 1, sl_pid := p_pid (ptable K p)\<rparr>) K)"
  unfolding bget_take_def using assms by - (rule runs_rules runs_acquiresleep | simp)+

lemma runs_walk:
  assumes "links (nx \<circ> bcache K) bhead ys bhead" "set ys = {..<NBUF}" "distinct ys" "v = find (\<lambda>i. P (bcache K i)) ys"
  shows "runs B C (gets (\<lambda>k. walk nx P (NBUF + 1) (bcache k) (nx (bcache k bhead)))) K (Some v) C K"
proof (rule runs_gets)
  fix cs ls e
  have "length ys = NBUF" using assms(2,3) by (metis card_lessThan distinct_card)
  then have "walk nx P (NBUF + 1) (bcache K) (nx (bcache K bhead)) = Some v"
    unfolding assms(4) using assms(2) by (intro walk_links[OF assms(1)]) auto
  then show "walk nx P (NBUF + 1) (bcache (K\<lparr>cpus := cs, locks := ls, eflags_if := e\<rparr>))
      (nx (bcache (K\<lparr>cpus := cs, locks := ls, eflags_if := e\<rparr>) bhead)) = Some v" by simp
qed

lemma runs_bget_hit:
  assumes "idle B" "c_proc (cpu_of K) = Some p" "sl_locked (sleeplocks K (BufSl i)) = 0" "linked (bcache K) xs"
    and "find (\<lambda>i. b_dev (bcache K i) = dev \<and> b_blockno (bcache K i) = b) xs = Some i"
  shows "runs B [] (bget dev b) K i [] (set_sl (BufSl i) (\<lambda>s. s\<lparr>sl_locked := 1, sl_pid := p_pid (ptable K p)\<rparr>)
    (set_buf i (\<lambda>x. x\<lparr>b_refcnt := b_refcnt x + 1\<rparr>) K))"
proof -
  have "runs B [BcacheLock] (gets (\<lambda>k. walk b_next (\<lambda>x. b_dev x = dev \<and> b_blockno x = b) (NBUF + 1) (bcache k)
      (b_next (bcache k bhead)))) K (Some (Some i)) [BcacheLock] K"
    using assms(4,5) by (intro runs_walk[where ys = xs]) (auto simp: linked_def)
  moreover have "runs B [BcacheLock] (bget_take i) (set_buf i (\<lambda>x. x\<lparr>b_refcnt := b_refcnt x + 1\<rparr>) K) i []
      (set_sl (BufSl i) (\<lambda>s. s\<lparr>sl_locked := 1, sl_pid := p_pid (ptable K p)\<rparr>)
        (set_buf i (\<lambda>x. x\<lparr>b_refcnt := b_refcnt x + 1\<rparr>) K))"
    using runs_bget_take[of B "set_buf i (\<lambda>x. x\<lparr>b_refcnt := b_refcnt x + 1\<rparr>) K" p i] assms by simp
  ultimately show ?thesis unfolding bget_def using assms(1)
    by (auto intro!: runs_then[OF runs_acquire] runs_bind runs_then[OF runs_modb] simp: idle_def)
qed

lemma runs_bget_miss:
  assumes "idle B" "c_proc (cpu_of K) = Some p" "sl_locked (sleeplocks K (BufSl i)) = 0" "linked (bcache K) xs"
    and "find (\<lambda>i. b_dev (bcache K i) = dev \<and> b_blockno (bcache K i) = b) xs = None"
    and "find (\<lambda>i. b_refcnt (bcache K i) = 0 \<and> b_flags (bcache K i) AND B_DIRTY = 0) (rev xs) = Some i"
  shows "runs B [] (bget dev b) K i [] (set_sl (BufSl i) (\<lambda>s. s\<lparr>sl_locked := 1, sl_pid := p_pid (ptable K p)\<rparr>)
    (set_buf i (\<lambda>x. x\<lparr>b_dev := dev, b_blockno := b, b_flags := 0, b_refcnt := 1\<rparr>) K))"
proof -
  let ?f = "\<lambda>x. x\<lparr>b_dev := dev, b_blockno := b, b_flags := 0, b_refcnt := 1\<rparr>"
  have "runs B [BcacheLock] (gets (\<lambda>k. walk b_next (\<lambda>x. b_dev x = dev \<and> b_blockno x = b) (NBUF + 1) (bcache k)
      (b_next (bcache k bhead)))) K (Some None) [BcacheLock] K"
    using assms(4,5) by (intro runs_walk[where ys = xs]) (auto simp: linked_def)
  moreover have "runs B [BcacheLock] (gets (\<lambda>k. walk b_prev (\<lambda>x. b_refcnt x = 0 \<and> b_flags x AND B_DIRTY = 0) (NBUF + 1)
      (bcache k) (b_prev (bcache k bhead)))) K (Some (Some i)) [BcacheLock] K"
    using assms(4,6) by (intro runs_walk[where ys = "rev xs"]) (auto simp: linked_def)
  moreover have "runs B [BcacheLock] (bget_take i) (set_buf i ?f K) i []
      (set_sl (BufSl i) (\<lambda>s. s\<lparr>sl_locked := 1, sl_pid := p_pid (ptable K p)\<rparr>) (set_buf i ?f K))"
    using runs_bget_take[of B "set_buf i ?f K" p i] assms by simp
  ultimately show ?thesis unfolding bget_def using assms(1)
    by (auto intro!: runs_then[OF runs_acquire] runs_bind runs_then[OF runs_modb] simp: idle_def)
qed

lemma runs_iderw_read:
  assumes "idle B" "c_proc (cpu_of K) = Some p" "sl_locked (sleeplocks K (BufSl i)) \<noteq> 0"
    "sl_pid (sleeplocks K (BufSl i)) = p_pid (ptable K p)"
    and "b_flags (bcache K i) = 0" "b_dev (bcache K i) = 1" "b_blockno (bcache K i) < disksize K"
  shows "runs B [] (iderw i) K () []
    (set_buf i (\<lambda>x. x\<lparr>b_data := disk K (unat (b_blockno x)), b_flags := B_VALID\<rparr>) K)"
proof -
  have "runs B [] (holdingsleep (BufSl i)) K True [] K" using assms by (intro runs_holdingsleep) auto
  moreover have "\<not> disksize K \<le> b_blockno (bcache K i)" using assms(7) by (simp add: not_le)
  moreover have "plain (\<lambda>k. set_buf i (\<lambda>x. x\<lparr>b_data := disk k (unat (b_blockno (bcache K i)))\<rparr>) k) K"
    by (simp add: plain_def set_buf_def)
  ultimately show ?thesis unfolding iderw_def using assms(5,6)
    by - (assumption | rule runs_rules | simp add: set_buf_def)+
qed

lemma runs_iderw_write:
  assumes "idle B" "c_proc (cpu_of K) = Some p" "sl_locked (sleeplocks K (BufSl i)) \<noteq> 0"
    "sl_pid (sleeplocks K (BufSl i)) = p_pid (ptable K p)"
    and "b_flags (bcache K i) = 6" "b_dev (bcache K i) = 1" "b_blockno (bcache K i) < disksize K"
  shows "runs B [] (iderw i) K () []
    (disk_write (unat (b_blockno (bcache K i))) (b_data (bcache K i)) (set_buf i (\<lambda>x. x\<lparr>b_flags := B_VALID\<rparr>) K))"
proof -
  have "runs B [] (holdingsleep (BufSl i)) K True [] K" using assms by (intro runs_holdingsleep) auto
  moreover have "\<not> disksize K \<le> b_blockno (bcache K i)" using assms(7) by (simp add: not_le)
  ultimately show ?thesis unfolding iderw_def using assms(5,6)
    by - (assumption | rule runs_rules plain_set | simp add: set_buf_def disk_write_def)+
qed

text \<open>
  The state after \<open>bread\<close> returned buffer \<open>i\<close> for block \<open>b\<close>.
\<close>

definition take_buf :: "nat \<Rightarrow> uint \<Rightarrow> uint \<Rightarrow> kernel \<Rightarrow> kernel" where
  "take_buf i b fl K =
     set_sl (BufSl i) (\<lambda>s. s\<lparr>sl_locked := 1, sl_pid := p_pid (ptable K (the (c_proc (cpu_of K))))\<rparr>)
     (set_buf i (\<lambda>x. x\<lparr>b_dev := 1, b_blockno := b, b_refcnt := 1, b_flags := fl, b_data := view K b\<rparr>) K)"

text \<open>
  Which buffer \<open>bread\<close> may return: the one that holds the block, otherwise one that is free and clean.
\<close>

definition may_take :: "nat set \<Rightarrow> kernel \<Rightarrow> uint \<Rightarrow> nat \<Rightarrow> uint \<Rightarrow> bool" where
  "may_take H K b i fl \<longleftrightarrow> i < NBUF \<and> i \<notin> H \<and>
     (if \<exists>j. caches K j b \<and> b_flags (bcache K j) \<noteq> 0 then caches K i b \<and> fl = b_flags (bcache K i)
      else fl = 2 \<and> b_flags (bcache K i) \<noteq> 6 \<and> (\<forall>j. caches K j b \<longrightarrow> j = i))"

lemma set_comp [simp]:
  "set_buf i f (set_sl l g K) = set_sl l g (set_buf i f K)"
  "set_buf i f (set_buf i h K) = set_buf i (\<lambda>x. f (h x)) K"
  by (simp_all add: set_buf_def set_sl_def)

lemma set_buf_cong: "f (bcache K i) = g (bcache K i) \<Longrightarrow> set_buf i f K = set_buf i g K"
  by (simp add: set_buf_def)

lemma runs_bread_hit:
  assumes "idle B" "cache_ok H K" "caches K i b" "i \<notin> H" "b < disksize K"
  shows "\<exists>fl. may_take H K b i fl \<and> runs B [] (bread 1 b) K i [] (take_buf i b fl K)"
proof -
  from assms(2) obtain p where p: "c_proc (cpu_of K) = Some p" by (rule cache_ok_me)
  from assms(2) obtain xs where xs: "linked (bcache K) xs" by (auto simp: cache_ok_def)
  have i: "i < NBUF" using assms(3) by (simp add: caches_def)
  note ok = cache_okD[OF assms(2) i]
  have "find (\<lambda>i. b_dev (bcache K i) = 1 \<and> b_blockno (bcache K i) = b) xs = Some i"
  proof -
    have "find (\<lambda>i. b_dev (bcache K i) = 1 \<and> b_blockno (bcache K i) = b) xs \<noteq> None"
      using assms(3) xs by (auto simp: find_None_iff caches_def linked_def)
    then obtain j where j: "find (\<lambda>i. b_dev (bcache K i) = 1 \<and> b_blockno (bcache K i) = b) xs = Some j" by blast
    then have "caches K j b" using xs by (auto simp: find_Some_iff caches_def linked_def)
    then show ?thesis using j caches_unique[OF assms(2) _ assms(3)] by blast
  qed
  then have g: "runs B [] (bget 1 b) K i [] (set_sl (BufSl i) (\<lambda>s. s\<lparr>sl_locked := 1, sl_pid := p_pid (ptable K p)\<rparr>)
      (set_buf i (\<lambda>x. x\<lparr>b_refcnt := b_refcnt x + 1\<rparr>) K))" (is "runs _ _ _ _ _ _ ?K1")
    using assms(1,4) p xs ok(7) by (intro runs_bget_hit) auto
  show ?thesis
  proof (cases "b_flags (bcache K i) = 0")
    case False
    then have "take_buf i b (b_flags (bcache K i)) K = ?K1"
      using assms(3,4) ok(1) p view_cached[OF assms(2,3) False]
      by (auto simp: take_buf_def caches_def intro!: arg_cong[where f = "set_sl _ _"] set_buf_cong)
    then have "runs B [] (bread 1 b) K i [] (take_buf i b (b_flags (bcache K i)) K)"
      unfolding bread_def using g False flag_bits(1)[OF ok(2)] by - (assumption | rule runs_rules | simp)+
    then show ?thesis using assms(3,4) False i by (auto simp: may_take_def)
  next
    case True
    have u: "\<And>j. caches K j b \<Longrightarrow> b_flags (bcache K j) = 0" using True caches_unique[OF assms(2,3)] by blast
    have "runs B [] (iderw i) ?K1 () [] (set_buf i (\<lambda>x. x\<lparr>b_data := disk ?K1 (unat (b_blockno x)), b_flags := B_VALID\<rparr>) ?K1)"
      using assms(1,3,5) p True by (intro runs_iderw_read) (auto simp: caches_def)
    moreover have "take_buf i b 2 K = set_buf i (\<lambda>x. x\<lparr>b_data := disk ?K1 (unat (b_blockno x)), b_flags := B_VALID\<rparr>) ?K1"
      using assms(3,4) ok(1) p view_uncached[OF u]
      by (auto simp: take_buf_def caches_def intro!: arg_cong[where f = "set_sl _ _"] set_buf_cong)
    ultimately have "runs B [] (bread 1 b) K i [] (take_buf i b 2 K)"
      unfolding bread_def using g True by - (assumption | rule runs_rules | simp)+
    then show ?thesis using assms(3,4) True u i caches_unique[OF assms(2)] by (auto simp: may_take_def)
  qed
qed

lemma runs_bread_miss:
  assumes "idle B" "cache_ok H K" "\<And>j. \<not> caches K j b" "b < disksize K"
    and spare: "\<exists>j < NBUF. j \<notin> H \<and> b_flags (bcache K j) \<noteq> 6"
  shows "\<exists>i fl. may_take H K b i fl \<and> runs B [] (bread 1 b) K i [] (take_buf i b fl K)"
proof -
  from assms(2) obtain p where p: "c_proc (cpu_of K) = Some p" by (rule cache_ok_me)
  from assms(2) obtain xs where xs: "linked (bcache K) xs" by (auto simp: cache_ok_def)
  let ?P = "\<lambda>i. b_refcnt (bcache K i) = 0 \<and> b_flags (bcache K i) AND B_DIRTY = 0"
  have P: "?P j \<longleftrightarrow> j \<notin> H \<and> b_flags (bcache K j) \<noteq> 6" if "j < NBUF" for j
    using cache_okD(1)[OF assms(2) that] flag_bits(2)[OF cache_okD(2)[OF assms(2) that]] by auto
  have "find ?P (rev xs) \<noteq> None" using spare P xs by (auto simp: find_None_iff linked_def)
  then obtain i where f: "find ?P (rev xs) = Some i" by blast
  then have i: "i < NBUF" "?P i" using xs by (auto simp: find_Some_iff linked_def rev_nth)
  then have i': "i \<notin> H" "b_flags (bcache K i) \<noteq> 6" using P by auto
  let ?K1 = "set_sl (BufSl i) (\<lambda>s. s\<lparr>sl_locked := 1, sl_pid := p_pid (ptable K p)\<rparr>)
      (set_buf i (\<lambda>x. x\<lparr>b_dev := 1, b_blockno := b, b_flags := 0, b_refcnt := 1\<rparr>) K)"
  have n: "find (\<lambda>i. b_dev (bcache K i) = 1 \<and> b_blockno (bcache K i) = b) xs = None"
    using assms(3) xs by (auto simp: find_None_iff caches_def linked_def)
  have g: "runs B [] (bget 1 b) K i [] ?K1"
    using runs_bget_miss[OF assms(1) p _ xs n f] cache_okD(7)[OF assms(2) i(1)] i'(1) by simp
  have "runs B [] (iderw i) ?K1 () [] (set_buf i (\<lambda>x. x\<lparr>b_data := disk ?K1 (unat (b_blockno x)), b_flags := B_VALID\<rparr>) ?K1)"
    using assms(1,4) p by (intro runs_iderw_read) auto
  moreover have "take_buf i b 2 K = set_buf i (\<lambda>x. x\<lparr>b_data := disk ?K1 (unat (b_blockno x)), b_flags := B_VALID\<rparr>) ?K1"
    using p view_uncached[of K b] assms(3)
    by (auto simp: take_buf_def intro!: arg_cong[where f = "set_sl _ _"] set_buf_cong)
  ultimately have "runs B [] (bread 1 b) K i [] (take_buf i b 2 K)"
    unfolding bread_def using g by - (assumption | rule runs_rules | simp)+
  then show ?thesis using i i' assms(3) by (auto simp: may_take_def)
qed

lemma runs_bread:
  assumes "idle B" "cache_ok H K" "\<And>i. i \<in> H \<Longrightarrow> \<not> caches K i b" "b < disksize K"
    and "\<exists>j < NBUF. j \<notin> H \<and> b_flags (bcache K j) \<noteq> 6"
  shows "\<exists>i fl. may_take H K b i fl \<and> runs B [] (bread 1 b) K i [] (take_buf i b fl K)"
  using runs_bread_hit[OF assms(1,2) _ _ assms(4)] runs_bread_miss[OF assms(1,2) _ assms(4,5)] assms(3) by meson

text \<open>What the new state looks like.\<close>

lemma take_buf_sel [simp]:
  "disk (take_buf i b fl K) = disk K" "disksize (take_buf i b fl K) = disksize K"
  "klog (take_buf i b fl K) = klog K" "diskwrites (take_buf i b fl K) = diskwrites K"
  "j \<noteq> i \<Longrightarrow> bcache (take_buf i b fl K) j = bcache K j"
  "b_data (bcache (take_buf i b fl K) i) = view K b" "b_flags (bcache (take_buf i b fl K) i) = fl"
  "b_blockno (bcache (take_buf i b fl K) i) = b" "b_dev (bcache (take_buf i b fl K) i) = 1"
  by (simp_all add: take_buf_def)

lemma caches_take_buf: "i < NBUF \<Longrightarrow> caches (take_buf i b fl K) j c \<longleftrightarrow> (if j = i then c = b else caches K j c)"
  by (auto simp: caches_def take_buf_def)

lemma linked_cong:
  "(\<And>i. b_next (bc' i) = b_next (bc i)) \<Longrightarrow> (\<And>i. b_prev (bc' i) = b_prev (bc i)) \<Longrightarrow> linked bc' xs = linked bc xs"
  by (simp add: linked_def comp_def)

lemma may_take_flags: "cache_ok H K \<Longrightarrow> may_take H K b i fl \<Longrightarrow> fl = 2 \<or> fl = 6"
  using caches_unique[of H K i b] cache_okD(2)[of H K i] unfolding may_take_def by (auto split: if_splits)

lemma cache_ok_take_buf:
  assumes ok: "cache_ok H K" and t: "may_take H K b i fl" and b: "b < disksize K"
  shows "cache_ok (insert i H) (take_buf i b fl K)"
proof -
  let ?K = "take_buf i b fl K"
  have i: "i < NBUF" "i \<notin> H" using t by (simp_all add: may_take_def)
  have fl: "fl = 2 \<or> fl = 6" by (rule may_take_flags[OF ok t])
  from ok obtain xs where "linked (bcache K) xs" by (auto simp: cache_ok_def)
  then have "linked (bcache ?K) xs" by (subst linked_cong[of _ "bcache K"]) (simp_all add: take_buf_def)
  moreover have "no_dups (bcache ?K)"
  proof -
    have "\<And>j. caches K j b \<Longrightarrow> j = i" using t caches_unique[OF ok] by (auto simp: may_take_def split: if_splits)
    then show ?thesis using ok i
      by (auto simp: no_dups_def take_buf_def caches_def cache_ok_def)
  qed
  moreover have "buf_ok (disk K) (disksize K) (j \<in> insert i H) (bcache ?K j)" if "j < NBUF" for j
    using ok that b fl by (cases "j = i") (auto simp: cache_ok_def buf_ok_def take_buf_def)
  moreover have "\<exists>p. c_proc (cpu_of ?K) = Some p \<and>
      (\<forall>j \<in> insert i H. sl_pid (sleeplocks ?K (BufSl j)) = p_pid (ptable ?K p))"
    using ok by (auto simp: cache_ok_def take_buf_def)
  moreover have "sl_locked (sleeplocks ?K (BufSl j)) \<noteq> 0 \<longleftrightarrow> j \<in> insert i H" if "j < NBUF" for j
    using ok that by (auto simp: cache_ok_def take_buf_def)
  ultimately show ?thesis using ok i unfolding cache_ok_def by auto
qed

lemma view_take_buf:
  assumes ok: "cache_ok H K" and t: "may_take H K b i fl" and b: "b < disksize K"
  shows "view (take_buf i b fl K) = view K"
proof
  fix c
  let ?K = "take_buf i b fl K"
  have i: "i < NBUF" "i \<notin> H" using t by (simp_all add: may_take_def)
  note ok' = cache_ok_take_buf[OF assms] and fl = may_take_flags[OF ok t]
  show "view ?K c = view K c"
  proof (cases "c = b")
    case True
    then show ?thesis using view_cached[OF ok', of i b] fl i by (auto simp: caches_take_buf)
  next
    case False
    show ?thesis
    proof (rule view_eqI[OF ok ok'])
      fix j assume j: "caches K j c" "b_flags (bcache K j) \<noteq> 0"
      show "(\<exists>j'. caches ?K j' c \<and> b_flags (bcache ?K j') \<noteq> 0 \<and> b_data (bcache ?K j') = b_data (bcache K j)) \<or>
        (\<forall>j'. caches ?K j' c \<longrightarrow> b_flags (bcache ?K j') = 0) \<and> b_data (bcache K j) = disk K (unat c)"
      proof (cases "j = i")
        case True
        then have "\<not> caches K i b" using j(1) False by (auto simp: caches_def)
        then have "b_flags (bcache K i) = 2"
          using t cache_okD(2)[OF ok i(1)] j(2) True by (auto simp: may_take_def split: if_splits)
        then have "b_data (bcache K j) = disk K (unat c)"
          using cache_okD(6)[OF ok i(1,2)] j(1) True by (simp add: caches_def)
        moreover have "\<not> caches ?K j' c" for j'
          using caches_unique[OF ok j(1), of j'] False i(1) True by (auto simp: caches_take_buf)
        ultimately show ?thesis by blast
      next
        case False
        then show ?thesis using j i(1) by (auto simp: caches_take_buf intro!: exI[of _ j])
      qed
    next
      fix j assume j: "caches ?K j c" "b_flags (bcache ?K j) \<noteq> 0"
      then show "(\<exists>j'. caches K j' c \<and> b_flags (bcache K j') \<noteq> 0) \<or> b_data (bcache ?K j) = disk K (unat c)"
        using False i by (auto simp: caches_take_buf split: if_splits)
    qed simp
  qed
qed

lemma pinned_take_buf:
  assumes ok: "cache_ok H K" and t: "may_take H K b i fl"
  shows "pinned (take_buf i b fl K) = pinned K"
proof -
  have i: "i < NBUF" using t by (simp add: may_take_def)
  have "fl = 6 \<Longrightarrow> caches K i b \<and> b_flags (bcache K i) = 6"
      and "b_flags (bcache K i) = 6 \<Longrightarrow> caches K i b \<and> fl = 6"
    using t cache_okD(2)[OF ok i] by (auto simp: may_take_def split: if_splits)
  then have "caches (take_buf i b fl K) j c \<and> b_flags (bcache (take_buf i b fl K) j) = 6 \<longleftrightarrow>
      caches K j c \<and> b_flags (bcache K j) = 6" for j c
    by (cases "j = i") (auto simp: caches_take_buf[OF i] caches_def)
  then show ?thesis by (simp add: pinned_def)
qed

section \<open>Writing and releasing\<close>

lemma cache_ok_upd:
  assumes ok: "cache_ok H K"
    and same: "\<And>j. b_next (bcache K' j) = b_next (bcache K j)" "\<And>j. b_prev (bcache K' j) = b_prev (bcache K j)"
      "\<And>j. b_dev (bcache K' j) = b_dev (bcache K j)" "\<And>j. b_blockno (bcache K' j) = b_blockno (bcache K j)"
      "sleeplocks K' = sleeplocks K" "cpu_of K' = cpu_of K" "ptable K' = ptable K"
    and bufs: "\<And>j. j < NBUF \<Longrightarrow> buf_ok (disk K') (disksize K') (j \<in> H) (bcache K' j)"
  shows "cache_ok H K'"
proof -
  have "linked (bcache K') = linked (bcache K)" by (intro ext linked_cong) (rule same)+
  moreover have "no_dups (bcache K') = no_dups (bcache K)" by (simp add: no_dups_def same)
  ultimately show ?thesis using ok bufs unfolding cache_ok_def same by simp
qed

text \<open>Changing the data of a buffer the process holds.\<close>

lemma cache_ok_set_data:
  assumes "cache_ok H K" "i \<in> H" and K': "K' = set_buf i (\<lambda>x. x\<lparr>b_data := d\<rparr>) K"
  shows "cache_ok H K'" "view K' = (view K)(b_blockno (bcache K i) := d)" "pinned K' = pinned K"
proof -
  have i: "i < NBUF" using assms(1,2) by (auto simp: cache_ok_def)
  have c: "caches K' j c = caches K j c" "b_flags (bcache K' j) = b_flags (bcache K j)" for j c
    by (simp_all add: K' caches_def)
  have "buf_ok (disk K') (disksize K') (j \<in> H) (bcache K' j)" if "j < NBUF" for j
    using cache_ok_buf[OF assms(1) that] assms(2) by (cases "j = i") (auto simp: buf_ok_def K')
  then show ok': "cache_ok H K'" by (intro cache_ok_upd[OF assms(1)]) (simp_all add: K')
  show "pinned K' = pinned K" by (simp add: pinned_def c)
  note v = cache_okD(3,4)[OF assms(1) i]
  show "view K' = (view K)(b_blockno (bcache K i) := d)"
  proof
    fix b
    show "view K' b = ((view K)(b_blockno (bcache K i) := d)) b"
    proof (cases "caches K i b")
      case True
      then have "view K' b = b_data (bcache K' i)" using v assms(2) by (intro view_cached[OF ok']) (simp_all add: c)
      then show ?thesis using True by (simp add: caches_def K')
    next
      case False
      then have "b \<noteq> b_blockno (bcache K i)" using v assms(2) by blast
      moreover have "view K' b = view K b"
      proof (rule view_eqI[OF assms(1) ok'])
        fix j assume "caches K j b" "b_flags (bcache K j) \<noteq> 0"
        moreover from this have "b_data (bcache K' j) = b_data (bcache K j)" using False by (auto simp: K')
        ultimately show "(\<exists>j'. caches K' j' b \<and> b_flags (bcache K' j') \<noteq> 0 \<and> b_data (bcache K' j') = b_data (bcache K j)) \<or>
          (\<forall>j'. caches K' j' b \<longrightarrow> b_flags (bcache K' j') = 0) \<and> b_data (bcache K j) = disk K (unat b)"
          unfolding c by blast
      qed (use c in \<open>auto simp: K'\<close>)
      ultimately show ?thesis by simp
    qed
  qed
qed

text \<open>\<open>bwrite\<close> puts the buffer on the disk.\<close>

definition put_buf :: "nat \<Rightarrow> kernel \<Rightarrow> kernel" where
  "put_buf i K = disk_write (unat (b_blockno (bcache K i))) (b_data (bcache K i))
     (set_buf i (\<lambda>x. x\<lparr>b_flags := B_VALID\<rparr>) K)"

lemma runs_bwrite:
  assumes "idle B" "cache_ok H K" "i \<in> H"
  shows "runs B [] (bwrite i) K () [] (put_buf i K)"
proof -
  obtain p where p: "c_proc (cpu_of K) = Some p"
      "\<And>i. i \<in> H \<Longrightarrow> sl_pid (sleeplocks K (BufSl i)) = p_pid (ptable K p)"
    using cache_ok_me[OF assms(2)] by blast
  have i: "i < NBUF" using assms by (auto simp: cache_ok_def)
  note ok = cache_okD[OF assms(2) i]
  let ?K = "set_buf i (\<lambda>x. x\<lparr>b_flags := b_flags x OR B_DIRTY\<rparr>) K"
  have "runs B [] (holdingsleep (BufSl i)) K True [] K"
    using assms(1,3) p ok(7) by (intro runs_holdingsleep) auto
  moreover have "runs B [] (iderw i) ?K () []
      (disk_write (unat (b_blockno (bcache ?K i))) (b_data (bcache ?K i)) (set_buf i (\<lambda>x. x\<lparr>b_flags := B_VALID\<rparr>) ?K))"
    using assms(1,3) p ok flag_bits(4)[OF ok(2)] by (intro runs_iderw_write) (auto simp: caches_def)
  moreover have "disk_write (unat (b_blockno (bcache ?K i))) (b_data (bcache ?K i)) (set_buf i (\<lambda>x. x\<lparr>b_flags := B_VALID\<rparr>) ?K) = put_buf i K"
    by (simp add: put_buf_def)
  ultimately show ?thesis unfolding bwrite_def by - (assumption | rule runs_rules | simp)+
qed

lemma put_buf_sel [simp]:
  "disk (put_buf i K) = (disk K)(unat (b_blockno (bcache K i)) := b_data (bcache K i))"
  "diskwrites (put_buf i K) = diskwrites K @ [(unat (b_blockno (bcache K i)), b_data (bcache K i))]"
  "disksize (put_buf i K) = disksize K" "klog (put_buf i K) = klog K"
  "sleeplocks (put_buf i K) = sleeplocks K" "ptable (put_buf i K) = ptable K" "cpu_of (put_buf i K) = cpu_of K"
  "bcache (put_buf i K) = (bcache K)(i := (bcache K i)\<lparr>b_flags := 2\<rparr>)"
  by (simp_all add: put_buf_def disk_write_def)

lemma cache_ok_put_buf:
  assumes "cache_ok H K" "i \<in> H"
  shows "cache_ok H (put_buf i K)" "view (put_buf i K) = view K"
    "pinned (put_buf i K) = pinned K - {b_blockno (bcache K i)}"
proof -
  let ?K = "put_buf i K" and ?b = "b_blockno (bcache K i)"
  have i: "i < NBUF" using assms by (auto simp: cache_ok_def)
  note v = cache_okD(3,4)[OF assms(1) i]
  have c: "caches ?K j c = caches K j c" "b_data (bcache ?K j) = b_data (bcache K j)" for j c
    by (simp_all add: caches_def)
  have f: "b_flags (bcache ?K j) = 0 \<longleftrightarrow> b_flags (bcache K j) = 0" for j using v assms(2) by simp
  have "buf_ok (disk ?K) (disksize ?K) (j \<in> H) (bcache ?K j)" if j: "j < NBUF" for j
  proof (cases "j = i")
    case False
    have "b_blockno (bcache K j) \<noteq> ?b" if "b_flags (bcache K j) \<noteq> 0"
      using that False caches_unique[OF assms(1), of i] v assms(2) cache_okD(4)[OF assms(1) j] by metis
    then show ?thesis using assms(1) j False
      by (auto simp: cache_ok_def buf_ok_def simp flip: word_unat_eq_iff)
  qed (use assms j in \<open>auto simp: cache_ok_def buf_ok_def\<close>)
  then show ok': "cache_ok H ?K" by (intro cache_ok_upd[OF assms(1)]) simp_all
  show "view ?K = view K"
  proof
    fix b
    show "view ?K b = view K b"
    proof (cases "\<exists>j. caches K j b \<and> b_flags (bcache K j) \<noteq> 0")
      case True
      then show ?thesis using view_cached[OF assms(1)] view_cached[OF ok'] c f by metis
    next
      case False
      then have "b \<noteq> ?b" using v assms(2) by auto
      then show ?thesis using False view_uncached[of K b] view_uncached[of ?K b] c f by (simp flip: word_unat_eq_iff)
    qed
  qed
  have "caches K j c \<and> b_flags (bcache ?K j) = 6 \<longleftrightarrow> (caches K j c \<and> b_flags (bcache K j) = 6) \<and> c \<noteq> ?b" for j c
    using caches_unique[OF assms(1), of i ?b j] v assms(2) by (auto simp: caches_def)
  then show "pinned ?K = pinned K - {?b}" unfolding pinned_def c(1) by auto
qed

text \<open>\<open>brelse\<close> unlocks the buffer and makes it the most recently used one.\<close>

definition give_buf :: "nat \<Rightarrow> kernel \<Rightarrow> kernel" where
  "give_buf i K = (set_sl (BufSl i) (\<lambda>s. s\<lparr>sl_locked := 0, sl_pid := 0\<rparr>) K)
     \<lparr>ptable := woken (Some (ChSleeplock (BufSl i))) (ptable K),
      bcache := push_front i (unlink i ((bcache K)(i := (bcache K i)\<lparr>b_refcnt := b_refcnt (bcache K i) - 1\<rparr>)))\<rparr>"

lemma runs_link_front: "runs B C (link_front b) K () C (K\<lparr>bcache := push_front b (bcache K)\<rparr>)"
  unfolding link_front_def by (rule runs_rules | simp add: push_front_def set_buf_def Let_def)+

lemma runs_relink:
  assumes "b_refcnt (bcache K b) = 0"
  shows "runs B C (bindK (getb b b_refcnt) (\<lambda>n. whenK (n = 0) (seqK [
      bindK (getb b (\<lambda>x. x)) (\<lambda>bf. modb (b_next bf) (\<lambda>x. x\<lparr>b_prev := b_prev bf\<rparr>)),
      bindK (getb b (\<lambda>x. x)) (\<lambda>bf. modb (b_prev bf) (\<lambda>x. x\<lparr>b_next := b_next bf\<rparr>)),
      link_front b]))) K () C (K\<lparr>bcache := push_front b (unlink b (bcache K))\<rparr>)" (is "runs B C (bindK _ (\<lambda>n. whenK _ ?m)) _ _ _ ?K")
proof -
  have "runs B C ?m K () C ?K"
    by (rule runs_rules runs_link_front | simp add: unlink_def set_buf_def Let_def)+
  then show ?thesis using assms by (intro runs_bind[OF runs_getb[OF refl]]) (simp only: refl whenK_simps simp_thms)
qed

lemma runs_brelse:
  assumes "idle B" "cache_ok H K" "i \<in> H"
  shows "runs B [] (brelse i) K () [] (give_buf i K)"
proof -
  obtain p where p: "c_proc (cpu_of K) = Some p"
      "\<And>i. i \<in> H \<Longrightarrow> sl_pid (sleeplocks K (BufSl i)) = p_pid (ptable K p)"
    using cache_ok_me[OF assms(2)] by blast
  have i: "i < NBUF" using assms by (auto simp: cache_ok_def)
  have r: "b_refcnt (bcache K i) = 1" using cache_okD(1)[OF assms(2) i] assms(3) by simp
  have h: "runs B [] (holdingsleep (BufSl i)) K True [] K"
    using assms(1,3) p cache_okD(7)[OF assms(2) i] by (intro runs_holdingsleep) auto
  have s: "runs B [] (releasesleep (BufSl i)) K () [] ((set_sl (BufSl i) (\<lambda>s. s\<lparr>sl_locked := 0, sl_pid := 0\<rparr>) K)
      \<lparr>ptable := woken (Some (ChSleeplock (BufSl i))) (ptable K)\<rparr>)"
    using assms(1) by (intro runs_releasesleep) auto
  show ?thesis unfolding brelse_def
    by (rule runs_bind[OF h], unfold not_True_eq_False if_False)
      (rule s runs_relink runs_rules | simp add: r give_buf_def set_buf_def assms(1)[unfolded idle_def])+
qed

lemma give_buf_sel [simp]:
  "disk (give_buf i K) = disk K" "disksize (give_buf i K) = disksize K"
  "klog (give_buf i K) = klog K" "diskwrites (give_buf i K) = diskwrites K" "cpu_of (give_buf i K) = cpu_of K"
  "sleeplocks (give_buf i K) = (sleeplocks K)(BufSl i := (sleeplocks K (BufSl i))\<lparr>sl_locked := 0, sl_pid := 0\<rparr>)"
  "ptable (give_buf i K) = woken (Some (ChSleeplock (BufSl i))) (ptable K)"
  by (simp_all add: give_buf_def)

lemma give_buf_buf:
  "unlinked (bcache (give_buf i K) j) = unlinked ((if j = i then (bcache K i)\<lparr>b_refcnt := b_refcnt (bcache K i) - 1\<rparr> else bcache K j))"
  by (simp add: give_buf_def unlinked_moved)

lemma unlinkedD:
  assumes "unlinked x = unlinked y"
  shows "b_flags x = b_flags y" "b_dev x = b_dev y" "b_blockno x = b_blockno y" "b_refcnt x = b_refcnt y" "b_data x = b_data y"
  using assms by (cases x; cases y; simp add: unlinked_def)+

lemma give_buf_fields [simp]:
  "b_flags (bcache (give_buf i K) j) = b_flags (bcache K j)" "b_dev (bcache (give_buf i K) j) = b_dev (bcache K j)"
  "b_blockno (bcache (give_buf i K) j) = b_blockno (bcache K j)" "b_data (bcache (give_buf i K) j) = b_data (bcache K j)"
  "b_refcnt (bcache (give_buf i K) j) = (if j = i then b_refcnt (bcache K i) - 1 else b_refcnt (bcache K j))"
  using unlinkedD[OF give_buf_buf, of i K j] by simp_all

lemma woken_pid [simp]: "p_pid (woken ch t q) = p_pid (t q)"
  by (simp add: woken_def)

lemma view_give_buf: "view (give_buf i K) = view K" "pinned (give_buf i K) = pinned K" "caches (give_buf i K) = caches K"
  by (auto simp: fun_eq_iff view_def pinned_def caches_def split: option.split)

lemma cache_ok_give_buf:
  assumes "cache_ok H K" "i \<in> H"
    and "b_flags (bcache K i) = 2 \<Longrightarrow> b_data (bcache K i) = disk K (unat (b_blockno (bcache K i)))"
  shows "cache_ok (H - {i}) (give_buf i K)"
proof -
  have i: "i < NBUF" using assms(1,2) by (auto simp: cache_ok_def)
  from assms(1) obtain xs where "linked (bcache K) xs" by (auto simp: cache_ok_def)
  then have "linked ((bcache K)(i := (bcache K i)\<lparr>b_refcnt := b_refcnt (bcache K i) - 1\<rparr>)) xs"
    by (subst linked_cong[of _ "bcache K"]) simp_all
  then have "linked (bcache (give_buf i K)) (i # remove1 i xs)"
    using i by (auto simp: give_buf_def intro: linked_mru)
  moreover have "no_dups (bcache (give_buf i K))" 
    using assms(1) unfolding cache_ok_def no_dups_def by simp blast
  moreover have "buf_ok (disk K) (disksize K) (j \<in> H - {i}) (bcache (give_buf i K) j)" if "j < NBUF" for j
    using cache_ok_buf[OF assms(1) that] assms(2,3) by (auto simp: buf_ok_def)
  moreover have "sl_locked (sleeplocks (give_buf i K) (BufSl j)) \<noteq> 0 \<longleftrightarrow> j \<in> H - {i}" if "j < NBUF" for j
    using cache_okD(7)[OF assms(1) that] by simp
  moreover have "\<exists>p. c_proc (cpu_of (give_buf i K)) = Some p \<and>
      (\<forall>j \<in> H - {i}. sl_pid (sleeplocks (give_buf i K) (BufSl j)) = p_pid (ptable (give_buf i K) p))"
    using assms(1) by (auto simp: cache_ok_def)
  ultimately show ?thesis using assms(1) unfolding cache_ok_def by auto
qed

section \<open>The cache as a block device\<close>

lemma synced_view:
  assumes "synced K k"
  shows "cache_ok H k = cache_ok H K" "view k = view K" "bcache k = bcache K" "disk k = disk K"
    "diskwrites k = diskwrites K" "klog k = klog K" "disksize k = disksize K"
proof -
  have f: "bcache k = bcache K" "disk k = disk K" "diskwrites k = diskwrites K" "klog k = klog K"
    "disksize k = disksize K" "sleeplocks k = sleeplocks K" "ptable k = ptable K"
    using assms by (auto elim!: syncedE)
  then show "bcache k = bcache K" "disk k = disk K" "diskwrites k = diskwrites K" "klog k = klog K"
    "disksize k = disksize K" by simp_all
  show "cache_ok H k = cache_ok H K" by (simp add: cache_ok_def f synced_cpu(3)[OF assms])
  show "view k = view K" by (auto simp: view_def caches_def f fun_eq_iff split: option.split)
qed

text \<open>
  C2: \<open>bread\<close> on a consistent cache with a buffer to spare returns a locked buffer holding the block as
  the file system last saw it, whether or not it was cached; every block keeps its contents and the cache
  stays consistent, with the returned buffer now held: its list is still a ring of all the buffers and no
  block is cached twice.
\<close>

theorem bread_returns_block:
  assumes "cpu_ok k" "idle k" "cache_ok H k" "b < disksize k" "\<forall>i \<in> H. \<not> caches k i b"
    and "\<exists>j < NBUF. j \<notin> H \<and> b_flags (bcache k j) \<noteq> 6"
  shows "wp (bread 1 b) (\<lambda>i (k', env'). env' = env \<and> i \<notin> H \<and> cache_ok (insert i H) k' \<and>
    caches k' i b \<and> b_data (bcache k' i) = view k b \<and> view k' = view k \<and> disk k' = disk k) (k, env)"
proof -
  from runs_bread[OF assms(2,3) _ assms(4,6)] assms(5)
  obtain i fl where t: "may_take H k b i fl" and r: "runs k [] (bread 1 b) k i [] (take_buf i b fl k)" by blast
  have i: "i < NBUF" "i \<notin> H" using t by (simp_all add: may_take_def)
  have "wp (bread 1 b) (\<lambda>r (k', env'). r = i \<and> env' = env \<and> synced (take_buf i b fl k) k') (k, env)"
    by (rule runsD[OF r assms(1)]) (simp_all add: take_buf_def)
  then show ?thesis
    using cache_ok_take_buf[OF assms(3) t assms(4)] view_take_buf[OF assms(3) t assms(4)] i caches_take_buf[OF i(1), of b fl k]
    by (auto elim!: wp_mono simp: synced_view caches_def)
qed

text \<open>A kernel whose cache is as \<open>binit\<close> leaves it, running process 0.\<close>

definition boot_kernel :: kernel where
  "boot_kernel = zero_kernel\<lparr>cpus := \<lambda>c. (cpus zero_kernel c)\<lparr>c_proc := Some 0\<rparr>,
     bcache := \<lambda>i. (bcache zero_kernel i)\<lparr>b_next := if i = NBUF then 0 else i + 1, b_prev := if i = 0 then NBUF else i - 1\<rparr>\<rparr>"

lemma boot_ok: "cpu_ok boot_kernel" "idle boot_kernel" "cache_ok {} boot_kernel" "disksize boot_kernel = 1000"
proof -
  have "set [0..<NBUF] = {..<NBUF}" "distinct [0..<NBUF]" by auto
  moreover have "links (b_next \<circ> bcache boot_kernel) bhead [0..<NBUF] bhead"
      "links (b_prev \<circ> bcache boot_kernel) bhead (rev [0..<NBUF]) bhead"
    by (simp_all add: boot_kernel_def comp_def upt_rec)
  ultimately have "linked (bcache boot_kernel) [0..<NBUF]" unfolding linked_def by blast
  moreover have "no_dups (bcache boot_kernel)" by (simp add: no_dups_def boot_kernel_def zero_kernel_def)
  ultimately show "cache_ok {} boot_kernel"
    by (auto simp: cache_ok_def) (auto simp: boot_kernel_def zero_kernel_def buf_ok_def cpu_of_def)
  show "cpu_ok boot_kernel" "idle boot_kernel" "disksize boot_kernel = 1000"
    by (simp_all add: boot_kernel_def zero_kernel_def idle_def lock_free_def cpu_ok_def this_cpu_def cpu_of_def)
qed

theorem bread_returns_block_witness:
  "wp (bread 1 7) (\<lambda>i (k', env'). env' = [] \<and> i \<notin> {} \<and> cache_ok (insert i {}) k' \<and>
    caches k' i 7 \<and> b_data (bcache k' i) = view boot_kernel 7 \<and> view k' = view boot_kernel \<and>
    disk k' = disk boot_kernel) (boot_kernel, [])"
  using bread_returns_block[of boot_kernel "{}" "7" "[]", OF boot_ok(1-3)] boot_ok(4)
  by (force simp: boot_kernel_def zero_kernel_def)

end
