(* ===== verification/Crash.thy ===== *)
theory Crash
  imports Bcache Log
begin

text \<open>
  Crash safety of the redo log. \<open>dev_run K K' ws\<close> describes a stretch of file-system code that ends with no
  buffer locked and has written the blocks \<open>ws\<close> to the disk, in that order. The steps of \<open>commit\<close> and of
  \<open>recover_from_log\<close> are such stretches; a crash leaves a prefix of the writes on the disk.
\<close>

section \<open>Stretches of writes\<close>

type_synonym blkwrite = "uint \<times> byte list"

definition dwrite :: "blkwrite \<Rightarrow> (nat \<Rightarrow> byte list) \<Rightarrow> nat \<Rightarrow> byte list" where
  "dwrite w D = D(unat (fst w) := snd w)"

definition vwrite :: "blkwrite \<Rightarrow> (uint \<Rightarrow> byte list) \<Rightarrow> uint \<Rightarrow> byte list" where
  "vwrite w V = V(fst w := snd w)"

definition dev_core :: "kernel \<Rightarrow> kernel \<Rightarrow> blkwrite list \<Rightarrow> bool" where
  "dev_core K K' ws \<longleftrightarrow> cache_ok {} K' \<and> view K' = fold vwrite ws (view K) \<and> disk K' = fold dwrite ws (disk K) \<and>
     diskwrites K' = diskwrites K @ map (\<lambda>(b, d). (unat b, d)) ws \<and> pinned K' = pinned K - fst ` set ws \<and>
     disksize K' = disksize K \<and> cpus K' = cpus K \<and> locks K' = locks K \<and> eflags_if K' = eflags_if K"

definition dev_run :: "kernel \<Rightarrow> kernel \<Rightarrow> blkwrite list \<Rightarrow> bool" where
  "dev_run K K' ws \<longleftrightarrow> dev_core K K' ws \<and> klog K' = klog K"

lemma dev_core_trans: "dev_core K K1 ws1 \<Longrightarrow> dev_core K1 K2 ws2 \<Longrightarrow> dev_core K K2 (ws1 @ ws2)"
  by (auto simp: dev_core_def)

lemma dev_run_trans: "dev_run K K1 ws1 \<Longrightarrow> dev_run K1 K2 ws2 \<Longrightarrow> dev_run K K2 (ws1 @ ws2)"
  by (auto simp: dev_run_def intro: dev_core_trans)

lemma dirty_card:
  assumes "cache_ok H K"
  shows "card {i. i < NBUF \<and> b_flags (bcache K i) = 6} = card (pinned K)" "finite (pinned K)"
proof -
  let ?D = "{i. i < NBUF \<and> b_flags (bcache K i) = 6}" and ?f = "\<lambda>i. b_blockno (bcache K i)"
  have f: "finite ?D" by simp
  have c: "caches K i (?f i)" if "i \<in> ?D" for i using that cache_okD(4)[OF assms, of i] by simp
  have inj: "inj_on ?f ?D"
  proof (rule inj_onI)
    fix i j assume ij: "i \<in> ?D" "j \<in> ?D" "?f i = ?f j"
    show "i = j" by (rule caches_unique[OF assms c[OF ij(1)]]) (use c[OF ij(2)] ij(3) in simp)
  qed
  have "?f ` ?D \<subseteq> pinned K" using c by (auto simp: pinned_def)
  moreover have "pinned K \<subseteq> ?f ` ?D" by (auto simp: pinned_def caches_def)
  ultimately have im: "?f ` ?D = pinned K" by blast
  show "card ?D = card (pinned K)" using card_image[OF inj] im by simp
  show "finite (pinned K)" using finite_imageI[OF f, of ?f] im by simp
qed

lemma spare_buf:
  assumes "cache_ok H K" "card (pinned K) + card H < NBUF"
  shows "\<exists>j < NBUF. j \<notin> H \<and> b_flags (bcache K j) \<noteq> 6"
proof (rule ccontr)
  assume "\<not> ?thesis"
  then have "{..<NBUF} \<subseteq> {i. i < NBUF \<and> b_flags (bcache K i) = 6} \<union> H" by auto
  moreover have "finite H" using assms(1) by (auto simp: cache_ok_def intro: finite_subset)
  ultimately have "NBUF \<le> card ({i. i < NBUF \<and> b_flags (bcache K i) = 6} \<union> H)"
    using card_mono[of "{i. i < NBUF \<and> b_flags (bcache K i) = 6} \<union> H" "{..<NBUF}"] by simp
  also have "\<dots> \<le> card (pinned K) + card H" unfolding dirty_card(1)[OF assms(1), symmetric] by (rule card_Un_le)
  finally show False using assms(2) by simp
qed

lemma unpinned_view:
  assumes "cache_ok {} K" "b \<notin> pinned K"
  shows "view K b = disk K (unat b)"
proof (cases "\<exists>i. caches K i b \<and> b_flags (bcache K i) \<noteq> 0")
  case True
  then obtain i where i: "caches K i b" "b_flags (bcache K i) \<noteq> 0" by blast
  then have n: "i < NBUF" by (simp add: caches_def)
  have "b_flags (bcache K i) = 2" using i assms(2) cache_okD(2)[OF assms(1) n] by (auto simp: pinned_def)
  then show ?thesis using view_cached[OF assms(1) i] cache_okD(6)[OF assms(1) n] i(1) by (simp add: caches_def)
qed (use view_uncached in blast)

lemma buf_ops_keep [simp]:
  "cpus (take_buf i b fl K) = cpus K" "locks (take_buf i b fl K) = locks K" "eflags_if (take_buf i b fl K) = eflags_if K"
  "cpus (put_buf i K) = cpus K" "locks (put_buf i K) = locks K" "eflags_if (put_buf i K) = eflags_if K"
  "cpus (give_buf i K) = cpus K" "locks (give_buf i K) = locks K" "eflags_if (give_buf i K) = eflags_if K"
  by (simp_all add: take_buf_def put_buf_def give_buf_def disk_write_def)

text \<open>
  \<open>reading K K' H\<close>: since \<open>K\<close> blocks have been read into the locked buffers \<open>H\<close>, and nothing written.
\<close>

definition reading :: "kernel \<Rightarrow> kernel \<Rightarrow> nat set \<Rightarrow> bool" where
  "reading K K' H \<longleftrightarrow> cache_ok H K' \<and> view K' = view K \<and> pinned K' = pinned K \<and> disk K' = disk K \<and>
     diskwrites K' = diskwrites K \<and> klog K' = klog K \<and> disksize K' = disksize K \<and>
     cpus K' = cpus K \<and> locks K' = locks K \<and> eflags_if K' = eflags_if K \<and>
     (\<forall>i \<in> H. b_data (bcache K' i) = view K (b_blockno (bcache K' i)) \<and>
       (b_flags (bcache K' i) = 2 \<longrightarrow> view K (b_blockno (bcache K' i)) = disk K (unat (b_blockno (bcache K' i)))))"

lemma reading_start: "cache_ok {} K \<Longrightarrow> reading K K {}"
  by (simp add: reading_def)

lemma reading_bread:
  assumes B: "idle B" and K: "cache_ok {} K" and r: "reading K K1 H" and b: "b < disksize K"
    and H: "\<forall>i \<in> H. b_blockno (bcache K1 i) \<noteq> b" and sp: "card (pinned K) + card H < NBUF"
  shows "\<exists>i K2. runs B [] (bread 1 b) K1 i [] K2 \<and> reading K K2 (insert i H) \<and> i \<notin> H \<and>
    b_blockno (bcache K2 i) = b \<and> (\<forall>j \<in> H. bcache K2 j = bcache K1 j)"
proof -
  have ok: "cache_ok H K1" and b': "b < disksize K1" and sp': "card (pinned K1) + card H < NBUF"
    and H': "\<And>i. i \<in> H \<Longrightarrow> \<not> caches K1 i b"
    using r b H sp by (auto simp: reading_def caches_def)
  obtain i fl where t: "may_take H K1 b i fl" and run: "runs B [] (bread 1 b) K1 i [] (take_buf i b fl K1)"
    using runs_bread[OF B ok H' b' spare_buf[OF ok sp']] by blast
  have i: "i \<notin> H" using t by (simp add: may_take_def)
  have "fl = 2 \<Longrightarrow> b \<notin> pinned K1"
    using t caches_unique[OF ok] by (fastforce simp: may_take_def pinned_def split: if_splits)
  then have "fl = 2 \<Longrightarrow> view K b = disk K (unat b)" using r unpinned_view[OF K] by (simp add: reading_def)
  moreover have o: "bcache (take_buf i b fl K1) j = bcache K1 j" if "j \<in> H" for j
    using that i by (intro take_buf_sel) auto
  ultimately have "reading K (take_buf i b fl K1) (insert i H)"
    using r cache_ok_take_buf[OF ok t b'] view_take_buf[OF ok t b'] pinned_take_buf[OF ok t]
    by (auto simp: reading_def)
  then show ?thesis using run i o by (intro exI[of _ i] exI[of _ "take_buf i b fl K1"]) simp
qed

lemma reading_blocks:
  assumes "reading K K' H" "s \<in> H" "d \<in> H" "s \<noteq> d"
  shows "b_blockno (bcache K' s) \<noteq> b_blockno (bcache K' d)"
proof -
  have ok: "cache_ok H K'" using assms(1) by (simp add: reading_def)
  have n: "s < NBUF" "d < NBUF" using ok assms(2,3) by (auto simp: cache_ok_def)
  have "caches K' s (b_blockno (bcache K' s))" "caches K' d (b_blockno (bcache K' d))"
    using cache_okD(3,4)[OF ok n(1)] cache_okD(3,4)[OF ok n(2)] assms(2,3) by auto
  then show ?thesis using caches_unique[OF ok] assms(4) by metis
qed

text \<open>The end of the copy loops: copy a locked buffer into another, write that, release both.\<close>

lemma runs_copy:
  assumes B: "idle B" and r: "reading K K2 {s, d}" and sd: "s \<noteq> d"
  shows "\<exists>K'. runs B [] (seqK [
      modify (\<lambda>k. set_buf d (\<lambda>x. x\<lparr>b_data := b_data (bcache k s)\<rparr>) k), bwrite d, brelse s, brelse d]) K2 () [] K' \<and>
    dev_run K K' [(b_blockno (bcache K2 d), view K (b_blockno (bcache K2 s)))]"
proof -
  let ?K3 = "set_buf d (\<lambda>x. x\<lparr>b_data := b_data (bcache K2 s)\<rparr>) K2"
  let ?K4 = "put_buf d ?K3" let ?K5 = "give_buf s ?K4" let ?K6 = "give_buf d ?K5"
  have ok: "cache_ok {s, d} K2" using r by (simp add: reading_def)
  have ne: "unat (b_blockno (bcache K2 s)) \<noteq> unat (b_blockno (bcache K2 d))"
    using reading_blocks[OF r, of s d] sd by (simp flip: word_unat_eq_iff)
  note 3 = cache_ok_set_data[OF ok _ refl, of d "b_data (bcache K2 s)", simplified]
  note 4 = cache_ok_put_buf[OF 3(1), of d, simplified]
  have "b_flags (bcache K2 s) = 2 \<Longrightarrow> b_data (bcache K2 s) = disk K2 (unat (b_blockno (bcache K2 s)))"
    using r by (simp add: reading_def)
  then have 5: "cache_ok {d} ?K5"
    using cache_ok_give_buf[OF 4(1), of s] ne sd by (simp add: insert_Diff_if)
  have 6: "cache_ok {} ?K6" using cache_ok_give_buf[OF 5, of d] sd by simp
  have m: "runs B [] (modify (\<lambda>k. set_buf d (\<lambda>x. x\<lparr>b_data := b_data (bcache k s)\<rparr>) k)) K2 () [] ?K3"
    by (rule runs_modify) (simp add: plain_def set_buf_def)
  have w: "runs B [] (bwrite d) ?K3 () [] ?K4" by (rule runs_bwrite[OF B 3(1)]) simp
  have r1: "runs B [] (brelse s) ?K4 () [] ?K5" by (rule runs_brelse[OF B 4(1)]) simp
  have r2: "runs B [] (brelse d) ?K5 () [] ?K6" by (rule runs_brelse[OF B 5]) simp
  have "runs B [] (seqK [
      modify (\<lambda>k. set_buf d (\<lambda>x. x\<lparr>b_data := b_data (bcache k s)\<rparr>) k), bwrite d, brelse s, brelse d]) K2 () [] ?K6"
    by (rule runs_seq(2)[OF m] runs_seq(2)[OF w] runs_seq(2)[OF r1] runs_seq(2)[OF r2] runs_seq(1) refl)+
  moreover have "dev_run K ?K6 [(b_blockno (bcache K2 d), view K (b_blockno (bcache K2 s)))]"
    using r 3 4 6 by (simp add: dev_run_def dev_core_def view_give_buf vwrite_def dwrite_def reading_def)
  ultimately show ?thesis by blast
qed

text \<open>The end of \<open>write_head\<close>: change a locked buffer, write it, release it.\<close>

lemma runs_rewrite:
  assumes B: "idle B" and r: "reading K K1 {i}"
  shows "\<exists>K'. runs B [] (seqK [modb i (\<lambda>x. x\<lparr>b_data := g (b_data x)\<rparr>), bwrite i, brelse i]) K1 () [] K' \<and>
    dev_run K K' [(b_blockno (bcache K1 i), g (view K (b_blockno (bcache K1 i))))]"
proof -
  let ?K2 = "set_buf i (\<lambda>x. x\<lparr>b_data := g (b_data x)\<rparr>) K1" let ?K3 = "put_buf i ?K2" let ?K4 = "give_buf i ?K3"
  have ok: "cache_ok {i} K1" using r by (simp add: reading_def)
  have e: "?K2 = set_buf i (\<lambda>x. x\<lparr>b_data := g (b_data (bcache K1 i))\<rparr>) K1" by (simp add: set_buf_def)
  note 2 = cache_ok_set_data[OF ok _ e, simplified]
  note 3 = cache_ok_put_buf[OF 2(1), of i, simplified]
  have 4: "cache_ok {} ?K4" using cache_ok_give_buf[OF 3(1), of i] by simp
  have w: "runs B [] (bwrite i) ?K2 () [] ?K3" by (rule runs_bwrite[OF B 2(1)]) simp
  have r1: "runs B [] (brelse i) ?K3 () [] ?K4" by (rule runs_brelse[OF B 3(1)]) simp
  have "runs B [] (seqK [modb i (\<lambda>x. x\<lparr>b_data := g (b_data x)\<rparr>), bwrite i, brelse i]) K1 () [] ?K4"
    by (rule runs_seq(2)[OF runs_modb] runs_seq(2)[OF w] runs_seq(2)[OF r1] runs_seq(1) refl)+
  moreover have "dev_run K ?K4 [(b_blockno (bcache K1 i), g (view K (b_blockno (bcache K1 i))))]"
    using r 2 3 4 by (simp add: dev_run_def dev_core_def view_give_buf vwrite_def dwrite_def reading_def)
  ultimately show ?thesis by blast
qed

section \<open>The steps of the log\<close>

definition logblk :: "klog \<Rightarrow> nat \<Rightarrow> uint" where
  "logblk l t = lg_start l + of_nat t + 1"

definition homeblk :: "klog \<Rightarrow> nat \<Rightarrow> uint" where
  "homeblk l t = lh_block (lg_lh l) t"

lemma runs_getl [runs_rules]: "v = f (klog K) \<Longrightarrow> runs B C (getl f) K v C K"
  unfolding getl_def by (rule runs_gets) simp

lemma bread_two:
  assumes "idle B" "cache_ok {} K" "x \<noteq> y" "x < disksize K" "y < disksize K" "card (pinned K) + 1 < NBUF"
  shows "\<exists>i j K1 K2. runs B [] (bread 1 x) K i [] K1 \<and> runs B [] (bread 1 y) K1 j [] K2 \<and>
    reading K K2 {i, j} \<and> i \<noteq> j \<and> b_blockno (bcache K2 i) = x \<and> b_blockno (bcache K2 j) = y"
proof -
  have c: "card (pinned K) + card ({} :: nat set) < NBUF" using assms(6) by simp
  obtain i K1 where 1: "runs B [] (bread 1 x) K i [] K1" "reading K K1 {i}" "b_blockno (bcache K1 i) = x"
    using reading_bread[OF assms(1,2) reading_start[OF assms(2)] assms(4) _ c] by auto
  obtain j K2 where 2: "runs B [] (bread 1 y) K1 j [] K2" "reading K K2 {j, i}" "j \<noteq> i" "b_blockno (bcache K2 j) = y"
    "bcache K2 i = bcache K1 i"
    using reading_bread[OF assms(1,2) 1(2) assms(5)] 1(3) assms(3,6) by auto
  have "reading K K2 {i, j}" using 2(2) by (simp add: insert_commute)
  then show ?thesis using 1(1,3) 2 by (intro exI[of _ i] exI[of _ j] exI[of _ K1] exI[of _ K2]) simp
qed

lemma runs_write_log_one:
  assumes "idle B" "cache_ok {} K" "lg_dev (klog K) = 1" "card (pinned K) + 1 < NBUF"
    and "logblk (klog K) t \<noteq> homeblk (klog K) t" "logblk (klog K) t < disksize K" "homeblk (klog K) t < disksize K"
  shows "\<exists>K'. runs B [] (write_log_one t) K () [] K' \<and>
    dev_run K K' [(logblk (klog K) t, view K (homeblk (klog K) t))]"
proof -
  obtain i j K1 K2 where 1: "runs B [] (bread 1 (logblk (klog K) t)) K i [] K1"
    "runs B [] (bread 1 (homeblk (klog K) t)) K1 j [] K2" "reading K K2 {j, i}" "j \<noteq> i"
    "b_blockno (bcache K2 i) = logblk (klog K) t" "b_blockno (bcache K2 j) = homeblk (klog K) t"
    using bread_two[OF assms(1,2,5-7,4)] by (auto simp: insert_commute)
  from runs_copy[OF assms(1) 1(3,4)] obtain K' where
    c: "runs B [] (seqK [modify (\<lambda>k. set_buf i (\<lambda>x. x\<lparr>b_data := b_data (bcache k j)\<rparr>) k), bwrite i, brelse j, brelse i])
      K2 () [] K'" "dev_run K K' [(logblk (klog K) t, view K (homeblk (klog K) t))]" unfolding 1(5,6) by blast
  have "runs B [] (write_log_one t) K () [] K'"
    unfolding write_log_one_def
    by (rule runs_bind[OF runs_getl[OF refl]], unfold assms(3) logblk_def[symmetric] homeblk_def[symmetric])
      (rule runs_bind[OF 1(1)] runs_bind[OF 1(2)] c(1))+
  then show ?thesis using c(2) by blast
qed

lemma runs_install_one:
  assumes "idle B" "cache_ok {} K" "lg_dev (klog K) = 1" "card (pinned K) + 1 < NBUF"
    and "logblk (klog K) t \<noteq> homeblk (klog K) t" "logblk (klog K) t < disksize K" "homeblk (klog K) t < disksize K"
  shows "\<exists>K'. runs B [] (install_one t) K () [] K' \<and>
    dev_run K K' [(homeblk (klog K) t, view K (logblk (klog K) t))]"
proof -
  obtain i j K1 K2 where 1: "runs B [] (bread 1 (logblk (klog K) t)) K i [] K1"
    "runs B [] (bread 1 (homeblk (klog K) t)) K1 j [] K2" "reading K K2 {i, j}" "i \<noteq> j"
    "b_blockno (bcache K2 i) = logblk (klog K) t" "b_blockno (bcache K2 j) = homeblk (klog K) t"
    using bread_two[OF assms(1,2,5-7,4)] by metis
  from runs_copy[OF assms(1) 1(3,4)] obtain K' where
    c: "runs B [] (seqK [modify (\<lambda>k. set_buf j (\<lambda>x. x\<lparr>b_data := b_data (bcache k i)\<rparr>) k), bwrite j, brelse i, brelse j])
      K2 () [] K'" "dev_run K K' [(homeblk (klog K) t, view K (logblk (klog K) t))]" unfolding 1(5,6) by blast
  have "runs B [] (install_one t) K () [] K'"
    unfolding install_one_def
    by (rule runs_bind[OF runs_getl[OF refl]], unfold assms(3) logblk_def[symmetric] homeblk_def[symmetric])
      (rule runs_bind[OF 1(1)] runs_bind[OF 1(2)] c(1))+
  then show ?thesis using c(2) by blast
qed

lemma runs_write_head:
  assumes "idle B" "cache_ok {} K" "lg_dev (klog K) = 1" "card (pinned K) < NBUF" "lg_start (klog K) < disksize K"
  shows "\<exists>K'. runs B [] write_head K () [] K' \<and>
    dev_run K K' [(lg_start (klog K), encode_head (lg_lh (klog K)) (view K (lg_start (klog K))))]"
proof -
  have c: "card (pinned K) + card ({} :: nat set) < NBUF" using assms(4) by simp
  obtain i K1 where 1: "runs B [] (bread 1 (lg_start (klog K))) K i [] K1" "reading K K1 {i}"
    "b_blockno (bcache K1 i) = lg_start (klog K)"
    using reading_bread[OF assms(1,2) reading_start[OF assms(2)] assms(5) _ c] by auto
  from runs_rewrite[OF assms(1) 1(2), of "encode_head (lg_lh (klog K))"] obtain K' where
    c: "runs B [] (seqK [modb i (\<lambda>x. x\<lparr>b_data := encode_head (lg_lh (klog K)) (b_data x)\<rparr>), bwrite i, brelse i]) K1 () [] K'"
      "dev_run K K' [(lg_start (klog K), encode_head (lg_lh (klog K)) (view K (lg_start (klog K))))]"
    unfolding 1(3) by blast
  have "runs B [] write_head K () [] K'"
    unfolding write_head_def
    by (rule runs_bind[OF runs_getl[OF refl]], unfold assms(3)) (rule runs_bind[OF 1(1)] c(1))+
  then show ?thesis using c(2) by blast
qed

section \<open>The geometry of the log\<close>

definition log_area :: "klog \<Rightarrow> nat set" where
  "log_area l = {unat (lg_start l) .. unat (lg_start l) + LOGSIZE}"

text \<open>The log lies on the disk, and the \<open>n\<close> blocks of the header are different blocks outside it.\<close>

definition log_ok :: "klog \<Rightarrow> uint \<Rightarrow> nat \<Rightarrow> bool" where
  "log_ok l sz n \<longleftrightarrow> lg_dev l = 1 \<and> n \<le> LOGSIZE \<and> unat (lg_start l) + LOGSIZE < unat sz \<and>
     (\<forall>t < n. homeblk l t < sz \<and> unat (homeblk l t) \<notin> log_area l) \<and> inj_on (homeblk l) {..<n}"

lemma unat_logblk:
  assumes "log_ok l sz n" "t < LOGSIZE"
  shows "unat (logblk l t) = unat (lg_start l) + t + 1"
proof -
  have "unat sz < 2 ^ LENGTH(32)" by (rule unsigned_less)
  then have "unat (lg_start l) + t + 1 < 2 ^ 32" using assms by (simp add: log_ok_def)
  moreover have "logblk l t = of_nat (unat (lg_start l) + t + 1)" by (simp add: logblk_def)
  ultimately show ?thesis by (simp only: unat_of_nat) simp
qed

lemma log_geom:
  assumes ok: "log_ok l sz n"
  shows "\<And>t. t < n \<Longrightarrow> logblk l t < sz" "\<And>t. t < n \<Longrightarrow> homeblk l t < sz" "lg_start l < sz"
    "\<And>t u. t < n \<Longrightarrow> u < n \<Longrightarrow> logblk l t \<noteq> homeblk l u"
    "\<And>t. t < n \<Longrightarrow> logblk l t \<noteq> lg_start l" "\<And>t. t < n \<Longrightarrow> homeblk l t \<noteq> lg_start l"
    "inj_on (logblk l) {..<n}" "inj_on (homeblk l) {..<n}" "lg_dev l = 1"
    "\<And>t. t < n \<Longrightarrow> unat (logblk l t) \<in> log_area l" "\<And>t. t < n \<Longrightarrow> unat (homeblk l t) \<notin> log_area l"
proof -
  have n: "n \<le> LOGSIZE" and bd: "unat (lg_start l) + LOGSIZE < unat sz" using ok by (simp_all add: log_ok_def)
  have u: "unat (logblk l t) = unat (lg_start l) + t + 1" if "t < n" for t
    using unat_logblk[OF ok] that n by simp
  show a: "unat (logblk l t) \<in> log_area l" if "t < n" for t using u[OF that] that n by (simp add: log_area_def)
  show h: "unat (homeblk l t) \<notin> log_area l" "homeblk l t < sz" if "t < n" for t using ok that by (simp_all add: log_ok_def)
  show "logblk l t < sz" if "t < n" for t using u[OF that] that n bd by (simp add: word_less_nat_alt)
  show "lg_start l < sz" using bd by (simp add: word_less_nat_alt)
  show "logblk l t \<noteq> homeblk l v" if "t < n" "v < n" for t v
    using a[OF that(1)] h(1)[OF that(2)] by auto
  show "logblk l t \<noteq> lg_start l" if "t < n" for t using u[OF that] by auto
  have "unat (lg_start l) \<in> log_area l" by (simp add: log_area_def)
  then show "homeblk l t \<noteq> lg_start l" if "t < n" for t using h(1)[OF that] by auto
  show "inj_on (logblk l) {..<n}"
  proof (rule inj_onI)
    fix t v assume tv: "t \<in> {..<n}" "v \<in> {..<n}" "logblk l t = logblk l v"
    have "unat (logblk l t) = unat (logblk l v)" by (rule arg_cong[OF tv(3)])
    moreover have "t < n" "v < n" using tv by simp_all
    ultimately show "t = v" using u[of t] u[of v] by linarith
  qed
  show "inj_on (homeblk l) {..<n}" "lg_dev l = 1" using ok by (simp_all add: log_ok_def)
qed

section \<open>The loops\<close>

lemma fold_vwrite:
  "b \<notin> fst ` set ws \<Longrightarrow> fold vwrite ws V b = V b"
  "distinct (map fst ws) \<Longrightarrow> (b, d) \<in> set ws \<Longrightarrow> fold vwrite ws V b = d"
proof -
  show n: "b \<notin> fst ` set ws \<Longrightarrow> fold vwrite ws V b = V b" for V ws
    by (induction ws arbitrary: V) (auto simp: vwrite_def)
  show "distinct (map fst ws) \<Longrightarrow> (b, d) \<in> set ws \<Longrightarrow> fold vwrite ws V b = d"
    by (induction ws arbitrary: V) (auto simp: vwrite_def n)
qed

lemma fold_dwrite:
  "x \<notin> (unat \<circ> fst) ` set ws \<Longrightarrow> fold dwrite ws D x = D x"
  "distinct (map fst ws) \<Longrightarrow> (b, d) \<in> set ws \<Longrightarrow> fold dwrite ws D (unat b) = d"
proof -
  show n: "x \<notin> (unat \<circ> fst) ` set ws \<Longrightarrow> fold dwrite ws D x = D x" for D x and ws :: "blkwrite list"
    by (induction ws arbitrary: D) (auto simp: dwrite_def)
  show "distinct (map fst ws) \<Longrightarrow> (b, d) \<in> set ws \<Longrightarrow> fold dwrite ws D (unat b) = d"
  proof (induction ws arbitrary: D)
    case (Cons w ws)
    show ?case
    proof (cases "w = (b, d)")
      case True
      then have "unat b \<notin> (unat \<circ> fst) ` set ws" using Cons.prems(1) by (auto simp: image_iff simp flip: word_unat_eq_iff)
      then have "fold dwrite ws (dwrite w D) (unat b) = dwrite w D (unat b)" by (rule n)
      moreover have "dwrite w D (unat b) = d" using True by (simp add: dwrite_def)
      ultimately show ?thesis by simp
    next
      case False
      then show ?thesis using Cons by auto
    qed
  qed simp
qed

lemma pinned_shrink:
  assumes "dev_run K K' ws" "cache_ok {} K" "card (pinned K) + m < NBUF"
  shows "card (pinned K') + m < NBUF"
proof -
  have "card (pinned K') \<le> card (pinned K)"
    using assms(1) dirty_card(2)[OF assms(2)] by (auto simp: dev_run_def dev_core_def intro: card_mono)
  then show ?thesis using assms(3) by simp
qed

lemma runs_write_log_loop:
  assumes "idle B" "cache_ok {} K" "log_ok (klog K) (disksize K) n" "card (pinned K) + 1 < NBUF" "set ts \<subseteq> {..<n}"
  shows "\<exists>K'. runs B [] (forK ts write_log_one) K () [] K' \<and>
    dev_run K K' (map (\<lambda>t. (logblk (klog K) t, view K (homeblk (klog K) t))) ts)"
  using assms
proof (induction ts arbitrary: K)
  case Nil
  then show ?case by (auto simp: dev_run_def dev_core_def intro!: exI[of _ K] runs_Ret)
next
  case (Cons t ts)
  note g = log_geom[OF Cons.prems(3)]
  have t: "t < n" using Cons.prems(5) by simp
  obtain K1 where 1: "runs B [] (write_log_one t) K () [] K1"
      "dev_run K K1 [(logblk (klog K) t, view K (homeblk (klog K) t))]"
    using runs_write_log_one[OF Cons.prems(1,2) g(9) Cons.prems(4) g(4)[OF t t] g(1)[OF t] g(2)[OF t]] by blast
  then have k1: "cache_ok {} K1" "klog K1 = klog K" "disksize K1 = disksize K" by (simp_all add: dev_run_def dev_core_def)
  have v: "view K1 (homeblk (klog K) u) = view K (homeblk (klog K) u)" if "u \<in> set ts" for u
    using 1(2) g(4)[OF t, of u] that Cons.prems(5) by (auto simp: dev_run_def dev_core_def vwrite_def)
  obtain K2 where 2: "runs B [] (forK ts write_log_one) K1 () [] K2"
      "dev_run K1 K2 (map (\<lambda>t. (logblk (klog K1) t, view K1 (homeblk (klog K1) t))) ts)"
    using Cons.IH[of K1] Cons.prems k1 pinned_shrink[OF 1(2) Cons.prems(2,4)] by auto
  have e: "map (\<lambda>t. (logblk (klog K1) t, view K1 (homeblk (klog K1) t))) ts =
      map (\<lambda>t. (logblk (klog K) t, view K (homeblk (klog K) t))) ts" by (simp add: k1 v)
  have "dev_run K K2 (map (\<lambda>t. (logblk (klog K) t, view K (homeblk (klog K) t))) (t # ts))"
    using dev_run_trans[OF 1(2) 2(2)] unfolding e by simp
  then show ?case using runs_then[OF 1(1) 2(1)] by auto
qed

lemma runs_install_loop:
  assumes "idle B" "cache_ok {} K" "log_ok (klog K) (disksize K) n" "card (pinned K) + 1 < NBUF" "set ts \<subseteq> {..<n}"
  shows "\<exists>K'. runs B [] (forK ts install_one) K () [] K' \<and>
    dev_run K K' (map (\<lambda>t. (homeblk (klog K) t, view K (logblk (klog K) t))) ts)"
  using assms
proof (induction ts arbitrary: K)
  case Nil
  then show ?case by (auto simp: dev_run_def dev_core_def intro!: exI[of _ K] runs_Ret)
next
  case (Cons t ts)
  note g = log_geom[OF Cons.prems(3)]
  have t: "t < n" using Cons.prems(5) by simp
  obtain K1 where 1: "runs B [] (install_one t) K () [] K1"
      "dev_run K K1 [(homeblk (klog K) t, view K (logblk (klog K) t))]"
    using runs_install_one[OF Cons.prems(1,2) g(9) Cons.prems(4) g(4)[OF t t] g(1)[OF t] g(2)[OF t]] by blast
  then have k1: "cache_ok {} K1" "klog K1 = klog K" "disksize K1 = disksize K" by (simp_all add: dev_run_def dev_core_def)
  have v: "view K1 (logblk (klog K) u) = view K (logblk (klog K) u)" if "u \<in> set ts" for u
    using 1(2) g(4)[OF _ t, of u] that Cons.prems(5) by (auto simp: dev_run_def dev_core_def vwrite_def)
  obtain K2 where 2: "runs B [] (forK ts install_one) K1 () [] K2"
      "dev_run K1 K2 (map (\<lambda>t. (homeblk (klog K1) t, view K1 (logblk (klog K1) t))) ts)"
    using Cons.IH[of K1] Cons.prems k1 pinned_shrink[OF 1(2) Cons.prems(2,4)] by auto
  have e: "map (\<lambda>t. (homeblk (klog K1) t, view K1 (logblk (klog K1) t))) ts =
      map (\<lambda>t. (homeblk (klog K) t, view K (logblk (klog K) t))) ts" by (simp add: k1 v)
  have "dev_run K K2 (map (\<lambda>t. (homeblk (klog K) t, view K (logblk (klog K) t))) (t # ts))"
    using dev_run_trans[OF 1(2) 2(2)] unfolding e by simp
  then show ?case using runs_then[OF 1(1) 2(1)] by auto
qed

section \<open>Commit\<close>

definition home_writes :: "klog \<Rightarrow> nat \<Rightarrow> (nat \<Rightarrow> byte list) \<Rightarrow> blkwrite list" where
  "home_writes l n d = map (\<lambda>t. (homeblk l t, d t)) [0..<n]"

definition log_writes :: "klog \<Rightarrow> nat \<Rightarrow> (nat \<Rightarrow> byte list) \<Rightarrow> blkwrite list" where
  "log_writes l n d = map (\<lambda>t. (logblk l t, d t)) [0..<n]"

definition clear_head :: "logheader \<Rightarrow> logheader" where
  "clear_head h = h\<lparr>lh_n := 0\<rparr>"

definition commit_writes :: "klog \<Rightarrow> nat \<Rightarrow> (uint \<Rightarrow> byte list) \<Rightarrow> blkwrite list" where
  "commit_writes l n V = (let d = \<lambda>t. V (homeblk l t); h = encode_head (lg_lh l) (V (lg_start l)) in
     log_writes l n d @ [(lg_start l, h)] @ home_writes l n d @ [(lg_start l, encode_head (clear_head (lg_lh l)) h)])"

lemma distinct_writes:
  assumes "log_ok l sz n"
  shows "distinct (map fst (log_writes l n d))" "distinct (map fst (home_writes l n d))"
    "fst ` set (log_writes l n d) = logblk l ` {..<n}" "fst ` set (home_writes l n d) = homeblk l ` {..<n}"
  using log_geom(7,8)[OF assms]
  by (simp_all add: log_writes_def home_writes_def comp_def distinct_map lessThan_atLeast0 image_image)

lemma set_lh_core:
  assumes "cache_ok {} K"
  shows "dev_core K (set_lh f K) []" "klog (set_lh f K) = (klog K)\<lparr>lg_lh := f (lg_lh (klog K))\<rparr>"
proof -
  have f: "bcache (set_lh f K) = bcache K" "sleeplocks (set_lh f K) = sleeplocks K" "disk (set_lh f K) = disk K"
    "disksize (set_lh f K) = disksize K" "ptable (set_lh f K) = ptable K" "cpu_of (set_lh f K) = cpu_of K"
    by (simp_all add: set_lh_def set_log_def)
  have "cache_ok {} (set_lh f K)" using assms unfolding cache_ok_def f .
  moreover have "view (set_lh f K) = view K" "pinned (set_lh f K) = pinned K"
    unfolding view_def pinned_def caches_def f by simp_all
  ultimately show "dev_core K (set_lh f K) []" by (simp add: dev_core_def f) (simp add: set_lh_def set_log_def)
  show "klog (set_lh f K) = (klog K)\<lparr>lg_lh := f (lg_lh (klog K))\<rparr>" by (simp add: set_lh_def set_log_def)
qed

lemma runs_set_lh [runs_rules]: "runs B C (modify (set_lh f)) K () C (set_lh f K)"
  by (rule runs_modify) (simp add: plain_def set_lh_def set_log_def)

lemma runs_write_log:
  assumes "idle B" "cache_ok {} K" "log_ok (klog K) (disksize K) n" "card (pinned K) + 1 < NBUF" "n = nat (lh_n (lg_lh (klog K)))"
  shows "\<exists>K'. runs B [] write_log K () [] K' \<and> dev_run K K' (log_writes (klog K) n (\<lambda>t. view K (homeblk (klog K) t)))"
proof -
  obtain K' where "runs B [] (forK [0..<n] write_log_one) K () [] K'"
      "dev_run K K' (log_writes (klog K) n (\<lambda>t. view K (homeblk (klog K) t)))"
    using runs_write_log_loop[OF assms(1-4), of "[0..<n]"] by (auto simp: log_writes_def lessThan_atLeast0)
  then show ?thesis unfolding write_log_def using assms(5) by (intro exI[of _ K'] conjI runs_bind[OF runs_getl[OF refl]]) simp_all
qed

lemma runs_install_trans:
  assumes "idle B" "cache_ok {} K" "log_ok (klog K) (disksize K) n" "card (pinned K) + 1 < NBUF" "n = nat (lh_n (lg_lh (klog K)))"
  shows "\<exists>K'. runs B [] install_trans K () [] K' \<and> dev_run K K' (home_writes (klog K) n (\<lambda>t. view K (logblk (klog K) t)))"
proof -
  obtain K' where "runs B [] (forK [0..<n] install_one) K () [] K'"
      "dev_run K K' (home_writes (klog K) n (\<lambda>t. view K (logblk (klog K) t)))"
    using runs_install_loop[OF assms(1-4), of "[0..<n]"] by (auto simp: home_writes_def lessThan_atLeast0)
  then show ?thesis unfolding install_trans_def using assms(5) by (intro exI[of _ K'] conjI runs_bind[OF runs_getl[OF refl]]) simp_all
qed

lemma dev_runD:
  assumes "dev_run K K' ws"
  shows "cache_ok {} K'" "klog K' = klog K" "disksize K' = disksize K" "view K' = fold vwrite ws (view K)" "dev_core K K' ws"
  using assms by (simp_all add: dev_run_def dev_core_def)

lemma log_ok_clear [simp]: "log_ok (l\<lparr>lg_lh := clear_head h\<rparr>) sz 0 \<longleftrightarrow> lg_dev l = 1 \<and> unat (lg_start l) + LOGSIZE < unat sz"
  by (simp add: log_ok_def)

text \<open>The last two steps of a commit and of a recovery: clear the header in memory, then on disk.\<close>

lemma runs_clear:
  assumes "idle B" "cache_ok {} K" "log_ok (klog K) (disksize K) n" "card (pinned K) + 1 < NBUF"
  shows "\<exists>K'. runs B [] (seqK [modify (set_lh (\<lambda>h. h\<lparr>lh_n := 0\<rparr>)), write_head]) K () [] K' \<and>
    dev_core K K' [(lg_start (klog K), encode_head (clear_head (lg_lh (klog K))) (view K (lg_start (klog K))))]"
proof -
  let ?K1 = "set_lh (\<lambda>h. h\<lparr>lh_n := 0\<rparr>) K"
  note 1 = set_lh_core[OF assms(2), of "\<lambda>h. h\<lparr>lh_n := 0\<rparr>"]
  have k: "cache_ok {} ?K1" "disksize ?K1 = disksize K" "view ?K1 = view K" "pinned ?K1 = pinned K"
    using 1(1) by (simp_all add: dev_core_def)
  have "lg_start (klog ?K1) < disksize ?K1" "lg_dev (klog ?K1) = 1"
    using log_geom(3,9)[OF assms(3)] k 1(2) by simp_all
  then obtain K' where "runs B [] write_head ?K1 () [] K'"
      "dev_run ?K1 K' [(lg_start (klog K), encode_head (clear_head (lg_lh (klog K))) (view K (lg_start (klog K))))]"
    using runs_write_head[OF assms(1) k(1)] assms(4) k by (auto simp: 1(2) clear_head_def)
  then show ?thesis
    using dev_core_trans[OF 1(1)] dev_runD(5) by (fastforce intro!: runs_seq runs_set_lh)
qed

lemma runs_commit:
  assumes "idle B" "cache_ok {} K" "log_ok (klog K) (disksize K) n" "card (pinned K) + 1 < NBUF"
    "n = nat (lh_n (lg_lh (klog K)))" "0 < n"
  shows "\<exists>K'. runs B [] commit K () [] K' \<and> dev_core K K' (commit_writes (klog K) n (view K))"
proof -
  let ?l = "klog K" and ?V = "view K" and ?d = "\<lambda>t. view K (homeblk (klog K) t)"
  let ?s = "lg_start ?l"
  note g = log_geom[OF assms(3)] and dw = distinct_writes[OF assms(3)]
  obtain K1 where r1: "runs B [] write_log K () [] K1" and d1: "dev_run K K1 (log_writes ?l n ?d)"
    using runs_write_log[OF assms(1-5)] by blast
  note k1 = dev_runD[OF d1] and p1 = pinned_shrink[OF d1 assms(2,4)]
  have v1: "view K1 ?s = ?V ?s" unfolding k1(4) 
    by (rule fold_vwrite(1)) (unfold dw(3), metis g(5) imageE lessThan_iff)
  have vl: "view K1 (logblk ?l t) = ?d t" if "t < n" for t
    unfolding k1(4) using that by (intro fold_vwrite(2)[OF dw(1)]) (auto simp: log_writes_def)
  obtain K2 where r2: "runs B [] write_head K1 () [] K2" and d2: "dev_run K1 K2 [(?s, encode_head (lg_lh ?l) (?V ?s))]"
    using runs_write_head[OF assms(1) k1(1)] k1 g(3,9) p1 v1 by auto
  note k2 = dev_runD[OF d2] and p2 = pinned_shrink[OF d2 k1(1) p1]
  have vl2: "view K2 (logblk ?l t) = ?d t" if "t < n" for t using vl[OF that] g(5)[OF that] by (simp add: k2(4) vwrite_def)
  have e: "home_writes (klog K2) n (\<lambda>t. view K2 (logblk (klog K2) t)) = home_writes ?l n ?d"
    by (simp add: home_writes_def k1(2) k2(2) vl2)
  obtain K3 where r3: "runs B [] install_trans K2 () [] K3" and d3: "dev_run K2 K3 (home_writes ?l n ?d)"
    using runs_install_trans[OF assms(1) k2(1) _ p2, of n] assms(3,5) k1(2,3) k2(2,3) e by auto
  note k3 = dev_runD[OF d3]
  have "view K3 ?s = view K2 ?s" unfolding k3(4) 
    by (rule fold_vwrite(1)) (unfold dw(4), metis g(6) imageE lessThan_iff)
  then have v3: "view K3 ?s = encode_head (lg_lh ?l) (?V ?s)" by (simp add: k2(4) vwrite_def)
  obtain K4 where r4: "runs B [] (seqK [modify (set_lh (\<lambda>h. h\<lparr>lh_n := 0\<rparr>)), write_head]) K3 () [] K4"
    and d4: "dev_core K3 K4 [(?s, encode_head (clear_head (lg_lh ?l)) (encode_head (lg_lh ?l) (?V ?s)))]"
    using runs_clear[OF assms(1) k3(1) _ pinned_shrink[OF d3 k2(1) p2], of n] assms(3) k1 k2 k3 v3 by auto
  have "runs B [] commit K () [] K4" unfolding commit_def
    using r1 r2 r3 r4 assms(5,6) by (auto intro!: runs_bind[OF runs_getl[OF refl]] runs_then)
  moreover have "dev_core K K4 (commit_writes ?l n ?V)"
    using dev_core_trans[OF k1(5) dev_core_trans[OF k2(5) dev_core_trans[OF k3(5) d4]]]
    by (simp add: commit_writes_def Let_def)
  ultimately show ?thesis by blast
qed

section \<open>The header block\<close>

lemma get32_put_blocks:
  assumes "\<forall>i \<in> set is. 8 + 4 * i \<le> length bs"
  shows "length (put_blocks bs f is) = length bs"
    "8 + 4 * j \<le> length bs \<Longrightarrow> get32 (put_blocks bs f is) (4 + 4 * j) = (if j \<in> set is then f j else get32 bs (4 + 4 * j))"
    "4 \<le> length bs \<Longrightarrow> get32 (put_blocks bs f is) 0 = get32 bs 0"
proof -
  have "length (put_blocks bs f is) = length bs \<and>
    (8 + 4 * j \<le> length bs \<longrightarrow> get32 (put_blocks bs f is) (4 + 4 * j) = (if j \<in> set is then f j else get32 bs (4 + 4 * j))) \<and>
    (4 \<le> length bs \<longrightarrow> get32 (put_blocks bs f is) 0 = get32 bs 0)"
    using assms
  proof (induction "is" arbitrary: bs)
    case (Cons i "is")
    have l: "length (put32 bs (4 + 4 * i) (f i)) = length bs" using Cons.prems by simp
    have o: "get32 (put32 bs (4 + 4 * i) (f i)) (4 + 4 * j) = get32 bs (4 + 4 * j)" if "i \<noteq> j" "8 + 4 * j \<le> length bs"
      using Cons.prems that by (cases "i < j") (auto intro!: get32_put32_other)
    show ?case using Cons.IH[of "put32 bs (4 + 4 * i) (f i)"] Cons.prems l o
      by (cases "i = j") (auto simp: get32_put32_other)
  qed simp
  then show "length (put_blocks bs f is) = length bs"
    "8 + 4 * j \<le> length bs \<Longrightarrow> get32 (put_blocks bs f is) (4 + 4 * j) = (if j \<in> set is then f j else get32 bs (4 + 4 * j))"
    "4 \<le> length bs \<Longrightarrow> get32 (put_blocks bs f is) 0 = get32 bs 0" by blast+
qed

text \<open>What \<open>read_head\<close> makes of a header block.\<close>

definition put_entry :: "(nat \<Rightarrow> uint) \<Rightarrow> nat \<Rightarrow> logheader \<Rightarrow> logheader" where
  "put_entry g i h = h\<lparr>lh_block := (lh_block h)(i := g i)\<rparr>"

definition decode_head :: "byte list \<Rightarrow> logheader \<Rightarrow> logheader" where
  "decode_head bs h = fold (put_entry (\<lambda>i. get32 bs (4 + 4 * i)))
     [0..<nat (sint (get32 bs 0))] (h\<lparr>lh_n := sint (get32 bs 0)\<rparr>)"

lemma fold_entries:
  "lh_n (fold (put_entry g) ts h) = lh_n h"
  "lh_block (fold (put_entry g) ts h) = (\<lambda>i. if i \<in> set ts then g i else lh_block h i)"
  by (induction ts arbitrary: h) (auto simp: fun_eq_iff put_entry_def)

lemma decode_head_sel:
  "lh_n (decode_head bs h) = sint (get32 bs 0)"
  "i < nat (sint (get32 bs 0)) \<Longrightarrow> lh_block (decode_head bs h) i = get32 bs (4 + 4 * i)"
  by (simp_all add: decode_head_def fold_entries)

lemma head_encode:
  assumes "length bs = BSIZE" "0 \<le> lh_n h" "lh_n h \<le> int LOGSIZE"
  shows "length (encode_head h bs) = BSIZE" "sint (get32 (encode_head h bs) 0) = lh_n h"
    "i < nat (lh_n h) \<Longrightarrow> get32 (encode_head h bs) (4 + 4 * i) = lh_block h i"
proof -
  let ?bs = "put32 bs 0 (word_of_int (lh_n h))"
  have l: "length ?bs = BSIZE" using assms(1) by simp
  have r: "\<forall>i \<in> set [0..<nat (lh_n h)]. 8 + 4 * i \<le> length ?bs" using assms l by auto
  show "length (encode_head h bs) = BSIZE" unfolding encode_head_def using get32_put_blocks(1)[OF r] l by simp
  have "get32 (encode_head h bs) 0 = word_of_int (lh_n h)"
    unfolding encode_head_def using get32_put_blocks(3)[OF r] l assms(1) by simp
  then show "sint (get32 (encode_head h bs) 0) = lh_n h"
    using assms(2,3) by (simp add: sint_sbintrunc' signed_take_bit_int_eq_self)
  show "get32 (encode_head h bs) (4 + 4 * i) = lh_block h i" if "i < nat (lh_n h)"
    unfolding encode_head_def using get32_put_blocks(2)[OF r, of i] that r l by auto
qed

lemma head_clear: "length bs = BSIZE \<Longrightarrow> get32 (encode_head (clear_head h) bs) 0 = 0"
  by (simp add: encode_head_def clear_head_def)

section \<open>Recovery\<close>

lemma set_lh_comp: "set_lh f (set_lh g K) = set_lh (f \<circ> g) K" "set_lh id K = K" "set_lh (\<lambda>h. h) K = K"
  by (simp_all add: set_lh_def set_log_def)

lemma runs_read_entries:
  assumes "\<forall>i \<in> set ts. i < LOGSIZE"
  shows "runs B C (forK ts (\<lambda>i. if LOGSIZE \<le> i then Fault ''log header''
     else modify (set_lh (\<lambda>h. h\<lparr>lh_block := (lh_block h)(i := g i)\<rparr>)))) K () C
     (set_lh (fold (put_entry g) ts) K)"
  using assms
proof (induction ts arbitrary: K)
  case Nil
  show ?case by (simp add: runs_Ret set_lh_comp)
next
  case (Cons t ts)
  have "runs B C (modify (set_lh (\<lambda>h. h\<lparr>lh_block := (lh_block h)(t := g t)\<rparr>))) K () C (set_lh (put_entry g t) K)"
    using runs_set_lh[of B C "put_entry g t" K] by (simp add: put_entry_def[abs_def])
  then show ?case using Cons.IH[of "set_lh (put_entry g t) K"] Cons.prems
    by (auto simp: set_lh_comp comp_def intro!: runs_then)
qed

lemma cache_ok_set_lh: "cache_ok H (set_lh f K) = cache_ok H K" "view (set_lh f K) = view K" "pinned (set_lh f K) = pinned K"
    "bcache (set_lh f K) = bcache K"
proof -
  have f: "bcache (set_lh f K) = bcache K" "sleeplocks (set_lh f K) = sleeplocks K" "disk (set_lh f K) = disk K"
    "disksize (set_lh f K) = disksize K" "ptable (set_lh f K) = ptable K" "cpu_of (set_lh f K) = cpu_of K"
    by (simp_all add: set_lh_def set_log_def)
  show "cache_ok H (set_lh f K) = cache_ok H K" "view (set_lh f K) = view K" "pinned (set_lh f K) = pinned K"
    "bcache (set_lh f K) = bcache K"
    unfolding cache_ok_def view_def pinned_def caches_def f by simp_all
qed

lemma set_lh_disk:
  "disk (set_lh f K) = disk K" "diskwrites (set_lh f K) = diskwrites K" "disksize (set_lh f K) = disksize K"
  "cpus (set_lh f K) = cpus K" "locks (set_lh f K) = locks K" "eflags_if (set_lh f K) = eflags_if K"
  by (simp_all add: set_lh_def set_log_def)

lemma runs_read_head:
  assumes "idle B" "cache_ok {} K" "lg_dev (klog K) = 1" "card (pinned K) < NBUF" "lg_start (klog K) < disksize K"
    and n: "sint (get32 (view K (lg_start (klog K))) 0) \<le> int LOGSIZE"
  shows "\<exists>K'. runs B [] read_head K () [] K' \<and> dev_core K K' [] \<and>
    klog K' = (klog K)\<lparr>lg_lh := decode_head (view K (lg_start (klog K))) (lg_lh (klog K))\<rparr>"
proof -
  let ?bs = "view K (lg_start (klog K))"
  have c: "card (pinned K) + card ({} :: nat set) < NBUF" using assms(4) by simp
  obtain i K1 where 1: "runs B [] (bread 1 (lg_start (klog K))) K i [] K1" "reading K K1 {i}"
    "b_blockno (bcache K1 i) = lg_start (klog K)"
    using reading_bread[OF assms(1,2) reading_start[OF assms(2)] assms(5) _ c] by auto
  have ok1: "cache_ok {i} K1" and d: "b_data (bcache K1 i) = ?bs" using 1(2,3) by (simp_all add: reading_def)
  let ?K2 = "set_lh (decode_head ?bs) K1" let ?K3 = "give_buf i ?K2"
  have g: "runs B [] (getb i b_data) K1 ?bs [] K1" by (rule runs_getb) (simp add: d)
  have le: "\<forall>i \<in> set [0..<nat (sint (get32 ?bs 0))]. i < LOGSIZE" using n by auto
  have e: "runs B [] (forK [0..<nat (sint (get32 ?bs 0))] (\<lambda>i. if LOGSIZE \<le> i then Fault ''log header''
       else modify (set_lh (\<lambda>h. h\<lparr>lh_block := (lh_block h)(i := get32 ?bs (4 + 4 * i))\<rparr>))))
       (set_lh (\<lambda>h. h\<lparr>lh_n := sint (get32 ?bs 0)\<rparr>) K1) () [] ?K2"
    using runs_read_entries[OF le, of B "[]" "\<lambda>i. get32 ?bs (4 + 4 * i)"
        "set_lh (\<lambda>h. h\<lparr>lh_n := sint (get32 ?bs 0)\<rparr>) K1"]
    by (simp add: set_lh_comp decode_head_def[abs_def] comp_def)
  have r: "runs B [] (brelse i) ?K2 () [] ?K3" 
    using ok1 by (intro runs_brelse[OF assms(1), where H = "{i}"]) (simp_all add: cache_ok_set_lh)
  have "runs B [] read_head K () [] ?K3" unfolding read_head_def
    by (rule runs_bind[OF runs_getl[OF refl]], unfold assms(3))
      (rule runs_bind[OF 1(1)] runs_bind[OF g] runs_seq(2)[OF runs_set_lh] runs_seq(2)[OF e] runs_seq(2)[OF r] runs_seq(1) refl)+
  moreover have "dev_core K ?K3 []"
  proof -
    have "cache_ok {} ?K3" using cache_ok_give_buf[of "{i}" ?K2 i] 1(2) by (simp add: cache_ok_set_lh reading_def set_lh_disk)
    then show ?thesis using 1(2) by (simp add: dev_core_def view_give_buf cache_ok_set_lh reading_def set_lh_disk)
  qed
  moreover have "klog ?K3 = (klog K)\<lparr>lg_lh := decode_head ?bs (lg_lh (klog K))\<rparr>"
    using 1(2) by (simp add: reading_def) (simp add: set_lh_def set_log_def)
  ultimately show ?thesis by blast
qed

lemma runs_recover:
  assumes "idle B" "cache_ok {} K" "card (pinned K) + 1 < NBUF"
    and bs: "bs = view K (lg_start (klog K))" and n: "n = nat (sint (get32 bs 0))"
    and l: "l = (klog K)\<lparr>lg_lh := decode_head bs (lg_lh (klog K))\<rparr>" and ok: "log_ok l (disksize K) n"
  shows "\<exists>K' x. runs B [] recover_from_log K () [] K' \<and>
    dev_core K K' (home_writes l n (\<lambda>t. view K (logblk l t)) @ [(lg_start l, x)])"
proof -
  have lk: "lg_start l = lg_start (klog K)" "lg_dev l = lg_dev (klog K)" by (simp_all add: l)
  have n30: "sint (get32 bs 0) \<le> int LOGSIZE" using ok n by (simp add: log_ok_def nat_le_iff)
  have g: "lg_start (klog K) < disksize K" "lg_dev (klog K) = 1" using log_geom(3,9)[OF ok] lk by simp_all
  obtain K1 where r1: "runs B [] read_head K () [] K1" and d1: "dev_core K K1 []" and l1: "klog K1 = l"
    using runs_read_head[OF assms(1,2) g(2) _ g(1) n30[unfolded bs]] assms(3)
    unfolding bs[symmetric] l[symmetric] by auto
  have k1: "cache_ok {} K1" "disksize K1 = disksize K" "view K1 = view K" "pinned K1 = pinned K"
    using d1 by (simp_all add: dev_core_def)
  have n1: "n = nat (lh_n (lg_lh (klog K1)))" by (simp add: l1 l decode_head_sel n)
  have p1: "card (pinned K1) + 1 < NBUF" and ok1: "log_ok (klog K1) (disksize K1) n" using assms(3) k1 l1 ok by simp_all
  obtain K2 where r2: "runs B [] install_trans K1 () [] K2" and d2: "dev_run K1 K2 (home_writes l n (\<lambda>t. view K (logblk l t)))"
    using runs_install_trans[OF assms(1) k1(1) ok1 p1 n1] unfolding l1 k1(3) by blast
  note k2 = dev_runD[OF d2]
  have ok2: "log_ok (klog K2) (disksize K2) n" and l2: "klog K2 = l" using ok1 k2(2,3) l1 by simp_all
  obtain K3 where r3: "runs B [] (seqK [modify (set_lh (\<lambda>h. h\<lparr>lh_n := 0\<rparr>)), write_head]) K2 () [] K3"
    and d3: "dev_core K2 K3 [(lg_start l, encode_head (clear_head (lg_lh l)) (view K2 (lg_start l)))]"
    using runs_clear[OF assms(1) k2(1) ok2 pinned_shrink[OF d2 k1(1) p1]] unfolding l2 by blast
  have "runs B [] recover_from_log K () [] K3" unfolding recover_from_log_def
    by (rule runs_seq(2)[OF r1] runs_seq(2)[OF r2] r3)+
  moreover have "dev_core K K3 (home_writes l n (\<lambda>t. view K (logblk l t)) @
      [(lg_start l, encode_head (clear_head (lg_lh l)) (view K2 (lg_start l)))])"
    using dev_core_trans[OF d1 dev_core_trans[OF k2(5) d3]] by simp
  ultimately show ?thesis by blast
qed

section \<open>Crashes\<close>

text \<open>A disk on which the first \<open>m\<close> writes of a commit have been done.\<close>

definition crashed :: "klog \<Rightarrow> nat \<Rightarrow> (uint \<Rightarrow> byte list) \<Rightarrow> nat \<Rightarrow> (nat \<Rightarrow> byte list) \<Rightarrow> nat \<Rightarrow> byte list" where
  "crashed l n V m D = fold dwrite (take m (commit_writes l n V)) D"

text \<open>Before the header is written nothing outside the log has changed.\<close>

lemma crashed_before:
  assumes ok: "log_ok l sz n" and m: "m \<le> n"
  shows "x \<notin> log_area l \<Longrightarrow> crashed l n V m D x = D x" "crashed l n V m D (unat (lg_start l)) = D (unat (lg_start l))"
proof -
  have t: "take m (commit_writes l n V) = take m (log_writes l n (\<lambda>t. V (homeblk l t)))"
    using m by (simp add: commit_writes_def Let_def log_writes_def)
  have w: "fst w \<in> logblk l ` {..<n}" if "w \<in> set (take m (log_writes l n d))" for w d
    using set_take_subset[of m "log_writes l n d"] that distinct_writes(3)[OF ok, of d] by blast
  show "crashed l n V m D x = D x" if "x \<notin> log_area l"
    unfolding crashed_def t by (rule fold_dwrite(1)) (use w log_geom(10)[OF ok] that in fastforce)
  show "crashed l n V m D (unat (lg_start l)) = D (unat (lg_start l))"
    unfolding crashed_def t by (rule fold_dwrite(1)) (use w log_geom(5)[OF ok] in \<open>fastforce simp flip: word_unat_eq_iff\<close>)
qed

text \<open>The state of the disk once the whole transaction has been installed.\<close>

definition installed :: "klog \<Rightarrow> nat \<Rightarrow> (uint \<Rightarrow> byte list) \<Rightarrow> (nat \<Rightarrow> byte list) \<Rightarrow> nat \<Rightarrow> byte list" where
  "installed l n V D = fold dwrite (home_writes l n (\<lambda>t. V (homeblk l t))) D"

lemma installed_home: "log_ok l sz n \<Longrightarrow> t < n \<Longrightarrow> installed l n V D (unat (homeblk l t)) = V (homeblk l t)"
  unfolding installed_def by (rule fold_dwrite(2)[OF distinct_writes(2)]) (auto simp: home_writes_def)

lemma installed_other: "x \<notin> (\<lambda>t. unat (homeblk l t)) ` {..<n} \<Longrightarrow> installed l n V D x = D x"
  unfolding installed_def by (rule fold_dwrite(1)) (auto simp: home_writes_def)

lemma crashed_after:
  assumes ok: "log_ok l sz n" and j: "j \<le> n" and h: "h = encode_head (lg_lh l) (V (lg_start l))"
    and D': "D' = crashed l n V (n + 1 + j) D"
  shows "D' (unat (lg_start l)) = h" "\<And>t. t < n \<Longrightarrow> D' (unat (logblk l t)) = V (homeblk l t)"
    "\<And>x. x \<notin> log_area l \<Longrightarrow> x \<notin> (\<lambda>t. unat (homeblk l t)) ` {..<n} \<Longrightarrow> D' x = D x"
proof -
  note g = log_geom[OF ok] and dw = distinct_writes[OF ok]
  let ?LW = "log_writes l n (\<lambda>t. V (homeblk l t))" and ?HW = "home_writes l n (\<lambda>t. V (homeblk l t))"
  let ?E = "fold dwrite ?LW D"
  have t: "take (n + 1 + j) (commit_writes l n V) = ?LW @ [(lg_start l, h)] @ take j ?HW"
    using j by (simp add: commit_writes_def Let_def log_writes_def home_writes_def h)
  have D'': "D' = fold dwrite (take j ?HW) (dwrite (lg_start l, h) ?E)" unfolding D' crashed_def t by simp
  have hw: "fst w \<in> homeblk l ` {..<n}" if "w \<in> set (take j ?HW)" for w
    using set_take_subset[of j ?HW] that dw(4) by blast
  have o: "D' x = dwrite (lg_start l, h) ?E x" if "x \<notin> (\<lambda>t. unat (homeblk l t)) ` {..<n}" for x
    unfolding D'' by (rule fold_dwrite(1)) (use hw that in fastforce)
  have s: "unat (lg_start l) \<in> log_area l" by (simp add: log_area_def)
  show "D' (unat (lg_start l)) = h" by (subst o) (use s g(11) in \<open>auto simp: dwrite_def\<close>)
  show "D' (unat (logblk l t)) = V (homeblk l t)" if "t < n" for t
  proof -
    have "?E (unat (logblk l t)) = V (homeblk l t)"
      by (rule fold_dwrite(2)[OF dw(1)]) (use that in \<open>auto simp: log_writes_def\<close>)
    then show ?thesis using g(5,10)[OF that] g(11) by (subst o) (auto simp: dwrite_def simp flip: word_unat_eq_iff)
  qed
  show "D' x = D x" if x: "x \<notin> log_area l" "x \<notin> (\<lambda>t. unat (homeblk l t)) ` {..<n}" for x
  proof -
    have "?E x = D x" by (rule fold_dwrite(1)) (use x(1) g(10) dw(3) in \<open>fastforce simp: log_writes_def\<close>)
    then show ?thesis using x s by (subst o) (auto simp: dwrite_def)
  qed
qed

lemma crashed_done:
  assumes ok: "log_ok l sz n" and m: "2 * n + 1 < m" and h: "h = encode_head (lg_lh l) (V (lg_start l))"
    and D': "D' = crashed l n V m D"
  shows "D' (unat (lg_start l)) = encode_head (clear_head (lg_lh l)) h"
    "x \<notin> log_area l \<Longrightarrow> D' x = installed l n V D x"
proof -
  note g = log_geom[OF ok] and dw = distinct_writes[OF ok]
  let ?c = "(lg_start l, encode_head (clear_head (lg_lh l)) h)"
  have "take m (commit_writes l n V) = take (n + 1 + n) (commit_writes l n V) @ [?c]"
    using m by (simp add: commit_writes_def Let_def log_writes_def home_writes_def h)
  then have D'': "D' = dwrite ?c (crashed l n V (n + 1 + n) D)" by (simp add: D' crashed_def)
  then show "D' (unat (lg_start l)) = encode_head (clear_head (lg_lh l)) h" by (simp add: dwrite_def)
  have t: "take (n + 1 + n) (commit_writes l n V) = log_writes l n (\<lambda>t. V (homeblk l t)) @ [(lg_start l, h)] @ home_writes l n (\<lambda>t. V (homeblk l t))"
    by (simp add: commit_writes_def Let_def log_writes_def home_writes_def h)
  show "D' x = installed l n V D x" if x: "x \<notin> log_area l"
  proof -
    have s: "x \<noteq> unat (lg_start l)" using x by (auto simp: log_area_def)
    show ?thesis
    proof (cases "x \<in> (\<lambda>t. unat (homeblk l t)) ` {..<n}")
      case True
      then obtain u where u: "u < n" "x = unat (homeblk l u)" by blast
      have "crashed l n V (n + 1 + n) D x = V (homeblk l u)" unfolding crashed_def t fold_append comp_def u(2)
        by (rule fold_dwrite(2)[OF dw(2)]) (use u(1) in \<open>auto simp: home_writes_def\<close>)
      then show ?thesis using s installed_home[OF ok u(1)] u(2) by (simp add: D'' dwrite_def)
    next
      case False
      then show ?thesis using crashed_after(3)[where V = V and j = n and D = D, OF ok le_refl h refl x False] s installed_other[OF False]
        by (simp add: D'' dwrite_def)
    qed
  qed
qed

lemma log_ok_cong:
  assumes "log_ok l sz n" "lg_start l' = lg_start l" "lg_dev l' = 1" "\<And>t. t < n' \<Longrightarrow> homeblk l' t = homeblk l t" "n' \<le> n"
  shows "log_ok l' sz n'"
proof -
  have "inj_on (homeblk l) {..<n'}" using assms(1,5) by (auto simp: log_ok_def intro: inj_on_subset)
  then have "inj_on (homeblk l') {..<n'}" using inj_on_cong[of "{..<n'}" "homeblk l'" "homeblk l"] assms(4) by simp
  then show ?thesis using assms by (simp add: log_ok_def log_area_def)
qed

lemma lh_n_int: "n = nat (lh_n h) \<Longrightarrow> 0 < n \<Longrightarrow> lh_n h = int n"
  by simp

text \<open>
  The header that recovery finds on the disk after a crash names either no block or all the blocks of the
  transaction, whose new contents are then in the log.
\<close>

lemma crash_cases:
  assumes ok: "log_ok l sz n" and n: "n = nat (lh_n (lg_lh l))" "0 < n" and V: "length (V (lg_start l)) = BSIZE"
    and D: "get32 (D (unat (lg_start l))) 0 = 0" and D': "D' = crashed l n V m D"
  shows "m \<le> n \<and> get32 (D' (unat (lg_start l))) 0 = 0 \<and> (\<forall>x. x \<notin> log_area l \<longrightarrow> D' x = D x) \<or>
    get32 (D' (unat (lg_start l))) 0 = 0 \<and> (\<forall>x. x \<notin> log_area l \<longrightarrow> D' x = installed l n V D x) \<or>
    D' (unat (lg_start l)) = encode_head (lg_lh l) (V (lg_start l)) \<and> (\<forall>t < n. D' (unat (logblk l t)) = V (homeblk l t)) \<and>
      (\<forall>x. x \<notin> log_area l \<longrightarrow> x \<notin> (\<lambda>t. unat (homeblk l t)) ` {..<n} \<longrightarrow> D' x = D x)"
proof -
  let ?h = "encode_head (lg_lh l) (V (lg_start l))"
  have n30: "0 \<le> lh_n (lg_lh l)" "lh_n (lg_lh l) \<le> int LOGSIZE" 
    using lh_n_int[OF n] ok by (simp_all add: log_ok_def)
  consider "m \<le> n" | j where "j \<le> n" "m = n + 1 + j" | "2 * n + 1 < m"
  proof (cases "m \<le> n")
    case False
    then have "m = n + 1 + (m - n - 1)" by simp
    then show ?thesis using that(2)[of "m - n - 1"] that(3) by linarith
  qed (use that(1) in blast)
  then show ?thesis
  proof cases
    case 1
    then show ?thesis using crashed_before[OF ok 1, where V = V and D = D] D 1 by (simp add: D')
  next
    case 2
    have D2: "D' = crashed l n V (n + 1 + j) D" using D' 2(2) by simp
    show ?thesis using crashed_after[where V = V, OF ok 2(1) refl D2] by blast
  next
    case 3
    have "get32 (encode_head (clear_head (lg_lh l)) ?h) 0 = 0" by (rule head_clear) (rule head_encode(1)[OF V n30])
    then show ?thesis using crashed_done[where V = V, OF ok 3 refl D'] by simp
  qed
qed

lemma recovered:
  assumes ok: "log_ok l sz n" and n: "n = nat (lh_n (lg_lh l))" "0 < n" and V: "length (V (lg_start l)) = BSIZE"
    and D: "get32 (D (unat (lg_start l))) 0 = 0" and D': "D' = crashed l n V m D"
    and lb: "lg_start lb = lg_start l" "lg_dev lb = 1" and bs: "bs = D' (unat (lg_start l))"
    and n': "n' = nat (sint (get32 bs 0))" and l': "l' = lb\<lparr>lg_lh := decode_head bs (lg_lh lb)\<rparr>"
    and R: "\<And>x. R x = fold dwrite (home_writes l' n' (\<lambda>t. D' (unat (logblk l' t))) @ [(lg_start l', x)]) D'"
  shows "log_ok l' sz n'" "m \<le> n \<and> (\<forall>y. y \<notin> log_area l \<longrightarrow> R x y = D y) \<or> (\<forall>y. y \<notin> log_area l \<longrightarrow> R x y = installed l n V D y)"
proof -
  have s: "lg_start l' = lg_start l" "lg_dev l' = 1" using lb by (simp_all add: l')
  have out: "R x y = fold dwrite (home_writes l' n' (\<lambda>t. D' (unat (logblk l' t)))) D' y" if "y \<notin> log_area l" for y
    using that by (auto simp: R dwrite_def s log_area_def)
  have zero: "log_ok l' sz n'" "y \<notin> log_area l \<Longrightarrow> R x y = D' y" if "get32 bs 0 = 0" for y
    using that log_ok_cong[OF ok s, of 0] out by (simp_all add: n' home_writes_def)
  have full: "log_ok l' sz n' \<and> (\<forall>y. y \<notin> log_area l \<longrightarrow> R x y = installed l n V D y)"
    if h: "bs = encode_head (lg_lh l) (V (lg_start l))" and lg: "\<forall>t < n. D' (unat (logblk l t)) = V (homeblk l t)"
      and o: "\<forall>x. x \<notin> log_area l \<longrightarrow> x \<notin> (\<lambda>t. unat (homeblk l t)) ` {..<n} \<longrightarrow> D' x = D x"
  proof -
    have n30: "0 \<le> lh_n (lg_lh l)" "lh_n (lg_lh l) \<le> int LOGSIZE"
      using lh_n_int[OF n] ok by (simp_all add: log_ok_def)
    note e = head_encode[OF V n30]
    have nn: "n' = n" by (simp add: n' h e(2) n(1))
    have hb: "homeblk l' t = homeblk l t" "logblk l' t = logblk l t" if "t < n" for t
      using that e(2,3) n(1) by (simp_all add: homeblk_def l' decode_head_sel h logblk_def lb)
    have hw: "home_writes l' n' (\<lambda>t. D' (unat (logblk l' t))) = home_writes l n (\<lambda>t. V (homeblk l t))"
      using lg by (simp add: home_writes_def nn hb)
    have "R x y = installed l n V D y" if y: "y \<notin> log_area l" for y
    proof (cases "y \<in> (\<lambda>t. unat (homeblk l t)) ` {..<n}")
      case True
      then obtain t where t: "t < n" "y = unat (homeblk l t)" by blast
      then show ?thesis using installed_home[OF ok t(1), of V] out[OF y] by (simp add: hw flip: installed_def)
    next
      case False
      then show ?thesis using installed_other[OF False, of V] o y out[OF y] by (simp add: hw flip: installed_def)
    qed
    then show ?thesis using log_ok_cong[OF ok s, of n] hb nn by simp
  qed
  from crash_cases[OF ok n V D D'] show "log_ok l' sz n'"
    "m \<le> n \<and> (\<forall>y. y \<notin> log_area l \<longrightarrow> R x y = D y) \<or> (\<forall>y. y \<notin> log_area l \<longrightarrow> R x y = installed l n V D y)"
    using zero full unfolding bs by metis+
qed

text \<open>The kernel after a reboot: an empty cache, the disk as the crash left it, the place of the log known.\<close>

definition rebooted :: "kernel \<Rightarrow> (nat \<Rightarrow> byte list) \<Rightarrow> kernel \<Rightarrow> bool" where
  "rebooted k D kb \<longleftrightarrow> cpu_ok kb \<and> idle kb \<and> cache_ok {} kb \<and> pinned kb = {} \<and> disk kb = D \<and> disksize kb = disksize k \<and>
     lg_start (klog kb) = lg_start (klog k) \<and> lg_dev (klog kb) = 1"

lemma recover_after_crash:
  assumes ok: "log_ok l (disksize k) n" and n: "n = nat (lh_n (lg_lh l))" "0 < n" and V: "length (V (lg_start l)) = BSIZE"
    and D: "get32 (D (unat (lg_start l))) 0 = 0" and l: "l = klog k" and b: "rebooted k (crashed l n V m D) kb"
  shows "wp recover_from_log (\<lambda>_ (kr, env'). env' = env \<and>
    (m \<le> n \<and> (\<forall>y. y \<notin> log_area l \<longrightarrow> disk kr y = D y) \<or> (\<forall>y. y \<notin> log_area l \<longrightarrow> disk kr y = installed l n V D y))) (kb, env)"
proof -
  let ?D' = "crashed l n V m D" and ?bs = "view kb (lg_start (klog kb))"
  let ?n' = "nat (sint (get32 ?bs 0))" and ?l' = "(klog kb)\<lparr>lg_lh := decode_head ?bs (lg_lh (klog kb))\<rparr>"
  have kb: "cpu_ok kb" "idle kb" "cache_ok {} kb" "pinned kb = {}" "disk kb = ?D'" "disksize kb = disksize k"
    "lg_start (klog kb) = lg_start l" "lg_dev (klog kb) = 1" using b by (simp_all add: rebooted_def l)
  have v: "view kb c = ?D' (unat c)" for c using unpinned_view[OF kb(3), of c] kb(4,5) by simp
  define R where "R x = fold dwrite (home_writes ?l' ?n' (\<lambda>t. ?D' (unat (logblk ?l' t))) @ [(lg_start ?l', x)]) ?D'" for x
  have bs: "?bs = ?D' (unat (lg_start l))" by (simp add: v kb(7))
  note rec = recovered[where V = V and D = D and R = R, OF ok n V D refl kb(7,8) bs refl refl R_def]
  obtain K' x where r: "runs kb [] recover_from_log kb () [] K'"
      and d: "dev_core kb K' (home_writes ?l' ?n' (\<lambda>t. view kb (logblk ?l' t)) @ [(lg_start ?l', x)])"
    using runs_recover[OF kb(2,3) _ refl refl refl] rec(1) kb(4,6) by auto
  have "disk K' = R x" using d by (simp add: dev_core_def R_def kb(5) v)
  moreover have "wp recover_from_log (\<lambda>r (kr, env'). r = () \<and> env' = env \<and> synced K' kr) (kb, env)"
    using d by (intro runsD[OF r kb(1)]) (simp_all add: dev_core_def)
  ultimately show ?thesis using rec(2)[of x] by (auto elim!: wp_mono simp: synced_view)
qed

text \<open>
  C1: Commit is atomic under crashes. Take a consistent kernel with no buffer locked, an open transaction in
  the log header, its \<open>n\<close> blocks modified in the cache only, and an empty log on the disk. \<open>commit\<close> returns,
  having written \<open>2 n + 2\<close> blocks. Stop the machine after any number \<open>m\<close> of those writes and reboot: recovery
  returns, and afterwards either every block outside the log is as it was on the disk before the commit, which
  happens only up to \<open>n\<close> writes, or every one is as the file system saw it.
\<close>

theorem commit_crash_safe:
  assumes "cpu_ok k" "idle k" "cache_ok {} k" "log_ok (klog k) (disksize k) n" "n = nat (lh_n (lg_lh (klog k)))" "0 < n"
    and "pinned k \<subseteq> homeblk (klog k) ` {..<n}" "card (pinned k) + 1 < NBUF"
    and "length (view k (lg_start (klog k))) = BSIZE" "get32 (disk k (unat (lg_start (klog k)))) 0 = 0"
  shows "wp commit (\<lambda>_ (k', env'). env' = env \<and> (\<exists>ws. diskwrites k' = diskwrites k @ map (\<lambda>(b, d). (unat b, d)) ws \<and>
    length ws = 2 * n + 2 \<and> (\<forall>m kb envb. rebooted k (fold dwrite (take m ws) (disk k)) kb \<longrightarrow>
      wp recover_from_log (\<lambda>_ (kr, _).
        m \<le> n \<and> (\<forall>b. unat b \<notin> log_area (klog k) \<longrightarrow> disk kr (unat b) = disk k (unat b)) \<or>
        (\<forall>b. unat b \<notin> log_area (klog k) \<longrightarrow> disk kr (unat b) = view k b)) (kb, envb)))) (k, env)"
proof -
  let ?l = "klog k" and ?V = "view k" and ?ws = "commit_writes (klog k) n (view k)"
  have inst: "installed ?l n ?V (disk k) (unat b) = ?V b" if "unat b \<notin> log_area ?l" for b
  proof (cases "b \<in> homeblk ?l ` {..<n}")
    case True
    then show ?thesis using installed_home[OF assms(4)] by auto
  next
    case False
    then have "unat b \<notin> (\<lambda>t. unat (homeblk ?l t)) ` {..<n}" by (auto simp flip: word_unat_eq_iff)
    moreover have "?V b = disk k (unat b)" using False assms(7) by (intro unpinned_view[OF assms(3)]) blast
    ultimately show ?thesis by (simp add: installed_other)
  qed
  have rec: "wp recover_from_log (\<lambda>_ (kr, _). m \<le> n \<and> (\<forall>b. unat b \<notin> log_area ?l \<longrightarrow> disk kr (unat b) = disk k (unat b)) \<or>
        (\<forall>b. unat b \<notin> log_area ?l \<longrightarrow> disk kr (unat b) = ?V b)) (kb, envb)"
    if "rebooted k (fold dwrite (take m ?ws) (disk k)) kb" for m kb envb
    by (rule wp_mono[OF recover_after_crash[where V = ?V and D = "disk k" and m = m and kb = kb and env = envb, OF assms(4-6,9,10) refl]])
      (use that inst in \<open>auto simp: crashed_def\<close>)
  obtain K' where r: "runs k [] commit k () [] K'" and d: "dev_core k K' ?ws"
    using runs_commit[OF assms(2,3,4,8,5,6)] by blast
  have "wp commit (\<lambda>r (k', env'). r = () \<and> env' = env \<and> synced K' k') (k, env)"
    using d by (intro runsD[OF r assms(1)]) (simp_all add: dev_core_def)
  moreover have "diskwrites k' = diskwrites k @ map (\<lambda>(b, d). (unat b, d)) ?ws" if "synced K' k'" for k'
    using d that by (simp add: synced_view dev_core_def)
  moreover have "length ?ws = 2 * n + 2" by (simp add: commit_writes_def Let_def log_writes_def home_writes_def)
  ultimately show ?thesis using rec by (elim wp_mono) blast
qed

text \<open>A kernel about to commit one modified block, number 100.\<close>

definition log_kernel :: kernel where
  "log_kernel = (set_buf 0 (\<lambda>x. x\<lparr>b_flags := 6, b_dev := 1, b_blockno := 100, b_data := replicate BSIZE 7\<rparr>) boot_kernel)
     \<lparr>klog := \<lparr>lg_start = 2, lg_size = 30, lg_outstanding = 0, lg_committing = 1, lg_dev = 1,
        lg_lh = \<lparr>lh_n = 1, lh_block = (\<lambda>_. 100)\<rparr>\<rparr>\<rparr>"

lemma log_kernel_sel:
  "bcache log_kernel i = (if i = 0 then (bcache boot_kernel 0)\<lparr>b_flags := 6, b_dev := 1, b_blockno := 100, b_data := replicate BSIZE 7\<rparr>
     else bcache boot_kernel i)"
  "b_dev (bcache boot_kernel i) = 0" "b_flags (bcache boot_kernel i) = 0" "b_refcnt (bcache boot_kernel i) = 0"
  "disk log_kernel x = replicate BSIZE 0" "disksize log_kernel = 1000" "lg_start (klog log_kernel) = 2"
  "lg_dev (klog log_kernel) = 1" "lg_lh (klog log_kernel) = \<lparr>lh_n = 1, lh_block = (\<lambda>_. 100)\<rparr>"
  "sleeplocks log_kernel = sleeplocks boot_kernel" "ptable log_kernel = ptable boot_kernel" "cpu_of log_kernel = cpu_of boot_kernel"
  by (simp_all add: log_kernel_def) (simp_all add: boot_kernel_def zero_kernel_def)

lemma log_kernel_ok:
  "cpu_ok log_kernel" "idle log_kernel" "cache_ok {} log_kernel" "pinned log_kernel = {100}"
  "log_ok (klog log_kernel) (disksize log_kernel) 1" "view log_kernel 2 = replicate BSIZE 0"
proof -
  show "cpu_ok log_kernel" "idle log_kernel" using boot_ok(1,2) by (simp_all add: log_kernel_def set_buf_def idle_def)
  from boot_ok(3) obtain xs where "linked (bcache boot_kernel) xs" by (auto simp: cache_ok_def)
  then have "linked (bcache log_kernel) xs" by (subst linked_cong[of _ "bcache boot_kernel"]) (simp_all add: log_kernel_sel(1))
  then have "\<exists>xs. linked (bcache log_kernel) xs" ..
  moreover have "no_dups (bcache log_kernel)" by (simp add: no_dups_def log_kernel_sel)
  moreover have "buf_ok (disk log_kernel) (disksize log_kernel) (i \<in> {}) (bcache log_kernel i)" for i
    by (simp add: buf_ok_def log_kernel_sel)
  ultimately show "cache_ok {} log_kernel" using boot_ok(3) by (simp add: cache_ok_def log_kernel_sel)
  show "pinned log_kernel = {100}" by (auto simp: pinned_def caches_def log_kernel_sel split: if_splits)
  show "log_ok (klog log_kernel) (disksize log_kernel) 1"
    by (auto simp: log_ok_def homeblk_def log_area_def log_kernel_sel inj_on_def)
  show "view log_kernel 2 = replicate BSIZE 0"
    by (subst view_uncached) (auto simp: caches_def log_kernel_sel split: if_splits)
qed

theorem commit_crash_safe_witness:
  "wp commit (\<lambda>_ (k', env'). env' = [] \<and> (\<exists>ws. diskwrites k' = diskwrites log_kernel @ map (\<lambda>(b, d). (unat b, d)) ws \<and>
    length ws = 2 * 1 + 2 \<and> (\<forall>m kb envb. rebooted log_kernel (fold dwrite (take m ws) (disk log_kernel)) kb \<longrightarrow>
      wp recover_from_log (\<lambda>_ (kr, _).
        m \<le> 1 \<and> (\<forall>b. unat b \<notin> log_area (klog log_kernel) \<longrightarrow> disk kr (unat b) = disk log_kernel (unat b)) \<or>
        (\<forall>b. unat b \<notin> log_area (klog log_kernel) \<longrightarrow> disk kr (unat b) = view log_kernel b)) (kb, envb)))) (log_kernel, [])"
  by (rule commit_crash_safe[OF log_kernel_ok(1-3,5)])
    (simp_all add: log_kernel_ok(4,6) log_kernel_sel homeblk_def get32_def of_le32_def)

section \<open>Logging a block\<close>

definition logged :: "logheader \<Rightarrow> uint list" where
  "logged h = map (lh_block h) [0..<nat (lh_n h)]"

lemma log_slot_cases:
  assumes "0 \<le> lh_n h"
  shows "b \<in> set (logged h) \<Longrightarrow> log_slot h b < nat (lh_n h) \<and> lh_block h (log_slot h b) = b"
    "b \<notin> set (logged h) \<Longrightarrow> log_slot h b = nat (lh_n h)"
proof -
  assume "b \<in> set (logged h)"
  then have "find (\<lambda>i. lh_block h i = b) [0..<nat (lh_n h)] \<noteq> None" by (auto simp: find_None_iff logged_def)
  then obtain i where "find (\<lambda>i. lh_block h i = b) [0..<nat (lh_n h)] = Some i" by blast
  then show "log_slot h b < nat (lh_n h) \<and> lh_block h (log_slot h b) = b"
    using find_Some_iff[of "\<lambda>i. lh_block h i = b" "[0..<nat (lh_n h)]" i] by (auto simp: log_slot_def)
next
  assume "b \<notin> set (logged h)"
  then have "find (\<lambda>i. lh_block h i = b) [0..<nat (lh_n h)] = None" by (auto simp: find_None_iff logged_def)
  then show "log_slot h b = nat (lh_n h)" by (simp add: log_slot_def)
qed

definition add_block :: "uint \<Rightarrow> logheader \<Rightarrow> logheader" where
  "add_block b h = (let i = log_slot h b in
     h\<lparr>lh_block := (lh_block h)(i := b), lh_n := (if int i = lh_n h then lh_n h + 1 else lh_n h)\<rparr>)"

lemma logged_add_block:
  assumes "0 \<le> lh_n h"
  shows "logged (add_block b h) = (if b \<in> set (logged h) then logged h else logged h @ [b])"
proof (cases "b \<in> set (logged h)")
  case True
  note i = log_slot_cases(1)[OF assms True]
  then have "int (log_slot h b) \<noteq> lh_n h" by auto
  moreover have "(lh_block h)(log_slot h b := b) = lh_block h" using i by auto
  ultimately show ?thesis using True by (simp add: add_block_def Let_def logged_def)
next
  case False
  then show ?thesis using log_slot_cases(2)[OF assms False] assms by (simp add: add_block_def Let_def logged_def nat_add_distrib)
qed

text \<open>
  C9: \<open>log_write\<close> inside a transaction that still has room records the block of the buffer in the log
  header, once however often it is called, keeps the order of the other entries, and marks the buffer
  dirty so that the cache cannot drop it; with the log full, or outside a transaction, it panics and
  records nothing.
\<close>

theorem log_write_records:
  assumes "cpu_ok k" "lock_free LogLock k" "0 \<le> lh_n (lg_lh (klog k))"
    and h: "h = lg_lh (klog k)" and b: "b = b_blockno (bcache k i)"
  shows "if int LOGSIZE \<le> lh_n h \<or> sint (lg_size (klog k)) - 1 \<le> lh_n h
    then log_write i (k, env) = Panic ''too big a transaction'' (k, env)
    else if lg_outstanding (klog k) < 1 then log_write i (k, env) = Panic ''log_write outside of trans'' (k, env)
    else wp (log_write i) (\<lambda>_ (k', env'). env' = env \<and>
      logged (lg_lh (klog k')) = (if b \<in> set (logged h) then logged h else logged h @ [b]) \<and>
      b_flags (bcache k' i) = b_flags (bcache k i) OR B_DIRTY \<and> disk k' = disk k) (k, env)"
proof -
  let ?K = "set_buf i (\<lambda>x. x\<lparr>b_flags := b_flags x OR B_DIRTY\<rparr>) (set_lh (add_block b) k)"
  have m: "runs k C (modify (set_lh (\<lambda>h. let j = log_slot h b in
      h\<lparr>lh_block := (lh_block h)(j := b), lh_n := (if int j = lh_n h then lh_n h + 1 else lh_n h)\<rparr>))) k () C
      (set_lh (add_block b) k)" for C
    using runs_set_lh[of k C "add_block b" k] by (simp only: add_block_def[abs_def])
  have g: "runs k C (getb i b_blockno) k b C k" for C by (rule runs_getb[where f = b_blockno]) (rule b)
  have s: "klog ?K = (klog k)\<lparr>lg_lh := add_block b h\<rparr>" "bcache (set_lh (add_block b) k) = bcache k" "disk ?K = disk k"
    by (simp_all add: set_lh_def set_log_def h)
  have "wp (log_write i) (\<lambda>_ (k', env'). env' = env \<and>
      logged (lg_lh (klog k')) = (if b \<in> set (logged h) then logged h else logged h @ [b]) \<and>
      b_flags (bcache k' i) = b_flags (bcache k i) OR B_DIRTY \<and> disk k' = disk k) (k, env)"
    if "\<not> (int LOGSIZE \<le> lh_n h \<or> sint (lg_size (klog k)) - 1 \<le> lh_n h)" "\<not> lg_outstanding (klog k) < 1"
  proof -
    have "runs k [] (seqK [
       acquire LogLock,
       bindK (getb i b_blockno) (\<lambda>bno. modify (set_lh (\<lambda>h.
         let i = log_slot h bno in
         h\<lparr>lh_block := (lh_block h)(i := bno), lh_n := (if int i = lh_n h then lh_n h + 1 else lh_n h)\<rparr>))),
       modb i (\<lambda>x. x\<lparr>b_flags := b_flags x OR B_DIRTY\<rparr>),
       release LogLock]) k () [] ?K"
      by (rule runs_seq(2)[OF runs_acquire] runs_seq(2)[OF runs_bind] g m runs_seq(2)[OF runs_modb]
          runs_seq(2)[OF runs_release] runs_seq(1) refl | simp add: assms(2))+
    then have "runs k [] (log_write i) k () [] ?K" unfolding log_write_def
      using that h by (intro runs_bind[OF runs_getl[OF refl]]) simp
    from runsD[OF this assms(1), of env] show ?thesis
      using s logged_add_block[of h b] assms(3) h
      by (auto elim!: wp_mono simp: synced_view set_lh_disk)
  qed
  then show ?thesis by (auto simp: log_write_def kM_simps getl_def h)
qed

theorem log_write_records_witness:
  "if int LOGSIZE \<le> lh_n (lg_lh (klog log_kernel)) \<or> sint (lg_size (klog log_kernel)) - 1 \<le> lh_n (lg_lh (klog log_kernel))
    then log_write 0 (log_kernel, []) = Panic ''too big a transaction'' (log_kernel, [])
    else if lg_outstanding (klog log_kernel) < 1
    then log_write 0 (log_kernel, []) = Panic ''log_write outside of trans'' (log_kernel, [])
    else wp (log_write 0) (\<lambda>_ (k', env'). env' = [] \<and>
      logged (lg_lh (klog k')) = (if 100 \<in> set (logged (lg_lh (klog log_kernel))) then logged (lg_lh (klog log_kernel))
        else logged (lg_lh (klog log_kernel)) @ [100]) \<and>
      b_flags (bcache k' 0) = b_flags (bcache log_kernel 0) OR B_DIRTY \<and> disk k' = disk log_kernel) (log_kernel, [])"
  by (rule log_write_records)
    (use log_kernel_ok(1,2) in \<open>simp_all add: idle_def log_kernel_sel\<close>)

end
