(* ===== verification/Fs_Read.thy ===== *)
theory Fs_Read
  imports Fs_Dir Crash
begin

text \<open>
  What \<open>readi\<close> returns: the contents of a file as its block map and the blocks seen through the buffer cache
  determine it, and what \<open>dirlookup\<close> finds in a directory. \<open>D\<close> gives the contents of a block by its number.
\<close>

section \<open>The contents of a file\<close>

definition blk_addr :: "(uint \<Rightarrow> byte list) \<Rightarrow> (nat \<Rightarrow> uint) \<Rightarrow> nat \<Rightarrow> uint" where
  "blk_addr D addrs bn = (if bn < NDIRECT then addrs bn else get32 (D (addrs NDIRECT)) (4 * (bn - NDIRECT)))"

definition file_byte :: "(uint \<Rightarrow> byte list) \<Rightarrow> (nat \<Rightarrow> uint) \<Rightarrow> nat \<Rightarrow> byte" where
  "file_byte D addrs i = D (blk_addr D addrs (i div BSIZE)) ! (i mod BSIZE)"

definition file_bytes :: "(uint \<Rightarrow> byte list) \<Rightarrow> (nat \<Rightarrow> uint) \<Rightarrow> nat \<Rightarrow> byte list" where
  "file_bytes D addrs sz = map (file_byte D addrs) [0..<sz]"

text \<open>Every block of a file of \<open>sz\<close> bytes is allocated, on the disk and of the right length.\<close>

definition blk_ok :: "(uint \<Rightarrow> byte list) \<Rightarrow> uint \<Rightarrow> uint \<Rightarrow> bool" where
  "blk_ok D n b \<longleftrightarrow> b \<noteq> 0 \<and> b < n \<and> length (D b) = BSIZE"

definition file_ok :: "(uint \<Rightarrow> byte list) \<Rightarrow> uint \<Rightarrow> (nat \<Rightarrow> uint) \<Rightarrow> nat \<Rightarrow> bool" where
  "file_ok D n addrs sz \<longleftrightarrow> sz \<le> MAXFILE * BSIZE \<and> (NDIRECT * BSIZE < sz \<longrightarrow> blk_ok D n (addrs NDIRECT)) \<and>
     (\<forall>bn. bn * BSIZE < sz \<longrightarrow> blk_ok D n (blk_addr D addrs bn))"

declare readi_loop.simps [simp del] writei_loop.simps [simp del]

section \<open>Reading blocks\<close>

text \<open>Only the cache changed, and every block keeps its contents.\<close>

definition read_only :: "kernel \<Rightarrow> kernel \<Rightarrow> bool" where
  "read_only K K' \<longleftrightarrow> reading K K' {} \<and> icache K' = icache K \<and> sb K' = sb K \<and> devsw K' = devsw K \<and>
     (\<forall>i. sleeplocks K' (InodeSl i) = sleeplocks K (InodeSl i)) \<and> (\<forall>p. p_pid (ptable K' p) = p_pid (ptable K p)) \<and>
     cpu_of K' = cpu_of K"

lemma read_only_refl: "cache_ok {} K \<Longrightarrow> read_only K K"
  by (simp add: read_only_def reading_start)

lemma read_only_trans: "read_only K1 K2 \<Longrightarrow> read_only K2 K3 \<Longrightarrow> read_only K1 K3"
  by (simp add: read_only_def reading_def)

lemma read_onlyD:
  assumes "read_only K K'"
  shows "cache_ok {} K'" "view K' = view K" "pinned K' = pinned K" "disksize K' = disksize K" "icache K' = icache K"
    "sb K' = sb K" "disk K' = disk K"
  using assms by (simp_all add: read_only_def reading_def)

lemma buf_ops_keep_inodes [simp]:
  "icache (take_buf i b fl K) = icache K" "sb (take_buf i b fl K) = sb K" "devsw (take_buf i b fl K) = devsw K"
  "icache (give_buf i K) = icache K" "sb (give_buf i K) = sb K" "devsw (give_buf i K) = devsw K"
  "sleeplocks (take_buf i b fl K) (InodeSl j) = sleeplocks K (InodeSl j)" "ptable (take_buf i b fl K) = ptable K"
  "sleeplocks (give_buf i K) (InodeSl j) = sleeplocks K (InodeSl j)" "p_pid (ptable (give_buf i K) p) = p_pid (ptable K p)"
  "cpu_of (take_buf i b fl K) = cpu_of K" "cpu_of (give_buf i K) = cpu_of K"
  by (simp_all add: take_buf_def give_buf_def set_sl_def set_buf_def woken_def cpu_of_def this_cpu_def)

text \<open>\<open>bread\<close> and, later, \<open>brelse\<close>: the buffer in between holds the block.\<close>

lemma runs_take_block:
  assumes "idle B" "cache_ok {} K" "card (pinned K) < NBUF" "b < disksize K"
  obtains i K1 where "runs B [] (bread 1 b) K i [] K1" "b_data (bcache K1 i) = view K b" "icache K1 = icache K"
    "cache_ok {i} K1" "read_only K (give_buf i K1)"
proof -
  have sp: "\<exists>j < NBUF. j \<notin> {} \<and> b_flags (bcache K j) \<noteq> 6" using spare_buf[OF assms(2)] assms(3) by simp
  from runs_bread[OF assms(1,2) _ assms(4) sp] obtain i fl where t: "may_take {} K b i fl"
    and r: "runs B [] (bread 1 b) K i [] (take_buf i b fl K)" by blast
  let ?K1 = "take_buf i b fl K"
  have ok: "cache_ok {i} ?K1" using cache_ok_take_buf[OF assms(2) t assms(4)] by simp
  have "b \<notin> pinned K" if "fl = 2"
    using t caches_unique[OF assms(2)] that by (fastforce simp: may_take_def pinned_def split: if_splits)
  then have "cache_ok {} (give_buf i ?K1)"
    using cache_ok_give_buf[OF ok, of i] unpinned_view[OF assms(2), of b] by simp
  then have "read_only K (give_buf i ?K1)"
    using view_take_buf[OF assms(2) t assms(4)] pinned_take_buf[OF assms(2) t]
    by (simp add: read_only_def reading_def view_give_buf)
  then show ?thesis using that[OF r _ _ ok] by simp
qed

lemma runs_read_block:
  assumes "idle B" "cache_ok {} K" "card (pinned K) < NBUF" "b < disksize K"
  obtains i K1 K2 where "runs B [] (bread 1 b) K i [] K1" "b_data (bcache K1 i) = view K b" "icache K1 = icache K"
    "runs B [] (brelse i) K1 () [] K2" "read_only K K2"
  using runs_take_block[OF assms] runs_brelse[OF assms(1)] by (metis singletonI)

lemma runs_geti [runs_rules]: "v = f (icache K i) \<Longrightarrow> runs B C (geti i f) K v C K"
  unfolding geti_def by (rule runs_gets) simp

lemma runs_bmap:
  assumes B: "idle B" and K: "cache_ok {} K" "card (pinned K) < NBUF"
    and f: "i_dev (icache K ip) = 1" "file_ok (view K) (disksize K) (i_addrs (icache K ip)) sz"
    and bn: "unat bn * BSIZE < sz"
  shows "\<exists>K'. runs B [] (bmap ip bn) K (blk_addr (view K) (i_addrs (icache K ip)) (unat bn)) [] K' \<and> read_only K K'"
proof -
  let ?x = "icache K ip"
  have a: "runs B [] (addr_or_alloc ip j) K (i_addrs ?x j) [] K" if "i_addrs ?x j \<noteq> 0" for j
    unfolding addr_or_alloc_def using that by (intro runs_bind[OF runs_geti[OF refl]]) (simp add: runs_Ret)
  show ?thesis
  proof (cases "unat bn < NDIRECT")
    case True
    then have "i_addrs ?x (unat bn) \<noteq> 0" using f(2) bn by (auto simp: file_ok_def blk_ok_def blk_addr_def)
    then show ?thesis using a[of "unat bn"] True read_only_refl[OF K(1)]
      by (intro exI[of _ K]) (simp add: bmap_def word_less_nat_alt blk_addr_def)
  next
    case False
    let ?b = "i_addrs ?x NDIRECT" and ?bi = "bn - of_nat NDIRECT"
    have sz: "sz \<le> 140 * 512" "12 * 512 < sz" using f(2) bn False by (auto simp: file_ok_def)
    have bi: "unat ?bi = unat bn - NDIRECT" using False by (simp add: unat_sub word_le_nat_alt)
    have b: "?b \<noteq> 0" "?b < disksize K" using f(2) sz(2) by (auto simp: file_ok_def blk_ok_def)
    let ?v = "get32 (view K ?b) (4 * unat ?bi)"
    have e: "blk_addr (view K) (i_addrs ?x) (unat bn) = ?v" using False bi by (simp add: blk_addr_def)
    then have v: "?v \<noteq> 0" using f(2) bn by (metis blk_ok_def file_ok_def)
    obtain i K1 K2 where r: "runs B [] (bread 1 ?b) K i [] K1" "b_data (bcache K1 i) = view K ?b"
        "runs B [] (brelse i) K1 () [] K2" "read_only K K2"
      using runs_read_block[OF B K b(2)] by metis
    have "runs B [] (thenK (brelse i) (Ret ?v)) K1 ?v [] K2" by (rule runs_then[OF r(3) runs_Ret]) simp_all
    then have "runs B [] (bindK (if ?v = 0 then bindK (balloc 1) (\<lambda>a.
        thenK (modb i (\<lambda>b. b\<lparr>b_data := put32 (b_data b) (4 * unat ?bi) a\<rparr>)) (thenK (log_write i) (Ret a)))
        else Ret ?v) (\<lambda>a. thenK (brelse i) (Ret a))) K1 ?v [] K2"
      using v by (intro runs_bind[where v = ?v and ?K1.0 = K1 and ?C1.0 = "[]"]) (simp_all add: runs_Ret)
    moreover have "\<not> bn < of_nat NDIRECT" "?bi < of_nat NINDIRECT"
      using False sz(1) bn bi by (simp_all add: word_less_nat_alt)
    ultimately have "runs B [] (bmap ip bn) K ?v [] K2" unfolding bmap_def Let_def
      using f(1) r(2)
      by (simp only: if_False if_True)
        (intro runs_bind[OF a[OF b(1)]] runs_bind[OF runs_geti[where v = 1]] runs_bind[OF r(1)]
          runs_bind[OF runs_getb[where v = ?v]]; simp)
    then show ?thesis using r(4) e by auto
  qed
qed

section \<open>Reading a file\<close>

text \<open>What reading relies on: a consistent cache with a buffer to spare and a file whose blocks are allocated.\<close>

definition readable :: "nat \<Rightarrow> kernel \<Rightarrow> bool" where
  "readable ip K \<longleftrightarrow> cache_ok {} K \<and> card (pinned K) < NBUF \<and> i_dev (icache K ip) = 1 \<and> i_type (icache K ip) \<noteq> T_DEV \<and>
     file_ok (view K) (disksize K) (i_addrs (icache K ip)) (unat (i_size (icache K ip)))"

definition contents :: "kernel \<Rightarrow> nat \<Rightarrow> byte list" where
  "contents K ip = file_bytes (view K) (i_addrs (icache K ip)) (unat (i_size (icache K ip)))"

lemma readable_read_only: "read_only K K' \<Longrightarrow> readable ip K \<Longrightarrow> readable ip K' \<and> contents K' = contents K"
  by (simp add: readable_def contents_def fun_eq_iff read_onlyD)

lemma length_contents: "length (contents K ip) = unat (i_size (icache K ip))"
  by (simp add: contents_def file_bytes_def)

lemma div_mod_add: "(z :: nat) < n \<Longrightarrow> (n * q + z) div n = q \<and> (n * q + z) mod n = z"
  by simp

lemma block_slice:
  assumes "length (D (blk_addr D addrs (o0 div BSIZE))) = BSIZE" "o0 mod BSIZE + m \<le> BSIZE"
  shows "take m (drop (o0 mod BSIZE) (D (blk_addr D addrs (o0 div BSIZE)))) = map (file_byte D addrs) [o0..<o0 + m]"
proof (rule nth_equalityI)
  fix i assume "i < length (take m (drop (o0 mod BSIZE) (D (blk_addr D addrs (o0 div BSIZE)))))"
  then have i: "i < m" by simp
  then have "(o0 + i) div BSIZE = o0 div BSIZE" "(o0 + i) mod BSIZE = o0 mod BSIZE + i"
    using div_mod_add[of "o0 mod BSIZE + i" BSIZE "o0 div BSIZE"] assms(2) by (simp_all add: add.assoc[symmetric])
  then show "take m (drop (o0 mod BSIZE) (D (blk_addr D addrs (o0 div BSIZE)))) ! i =
      map (file_byte D addrs) [o0..<o0 + m] ! i"
    using i assms by (simp add: file_byte_def)
qed (use assms in simp)

lemma chunk_bounds: "0 < n \<Longrightarrow> 0 < chunk off n" "chunk off n \<le> n" "unat off mod BSIZE + chunk off n \<le> BSIZE"
  by (simp_all add: chunk_def min_def) (use mod_less_divisor[of BSIZE "unat off"] in linarith)+

lemma runs_readi_loop:
  assumes B: "idle B"
  shows "readable ip K \<Longrightarrow> unat off + n \<le> unat (i_size (icache K ip)) \<Longrightarrow>
    \<exists>K'. runs B [] (readi_loop ip off n) K
      (map (file_byte (view K) (i_addrs (icache K ip))) [unat off..<unat off + n]) [] K' \<and> read_only K K'"
proof (induction ip off n arbitrary: K rule: readi_loop.induct)
  case (1 ip off n)
  let ?x = "icache K ip" and ?m = "chunk off n"
  let ?f = "file_byte (view K) (i_addrs ?x)"
  have R: "cache_ok {} K" "card (pinned K) < NBUF" "i_dev ?x = 1"
      "file_ok (view K) (disksize K) (i_addrs ?x) (unat (i_size ?x))"
    using 1(2) by (auto simp: readable_def)
  show ?case
  proof (cases "n = 0")
    case True
    then show ?thesis using read_only_refl[OF R(1)] by (intro exI[of _ K]) (simp add: readi_loop.simps[of ip off 0] runs_Ret)
  next
    case False
    let ?bn = "off div of_nat BSIZE"
    have ubn: "unat ?bn = unat off div BSIZE" by (simp add: unat_div)
    have bn: "unat ?bn * BSIZE < unat (i_size ?x)" using 1(3) False ubn div_times_less_eq_dividend[of "unat off" BSIZE] by linarith
    obtain K1 where b: "runs B [] (bmap ip ?bn) K (blk_addr (view K) (i_addrs ?x) (unat ?bn)) [] K1" "read_only K K1"
      using runs_bmap[OF B R bn] by blast
    let ?a = "blk_addr (view K) (i_addrs ?x) (unat ?bn)"
    have a: "?a < disksize K" "length (view K ?a) = BSIZE" using R(4) bn by (auto simp: file_ok_def blk_ok_def)
    note K1 = read_onlyD[OF b(2)]
    have "card (pinned K1) < NBUF" "?a < disksize K1" using K1 R(2) a by simp_all
    from runs_read_block[OF B K1(1) this] obtain i K2 K3 where r: "runs B [] (bread 1 ?a) K1 i [] K2"
        "b_data (bcache K2 i) = view K ?a" "runs B [] (brelse i) K2 () [] K3" "read_only K1 K3"
      by (metis K1(2))
    have K3: "read_only K K3" using read_only_trans[OF b(2) r(4)] .
    have sl: "take ?m (drop (unat off mod BSIZE) (view K ?a)) = map ?f [unat off..<unat off + ?m]"
      using block_slice[of "view K" "i_addrs ?x" "unat off" ?m] a(2) chunk_bounds(3)[of off n] ubn by simp
    have off: "unat (off + of_nat ?m) = unat off + ?m"
    proof -
      have "unat off + ?m < 2 ^ 32" using 1(3) chunk_bounds(2)[of off n] R(4) by (simp add: file_ok_def)
      then show ?thesis using chunk_bounds(2)[of off n] by (simp add: unat_word_ariths(1) unat_of_nat)
    qed
    have "readable ip K3" "unat (off + of_nat ?m) + (n - ?m) \<le> unat (i_size (icache K3 ip))"
      using readable_read_only[OF K3 1(2)] 1(3) read_onlyD(5)[OF K3] off chunk_bounds(2)[of off n] by simp_all
    from 1(1)[OF False this] obtain K4 where l: "runs B [] (readi_loop ip (off + of_nat ?m) (n - ?m)) K3
        (map ?f [unat off + ?m..<unat off + n]) [] K4" "read_only K3 K4"
      using read_onlyD(2,5)[OF K3] off chunk_bounds(2)[of off n] by auto
    have "map ?f [unat off..<unat off + ?m] @ map ?f [unat off + ?m..<unat off + n] = map ?f [unat off..<unat off + n]"
      using chunk_bounds(2)[of off n] upt_add_eq_append[of "unat off" "unat off + ?m" "n - ?m"] by simp
    then have "runs B [] (bindK (readi_loop ip (off + of_nat ?m) (n - ?m))
        (\<lambda>rest. Ret (map ?f [unat off..<unat off + ?m] @ rest))) K3 (map ?f [unat off..<unat off + n]) [] K4"
      by (intro runs_bind[OF l(1)] runs_Ret) simp_all
    note s = runs_then[OF r(3) this]
    have "runs B [] (readi_loop ip off n) K (map ?f [unat off..<unat off + n]) [] K4"
      using False r(2) sl R(3) K1(5) unfolding readi_loop.simps[of ip off n]
      by (simp only: if_False)
        (intro runs_bind[OF b(1)] runs_bind[OF runs_geti[where v = 1]] runs_bind[OF r(1)]
          runs_bind[OF runs_getb[where v = "map ?f [unat off..<unat off + ?m]"]] s; simp)
    then show ?thesis using read_only_trans[OF K3 l(2)] by blast
  qed
qed

lemma sint_small:
  assumes "unat (x :: uint) < 2 ^ 31"
  shows "sint x = int (unat x)"
proof -
  have u: "int (unat x) = uint x" by simp
  have "int (unat x) < int (2 ^ 31)" using assms by (simp only: of_nat_less_iff)
  then have "uint x < 2 ^ 31" unfolding u by simp
  moreover have "- (2 ^ 31) \<le> uint x" by (rule order_trans[OF _ uint_ge_0]) simp
  ultimately have "signed_take_bit 31 (uint x) = uint x" by (intro signed_take_bit_int_eq_self)
  then show ?thesis unfolding u sint_uint by simp
qed

definition readi_spec :: "nat \<Rightarrow> uint \<Rightarrow> uint \<Rightarrow> kernel \<Rightarrow> int \<times> byte list" where
  "readi_spec ip off n K =
     (if i_size (icache K ip) < off \<or> off + n < off then (- 1, [])
      else let bs = take (unat n) (drop (unat off) (contents K ip)) in (int (length bs), bs))"

lemma take_drop_contents:
  "unat off + m \<le> unat (i_size (icache K ip)) \<Longrightarrow> take m (drop (unat off) (contents K ip)) =
   map (file_byte (view K) (i_addrs (icache K ip))) [unat off..<unat off + m]"
  by (simp add: contents_def file_bytes_def drop_map take_map)

lemma runs_readi:
  assumes B: "idle B" and r: "readable ip K"
  shows "\<exists>K'. runs B [] (readi ip off n) K (readi_spec ip off n K) [] K' \<and> read_only K K'"
proof -
  let ?x = "icache K ip" and ?m = "if i_size (icache K ip) < off + n then i_size (icache K ip) - off else n"
  have R: "cache_ok {} K" "i_type ?x \<noteq> T_DEV" "unat (i_size ?x) \<le> 140 * 512" using r by (auto simp: readable_def file_ok_def)
  show ?thesis
  proof (cases "i_size ?x < off \<or> off + n < off")
    case True
    then have "runs B [] (readi ip off n) K (readi_spec ip off n K) [] K"
      unfolding readi_def by (intro runs_bind[OF runs_geti[OF refl]]) (simp add: R(2) readi_spec_def runs_Ret)
    then show ?thesis using read_only_refl[OF R(1)] by blast
  next
    case False
    have sum: "unat (off + n) = unat off + unat n" using False by (metis linorder_not_less unat_plus_simple)
    have le: "unat off \<le> unat (i_size ?x)" using False by (simp add: word_less_nat_alt)
    have m: "unat ?m = min (unat n) (unat (i_size ?x) - unat off)"
      using le sum by (auto simp: unat_sub word_le_nat_alt word_less_nat_alt)
    then have b: "unat off + unat ?m \<le> unat (i_size ?x)" using le by simp
    obtain K' where l: "runs B [] (readi_loop ip off (unat ?m)) K
        (map (file_byte (view K) (i_addrs ?x)) [unat off..<unat off + unat ?m]) [] K'" "read_only K K'"
      using runs_readi_loop[OF B r b] by blast
    have t: "take (unat n) (drop (unat off) (contents K ip)) = take (unat ?m) (drop (unat off) (contents K ip))"
      unfolding m by (simp add: length_contents min_def)
    have "sint ?m = int (unat ?m)" using b R(3) by (intro sint_small) simp
    then have "readi_spec ip off n K =
        (sint ?m, map (file_byte (view K) (i_addrs ?x)) [unat off..<unat off + unat ?m])"
      using False b by (simp add: readi_spec_def t take_drop_contents Let_def)
    then have "runs B [] (bindK (readi_loop ip off (unat ?m)) (\<lambda>bs. Ret (sint ?m, bs))) K (readi_spec ip off n K) [] K'"
      by (intro runs_bind[OF l(1)] runs_Ret) simp_all
    then have "runs B [] (readi ip off n) K (readi_spec ip off n K) [] K'"
      unfolding readi_def Let_def using False R(2) by (intro runs_bind[OF runs_geti[OF refl]]) simp
    then show ?thesis using l(2) by blast
  qed
qed

text \<open>
  C3: \<open>readi\<close> reads the file. On an inode whose blocks are allocated, direct or through the indirect block, it
  returns exactly the bytes of the file from the offset on, at most as many as asked for and cut at the end of
  the file, whichever blocks were cached; it returns -1 for an offset beyond the end or a range that wraps around.
  No block, inode or disk sector changes and the cache stays consistent.
\<close>
theorem readi_returns_contents:
  assumes "cpu_ok k" and "idle k" and "readable ip k"
  shows "wp (readi ip off n) (\<lambda>r (k', env'). env' = env \<and>
    r = (if i_size (icache k ip) < off \<or> off + n < off then (- 1, [])
         else let bs = take (unat n) (drop (unat off) (contents k ip)) in (int (length bs), bs)) \<and>
    cache_ok {} k' \<and> view k' = view k \<and> disk k' = disk k \<and> icache k' = icache k) (k, env)"
proof -
  obtain K where K: "runs k [] (readi ip off n) k (readi_spec ip off n k) [] K" "read_only k K"
    using runs_readi[OF assms(2,3)] by blast
  have "wp (readi ip off n) (\<lambda>r (k', env'). r = readi_spec ip off n k \<and> env' = env \<and> synced K k') (k, env)"
    using K(2) by (intro runsD[OF K(1) assms(1)]) (simp_all add: read_only_def reading_def)
  moreover have "icache k' = icache k" if "synced K k'" for k'
    using that read_onlyD(5)[OF K(2)] by (auto elim!: syncedE)
  ultimately show ?thesis using read_onlyD[OF K(2)]
    by (auto elim!: wp_mono simp: synced_view readi_spec_def)
qed

text \<open>A kernel with a directory of two entries in block 100, read through inode 3 of the cache.\<close>

definition dir_block :: "byte list" where
  "dir_block = mk_dirent 1 [46] @ mk_dirent 2 [97, 98] @ replicate 480 0"

definition dir_kernel :: kernel where
  "dir_kernel = boot_kernel\<lparr>disk := \<lambda>n. if n = 100 then dir_block else replicate BSIZE 0,
     icache := (icache boot_kernel)(3 := (icache boot_kernel 3)
       \<lparr>i_dev := 1, i_inum := 1, i_ref := 1, i_valid := 1, i_type := T_DIR, i_size := 32, i_addrs := (\<lambda>_. 0)(0 := 100)\<rparr>)\<rparr>"

lemma length_dir_block: "length dir_block = BSIZE"
  by (simp add: dir_block_def mk_dirent_def le16_def strncpyl_def)

lemma dir_kernel_ok: "cpu_ok dir_kernel" "idle dir_kernel" "readable 3 dir_kernel"
proof -
  have ok: "cache_ok {} dir_kernel"
  proof -
    obtain xs where "linked (bcache boot_kernel) xs" using boot_ok(3) by (auto simp: cache_ok_def)
    then show ?thesis using boot_ok(3)
      by (auto simp: cache_ok_def dir_kernel_def no_dups_def) (auto simp: boot_kernel_def zero_kernel_def buf_ok_def cpu_of_def)
  qed
  have v: "view dir_kernel b = disk dir_kernel (unat b)" for b
    by (rule view_uncached) (simp add: dir_kernel_def boot_kernel_def zero_kernel_def)
  have "pinned dir_kernel = {}" by (simp add: pinned_def dir_kernel_def boot_kernel_def zero_kernel_def)
  moreover have "bn = 0" if "bn * 512 < (32 :: nat)" for bn using that by simp
  ultimately show "readable 3 dir_kernel" using ok v length_dir_block
    by (auto simp: readable_def file_ok_def blk_ok_def blk_addr_def) (simp_all add: dir_kernel_def boot_kernel_def zero_kernel_def)
  show "cpu_ok dir_kernel" "idle dir_kernel" using boot_ok
    by (simp_all add: dir_kernel_def idle_def lock_free_def cpu_ok_def this_cpu_def cpu_of_def)
qed

lemma dir_kernel_inode: "i_size (icache dir_kernel 3) = 32" "i_type (icache dir_kernel 3) = T_DIR"
  by (simp_all add: dir_kernel_def)

lemma dir_kernel_contents: "contents dir_kernel 3 = mk_dirent 1 [46] @ mk_dirent 2 [97, 98]"
proof -
  have "view dir_kernel b = disk dir_kernel (unat b)" for b
    by (rule view_uncached) (simp add: dir_kernel_def boot_kernel_def zero_kernel_def)
  then have "contents dir_kernel 3 = map (\<lambda>i. dir_block ! i) [0..<32]"
    by (simp add: contents_def file_bytes_def file_byte_def blk_addr_def dir_kernel_def)
  also have "\<dots> = take 32 dir_block" by (rule nth_equalityI) (simp_all add: length_dir_block)
  also have "\<dots> = mk_dirent 1 [46] @ mk_dirent 2 [97, 98]"
    by (simp add: dir_block_def mk_dirent_def le16_def strncpyl_def)
  finally show ?thesis .
qed

theorem readi_returns_contents_witness:
  "wp (readi 3 16 100) (\<lambda>r (k', env'). env' = [] \<and> r = (16, mk_dirent 2 [97, 98]) \<and>
    cache_ok {} k' \<and> view k' = view dir_kernel \<and> disk k' = disk dir_kernel \<and> icache k' = icache dir_kernel) (dir_kernel, [])"
proof -
  have "(if i_size (icache dir_kernel 3) < 16 \<or> (16 :: uint) + 100 < 16 then (- 1, [])
      else let bs = take (unat (100 :: uint)) (drop (unat (16 :: uint)) (contents dir_kernel 3)) in (int (length bs), bs)) =
      (16, mk_dirent 2 [97, 98])"
    by (simp add: dir_kernel_contents dir_kernel_inode mk_dirent_def le16_def strncpyl_def)
  from readi_returns_contents[OF dir_kernel_ok, of 16 100 "[]", unfolded this] show ?thesis .
qed

section \<open>Directories\<close>

text \<open>The entries of a directory, names cut at their zero byte or at \<open>DIRSIZ\<close> bytes.\<close>

definition entry :: "kernel \<Rightarrow> nat \<Rightarrow> nat \<Rightarrow> byte list" where
  "entry K dp i = take DIRENT (drop (DIRENT * i) (contents K dp))"

definition dname :: "byte list \<Rightarrow> byte list" where
  "dname s = takeWhile (\<lambda>b. b \<noteq> 0) (take DIRSIZ s)"

definition found :: "byte list \<Rightarrow> kernel \<Rightarrow> nat \<Rightarrow> nat \<Rightarrow> bool" where
  "found name K dp i \<longleftrightarrow> de_inum (entry K dp i) \<noteq> 0 \<and> dname name = dname (de_name (entry K dp i))"

lemma strncmpl_zero:
  "strncmpl n p q = 0 \<longleftrightarrow> takeWhile (\<lambda>b. b \<noteq> 0) (take n p) = takeWhile (\<lambda>b. b \<noteq> 0) (take n q)"
proof (induction n arbitrary: p q)
  case (Suc n)
  show ?case using Suc[of "tl p" "tl q"]
    by (cases p; cases q) (auto simp: hd0_def word_uint_eq_iff)
qed simp

lemma namecmp_dname: "namecmp s t = 0 \<longleftrightarrow> dname s = dname t"
  by (simp add: namecmp_def dname_def strncmpl_zero)

text \<open>The slot \<open>iget\<close> returns and the cache after it; there is one unless all are in use.\<close>

definition icached :: "uint \<Rightarrow> kernel \<Rightarrow> nat option" where
  "icached inum K = find (\<lambda>i. 0 < i_ref (icache K i) \<and> i_dev (icache K i) = 1 \<and> i_inum (icache K i) = inum) [0..<NINODE]"

definition ifree :: "kernel \<Rightarrow> nat option" where
  "ifree K = find (\<lambda>i. i_ref (icache K i) = 0) [0..<NINODE]"

definition iget_slot :: "uint \<Rightarrow> kernel \<Rightarrow> nat" where
  "iget_slot inum K = (case icached inum K of Some i \<Rightarrow> i | None \<Rightarrow> the (ifree K))"

definition iget_state :: "uint \<Rightarrow> kernel \<Rightarrow> kernel" where
  "iget_state inum K = (case icached inum K of
     Some i \<Rightarrow> set_inode i (\<lambda>x. x\<lparr>i_ref := i_ref x + 1\<rparr>) K
   | None \<Rightarrow> set_inode (the (ifree K)) (\<lambda>x. x\<lparr>i_dev := 1, i_inum := inum, i_ref := 1, i_valid := 0\<rparr>) K)"

lemma runs_modi [runs_rules]: "runs B C (modi i f) K () C (set_inode i f K)"
  unfolding modi_def by (rule runs_modify) (simp add: plain_def set_inode_def)

lemma runs_iget:
  assumes "idle B" "icached inum K \<noteq> None \<or> ifree K \<noteq> None"
  shows "runs B [] (iget 1 inum) K (iget_slot inum K) [] (iget_state inum K)"
proof -
  have a: "runs B [] (acquire IcacheLock) K () [IcacheLock] K" using assms(1) by (intro runs_acquire) (simp_all add: idle_def)
  have g: "runs B [IcacheLock] (gets icache) K (icache K) [IcacheLock] K" by (rule runs_gets) simp
  have t: "runs B [IcacheLock] (thenK (modi i f) (thenK (release IcacheLock) (Ret i))) K i [] (set_inode i f K)" for i f
    by (rule runs_then[OF runs_modi] runs_then[OF runs_release] runs_Ret refl)+
  show ?thesis unfolding iget_def
    by (rule runs_then[OF a], rule runs_bind[OF g])
      (use assms(2) t in \<open>auto simp: iget_slot_def iget_state_def icached_def[of inum K, symmetric]
        ifree_def[of K, symmetric] split: option.split\<close>)
qed

lemma unat_of_nat_small: "n < 2 ^ 32 \<Longrightarrow> unat (of_nat n :: uint) = n"
  by (simp add: unat_of_nat)

lemma entry_read_only: "read_only K K' \<Longrightarrow> entry K' = entry K"
  by (simp add: fun_eq_iff entry_def contents_def read_onlyD)

lemma runs_read_dirent:
  assumes B: "idle B" and r: "readable dp K" and i: "i < unat (i_size (icache K dp)) div DIRENT"
  shows "\<exists>K'. runs B [] (read_dirent e dp (of_nat (DIRENT * i))) K (entry K dp i) [] K' \<and> read_only K K'"
proof -
  let ?off = "of_nat (DIRENT * i) :: uint"
  have sz: "DIRENT * i + DIRENT \<le> unat (i_size (icache K dp))" "unat (i_size (icache K dp)) \<le> 140 * 512"
    using i r by (auto simp: readable_def file_ok_def)
  then have off: "unat ?off = DIRENT * i" by (intro unat_of_nat_small) simp
  have "unat (?off + 16) = unat ?off + 16" using sz unfolding unat_word_ariths(1) off by simp
  then have "\<not> (i_size (icache K dp) < ?off \<or> ?off + 16 < ?off)" using sz off by (simp add: word_less_nat_alt)
  then have s: "readi_spec dp ?off (of_nat DIRENT) K = (int DIRENT, entry K dp i)"
    using sz off by (simp add: readi_spec_def Let_def entry_def length_contents)
  obtain K' where "runs B [] (readi dp ?off (of_nat DIRENT)) K (int DIRENT, entry K dp i) [] K'" "read_only K K'"
    using runs_readi[OF B r, of ?off "of_nat DIRENT"] unfolding s by blast
  then show ?thesis unfolding read_dirent_def
    by (intro exI[of _ K'] conjI runs_bind[where v = "(int DIRENT, entry K dp i)"])
      (auto intro: runs_Ret)
qed

definition inode_room :: "kernel \<Rightarrow> bool" where
  "inode_room K \<longleftrightarrow> (\<exists>i < NINODE. i_ref (icache K i) = 0)"

lemma inode_room_free: "inode_room K \<Longrightarrow> ifree K \<noteq> None"
  by (auto simp: inode_room_def ifree_def find_None_iff)

lemma runs_dirlookup_loop:
  assumes B: "idle B"
  shows "readable dp K \<Longrightarrow> inode_room K \<Longrightarrow> \<forall>i \<in> set is. i < unat (i_size (icache K dp)) div DIRENT \<Longrightarrow>
    \<exists>K'. read_only K K' \<and> runs B [] (dirlookup_loop dp name (map (\<lambda>i. of_nat (DIRENT * i)) is)) K
      (map_option (\<lambda>i. (iget_slot (ucast (de_inum (entry K dp i))) K, of_nat (DIRENT * i))) (find (found name K dp) is)) []
      (case find (found name K dp) is of None \<Rightarrow> K' | Some i \<Rightarrow> iget_state (ucast (de_inum (entry K dp i))) K')"
proof (induction "is" arbitrary: K)
  case Nil
  then show ?case by (intro exI[of _ K]) (auto simp: readable_def intro: read_only_refl runs_Ret)
next
  case (Cons i "is")
  obtain K1 where r: "runs B [] (read_dirent ''dirlookup read'' dp (of_nat (DIRENT * i))) K (entry K dp i) [] K1" "read_only K K1"
    using runs_read_dirent[OF B Cons(2), of i] Cons(4) by auto
  have ic: "icache K1 = icache K" and e: "entry K1 = entry K" and dev: "i_dev (icache K dp) = 1"
    using read_onlyD(5)[OF r(2)] entry_read_only[OF r(2)] Cons(2) by (simp_all add: readable_def)
  have f: "found name K1 dp = found name K dp" by (simp add: fun_eq_iff found_def e)
  have slot: "iget_slot n K1 = iget_slot n K" for n
  proof -
    have "ifree K1 = ifree K" "icached n K1 = icached n K" by (simp_all add: icached_def ifree_def ic)
    then show ?thesis by (simp add: iget_slot_def split: option.split)
  qed
  have "readable dp K1" "inode_room K1" using readable_read_only[OF r(2) Cons(2)] Cons(3) by (simp_all add: inode_room_def ic)
  note ih = Cons.IH[OF this(1,2)] and room = inode_room_free[OF this(2)]
  show ?case
  proof (cases "found name K dp i")
    case True
    let ?n = "ucast (de_inum (entry K dp i))" and ?off = "of_nat (DIRENT * i) :: uint"
    have "runs B [] (bindK (geti dp i_dev) (\<lambda>dev. bindK (iget dev ?n) (\<lambda>ip. Ret (Some (ip, ?off)))))
        K1 (Some (iget_slot ?n K, ?off)) [] (iget_state ?n K1)"
      using room ic dev
      by (intro runs_bind[OF runs_geti[where v = 1]] runs_bind[OF runs_iget[OF B]] runs_Ret) (simp_all add: slot)
    then show ?thesis using True r(2) namecmp_dname[of name "de_name (entry K dp i)"]
      by (intro exI[of _ K1]) (auto simp: found_def intro!: runs_bind[OF r(1)[simplified]])
  next
    case False
    obtain K' where K': "read_only K1 K'" "runs B [] (dirlookup_loop dp name (map (\<lambda>i. of_nat (DIRENT * i)) is)) K1
      (map_option (\<lambda>i. (iget_slot (ucast (de_inum (entry K dp i))) K, of_nat (DIRENT * i))) (find (found name K dp) is)) []
      (case find (found name K dp) is of None \<Rightarrow> K' | Some i \<Rightarrow> iget_state (ucast (de_inum (entry K dp i))) K')"
      using ih[unfolded ic e f slot] Cons(4) by auto
    have "de_inum (entry K dp i) = 0 \<or> namecmp name (de_name (entry K dp i)) \<noteq> 0"
      using False namecmp_dname[of name "de_name (entry K dp i)"] by (auto simp: found_def)
    then show ?thesis using False K'(2) read_only_trans[OF r(2) K'(1)]
      by (intro exI[of _ K']) (auto intro!: runs_bind[OF r(1)[simplified]])
  qed
qed

lemma dir_offsets_entries:
  "unat sz = DIRENT * n \<Longrightarrow> dir_offsets sz = map (\<lambda>i. of_nat (DIRENT * i)) [0..<n]"
  by (simp add: dir_offsets_def)

lemma runs_dirlookup:
  assumes "idle B" "readable dp K" "i_type (icache K dp) = T_DIR" "unat (i_size (icache K dp)) = DIRENT * n" "inode_room K"
  shows "\<exists>K'. read_only K K' \<and> runs B [] (dirlookup dp name) K
      (map_option (\<lambda>i. (iget_slot (ucast (de_inum (entry K dp i))) K, of_nat (DIRENT * i))) (find (found name K dp) [0..<n])) []
      (case find (found name K dp) [0..<n] of None \<Rightarrow> K' | Some i \<Rightarrow> iget_state (ucast (de_inum (entry K dp i))) K')"
proof -
  have "\<forall>i \<in> set [0..<n]. i < unat (i_size (icache K dp)) div DIRENT" using assms(4) by simp
  from runs_dirlookup_loop[OF assms(1,2,5) this] obtain K' where K': "read_only K K'"
    and r: "runs B [] (dirlookup_loop dp name (map (\<lambda>i. of_nat (DIRENT * i)) [0..<n])) K
      (map_option (\<lambda>i. (iget_slot (ucast (de_inum (entry K dp i))) K, of_nat (DIRENT * i))) (find (found name K dp) [0..<n])) []
      (case find (found name K dp) [0..<n] of None \<Rightarrow> K' | Some i \<Rightarrow> iget_state (ucast (de_inum (entry K dp i))) K')" by blast
  have "dirlookup dp name = bindK (geti dp (\<lambda>x. x)) (\<lambda>x. if i_type x \<noteq> T_DIR then Panic ''dirlookup not DIR''
      else dirlookup_loop dp name (dir_offsets (i_size x)))" by (simp add: dirlookup_def)
  then show ?thesis using K' r assms(3) dir_offsets_entries[OF assms(4)]
    by (intro exI[of _ K']) (auto intro!: runs_bind[OF runs_geti[OF refl]])
qed

lemma set_inode_view [simp]:
  "cache_ok H (set_inode i f K) = cache_ok H K" "view (set_inode i f K) = view K" "disk (set_inode i f K) = disk K"
  "cpus (set_inode i f K) = cpus K" "locks (set_inode i f K) = locks K" "eflags_if (set_inode i f K) = eflags_if K"
  by (simp_all add: fun_eq_iff set_inode_def cache_ok_def view_def caches_def cpu_of_def this_cpu_def cong: option.case_cong)

lemma iget_slot_inode:
  assumes "inode_room K" "ip = iget_slot inum K"
  shows "ip < NINODE" "i_dev (icache (iget_state inum K) ip) = 1" "i_inum (icache (iget_state inum K) ip) = inum"
    "0 < i_ref (icache (iget_state inum K) ip)" "j \<noteq> ip \<Longrightarrow> icache (iget_state inum K) j = icache K j"
proof -
  obtain f where f: "ifree K = Some f" using inode_room_free[OF assms(1)] by blast
  then have "f < NINODE" by (auto simp: ifree_def find_Some_iff)
  moreover have "i < NINODE \<and> 0 < i_ref (icache K i) \<and> i_dev (icache K i) = 1 \<and> i_inum (icache K i) = inum"
    if "icached inum K = Some i" for i using that by (auto simp: icached_def find_Some_iff)
  ultimately show "ip < NINODE" "i_dev (icache (iget_state inum K) ip) = 1" "i_inum (icache (iget_state inum K) ip) = inum"
      "0 < i_ref (icache (iget_state inum K) ip)" "j \<noteq> ip \<Longrightarrow> icache (iget_state inum K) j = icache K j"
    using f assms(2) by (auto simp: iget_slot_def iget_state_def set_inode_def split: option.splits)
qed



end
