(* ===== verification/Mkfs.thy ===== *)
theory Mkfs
  imports Fs_Read
begin

text \<open>
  \<open>mkfs.c\<close>, the program that builds the file system image, on the same on-disk formats the kernel decodes. The
  image file is the list of its sectors; \<open>perror\<close> followed by \<open>exit(1)\<close> and a failed \<open>assert\<close> are \<open>Panic\<close>. A file
  to be copied is its name and the pieces in which \<open>read\<close> delivers it.
\<close>

abbreviation (input) FSSIZE :: nat where "FSSIZE \<equiv> 1000"

record mkfs =
  mk_img :: "byte list list"
  mk_freeinode :: uint
  mk_freeblock :: uint

type_synonym 'a mkprog = "('a, mkfs) prog"

definition nbitmap :: nat where "nbitmap = FSSIZE div (BSIZE * 8) + 1"
definition ninodeblocks :: nat where "ninodeblocks = 200 div IPB + 1"
definition nlog :: nat where "nlog = LOGSIZE"
definition nmeta :: nat where "nmeta = 2 + nlog + ninodeblocks + nbitmap"

definition mk_sb :: superblock where
  "mk_sb = \<lparr>sb_size = of_nat FSSIZE, sb_nblocks = of_nat (FSSIZE - nmeta), sb_ninodes = 200, sb_nlog = of_nat nlog,
     sb_logstart = 2, sb_inodestart = of_nat (2 + nlog), sb_bmapstart = of_nat (2 + nlog + ninodeblocks)\<rparr>"

definition encode_sb :: "superblock \<Rightarrow> byte list" where
  "encode_sb s = concat (map le32 [sb_size s, sb_nblocks s, sb_ninodes s, sb_nlog s, sb_logstart s, sb_inodestart s, sb_bmapstart s])"

section \<open>Sectors and inodes\<close>

definition getk :: "(mkfs \<Rightarrow> 'a) \<Rightarrow> 'a mkprog" where
  "getk f = (\<lambda>s. Ret (f s) s)"

definition putk :: "(mkfs \<Rightarrow> mkfs) \<Rightarrow> unit mkprog" where
  "putk f = (\<lambda>s. Ret () (f s))"

text \<open>A write past the end of the file extends it; a read past the end fails.\<close>

definition set_sect :: "nat \<Rightarrow> byte list \<Rightarrow> byte list list \<Rightarrow> byte list list" where
  "set_sect sec buf img =
     (if sec < length img then img[sec := buf] else img @ replicate (sec - length img) (replicate BSIZE 0) @ [buf])"

text \<open>The offset \<open>sec * BSIZE\<close> is computed in 32 bits.\<close>

definition sect_no :: "uint \<Rightarrow> nat" where
  "sect_no sec = unat (sec * of_nat BSIZE) div BSIZE"

definition wsect :: "uint \<Rightarrow> byte list \<Rightarrow> unit mkprog" where
  "wsect sec buf = putk (\<lambda>s. s\<lparr>mk_img := set_sect (sect_no sec) buf (mk_img s)\<rparr>)"

definition rsect :: "uint \<Rightarrow> byte list mkprog" where
  "rsect sec = bindK (getk mk_img) (\<lambda>img. if sect_no sec < length img then Ret (img ! sect_no sec) else Panic ''read'')"

definition winode :: "uint \<Rightarrow> dinode \<Rightarrow> unit mkprog" where
  "winode inum din =
     bindK (rsect (IBLOCK inum mk_sb)) (\<lambda>buf.
     wsect (IBLOCK inum mk_sb) (encode_dinode din buf (unat inum mod IPB)))"

definition rinode :: "uint \<Rightarrow> dinode mkprog" where
  "rinode inum = bindK (rsect (IBLOCK inum mk_sb)) (\<lambda>buf. Ret (decode_dinode buf (unat inum mod IPB)))"

definition zero_dinode :: dinode where
  "zero_dinode = \<lparr>di_type = 0, di_major = 0, di_minor = 0, di_nlink = 0, di_size = 0, di_addrs = (\<lambda>_. 0)\<rparr>"

definition mk_ialloc :: "ushort \<Rightarrow> uint mkprog" where
  "mk_ialloc ty =
     bindK (getk mk_freeinode) (\<lambda>inum.
     thenK (putk (\<lambda>s. s\<lparr>mk_freeinode := mk_freeinode s + 1\<rparr>))
     (thenK (winode inum (zero_dinode\<lparr>di_type := ty, di_nlink := 1\<rparr>)) (Ret inum)))"

definition mk_balloc :: "uint \<Rightarrow> unit mkprog" where
  "mk_balloc used =
     (if BSIZE * 8 \<le> unat used then Panic ''assert''
      else wsect (sb_bmapstart mk_sb) (fold (\<lambda>i buf. bitmap_set buf i) [0..<unat used] (replicate BSIZE 0)))"

section \<open>Appending to a file\<close>

definition take_block :: "uint mkprog" where
  "take_block = bindK (getk mk_freeblock) (\<lambda>b. thenK (putk (\<lambda>s. s\<lparr>mk_freeblock := mk_freeblock s + 1\<rparr>)) (Ret b))"

definition set_daddr :: "nat \<Rightarrow> uint \<Rightarrow> dinode \<Rightarrow> dinode" where
  "set_daddr j a d = d\<lparr>di_addrs := (di_addrs d)(j := a)\<rparr>"

definition daddr_or_take :: "dinode \<Rightarrow> nat \<Rightarrow> dinode mkprog" where
  "daddr_or_take din j =
     (if di_addrs din j = 0 then bindK take_block (\<lambda>b. Ret (set_daddr j b din)) else Ret din)"

text \<open>The inode, with the blocks it needs for block \<open>fbn\<close>, and the address of that block.\<close>

definition iappend_block :: "dinode \<Rightarrow> nat \<Rightarrow> (dinode \<times> uint) mkprog" where
  "iappend_block din fbn =
     (if fbn < NDIRECT then bindK (daddr_or_take din fbn) (\<lambda>din. Ret (din, di_addrs din fbn))
      else
        bindK (daddr_or_take din NDIRECT) (\<lambda>din.
        bindK (rsect (di_addrs din NDIRECT)) (\<lambda>ind.
        if get32 ind (4 * (fbn - NDIRECT)) = 0 then
          bindK take_block (\<lambda>b.
          thenK (wsect (di_addrs din NDIRECT) (put32 ind (4 * (fbn - NDIRECT)) b)) (Ret (din, b)))
        else Ret (din, get32 ind (4 * (fbn - NDIRECT))))))"

function iappend_loop :: "dinode \<Rightarrow> uint \<Rightarrow> byte list \<Rightarrow> (dinode \<times> uint) mkprog" where
  "iappend_loop din off p =
     (if p = [] then Ret (din, off)
      else if MAXFILE \<le> unat off div BSIZE then Panic ''assert''
      else
        bindK (iappend_block din (unat off div BSIZE)) (\<lambda>(din, x).
        bindK (rsect x) (\<lambda>buf.
        let n1 = chunk off (length p) in
        thenK (wsect x (splice buf (unat off mod BSIZE) (take n1 p)))
          (iappend_loop din (off + of_nat n1) (drop n1 p)))))"
  by auto
termination
  by (relation "measure (\<lambda>(din, off, p). length p)") (auto simp: chunk_def)

declare iappend_loop.simps [simp del]

definition iappend :: "uint \<Rightarrow> byte list \<Rightarrow> unit mkprog" where
  "iappend inum p =
     bindK (rinode inum) (\<lambda>din.
     bindK (iappend_loop din (di_size din) p) (\<lambda>(din, off). winode inum (din\<lparr>di_size := off\<rparr>)))"

section \<open>The image\<close>

definition strip_name :: "byte list \<Rightarrow> byte list" where
  "strip_name nm = (case nm of [] \<Rightarrow> [] | c # cs \<Rightarrow> if c = 95 then cs else nm)"

definition mk_file :: "uint \<Rightarrow> byte list \<times> byte list list \<Rightarrow> unit mkprog" where
  "mk_file rootino f =
     (if SLASH \<in> set (fst f) then Panic ''assert''
      else
        bindK (mk_ialloc T_FILE) (\<lambda>inum.
        thenK (iappend rootino (mk_dirent inum (strip_name (fst f))))
          (forK (snd f) (iappend inum))))"

definition mkfs_main :: "(byte list \<times> byte list list) list \<Rightarrow> unit mkprog" where
  "mkfs_main files =
     thenK (seqK [
       forK [0..<FSSIZE] (\<lambda>i. wsect (of_nat i) (replicate BSIZE 0)),
       wsect 1 (splice (replicate BSIZE 0) 0 (encode_sb mk_sb))])
     (bindK (mk_ialloc T_DIR) (\<lambda>rootino.
      if rootino \<noteq> ROOTINO then Panic ''assert''
      else seqK [
        iappend rootino (mk_dirent rootino [46]),
        iappend rootino (mk_dirent rootino [46, 46]),
        forK files (mk_file rootino),
        bindK (rinode rootino) (\<lambda>din.
          winode rootino (din\<lparr>di_size := (di_size din div of_nat BSIZE + 1) * of_nat BSIZE\<rparr>)),
        bindK (getk mk_freeblock) mk_balloc]))"

definition mkfs_start :: mkfs where
  "mkfs_start = \<lparr>mk_img = [], mk_freeinode = 1, mk_freeblock = of_nat nmeta\<rparr>"

section \<open>Files in the image\<close>

text \<open>The blocks of a file: data blocks, then the indirect block if there is one; \<open>nblk\<close> and \<open>tblk\<close> count them.\<close>

definition sect :: "byte list list \<Rightarrow> uint \<Rightarrow> byte list" where
  "sect img b = img ! unat b"

definition nblk :: "nat \<Rightarrow> nat" where
  "nblk sz = (sz + (BSIZE - 1)) div BSIZE"

definition tblk :: "nat \<Rightarrow> nat" where
  "tblk sz = (if NDIRECT < nblk sz then nblk sz + 1 else nblk sz)"

definition owned :: "(uint \<Rightarrow> byte list) \<Rightarrow> (nat \<Rightarrow> uint) \<Rightarrow> nat \<Rightarrow> uint set" where
  "owned D addrs sz = blk_addr D addrs ` {..<nblk sz} \<union> (if NDIRECT < nblk sz then {addrs NDIRECT} else {})"

text \<open>
  The block map of a file of \<open>sz\<close> bytes: its blocks are different ones below the first free block \<open>fb\<close>, and the
  rest of the map is zero.
\<close>

definition map_ok :: "(uint \<Rightarrow> byte list) \<Rightarrow> nat \<Rightarrow> (nat \<Rightarrow> uint) \<Rightarrow> nat \<Rightarrow> bool" where
  "map_ok D fb addrs sz \<longleftrightarrow> sz \<le> MAXFILE * BSIZE \<and> (\<forall>b \<in> owned D addrs sz. nmeta \<le> unat b \<and> unat b < fb) \<and>
     inj_on (blk_addr D addrs) {..<nblk sz} \<and> (NDIRECT < nblk sz \<longrightarrow> addrs NDIRECT \<notin> blk_addr D addrs ` {..<nblk sz}) \<and>
     (\<forall>i < NDIRECT. nblk sz \<le> i \<longrightarrow> addrs i = 0) \<and> (nblk sz \<le> NDIRECT \<longrightarrow> addrs NDIRECT = 0) \<and>
     (\<forall>i < MAXFILE. NDIRECT < nblk sz \<longrightarrow> nblk sz \<le> i \<longrightarrow> blk_addr D addrs i = 0)"

definition img_ok :: "byte list list \<Rightarrow> nat \<Rightarrow> bool" where
  "img_ok img fb \<longleftrightarrow> length img = FSSIZE \<and> (\<forall>b < FSSIZE. length (img ! b) = BSIZE) \<and>
     (\<forall>b < FSSIZE. fb \<le> b \<longrightarrow> img ! b = replicate BSIZE 0) \<and> nmeta \<le> fb \<and> fb \<le> FSSIZE"

lemma mk_consts: "nmeta = 59" "nlog = 30" "ninodeblocks = 26" "nbitmap = 1"
  by (simp_all add: nmeta_def nlog_def ninodeblocks_def nbitmap_def)

lemma nblkI: "BSIZE * q < sz \<Longrightarrow> sz \<le> BSIZE * q + BSIZE \<Longrightarrow> nblk sz = q + 1"
  unfolding nblk_def by (rule div_nat_eqI) simp_all

lemma nblk_step:
  assumes "0 < n" "off mod BSIZE + n \<le> BSIZE"
  shows "nblk (off + n) = off div BSIZE + 1"
  using assms mult_div_mod_eq[of BSIZE off] by (intro nblkI) linarith+

lemma nblk_cases: "nblk off = (if off mod BSIZE = 0 then off div BSIZE else off div BSIZE + 1)"
proof (cases "off mod BSIZE = 0")
  case True
  then have "BSIZE * (off div BSIZE) = off" using mult_div_mod_eq[of BSIZE off] by linarith
  then have "nblk off = off div BSIZE" unfolding nblk_def using div_mod_add[of 511 BSIZE "off div BSIZE"] by simp
  then show ?thesis using True by simp
next
  case False
  moreover have "off mod BSIZE < BSIZE" by (rule mod_less_divisor) simp
  ultimately have "nblk off = off div BSIZE + 1" using mult_div_mod_eq[of BSIZE off] by (intro nblkI) linarith+
  then show ?thesis using False by simp
qed

lemma sect_update: "unat x < length img \<Longrightarrow> sect (img[unat x := v]) = (sect img)(x := v)"
  by (auto simp: sect_def fun_eq_iff nth_list_update word_unat_eq_iff)

lemma blk_addr_other: "x \<noteq> addrs NDIRECT \<or> i < NDIRECT \<Longrightarrow> blk_addr (D(x := v)) addrs i = blk_addr D addrs i"
  by (auto simp: blk_addr_def)

lemma map_ok_grow: "map_ok D fb addrs sz \<Longrightarrow> fb \<le> fb' \<Longrightarrow> map_ok D fb' addrs sz"
  unfolding map_ok_def by (meson order_less_le_trans)

lemma map_ok_sizes:
  "map_ok D fb addrs sz \<Longrightarrow> nblk sz = nblk sz' \<Longrightarrow> sz' \<le> MAXFILE * BSIZE \<Longrightarrow> map_ok D fb addrs sz'"
  by (simp add: map_ok_def owned_def)

text \<open>A block outside the file may change.\<close>

lemma map_ok_other:
  assumes "map_ok D fb addrs sz" "\<And>b. b \<in> owned D addrs sz \<Longrightarrow> D' b = D b"
  shows "map_ok D' fb addrs sz" "owned D' addrs sz = owned D addrs sz" "file_bytes D' addrs sz = file_bytes D addrs sz"
proof -
  have e: "blk_addr D' addrs i = blk_addr D addrs i" if "i < NDIRECT \<or> NDIRECT < nblk sz" for i
    using that assms(2) by (auto simp: blk_addr_def owned_def)
  then have A: "blk_addr D' addrs ` {..<nblk sz} = blk_addr D addrs ` {..<nblk sz}"
    "inj_on (blk_addr D' addrs) {..<nblk sz} = inj_on (blk_addr D addrs) {..<nblk sz}"
    by (auto intro!: image_cong inj_on_cong e)
  then show o: "owned D' addrs sz = owned D addrs sz" by (simp add: owned_def)
  show "map_ok D' fb addrs sz" using assms(1) e unfolding map_ok_def o A by auto
  have "file_byte D' addrs i = file_byte D addrs i" if "i < sz" for i
  proof -
    have i: "i div BSIZE < nblk sz" using that by (simp add: nblk_def div_less_iff_less_mult)
    then have "blk_addr D addrs (i div BSIZE) \<in> owned D addrs sz" by (auto simp: owned_def)
    moreover have "blk_addr D' addrs (i div BSIZE) = blk_addr D addrs (i div BSIZE)" using i by (intro e) linarith
    ultimately show ?thesis using assms(2) by (simp add: file_byte_def)
  qed
  then show "file_bytes D' addrs sz = file_bytes D addrs sz" by (simp add: file_bytes_def)
qed

section \<open>Appending\<close>

lemma sect_no_small: "unat x < FSSIZE \<Longrightarrow> sect_no x = unat x"
  by (simp add: sect_no_def unat_word_ariths(2))

lemma mk_ops [simp]:
  "take_block s = Ret (mk_freeblock s) (s\<lparr>mk_freeblock := mk_freeblock s + 1\<rparr>)"
  "unat x < length (mk_img s) \<Longrightarrow> length (mk_img s) = FSSIZE \<Longrightarrow> rsect x s = Ret (sect (mk_img s) x) s"
  "unat x < length (mk_img s) \<Longrightarrow> length (mk_img s) = FSSIZE \<Longrightarrow> wsect x v s = Ret () (s\<lparr>mk_img := (mk_img s)[unat x := v]\<rparr>)"
  by (simp_all add: take_block_def getk_def putk_def rsect_def wsect_def set_sect_def sect_def sect_no_small kM_simps)

lemma map_ok_extend:
  assumes "sz \<le> MAXFILE * BSIZE" "nblk sz = q + 1" "\<And>i. i < q \<Longrightarrow> blk_addr D a i = A i" "blk_addr D a q = v"
    and "\<And>i. i < q \<Longrightarrow> nmeta \<le> unat (A i) \<and> unat (A i) < unat v" "inj_on A {..<q}" "nmeta \<le> unat v" "unat v < fb"
    and "NDIRECT \<le> q \<Longrightarrow> nmeta \<le> unat (a NDIRECT) \<and> unat (a NDIRECT) < fb \<and> a NDIRECT \<noteq> v \<and> a NDIRECT \<notin> A ` {..<q}"
    and "\<And>i. NDIRECT \<le> q \<Longrightarrow> q < i \<Longrightarrow> i < MAXFILE \<Longrightarrow> blk_addr D a i = 0"
    and "q < NDIRECT \<Longrightarrow> a NDIRECT = 0" "\<And>i. q < i \<Longrightarrow> i < NDIRECT \<Longrightarrow> a i = 0"
  shows "map_ok D fb a sz"
proof -
  have im: "blk_addr D a ` {..<nblk sz} = insert v (A ` {..<q})"
    using assms(2,3,4) by (auto simp: lessThan_Suc image_iff)
  have "inj_on (blk_addr D a) {..<q}" using assms(3,6) by (auto simp: inj_on_def)
  moreover have "v \<notin> blk_addr D a ` {..<q}" using assms(3,5) by fastforce
  ultimately have inj: "inj_on (blk_addr D a) {..<nblk sz}" using assms(2,4) by (simp add: lessThan_Suc)
  have ow: "\<forall>b \<in> owned D a sz. nmeta \<le> unat b \<and> unat b < fb"
    using assms(2,5,7-9) unfolding owned_def im by (fastforce split: if_splits)
  show ?thesis unfolding map_ok_def using assms(1,2,9-12) ow inj im by auto
qed

lemma ind_update:
  assumes "length (D (a NDIRECT)) = BSIZE" "NDIRECT \<le> q" "q < MAXFILE" "NDIRECT \<le> i" "i < MAXFILE"
  shows "blk_addr (D(a NDIRECT := put32 (D (a NDIRECT)) (4 * (q - NDIRECT)) v)) a i = (if i = q then v else blk_addr D a i)"
proof (cases "i = q")
  case False
  then have "4 * (i - NDIRECT) + 4 \<le> 4 * (q - NDIRECT) \<or> 4 * (q - NDIRECT) + 4 \<le> 4 * (i - NDIRECT)"
    using assms(2,4) by linarith
  then show ?thesis
    using False assms get32_put32_other[of "4 * (q - NDIRECT)" "D (a NDIRECT)" "4 * (i - NDIRECT)" v] by (simp add: blk_addr_def)
qed (use assms in \<open>simp add: blk_addr_def\<close>)

text \<open>What \<open>iappend_block\<close> leaves: room for one more byte, in block \<open>x\<close>; only the indirect block may have changed.\<close>

definition grown :: "mkfs \<Rightarrow> dinode \<Rightarrow> nat \<Rightarrow> mkfs \<Rightarrow> dinode \<Rightarrow> uint \<Rightarrow> bool" where
  "grown s d off s1 d1 x \<longleftrightarrow>
     (let D = sect (mk_img s); D1 = sect (mk_img s1); a = di_addrs d; a1 = di_addrs d1; fb1 = unat (mk_freeblock s1) in
      mk_freeinode s1 = mk_freeinode s \<and> d1 = d\<lparr>di_addrs := a1\<rparr> \<and>
      fb1 + tblk off = unat (mk_freeblock s) + tblk (off + 1) \<and> img_ok (mk_img s1) fb1 \<and> map_ok D1 fb1 a1 (off + 1) \<and>
      x = blk_addr D1 a1 (off div BSIZE) \<and> (\<forall>i < nblk off. blk_addr D1 a1 i = blk_addr D a i) \<and>
      (NDIRECT < nblk off \<longrightarrow> a1 NDIRECT = a NDIRECT) \<and>
      (\<forall>b \<in> owned D1 a1 (off + 1). b \<in> owned D a off \<or> unat (mk_freeblock s) \<le> unat b) \<and>
      (\<forall>b. \<not> (NDIRECT < nblk (off + 1) \<and> b = a1 NDIRECT) \<longrightarrow> D1 b = D b))"

lemma owned_direct: "nblk sz \<le> NDIRECT \<Longrightarrow> owned D a sz = a ` {..<nblk sz}"
  by (auto simp: owned_def blk_addr_def)

lemma iappend_block_old:
  assumes m: "map_ok (sect (mk_img s)) (unat (mk_freeblock s)) (di_addrs d) off"
    and im: "img_ok (mk_img s) (unat (mk_freeblock s))" and off: "off mod BSIZE \<noteq> 0" "off < MAXFILE * BSIZE"
  shows "\<exists>s1 d1 x. iappend_block d (off div BSIZE) s = Ret (d1, x) s1 \<and> grown s d off s1 d1 x"
proof -
  let ?D = "sect (mk_img s)" and ?a = "di_addrs d" and ?q = "off div BSIZE"
  have nb: "nblk off = ?q + 1" "nblk (off + 1) = ?q + 1" using nblk_cases[of off] nblk_step[of 1 off] off(1)
      mod_less_divisor[of BSIZE off] by auto
  have q: "blk_addr ?D ?a ?q \<in> owned ?D ?a off" using nb by (auto simp: owned_def)
  then have nz: "blk_addr ?D ?a ?q \<noteq> 0" using m by (auto simp: map_ok_def mk_consts)
  have i: "?a NDIRECT \<noteq> 0 \<and> unat (?a NDIRECT) < length (mk_img s)" if "\<not> ?q < NDIRECT"
  proof -
    have "?a NDIRECT \<in> owned ?D ?a off" using that nb by (auto simp: owned_def)
    then show ?thesis using m im by (auto simp: map_ok_def img_ok_def mk_consts)
  qed
  have "iappend_block d ?q s = Ret (d, blk_addr ?D ?a ?q) s"
    using nz i im by (auto simp: iappend_block_def daddr_or_take_def blk_addr_def kM_simps img_ok_def)
  moreover have "map_ok ?D (unat (mk_freeblock s)) ?a (off + 1)" using map_ok_sizes[OF m] nb off(2) by simp
  moreover have "owned ?D ?a (off + 1) = owned ?D ?a off" "tblk (off + 1) = tblk off" using nb by (simp_all add: owned_def tblk_def)
  ultimately show ?thesis using im by (auto simp: grown_def Let_def)
qed

lemma iappend_block_direct:
  assumes m: "map_ok (sect (mk_img s)) (unat (mk_freeblock s)) (di_addrs d) off"
    and im: "img_ok (mk_img s) (unat (mk_freeblock s))" and off: "off mod BSIZE = 0" "off div BSIZE < NDIRECT"
    and room: "unat (mk_freeblock s) + tblk (off + 1) \<le> FSSIZE + tblk off"
  shows "\<exists>s1 d1 x. iappend_block d (off div BSIZE) s = Ret (d1, x) s1 \<and> grown s d off s1 d1 x"
proof -
  let ?D = "sect (mk_img s)" and ?a = "di_addrs d" and ?q = "off div BSIZE" and ?b = "mk_freeblock s"
  let ?a1 = "?a(?q := ?b)" and ?s1 = "s\<lparr>mk_freeblock := ?b + 1\<rparr>"
  have nb: "nblk off = ?q" "nblk (off + 1) = ?q + 1" using nblk_cases[of off] nblk_step[of 1 off] off(1) by auto
  have t: "tblk off = ?q" "tblk (off + 1) = ?q + 1" using nb off(2) by (simp_all add: tblk_def)
  then have fb: "unat (?b + 1) = unat ?b + 1" "unat ?b < FSSIZE" using room by (simp_all add: unat_word_ariths(1))
  have M: "\<And>i. i < ?q \<Longrightarrow> nmeta \<le> unat (?a i) \<and> unat (?a i) < unat ?b" "inj_on ?a {..<?q}" "?a ?q = 0" "?a NDIRECT = 0"
    "\<And>i. ?q \<le> i \<Longrightarrow> i < NDIRECT \<Longrightarrow> ?a i = 0"
  proof -
    show "\<And>i. i < ?q \<Longrightarrow> nmeta \<le> unat (?a i) \<and> unat (?a i) < unat ?b"
      using m nb(1) owned_direct[of off ?D ?a] off(2) by (auto simp: map_ok_def)
    have "inj_on (blk_addr ?D ?a) {..<?q}" using m nb(1) by (simp add: map_ok_def)
    then show "inj_on ?a {..<?q}" using off(2) by (auto simp: inj_on_def blk_addr_def)
    show "?a ?q = 0" "?a NDIRECT = 0" "\<And>i. ?q \<le> i \<Longrightarrow> i < NDIRECT \<Longrightarrow> ?a i = 0"
      using m nb(1) off(2) by (auto simp: map_ok_def)
  qed
  have "off + 1 \<le> MAXFILE * BSIZE" using off mult_div_mod_eq[of BSIZE off] by linarith
  then have map: "map_ok ?D (unat ?b + 1) ?a1 (off + 1)"
    using nb(2) M off(2) im by (intro map_ok_extend[where A = ?a and v = ?b and q = ?q]) (auto simp: blk_addr_def img_ok_def)
  have "iappend_block d ?q s = Ret (set_daddr ?q ?b d, ?b) ?s1"
    using off(2) M(3) by (simp add: iappend_block_def daddr_or_take_def set_daddr_def kM_simps)
  moreover have "grown s d off ?s1 (set_daddr ?q ?b d) ?b"
    using map fb t im nb off(2) owned_direct[of off ?D ?a] owned_direct[of "off + 1" ?D ?a1]
    by (auto simp: grown_def Let_def set_daddr_def blk_addr_def img_ok_def lessThan_Suc)
  ultimately show ?thesis by blast
qed

text \<open>The indirect block is there, at \<open>e\<close>, and gets an entry for the new block.\<close>

lemma iappend_indirect_map:
  assumes im: "img_ok img fb" and off: "off mod BSIZE = 0" "NDIRECT \<le> off div BSIZE" "off < MAXFILE * BSIZE"
    and b: "unat b = fb" "fb < FSSIZE"
    and A: "\<And>i. i < off div BSIZE \<Longrightarrow> nmeta \<le> unat (blk_addr (sect img) a i) \<and> unat (blk_addr (sect img) a i) < fb"
      "inj_on (blk_addr (sect img) a) {..<off div BSIZE}"
    and e: "nmeta \<le> unat (a NDIRECT)" "unat (a NDIRECT) < fb" "a NDIRECT \<notin> blk_addr (sect img) a ` {..<off div BSIZE}"
    and z: "\<And>i. off div BSIZE \<le> i \<Longrightarrow> i < MAXFILE \<Longrightarrow> blk_addr (sect img) a i = 0"
    and img1: "img1 = img[unat (a NDIRECT) := put32 (sect img (a NDIRECT)) (4 * (off div BSIZE - NDIRECT)) b]"
  shows "map_ok (sect img1) (fb + 1) a (off + 1)" "img_ok img1 (fb + 1)" "blk_addr (sect img1) a (off div BSIZE) = b"
    "\<And>i. i < off div BSIZE \<Longrightarrow> blk_addr (sect img1) a i = blk_addr (sect img) a i"
    "\<And>c. c \<noteq> a NDIRECT \<Longrightarrow> sect img1 c = sect img c"
proof -
  let ?q = "off div BSIZE" and ?D = "sect img" and ?D1 = "sect img1"
  have q: "?q < MAXFILE" using off(3) by (simp add: div_less_iff_less_mult)
  have "unat (a NDIRECT) < length img" using e(2) b(2) im by (simp add: img_ok_def)
  note D1 = sect_update[OF this, of "put32 (sect img (a NDIRECT)) (4 * (?q - NDIRECT)) b", folded img1]
  have len: "length (?D (a NDIRECT)) = BSIZE" using e(2) b(2) im by (simp add: img_ok_def sect_def)
  have A1: "blk_addr ?D1 a i = (if i = ?q then b else blk_addr ?D a i)" if "i < MAXFILE" for i
  proof (cases "i < NDIRECT")
    case False
    then show ?thesis using ind_update[where D = ?D and a = a and q = ?q and i = i and v = b] len off(2) q that D1 by simp
  qed (use off(2) in \<open>simp add: blk_addr_def\<close>)
  show "blk_addr ?D1 a ?q = b" and same: "\<And>i. i < ?q \<Longrightarrow> blk_addr ?D1 a i = blk_addr ?D a i" using A1 q by simp_all
  show "\<And>c. c \<noteq> a NDIRECT \<Longrightarrow> ?D1 c = ?D c" by (simp add: D1)
  have "nblk (off + 1) = ?q + 1" using nblk_step[of 1 off] off(1) by simp
  then show "map_ok ?D1 (fb + 1) a (off + 1)"
    using A A1 q off e z b im
    by (intro map_ok_extend[where A = "blk_addr ?D a" and v = b and q = ?q]) (auto simp: img_ok_def)
  have "length (put32 (?D (a NDIRECT)) (4 * (?q - NDIRECT)) b) = BSIZE" using len q by simp
  then show "img_ok img1 (fb + 1)"
    using im e(1,2) b(2) by (auto simp: img_ok_def img1 nth_list_update sect_def)
qed

lemma iappend_block_indirect:
  assumes m: "map_ok (sect (mk_img s)) (unat (mk_freeblock s)) (di_addrs d) off"
    and im: "img_ok (mk_img s) (unat (mk_freeblock s))"
    and off: "off mod BSIZE = 0" "NDIRECT < off div BSIZE" "off < MAXFILE * BSIZE"
    and room: "unat (mk_freeblock s) + tblk (off + 1) \<le> FSSIZE + tblk off"
  shows "\<exists>s1 d1 x. iappend_block d (off div BSIZE) s = Ret (d1, x) s1 \<and> grown s d off s1 d1 x"
proof -
  let ?D = "sect (mk_img s)" and ?a = "di_addrs d" and ?q = "off div BSIZE" and ?b = "mk_freeblock s"
  let ?img1 = "(mk_img s)[unat (?a NDIRECT) := put32 (?D (?a NDIRECT)) (4 * (?q - NDIRECT)) ?b]"
  let ?s1 = "s\<lparr>mk_freeblock := ?b + 1, mk_img := ?img1\<rparr>"
  have nb: "nblk off = ?q" "nblk (off + 1) = ?q + 1" using nblk_cases[of off] nblk_step[of 1 off] off(1) by auto
  have t: "tblk off = ?q + 1" "tblk (off + 1) = ?q + 2" using nb off(2) by (simp_all add: tblk_def)
  then have fb: "unat (?b + 1) = unat ?b + 1" "unat ?b < FSSIZE" using room by (simp_all add: unat_word_ariths(1))
  have M: "\<And>i. i < ?q \<Longrightarrow> nmeta \<le> unat (blk_addr ?D ?a i) \<and> unat (blk_addr ?D ?a i) < unat ?b"
    "inj_on (blk_addr ?D ?a) {..<?q}" "nmeta \<le> unat (?a NDIRECT)" "unat (?a NDIRECT) < unat ?b"
    "?a NDIRECT \<notin> blk_addr ?D ?a ` {..<?q}" "\<And>i. ?q \<le> i \<Longrightarrow> i < MAXFILE \<Longrightarrow> blk_addr ?D ?a i = 0"
    using m nb off(2) by (auto simp: map_ok_def owned_def)
  have q2: "NDIRECT \<le> ?q" "?q < MAXFILE" using off(2,3) by (simp_all add: div_less_iff_less_mult)
  note R = iappend_indirect_map[OF im off(1) q2(1) off(3) refl fb(2) M refl]
  have "get32 (?D (?a NDIRECT)) (4 * (?q - NDIRECT)) = 0" using M(6)[of ?q] q2 by (simp add: blk_addr_def)
  moreover have "?a NDIRECT \<noteq> 0" "unat (?a NDIRECT) < length (mk_img s)" using M(3,4) fb(2) im by (auto simp: mk_consts img_ok_def)
  ultimately have "iappend_block d ?q s = Ret (d, ?b) ?s1"
    using off(2) im by (simp add: iappend_block_def daddr_or_take_def kM_simps img_ok_def)
  moreover have "grown s d off ?s1 d ?b"
  proof -
    have "owned (sect ?img1) ?a (off + 1) = insert ?b (owned ?D ?a off)"
      using nb off(2) R(3,4) by (auto simp: owned_def lessThan_Suc)
    then show ?thesis using R fb(1) t nb off(2) by (simp add: grown_def Let_def)
  qed
  ultimately show ?thesis by blast
qed

lemma get32_zero: "i + 4 \<le> n \<Longrightarrow> get32 (replicate n 0) i = 0"
  by (simp add: get32_def of_le32_def)

lemma iappend_block_first:
  assumes m: "map_ok (sect (mk_img s)) (unat (mk_freeblock s)) (di_addrs d) off"
    and im: "img_ok (mk_img s) (unat (mk_freeblock s))" and off: "off mod BSIZE = 0" "off div BSIZE = NDIRECT"
    and room: "unat (mk_freeblock s) + tblk (off + 1) \<le> FSSIZE + tblk off"
  shows "\<exists>s1 d1 x. iappend_block d (off div BSIZE) s = Ret (d1, x) s1 \<and> grown s d off s1 d1 x"
proof -
  let ?D = "sect (mk_img s)" and ?a = "di_addrs d" and ?e = "mk_freeblock s" and ?b = "mk_freeblock s + 1"
  let ?d1 = "set_daddr NDIRECT ?e d" and ?a1 = "(di_addrs d)(NDIRECT := mk_freeblock s)"
  let ?img1 = "(mk_img s)[unat (?a1 NDIRECT) := put32 (?D (?a1 NDIRECT)) (4 * (off div BSIZE - NDIRECT)) ?b]"
  let ?s1 = "s\<lparr>mk_freeblock := ?b + 1, mk_img := ?img1\<rparr>"
  have nb: "nblk off = NDIRECT" "nblk (off + 1) = NDIRECT + 1" using nblk_cases[of off] nblk_step[of 1 off] off by auto
  have t: "tblk off = NDIRECT" "tblk (off + 1) = NDIRECT + 2" using nb by (simp_all add: tblk_def)
  then have fb: "unat ?b = unat ?e + 1" "unat ?e + 1 < FSSIZE" using room by (simp_all add: unat_word_ariths(1))
  then have fb1: "unat (?b + 1) = unat ?e + 2" by (simp add: unat_word_ariths(1))
  have d: "?a1 i = ?a i" "blk_addr ?D ?a1 i = ?a i" if "i < NDIRECT" for i using that by (simp_all add: blk_addr_def)
  have M: "\<And>i. i < NDIRECT \<Longrightarrow> nmeta \<le> unat (?a i) \<and> unat (?a i) < unat ?e" "inj_on ?a {..<NDIRECT}" "?a NDIRECT = 0"
  proof -
    have "inj_on (blk_addr ?D ?a) {..<NDIRECT}" using m nb(1) by (simp add: map_ok_def)
    then show "inj_on ?a {..<NDIRECT}" by (auto simp: inj_on_def blk_addr_def)
    show "\<And>i. i < NDIRECT \<Longrightarrow> nmeta \<le> unat (?a i) \<and> unat (?a i) < unat ?e" "?a NDIRECT = 0"
      using m nb(1) owned_direct[of off ?D ?a] by (auto simp: map_ok_def)
  qed
  have z: "?D ?e = replicate BSIZE 0" using im fb(2) by (simp add: img_ok_def sect_def)
  have H: "img_ok (mk_img s) (unat ?e + 1)" "NDIRECT \<le> off div BSIZE" "off < MAXFILE * BSIZE"
    "\<And>i. i < off div BSIZE \<Longrightarrow> nmeta \<le> unat (blk_addr ?D ?a1 i) \<and> unat (blk_addr ?D ?a1 i) < unat ?e + 1"
    "inj_on (blk_addr ?D ?a1) {..<off div BSIZE}" "nmeta \<le> unat (?a1 NDIRECT)" "unat (?a1 NDIRECT) < unat ?e + 1"
    "?a1 NDIRECT \<notin> blk_addr ?D ?a1 ` {..<off div BSIZE}"
    "\<And>i. off div BSIZE \<le> i \<Longrightarrow> i < MAXFILE \<Longrightarrow> blk_addr ?D ?a1 i = 0"
  proof -
    show "img_ok (mk_img s) (unat ?e + 1)" "nmeta \<le> unat (?a1 NDIRECT)" using im fb(2) by (simp_all add: img_ok_def)
    show "off < MAXFILE * BSIZE" using off mult_div_mod_eq[of BSIZE off] by linarith
    show "nmeta \<le> unat (blk_addr ?D ?a1 i) \<and> unat (blk_addr ?D ?a1 i) < unat ?e + 1" if "i < off div BSIZE" for i
      using M(1)[of i] d(2)[of i] that off(2) by simp
    show "inj_on (blk_addr ?D ?a1) {..<off div BSIZE}" using M(2) unfolding off(2) by (auto simp: inj_on_def d)
    show "?a1 NDIRECT \<notin> blk_addr ?D ?a1 ` {..<off div BSIZE}" using M(1) d unfolding off(2) by fastforce
    show "blk_addr ?D ?a1 i = 0" if "off div BSIZE \<le> i" "i < MAXFILE" for i
      using that z off(2) by (simp add: blk_addr_def get32_zero)
  qed (use off in simp_all)
  note R = iappend_indirect_map[OF H(1) off(1) H(2,3) fb H(4-9) refl]
  have "iappend_block d (off div BSIZE) s = Ret (?d1, ?b) ?s1"
    using off M(3) z fb im by (simp add: iappend_block_def daddr_or_take_def set_daddr_def kM_simps get32_zero img_ok_def)
  moreover have "grown s d off ?s1 ?d1 ?b"
  proof -
    have "owned (sect ?img1) ?a1 (off + 1) = insert ?b (insert ?e (owned ?D ?a off))"
    proof -
      have "{..<nblk (off + 1)} = insert NDIRECT {..<NDIRECT}" using nb(2) by auto
      moreover have "blk_addr (sect ?img1) ?a1 ` {..<NDIRECT} = ?a ` {..<NDIRECT}"
        using R(4) d off(2) by (intro image_cong) simp_all
      ultimately show ?thesis using nb R(3) off(2) owned_direct[of off ?D ?a] by (auto simp: owned_def)
    qed
    then show ?thesis using R fb fb1 t nb off d
      by (auto simp: grown_def Let_def set_daddr_def blk_addr_def)
  qed
  ultimately show ?thesis by blast
qed

lemma iappend_block_ok:
  assumes "map_ok (sect (mk_img s)) (unat (mk_freeblock s)) (di_addrs d) off" "img_ok (mk_img s) (unat (mk_freeblock s))"
    "off < MAXFILE * BSIZE" "unat (mk_freeblock s) + tblk (off + 1) \<le> FSSIZE + tblk off"
  shows "\<exists>s1 d1 x. iappend_block d (off div BSIZE) s = Ret (d1, x) s1 \<and> grown s d off s1 d1 x"
  using iappend_block_old[OF assms(1,2) _ assms(3)] iappend_block_direct[OF assms(1,2) _ _ assms(4)]
    iappend_block_first[OF assms(1,2) _ _ assms(4)] iappend_block_indirect[OF assms(1,2) _ _ assms(3,4)]
  by (cases "off mod BSIZE = 0"; cases "off div BSIZE" NDIRECT rule: linorder_cases) auto

text \<open>What appending the bytes \<open>p\<close> to a file of \<open>off\<close> bytes leaves.\<close>

definition appended :: "mkfs \<Rightarrow> dinode \<Rightarrow> nat \<Rightarrow> byte list \<Rightarrow> mkfs \<Rightarrow> dinode \<Rightarrow> bool" where
  "appended s d off p s' d' \<longleftrightarrow>
     (let D = sect (mk_img s); D' = sect (mk_img s'); a = di_addrs d; a' = di_addrs d'; fb' = unat (mk_freeblock s');
          sz = off + length p in
      mk_freeinode s' = mk_freeinode s \<and> d' = d\<lparr>di_addrs := a'\<rparr> \<and> fb' + tblk off = unat (mk_freeblock s) + tblk sz \<and>
      img_ok (mk_img s') fb' \<and> map_ok D' fb' a' sz \<and> file_bytes D' a' sz = file_bytes D a off @ p \<and>
      owned D a off \<subseteq> owned D' a' sz \<and> (\<forall>b \<in> owned D' a' sz. b \<in> owned D a off \<or> unat (mk_freeblock s) \<le> unat b) \<and>
      (\<forall>b. b \<notin> owned D' a' sz \<longrightarrow> D' b = D b))"

lemma tblk_mono: "m \<le> n \<Longrightarrow> tblk m \<le> tblk n"
proof -
  assume "m \<le> n"
  then have "nblk m \<le> nblk n" by (simp add: nblk_def div_le_mono)
  then show ?thesis by (simp add: tblk_def)
qed

lemma tblk_nblk: "nblk m = nblk n \<Longrightarrow> tblk m = tblk n"
  by (simp add: tblk_def)

lemma file_bytes_append:
  "file_bytes D' a' (off + length ws) = file_bytes D a off @ ws"
  if "\<And>i. i < off \<Longrightarrow> file_byte D' a' i = file_byte D a i" "\<And>j. j < length ws \<Longrightarrow> file_byte D' a' (off + j) = ws ! j"
proof (rule nth_equalityI)
  fix i assume "i < length (file_bytes D' a' (off + length ws))"
  then have i: "i < off + length ws" by (simp add: file_bytes_def)
  show "file_bytes D' a' (off + length ws) ! i = (file_bytes D a off @ ws) ! i"
  proof (cases "i < off")
    case False
    then show ?thesis using that(2)[of "i - off"] i by (simp add: file_bytes_def nth_append)
  qed (use that(1) in \<open>simp add: file_bytes_def nth_append\<close>)
qed (simp add: file_bytes_def)

lemma grownD:
  assumes g: "grown s d off s1 d1 x" and ws: "0 < n" "off mod BSIZE + n \<le> BSIZE"
  defines "D1 \<equiv> sect (mk_img s1)" and "a1 \<equiv> di_addrs d1" and "fb1 \<equiv> unat (mk_freeblock s1)" and "q \<equiv> off div BSIZE"
  shows "img_ok (mk_img s1) fb1" "map_ok D1 fb1 a1 (off + 1)" "x = blk_addr D1 a1 q"
    "i < nblk off \<Longrightarrow> blk_addr D1 a1 i = blk_addr (sect (mk_img s)) (di_addrs d) i"
    "NDIRECT < nblk off \<longrightarrow> a1 NDIRECT = di_addrs d NDIRECT"
    "\<not> (NDIRECT < nblk (off + 1) \<and> b = a1 NDIRECT) \<Longrightarrow> D1 b = sect (mk_img s) b"
    "nblk (off + 1) = q + 1" "nblk (off + n) = q + 1" "nblk off \<le> q + 1"
    "x \<in> owned D1 a1 (off + 1)" "NDIRECT < q + 1 \<Longrightarrow> x \<noteq> a1 NDIRECT" "unat x < length (mk_img s1)" "length (mk_img s1) = FSSIZE"
    "length (D1 x) = BSIZE" "inj_on (blk_addr D1 a1) {..<q + 1}"
proof -
  show G: "img_ok (mk_img s1) fb1" "map_ok D1 fb1 a1 (off + 1)" "x = blk_addr D1 a1 q"
    "i < nblk off \<Longrightarrow> blk_addr D1 a1 i = blk_addr (sect (mk_img s)) (di_addrs d) i"
    "NDIRECT < nblk off \<longrightarrow> a1 NDIRECT = di_addrs d NDIRECT"
    "\<not> (NDIRECT < nblk (off + 1) \<and> b = a1 NDIRECT) \<Longrightarrow> D1 b = sect (mk_img s) b"
    using g by (simp_all add: grown_def Let_def D1_def a1_def fb1_def q_def)
  show nb: "nblk (off + 1) = q + 1" "nblk (off + n) = q + 1" "nblk off \<le> q + 1"
    using nblk_step[of 1 off] nblk_step[of n off] ws nblk_cases[of off] by (simp_all add: q_def)
  have "x \<in> blk_addr D1 a1 ` {..<nblk (off + 1)}" unfolding G(3) nb by (rule imageI) simp
  then show x: "x \<in> owned D1 a1 (off + 1)" "NDIRECT < q + 1 \<Longrightarrow> x \<noteq> a1 NDIRECT"
    using G(2) nb(1) unfolding map_ok_def owned_def by (blast, metis)
  show len: "unat x < length (mk_img s1)" "length (mk_img s1) = FSSIZE" using x(1) G(1,2) by (auto simp: map_ok_def img_ok_def)
  then show "length (D1 x) = BSIZE" using G(1) by (simp add: img_ok_def sect_def D1_def)
  show "inj_on (blk_addr D1 a1) {..<q + 1}" using G(2) nb by (simp add: map_ok_def)
qed

text \<open>Writing into the block \<open>x\<close> leaves the block map of the file alone.\<close>

lemma grown_map:
  assumes g: "grown s d off s1 d1 x" and ws: "0 < n" "off mod BSIZE + n \<le> BSIZE" and sz: "off + n \<le> MAXFILE * BSIZE"
    and D2: "D2 = (sect (mk_img s1))(x := v)"
  shows "i < off div BSIZE + 1 \<Longrightarrow> blk_addr D2 (di_addrs d1) i = blk_addr (sect (mk_img s1)) (di_addrs d1) i"
    "owned D2 (di_addrs d1) (off + n) = owned (sect (mk_img s1)) (di_addrs d1) (off + 1)"
    "map_ok D2 (unat (mk_freeblock s1)) (di_addrs d1) (off + n)"
proof -
  let ?D1 = "sect (mk_img s1)" and ?a1 = "di_addrs d1" and ?q = "off div BSIZE"
  note G = grownD[OF g ws]
  have A2: "blk_addr D2 ?a1 i = blk_addr ?D1 ?a1 i" if "i < NDIRECT \<or> NDIRECT < ?q + 1" for i
    unfolding D2 using G(11) that by (intro blk_addr_other) auto
  show A2q: "i < ?q + 1 \<Longrightarrow> blk_addr D2 ?a1 i = blk_addr ?D1 ?a1 i" for i by (rule A2) linarith
  then have im2: "blk_addr D2 ?a1 ` {..<?q + 1} = blk_addr ?D1 ?a1 ` {..<?q + 1}" by (intro image_cong) simp_all
  then show o2: "owned D2 ?a1 (off + n) = owned ?D1 ?a1 (off + 1)" unfolding owned_def G(7,8) by simp
  have "inj_on (blk_addr D2 ?a1) {..<?q + 1}" using G(15) A2q by (subst inj_on_cong[of _ _ "blk_addr ?D1 ?a1"]) simp_all
  then show "map_ok D2 (unat (mk_freeblock s1)) ?a1 (off + n)"
    using G(2) sz A2 unfolding map_ok_def G(7,8) o2 im2 by auto
qed

text \<open>The bytes before \<open>off\<close> stay, and the new ones follow them.\<close>

lemma grown_bytes:
  assumes g: "grown s d off s1 d1 x" and ws: "0 < length ws" "off mod BSIZE + length ws \<le> BSIZE"
    and sz: "off + length ws \<le> MAXFILE * BSIZE"
    and D2: "D2 = (sect (mk_img s1))(x := splice (sect (mk_img s1) x) (off mod BSIZE) ws)"
  shows "file_bytes D2 (di_addrs d1) (off + length ws) = file_bytes (sect (mk_img s)) (di_addrs d) off @ ws"
proof (rule file_bytes_append)
  let ?D = "sect (mk_img s)" and ?D1 = "sect (mk_img s1)" and ?q = "off div BSIZE" and ?a = "di_addrs d" and ?a1 = "di_addrs d1"
  note G = grownD[OF g ws] and M = grown_map[OF g ws sz D2]
  show "file_byte D2 ?a1 i = file_byte ?D ?a i" if i: "i < off" for i
  proof -
    let ?b = "blk_addr ?D ?a (i div BSIZE)"
    have ib: "i div BSIZE < nblk off" using i by (simp add: nblk_def div_less_iff_less_mult)
    have e: "blk_addr D2 ?a1 (i div BSIZE) = ?b" "blk_addr ?D1 ?a1 (i div BSIZE) = ?b"
      using M(1)[of "i div BSIZE"] G(4)[OF ib] ib G(9) by simp_all
    have "?b \<in> blk_addr ?D1 ?a1 ` {..<nblk (off + 1)}" using e(2) ib G(7,9) by (intro image_eqI[of _ _ "i div BSIZE"]) simp_all
    then have nd: "?D1 ?b = ?D ?b" using G(2) unfolding map_ok_def by (intro G(6)) metis
    show ?thesis
    proof (cases "i div BSIZE = ?q")
      case True
      then have "?b = x" "i mod BSIZE < off mod BSIZE"
        using e(2) G(3) i mult_div_mod_eq[of BSIZE i] mult_div_mod_eq[of BSIZE off] by (simp, linarith)
      then show ?thesis using nd G(14) ws(2) e(1) by (simp add: file_byte_def D2 nth_splice)
    next
      case False
      then have "?b \<noteq> x" using G(15) e(2) G(3) ib G(9) by (auto simp: inj_on_def)
      then show ?thesis using nd e(1) by (simp add: file_byte_def D2)
    qed
  qed
  show "file_byte D2 ?a1 (off + j) = ws ! j" if j: "j < length ws" for j
  proof -
    have "(off + j) div BSIZE = ?q" "(off + j) mod BSIZE = off mod BSIZE + j"
      using div_mod_add[of "off mod BSIZE + j" BSIZE ?q] j ws(2) by (simp_all add: add.assoc[symmetric])
    then show ?thesis using M(1)[of ?q] G(3,14) j ws(2) by (simp add: file_byte_def D2 nth_splice)
  qed
qed

lemma grown_write:
  assumes g: "grown s d off s1 d1 x" and ws: "0 < length ws" "off mod BSIZE + length ws \<le> BSIZE"
    and sz: "off + length ws \<le> MAXFILE * BSIZE"
    and s2: "s2 = s1\<lparr>mk_img := (mk_img s1)[unat x := splice (sect (mk_img s1) x) (off mod BSIZE) ws]\<rparr>"
  shows "appended s d off ws s2 d1" "unat x < length (mk_img s1)" "length (mk_img s1) = FSSIZE"
proof -
  let ?D = "sect (mk_img s)" and ?D1 = "sect (mk_img s1)" and ?D2 = "sect (mk_img s2)"
  let ?a = "di_addrs d" and ?a1 = "di_addrs d1"
  note G = grownD[OF g ws]
  show "unat x < length (mk_img s1)" "length (mk_img s1) = FSSIZE" by (rule G(12,13))+
  have D2: "?D2 = ?D1(x := splice (?D1 x) (off mod BSIZE) ws)" using sect_update[OF G(12)] by (simp add: s2)
  note M = grown_map[OF g ws sz D2]
  have i2: "img_ok (mk_img s2) (unat (mk_freeblock s1))"
    using G(1,2,10,14) ws(2) by (auto simp: img_ok_def map_ok_def s2 nth_list_update)
  have same: "?D2 b = ?D b" if "b \<notin> owned ?D1 ?a1 (off + 1)" for b
  proof -
    have "b \<noteq> x" using that G(10) by blast
    moreover have "\<not> (NDIRECT < nblk (off + 1) \<and> b = ?a1 NDIRECT)" using that by (auto simp: owned_def)
    ultimately show ?thesis using G(6)[of b] by (simp add: D2)
  qed
  have sub: "owned ?D ?a off \<subseteq> owned ?D1 ?a1 (off + 1)"
  proof -
    have "blk_addr ?D ?a ` {..<nblk off} = blk_addr ?D1 ?a1 ` {..<nblk off}" by (intro image_cong) (simp_all add: G(4))
    also have "\<dots> \<subseteq> blk_addr ?D1 ?a1 ` {..<nblk (off + 1)}" using G(7,9) by (intro image_mono) auto
    finally show ?thesis using G(5,7,9) by (auto simp: owned_def)
  qed
  have t: "tblk (off + length ws) = tblk (off + 1)" using G(7,8) by (intro tblk_nblk) simp
  show "appended s d off ws s2 d1"
    using g M(3) i2 grown_bytes[OF g ws sz D2] same sub unfolding appended_def grown_def Let_def M(2) t by (simp add: s2)
qed

lemma appended_trans:
  assumes 1: "appended s d off p s1 d1" and 2: "appended s1 d1 (off + length p) p' s2 d2"
  shows "appended s d off (p @ p') s2 d2"
proof -
  let ?D = "sect (mk_img s)" and ?D1 = "sect (mk_img s1)" and ?D2 = "sect (mk_img s2)"
  let ?o1 = "owned ?D1 (di_addrs d1) (off + length p)" and ?o2 = "owned ?D2 (di_addrs d2) (off + length p + length p')"
  have h: "off + length (p @ p') = off + length p + length p'" by simp
  have fb: "unat (mk_freeblock s) \<le> unat (mk_freeblock s1)"
    using 1 tblk_mono[of off "off + length p"] by (simp add: appended_def Let_def)
  have "\<forall>b \<in> ?o2. b \<in> ?o1 \<or> unat (mk_freeblock s1) \<le> unat b" "\<forall>b \<in> ?o1. b \<in> owned ?D (di_addrs d) off \<or> unat (mk_freeblock s) \<le> unat b"
    using 1 2 by (simp_all add: appended_def Let_def)
  then have o: "\<forall>b \<in> ?o2. b \<in> owned ?D (di_addrs d) off \<or> unat (mk_freeblock s) \<le> unat b" using fb by (meson order_trans)
  have "\<forall>b. b \<notin> ?o2 \<longrightarrow> ?D2 b = ?D1 b" "\<forall>b. b \<notin> ?o1 \<longrightarrow> ?D1 b = ?D b" "owned ?D (di_addrs d) off \<subseteq> ?o1" "?o1 \<subseteq> ?o2"
    using 1 2 by (simp_all add: appended_def Let_def)
  then have same: "\<forall>b. b \<notin> ?o2 \<longrightarrow> ?D2 b = ?D b" and sub: "owned ?D (di_addrs d) off \<subseteq> ?o2" by auto
  have "d2 = d\<lparr>di_addrs := di_addrs d2\<rparr>"
    using 1 2 unfolding appended_def Let_def by (metis dinode.unfold_congs(6) dinode.update_convs(6) dinode.surjective)
  then show ?thesis unfolding appended_def Let_def h using 1 2 o same sub by (simp add: appended_def Let_def)
qed

lemma iappend_loop_ok:
  "map_ok (sect (mk_img s)) (unat (mk_freeblock s)) (di_addrs d) (unat off) \<Longrightarrow> img_ok (mk_img s) (unat (mk_freeblock s)) \<Longrightarrow>
   unat off + length p \<le> MAXFILE * BSIZE \<Longrightarrow> unat (mk_freeblock s) + tblk (unat off + length p) \<le> FSSIZE + tblk (unat off) \<Longrightarrow>
   \<exists>s' d'. iappend_loop d off p s = Ret (d', off + of_nat (length p)) s' \<and> appended s d (unat off) p s' d'"
proof (induction d off p arbitrary: s rule: iappend_loop.induct)
  case (1 d off p)
  show ?case
  proof (cases "p = []")
    case True
    have "d = d\<lparr>di_addrs := di_addrs d\<rparr>" by simp
    then show ?thesis using True 1(2,3) by (intro exI[of _ s] exI[of _ d]) (simp add: iappend_loop.simps[of d off "[]"] appended_def)
  next
    case False
    let ?q = "unat off div BSIZE" and ?n = "chunk off (length p)"
    have n: "0 < ?n" "?n \<le> length p" "unat off mod BSIZE + ?n \<le> BSIZE" using False chunk_bounds[where n = "length p" and off = off] by simp_all
    have off: "unat off < MAXFILE * BSIZE" using False 1(4) by (cases p) auto
    then have q: "\<not> MAXFILE \<le> ?q" by (simp add: not_le div_less_iff_less_mult)
    have "tblk (unat off + 1) \<le> tblk (unat off + length p)" using n by (intro tblk_mono) simp
    with iappend_block_ok[OF 1(2,3) off] 1(5) obtain s1 d1 x where
      b: "iappend_block d ?q s = Ret (d1, x) s1" "grown s d (unat off) s1 d1 x" by fastforce
    let ?ws = "take ?n p"
    let ?s2 = "s1\<lparr>mk_img := (mk_img s1)[unat x := splice (sect (mk_img s1) x) (unat off mod BSIZE) ?ws]\<rparr>"
    have l: "length ?ws = ?n" using n by simp
    have "unat off + length ?ws \<le> MAXFILE * BSIZE" using 1(4) n(2) l by simp
    from grown_write[OF b(2) _ _ this refl] n l
    have g: "appended s d (unat off) ?ws ?s2 d1" "unat x < length (mk_img s1)" "length (mk_img s1) = FSSIZE" by simp_all
    have off': "unat (off + of_nat ?n) = unat off + ?n" using 1(4) n(2) by (simp add: unat_word_ariths(1) unat_of_nat)
    have e: "unat off + ?n + length (drop ?n p) = unat off + length p" using n(2) by simp
    have G: "map_ok (sect (mk_img ?s2)) (unat (mk_freeblock ?s2)) (di_addrs d1) (unat off + ?n)"
        "img_ok (mk_img ?s2) (unat (mk_freeblock ?s2))"
        "unat (mk_freeblock ?s2) + tblk (unat off) = unat (mk_freeblock s) + tblk (unat off + ?n)"
      using g(1) unfolding appended_def Let_def l by blast+
    then have "unat (mk_freeblock ?s2) + tblk (unat off + ?n + length (drop ?n p)) \<le> FSSIZE + tblk (unat off + ?n)"
      unfolding e using 1(5) by linarith
    from 1(1)[OF False q refl, of ?s2 d1, unfolded off', OF G(1,2) _ this] 1(4) obtain s' d' where
      r: "iappend_loop d1 (off + of_nat ?n) (drop ?n p) ?s2 = Ret (d', off + of_nat ?n + of_nat (length (drop ?n p))) s'"
        "appended ?s2 d1 (unat off + ?n) (drop ?n p) s' d'"
      unfolding e by blast
    have "of_nat ?n + of_nat (length (drop ?n p)) = (of_nat (length p) :: uint)"
      using n(2) by (simp flip: of_nat_add)
    then have "iappend_loop d off p s = Ret (d', off + of_nat (length p)) s'"
      using False q b(1) g(2,3) r(1) by (simp add: iappend_loop.simps[of d off p] kM_simps Let_def add.assoc)
    then show ?thesis using appended_trans[OF g(1), of "drop ?n p"] r(2) l by auto
  qed
qed

section \<open>Inodes on the disk\<close>

text \<open>Two inodes that agree in everything the disk holds.\<close>

definition same_inode :: "dinode \<Rightarrow> dinode \<Rightarrow> bool" where
  "same_inode d e \<longleftrightarrow> di_type d = di_type e \<and> di_major d = di_major e \<and> di_minor d = di_minor e \<and> di_nlink d = di_nlink e \<and>
     di_size d = di_size e \<and> (\<forall>j \<le> NDIRECT. di_addrs d j = di_addrs e j)"

lemma length_put_addrs: "\<forall>j \<in> set js. o0 + 4 * j + 4 \<le> length bs \<Longrightarrow> length (put_addrs bs o0 f js) = length bs"
  by (induction js arbitrary: bs) simp_all

lemma put_addrs_other:
  "\<forall>j \<in> set js. o0 + 4 * j + 4 \<le> length bs \<Longrightarrow> p + 4 \<le> length bs \<Longrightarrow>
   \<forall>j \<in> set js. p + 4 \<le> o0 + 4 * j \<or> o0 + 4 * j + 4 \<le> p \<Longrightarrow> get32 (put_addrs bs o0 f js) p = get32 bs p"
  "\<forall>j \<in> set js. o0 + 4 * j + 4 \<le> length bs \<Longrightarrow> p + 2 \<le> length bs \<Longrightarrow>
   \<forall>j \<in> set js. p + 2 \<le> o0 + 4 * j \<or> o0 + 4 * j + 4 \<le> p \<Longrightarrow> get16 (put_addrs bs o0 f js) p = get16 bs p"
  by (induction js arbitrary: bs) (simp_all add: get32_put32_other get_put_other)

lemma put_addrs_get:
  "distinct js \<Longrightarrow> \<forall>j \<in> set js. o0 + 4 * j + 4 \<le> length bs \<Longrightarrow> i \<in> set js \<Longrightarrow>
   get32 (put_addrs bs o0 f js) (o0 + 4 * i) = f i"
proof (induction js arbitrary: bs)
  case (Cons j js)
  show ?case
  proof (cases "i = j")
    case True
    have "\<forall>j' \<in> set js. o0 + 4 * i + 4 \<le> o0 + 4 * j' \<or> o0 + 4 * j' + 4 \<le> o0 + 4 * i"
    proof
      fix j' assume "j' \<in> set js"
      then have "j' \<noteq> i" using Cons.prems(1) True by auto
      then show "o0 + 4 * i + 4 \<le> o0 + 4 * j' \<or> o0 + 4 * j' + 4 \<le> o0 + 4 * i" by linarith
    qed
    then show ?thesis using Cons.prems True by (simp add: put_addrs_other)
  qed (use Cons in simp)
qed simp

lemma same_inode_refl [simp]: "same_inode d d"
  by (simp add: same_inode_def)

lemma length_encode_dinode [simp]: "length bs = BSIZE \<Longrightarrow> i < IPB \<Longrightarrow> length (encode_dinode d bs i) = BSIZE"
  by (simp add: encode_dinode_def Let_def length_put_addrs)

lemma dinode_roundtrip:
  assumes "length bs = BSIZE" "i < IPB"
  shows "same_inode (decode_dinode (encode_dinode d bs i) i) d"
  using assms
  by (simp add: same_inode_def decode_dinode_def encode_dinode_def Let_def put_addrs_get put_addrs_other get32_put32_other get_put_other)

lemma put_nth:
  "i + 4 \<le> length bs \<Longrightarrow> k < length bs \<Longrightarrow> k < i \<or> i + 4 \<le> k \<Longrightarrow> put32 bs i v ! k = bs ! k"
  "i + 2 \<le> length bs \<Longrightarrow> k < length bs \<Longrightarrow> k < i \<or> i + 2 \<le> k \<Longrightarrow> put16 bs i w ! k = bs ! k"
  by (auto simp: put32_def put16_def nth_splice le32_def le16_def)

lemma put_addrs_nth:
  "\<forall>j \<in> set js. o0 + 4 * j + 4 \<le> length bs \<Longrightarrow> k < length bs \<Longrightarrow> \<forall>j \<in> set js. k < o0 + 4 * j \<or> o0 + 4 * j + 4 \<le> k \<Longrightarrow>
   put_addrs bs o0 f js ! k = bs ! k"
  by (induction js arbitrary: bs) (simp_all add: put_nth)

lemma encode_dinode_nth:
  assumes "length bs = BSIZE" "i < IPB" "k < BSIZE" "k < 64 * i \<or> 64 * i + 64 \<le> k"
  shows "encode_dinode d bs i ! k = bs ! k"
proof -
  let ?o = "64 * i"
  have o: "?o + 64 \<le> BSIZE" using assms(2) by simp
  have "\<forall>j \<in> set [0..<NDIRECT + 1]. k < ?o + 12 + 4 * j \<or> ?o + 12 + 4 * j + 4 \<le> k" using assms(4) by auto
  moreover have "\<forall>j \<in> set [0..<NDIRECT + 1]. ?o + 12 + 4 * j + 4 \<le> BSIZE" using o by auto
  ultimately show ?thesis using assms o
    unfolding encode_dinode_def Let_def by (subst put_addrs_nth) (auto simp: put_nth)
qed

lemma dinode_other:
  assumes "length bs = BSIZE" "i < IPB" "j < IPB" "i \<noteq> j"
  shows "same_inode (decode_dinode (encode_dinode d bs i) j) (decode_dinode bs j)"
proof -
  have "encode_dinode d bs i ! k = bs ! k" if "64 * j \<le> k" "k < 64 * j + 64" for k
    using assms that by (intro encode_dinode_nth) linarith+
  then show ?thesis
    by (simp add: same_inode_def decode_dinode_def Let_def get16_def get32_def)
qed

definition inode_at :: "byte list list \<Rightarrow> uint \<Rightarrow> dinode" where
  "inode_at img i = decode_dinode (sect img (IBLOCK i mk_sb)) (unat i mod IPB)"

lemma iblock: "unat i < 208 \<Longrightarrow> unat (IBLOCK i mk_sb) = unat i div 8 + 32"
proof -
  assume "unat i < 208"
  then have "unat i div 8 < 26" by (simp add: div_less_iff_less_mult)
  then show ?thesis by (simp add: IBLOCK_def mk_sb_def mk_consts unat_word_ariths(1) unat_div)
qed

lemma iblock_meta: "unat i < 208 \<Longrightarrow> unat (IBLOCK i mk_sb) < nmeta \<and> IBLOCK i mk_sb \<noteq> 1 \<and> IBLOCK i mk_sb \<noteq> 58"
proof -
  assume i: "unat i < 208"
  then have "unat i div 8 < 26" by (simp add: div_less_iff_less_mult)
  then have u: "32 \<le> unat (IBLOCK i mk_sb)" "unat (IBLOCK i mk_sb) < 58" using iblock[OF i] by simp_all
  then have "IBLOCK i mk_sb \<noteq> 1" "IBLOCK i mk_sb \<noteq> 58" by auto
  then show ?thesis using u by (simp add: mk_consts)
qed

lemma iblock_slot: "unat i < 208 \<Longrightarrow> unat j < 208 \<Longrightarrow> i \<noteq> j \<Longrightarrow> IBLOCK i mk_sb = IBLOCK j mk_sb \<Longrightarrow> unat i mod IPB \<noteq> unat j mod IPB"
  using iblock[of i] iblock[of j] by (metis add_right_cancel div_mod_decomp word_unat_eq_iff)

lemma same_inode_map:
  assumes "same_inode d e"
  shows "blk_addr D (di_addrs d) = blk_addr D (di_addrs e)" "owned D (di_addrs d) sz = owned D (di_addrs e) sz"
    "map_ok D fb (di_addrs d) sz = map_ok D fb (di_addrs e) sz" "file_bytes D (di_addrs d) sz = file_bytes D (di_addrs e) sz"
proof -
  have a: "di_addrs d j = di_addrs e j" if "j \<le> NDIRECT" for j using assms that by (simp add: same_inode_def)
  show b: "blk_addr D (di_addrs d) = blk_addr D (di_addrs e)" using a by (auto simp: fun_eq_iff blk_addr_def)
  show o: "owned D (di_addrs d) sz = owned D (di_addrs e) sz" using a[of NDIRECT] by (simp add: owned_def b)
  show "map_ok D fb (di_addrs d) sz = map_ok D fb (di_addrs e) sz" using a unfolding map_ok_def o b by auto
  show "file_bytes D (di_addrs d) sz = file_bytes D (di_addrs e) sz"
    unfolding file_bytes_def file_byte_def[abs_def] b ..
qed

lemma winode_ok:
  assumes "img_ok (mk_img s) fb" "unat i < 208"
  shows "\<exists>img'. winode i d s = Ret () (s\<lparr>mk_img := img'\<rparr>) \<and> img_ok img' fb \<and> same_inode (inode_at img' i) d \<and>
    (\<forall>j. unat j < 208 \<longrightarrow> j \<noteq> i \<longrightarrow> same_inode (inode_at img' j) (inode_at (mk_img s) j)) \<and>
    (\<forall>b. b \<noteq> IBLOCK i mk_sb \<longrightarrow> sect img' b = sect (mk_img s) b)"
proof -
  let ?b = "IBLOCK i mk_sb" and ?img = "mk_img s"
  let ?img' = "?img[unat ?b := encode_dinode d (sect ?img ?b) (unat i mod IPB)]"
  have b: "unat ?b < nmeta" "unat ?b < length ?img" using iblock_meta[OF assms(2)] assms(1) by (auto simp: img_ok_def mk_consts)
  then have len: "length (sect ?img ?b) = BSIZE" using assms(1) by (simp add: img_ok_def sect_def)
  note D = sect_update[OF b(2), of "encode_dinode d (sect ?img ?b) (unat i mod IPB)"]
  have "winode i d s = Ret () (s\<lparr>mk_img := ?img'\<rparr>)" using b(2) assms(1) by (simp add: winode_def kM_simps img_ok_def)
  moreover have "img_ok ?img' fb" using assms(1) b len by (auto simp: img_ok_def nth_list_update)
  moreover have "same_inode (inode_at ?img' i) d" using dinode_roundtrip[OF len, of "unat i mod IPB" d] by (simp add: inode_at_def D)
  moreover have "same_inode (inode_at ?img' j) (inode_at ?img j)" if "unat j < 208" "j \<noteq> i" for j
  proof (cases "IBLOCK j mk_sb = ?b")
    case True
    then show ?thesis using dinode_other[OF len, of "unat i mod IPB" "unat j mod IPB" d] iblock_slot[OF that(1) assms(2) that(2)]
      by (simp add: inode_at_def D)
  qed (simp add: inode_at_def D)
  ultimately show ?thesis using D by (intro exI[of _ ?img']) simp
qed

section \<open>The abstract file system\<close>

text \<open>
  The image stands for the list of its files, each with its type and contents: inode \<open>k + 1\<close> is file \<open>k\<close>. The
  blocks of the files are disjoint, and the blocks used are the metadata and the blocks of the files.
\<close>

definition file_of :: "byte list list \<Rightarrow> uint \<Rightarrow> byte list" where
  "file_of img i = file_bytes (sect img) (di_addrs (inode_at img i)) (unat (di_size (inode_at img i)))"

definition own_of :: "byte list list \<Rightarrow> uint \<Rightarrow> uint set" where
  "own_of img i = owned (sect img) (di_addrs (inode_at img i)) (unat (di_size (inode_at img i)))"

definition blocks_used :: "(ushort \<times> byte list) list \<Rightarrow> nat" where
  "blocks_used fs = nmeta + sum_list (map (\<lambda>f. tblk (length (snd f))) fs)"

definition inum_of :: "nat \<Rightarrow> uint" where
  "inum_of k = of_nat (k + 1)"

definition holds_file :: "byte list list \<Rightarrow> nat \<Rightarrow> uint \<Rightarrow> ushort \<times> byte list \<Rightarrow> bool" where
  "holds_file img fb i f \<longleftrightarrow> di_type (inode_at img i) = fst f \<and> di_nlink (inode_at img i) = 1 \<and> file_of img i = snd f \<and>
     map_ok (sect img) fb (di_addrs (inode_at img i)) (length (snd f))"

definition rep :: "mkfs \<Rightarrow> (ushort \<times> byte list) list \<Rightarrow> bool" where
  "rep s fs \<longleftrightarrow> img_ok (mk_img s) (unat (mk_freeblock s)) \<and> unat (mk_freeblock s) = blocks_used fs \<and>
     mk_freeinode s = inum_of (length fs) \<and> length fs < 200 \<and>
     (\<forall>k < length fs. holds_file (mk_img s) (unat (mk_freeblock s)) (inum_of k) (fs ! k)) \<and>
     (\<forall>k < length fs. \<forall>l < length fs. k \<noteq> l \<longrightarrow> own_of (mk_img s) (inum_of k) \<inter> own_of (mk_img s) (inum_of l) = {})"

lemma inum_of: "k < 207 \<Longrightarrow> unat (inum_of k) = k + 1" "k < 207 \<Longrightarrow> unat (inum_of k) < 208"
  "k < 207 \<Longrightarrow> l < 207 \<Longrightarrow> inum_of k = inum_of l \<longleftrightarrow> k = l"
proof -
  have u: "unat (inum_of k) = k + 1" if "k < 207" for k unfolding inum_of_def using that by (intro unat_of_nat_small) simp
  then show "k < 207 \<Longrightarrow> unat (inum_of k) = k + 1" "k < 207 \<Longrightarrow> unat (inum_of k) < 208" by simp_all
  show "inum_of k = inum_of l \<longleftrightarrow> k = l" if "k < 207" "l < 207"
    using u[OF that(1)] u[OF that(2)] by (metis add_right_cancel)
qed

lemma length_file_of: "length (file_of img i) = unat (di_size (inode_at img i))"
  by (simp add: file_of_def file_bytes_def)

lemma holds_file_size: "holds_file img fb i f \<Longrightarrow> unat (di_size (inode_at img i)) = length (snd f)"
  by (metis holds_file_def length_file_of)

text \<open>A file keeps its contents when its inode and its blocks do.\<close>

lemma holds_file_other:
  assumes h: "holds_file img fb i f" and i: "same_inode (inode_at img' i) (inode_at img i)" and fb: "fb \<le> fb'"
    and b: "\<And>b. b \<in> own_of img i \<Longrightarrow> sect img' b = sect img b"
  shows "holds_file img' fb' i f" "own_of img' i = own_of img i"
proof -
  let ?a = "di_addrs (inode_at img i)"
  note sz = holds_file_size[OF h] and S = same_inode_map[OF i]
  have f: "di_type (inode_at img' i) = fst f" "di_nlink (inode_at img' i) = 1" "unat (di_size (inode_at img' i)) = length (snd f)"
    using h i sz by (auto simp: holds_file_def same_inode_def)
  have m: "map_ok (sect img) fb ?a (length (snd f))" "file_bytes (sect img) ?a (length (snd f)) = snd f"
    using h sz by (simp_all add: holds_file_def file_of_def)
  have "\<And>b. b \<in> owned (sect img) ?a (length (snd f)) \<Longrightarrow> sect img' b = sect img b" using b sz by (simp add: own_of_def)
  note O = map_ok_other[OF m(1) this]
  show "own_of img' i = own_of img i" using O(2) by (simp add: own_of_def f(3) sz S)
  show "holds_file img' fb' i f"
    using f O(1,3) m(2) map_ok_grow[OF O(1) fb] by (simp add: holds_file_def file_of_def S)
qed

lemma rinode_ok: "img_ok (mk_img s) fb \<Longrightarrow> unat i < 208 \<Longrightarrow> rinode i s = Ret (inode_at (mk_img s) i) s"
  using iblock_meta[of i] by (simp add: rinode_def inode_at_def kM_simps img_ok_def mk_consts)

lemma sum_list_update:
  fixes f :: "'a \<Rightarrow> nat"
  shows "k < length xs \<Longrightarrow> sum_list (map f (xs[k := y])) + f (xs ! k) = sum_list (map f xs) + f y"
  by (induction xs arbitrary: k) (auto simp: nth_Cons split: nat.splits)

lemma blocks_used_update:
  "k < length fs \<Longrightarrow> blocks_used (fs[k := g]) + tblk (length (snd (fs ! k))) = blocks_used fs + tblk (length (snd g))"
  using sum_list_update[of k fs "\<lambda>f. tblk (length (snd f))" g] by (simp add: blocks_used_def)

lemma owned_meta: "map_ok D fb a sz \<Longrightarrow> b \<in> owned D a sz \<Longrightarrow> nmeta \<le> unat b \<and> unat b < fb"
  by (simp add: map_ok_def)

lemma repD:
  assumes "rep s fs"
  shows "img_ok (mk_img s) (unat (mk_freeblock s))" "unat (mk_freeblock s) = blocks_used fs"
    "mk_freeinode s = inum_of (length fs)" "length fs < 200"
    "l < length fs \<Longrightarrow> holds_file (mk_img s) (unat (mk_freeblock s)) (inum_of l) (fs ! l)"
    "l < length fs \<Longrightarrow> m < length fs \<Longrightarrow> l \<noteq> m \<Longrightarrow> own_of (mk_img s) (inum_of l) \<inter> own_of (mk_img s) (inum_of m) = {}"
    "l < length fs \<Longrightarrow> unat (inum_of l) < 208"
    "l < length fs \<Longrightarrow> b \<in> own_of (mk_img s) (inum_of l) \<Longrightarrow> nmeta \<le> unat b \<and> unat b < unat (mk_freeblock s)"
proof -
  show h: "l < length fs \<Longrightarrow> holds_file (mk_img s) (unat (mk_freeblock s)) (inum_of l) (fs ! l)"
    using assms unfolding rep_def by blast
  show n: "length fs < 200" using assms unfolding rep_def by blast
  show "l < length fs \<Longrightarrow> b \<in> own_of (mk_img s) (inum_of l) \<Longrightarrow> nmeta \<le> unat b \<and> unat b < unat (mk_freeblock s)"
    using owned_meta[of "sect (mk_img s)" "unat (mk_freeblock s)"] holds_file_size[OF h] h by (auto simp: own_of_def holds_file_def)
  show "l < length fs \<Longrightarrow> unat (inum_of l) < 208" using inum_of(2)[of l] n by simp
qed (use assms in \<open>unfold rep_def, blast\<close>)+

text \<open>One file changes or is new, at index \<open>k\<close>; the others keep their inodes and blocks.\<close>

lemma rep_change:
  assumes r: "rep s fs" and s': "img_ok (mk_img s') (unat (mk_freeblock s'))" "unat (mk_freeblock s') = blocks_used fs'"
      "mk_freeinode s' = inum_of (length fs')" "length fs' < 200" "unat (mk_freeblock s) \<le> unat (mk_freeblock s')"
    and o: "\<And>l. l < length fs' \<Longrightarrow> l \<noteq> k \<Longrightarrow> l < length fs \<and> fs' ! l = fs ! l \<and>
      same_inode (inode_at (mk_img s') (inum_of l)) (inode_at (mk_img s) (inum_of l)) \<and>
      (\<forall>b \<in> own_of (mk_img s) (inum_of l). sect (mk_img s') b = sect (mk_img s) b)"
    and k: "holds_file (mk_img s') (unat (mk_freeblock s')) (inum_of k) (fs' ! k)"
      "\<And>b. b \<in> own_of (mk_img s') (inum_of k) \<Longrightarrow> k < length fs \<and> b \<in> own_of (mk_img s) (inum_of k) \<or> unat (mk_freeblock s) \<le> unat b"
  shows "rep s' fs'"
proof -
  let ?own = "\<lambda>l. own_of (mk_img s) (inum_of l)" and ?own' = "\<lambda>l. own_of (mk_img s') (inum_of l)"
  have old: "holds_file (mk_img s') (unat (mk_freeblock s')) (inum_of l) (fs' ! l)" "?own' l = ?own l" "l < length fs"
    if "l < length fs'" "l \<noteq> k" for l
    using holds_file_other[OF repD(5)[OF r, of l], of "mk_img s'"] o[OF that] s'(5) by auto
  have dk: "?own' k \<inter> ?own' l = {}" if "l < length fs'" "l \<noteq> k" for l
    using k(2) old(2,3)[OF that] repD(6)[OF r, of k l] repD(8)[OF r, of l] that(2) by fastforce
  have "?own' l \<inter> ?own' m = {}" if "l < length fs'" "m < length fs'" "l \<noteq> m" for l m
    using dk[of l] dk[of m] old(2,3)[of l] old(2,3)[of m] repD(6)[OF r, of l m] that by (cases "l = k"; cases "m = k") auto
  moreover have "holds_file (mk_img s') (unat (mk_freeblock s')) (inum_of l) (fs' ! l)" if "l < length fs'" for l
    using old(1)[OF that] k(1) by (cases "l = k") auto
  ultimately show ?thesis unfolding rep_def using s' by blast
qed

text \<open>Writing an inode whose map is ready makes its file part of the image.\<close>

lemma write_back:
  assumes im: "img_ok (mk_img s) fb" and i: "unat i < 208" and d: "unat (di_size d) = length c" "di_type d = ty" "di_nlink d = 1"
    and m: "map_ok (sect (mk_img s)) fb (di_addrs d) (length c)" "file_bytes (sect (mk_img s)) (di_addrs d) (length c) = c"
  shows "\<exists>img'. winode i d s = Ret () (s\<lparr>mk_img := img'\<rparr>) \<and> img_ok img' fb \<and> holds_file img' fb i (ty, c) \<and>
    own_of img' i = owned (sect (mk_img s)) (di_addrs d) (length c) \<and>
    (\<forall>j. unat j < 208 \<longrightarrow> j \<noteq> i \<longrightarrow> same_inode (inode_at img' j) (inode_at (mk_img s) j)) \<and>
    (\<forall>b. b \<noteq> IBLOCK i mk_sb \<longrightarrow> sect img' b = sect (mk_img s) b)"
proof -
  from winode_ok[OF im i, of d] obtain img' where w: "winode i d s = Ret () (s\<lparr>mk_img := img'\<rparr>)" "img_ok img' fb"
    "same_inode (inode_at img' i) d" "\<forall>j. unat j < 208 \<longrightarrow> j \<noteq> i \<longrightarrow> same_inode (inode_at img' j) (inode_at (mk_img s) j)"
    "\<forall>b. b \<noteq> IBLOCK i mk_sb \<longrightarrow> sect img' b = sect (mk_img s) b" by blast
  have "sect img' b = sect (mk_img s) b" if "b \<in> owned (sect (mk_img s)) (di_addrs d) (length c)" for b
  proof -
    have "b \<noteq> IBLOCK i mk_sb" using owned_meta[OF m(1) that] iblock_meta[OF i] by auto
    then show ?thesis using w(5) by blast
  qed
  note O = map_ok_other[OF m(1) this]
  have n: "unat (di_size (inode_at img' i)) = length c" "di_type (inode_at img' i) = ty" "di_nlink (inode_at img' i) = 1"
    using w(3) d by (simp_all add: same_inode_def)
  have "holds_file img' fb i (ty, c)" "own_of img' i = owned (sect (mk_img s)) (di_addrs d) (length c)"
    using O m(2) n by (simp_all add: holds_file_def file_of_def own_of_def same_inode_map[OF w(3)])
  then show ?thesis using w by blast
qed

lemma iappend_inode:
  assumes im: "img_ok (mk_img s) (unat (mk_freeblock s))" and i: "unat i < 208"
    and h: "holds_file (mk_img s) (unat (mk_freeblock s)) i (ty, c)" and len: "length (c @ p) \<le> MAXFILE * BSIZE"
    and room: "unat (mk_freeblock s) + tblk (length (c @ p)) \<le> FSSIZE + tblk (length c)"
  shows "\<exists>s'. iappend i p s = Ret () s' \<and> mk_freeinode s' = mk_freeinode s \<and>
    unat (mk_freeblock s') + tblk (length c) = unat (mk_freeblock s) + tblk (length (c @ p)) \<and>
    img_ok (mk_img s') (unat (mk_freeblock s')) \<and> holds_file (mk_img s') (unat (mk_freeblock s')) i (ty, c @ p) \<and>
    (\<forall>b \<in> own_of (mk_img s') i. b \<in> own_of (mk_img s) i \<or> unat (mk_freeblock s) \<le> unat b) \<and>
    (\<forall>j. unat j < 208 \<longrightarrow> j \<noteq> i \<longrightarrow> same_inode (inode_at (mk_img s') j) (inode_at (mk_img s) j)) \<and>
    (\<forall>b. b \<notin> own_of (mk_img s') i \<longrightarrow> b \<noteq> IBLOCK i mk_sb \<longrightarrow> sect (mk_img s') b = sect (mk_img s) b)"
proof -
  let ?img = "mk_img s" and ?d = "inode_at (mk_img s) i"
  have sz: "unat (di_size ?d) = length c" using holds_file_size[OF h] by simp
  have H: "map_ok (sect ?img) (unat (mk_freeblock s)) (di_addrs ?d) (unat (di_size ?d))" "file_of ?img i = c" "di_type ?d = ty" "di_nlink ?d = 1"
    using h sz by (simp_all add: holds_file_def)
  have "unat (di_size ?d) + length p \<le> MAXFILE * BSIZE"
    "unat (mk_freeblock s) + tblk (unat (di_size ?d) + length p) \<le> FSSIZE + tblk (unat (di_size ?d))" using room len sz by simp_all
  from iappend_loop_ok[OF H(1) im this] obtain s1 d1 where
    l: "iappend_loop ?d (di_size ?d) p s = Ret (d1, di_size ?d + of_nat (length p)) s1" "appended s ?d (length c) p s1 d1"
    unfolding sz by blast
  let ?D1 = "sect (mk_img s1)" and ?d2 = "d1\<lparr>di_size := di_size ?d + of_nat (length p)\<rparr>"
  have A: "d1 = ?d\<lparr>di_addrs := di_addrs d1\<rparr>" "img_ok (mk_img s1) (unat (mk_freeblock s1))"
      "map_ok ?D1 (unat (mk_freeblock s1)) (di_addrs d1) (length (c @ p))" "file_bytes ?D1 (di_addrs d1) (length (c @ p)) = c @ p"
      "\<forall>b. b \<notin> owned ?D1 (di_addrs d1) (length (c @ p)) \<longrightarrow> ?D1 b = sect ?img b"
    using l(2) H(2) sz by (simp_all add: appended_def Let_def file_of_def)
  have in1: "inode_at (mk_img s1) j = inode_at ?img j" if "unat j < 208" for j
  proof -
    have "IBLOCK j mk_sb \<notin> owned ?D1 (di_addrs d1) (length (c @ p))"
      using owned_meta[OF A(3), of "IBLOCK j mk_sb"] iblock_meta[OF that] by auto
    then show ?thesis using A(5) unfolding inode_at_def by metis
  qed
  have "di_type d1 = di_type ?d" "di_nlink d1 = di_nlink ?d" by (subst A(1), simp)+
  moreover have "unat (di_size ?d + of_nat (length p)) = length (c @ p)" using len sz by (simp add: unat_word_ariths(1) unat_of_nat)
  ultimately obtain img2 where w: "winode i ?d2 s1 = Ret () (s1\<lparr>mk_img := img2\<rparr>)" "img_ok img2 (unat (mk_freeblock s1))"
      "holds_file img2 (unat (mk_freeblock s1)) i (ty, c @ p)" "own_of img2 i = owned ?D1 (di_addrs d1) (length (c @ p))"
      "\<forall>j. unat j < 208 \<longrightarrow> j \<noteq> i \<longrightarrow> same_inode (inode_at img2 j) (inode_at (mk_img s1) j)"
      "\<forall>b. b \<noteq> IBLOCK i mk_sb \<longrightarrow> sect img2 b = ?D1 b"
    using write_back[OF A(2) i, of ?d2 "c @ p" ty] A(3,4) H(3,4) by auto
  have "iappend i p s = Ret () (s1\<lparr>mk_img := img2\<rparr>)"
    using rinode_ok[OF im i] l(1) w(1) by (simp add: iappend_def kM_simps)
  moreover have "\<forall>b \<in> own_of img2 i. b \<in> own_of ?img i \<or> unat (mk_freeblock s) \<le> unat b"
    unfolding w(4) using l(2) sz by (simp add: appended_def Let_def own_of_def)
  moreover have "\<forall>b. b \<notin> own_of img2 i \<longrightarrow> b \<noteq> IBLOCK i mk_sb \<longrightarrow> sect img2 b = sect ?img b" using w(4,6) A(5) by simp
  ultimately show ?thesis using w(2,3,5) in1 l(2)
    by (intro exI[of _ "s1\<lparr>mk_img := img2\<rparr>"]) (simp add: appended_def Let_def)
qed

lemma iappend_rep:
  assumes r: "rep s fs" and k: "k < length fs" "fs ! k = (ty, c)"
    and len: "length (c @ p) \<le> MAXFILE * BSIZE" and room: "blocks_used (fs[k := (ty, c @ p)]) \<le> FSSIZE"
  shows "\<exists>s'. iappend (inum_of k) p s = Ret () s' \<and> rep s' (fs[k := (ty, c @ p)]) \<and> sect (mk_img s') 1 = sect (mk_img s) 1"
proof -
  let ?g = "(ty, c @ p)"
  note R = repD[OF r]
  have t: "blocks_used (fs[k := ?g]) + tblk (length c) = blocks_used fs + tblk (length (c @ p))"
    using blocks_used_update[OF k(1), of ?g] k(2) by simp
  then have "unat (mk_freeblock s) + tblk (length (c @ p)) \<le> FSSIZE + tblk (length c)" using room R(2) by simp
  from iappend_inode[OF R(1) R(7)[OF k(1)] R(5)[OF k(1), unfolded k(2)] len this] obtain s' where
    s': "iappend (inum_of k) p s = Ret () s'" "mk_freeinode s' = mk_freeinode s"
      "unat (mk_freeblock s') + tblk (length c) = unat (mk_freeblock s) + tblk (length (c @ p))"
      "img_ok (mk_img s') (unat (mk_freeblock s'))" "holds_file (mk_img s') (unat (mk_freeblock s')) (inum_of k) ?g"
      "\<forall>b \<in> own_of (mk_img s') (inum_of k). b \<in> own_of (mk_img s) (inum_of k) \<or> unat (mk_freeblock s) \<le> unat b"
      "\<forall>j. unat j < 208 \<longrightarrow> j \<noteq> inum_of k \<longrightarrow> same_inode (inode_at (mk_img s') j) (inode_at (mk_img s) j)"
      "\<forall>b. b \<notin> own_of (mk_img s') (inum_of k) \<longrightarrow> b \<noteq> IBLOCK (inum_of k) mk_sb \<longrightarrow> sect (mk_img s') b = sect (mk_img s) b"
    by blast
  have own: "nmeta \<le> unat b" if "b \<in> own_of (mk_img s') (inum_of k)" for b
    using s'(5,6) that R(1,8) k(1) by (fastforce simp: img_ok_def)
  have o: "sect (mk_img s') b = sect (mk_img s) b" if l: "l < length fs" "l \<noteq> k" "b \<in> own_of (mk_img s) (inum_of l)" for l b
  proof -
    have "b \<notin> own_of (mk_img s') (inum_of k)" using s'(6) l R(6)[OF l(1) k(1) l(2)] R(8)[OF l(1,3)] by fastforce
    moreover have "b \<noteq> IBLOCK (inum_of k) mk_sb" using R(8)[OF l(1,3)] iblock_meta[OF R(7)[OF k(1)]] by auto
    ultimately show ?thesis using s'(8) by blast
  qed
  have "rep s' (fs[k := ?g])"
  proof (rule rep_change[OF r s'(4), where k = k])
    show "unat (mk_freeblock s') = blocks_used (fs[k := ?g])" using s'(3) t R(2) by simp
    show "unat (mk_freeblock s) \<le> unat (mk_freeblock s')" using s'(3) tblk_mono[of "length c" "length (c @ p)"] by simp
    show "l < length fs \<and> fs[k := ?g] ! l = fs ! l \<and> same_inode (inode_at (mk_img s') (inum_of l)) (inode_at (mk_img s) (inum_of l)) \<and>
        (\<forall>b \<in> own_of (mk_img s) (inum_of l). sect (mk_img s') b = sect (mk_img s) b)" if "l < length (fs[k := ?g])" "l \<noteq> k" for l
      using that s'(7) o[of l] R(4) R(7)[of l] inum_of(3)[of l k] k(1) by simp
  qed (use s' R k in auto)
  moreover have "1 \<notin> own_of (mk_img s') (inum_of k)" "1 \<noteq> IBLOCK (inum_of k) mk_sb"
    using own[of 1] iblock_meta[OF R(7)[OF k(1)]] by (auto simp: mk_consts)
  then have "sect (mk_img s') 1 = sect (mk_img s) 1" using s'(8) by blast
  ultimately show ?thesis using s'(1) by blast
qed

lemma ialloc_rep:
  assumes r: "rep s fs" and n: "length fs < 199"
  shows "\<exists>s'. mk_ialloc ty s = Ret (inum_of (length fs)) s' \<and> rep s' (fs @ [(ty, [])]) \<and> sect (mk_img s') 1 = sect (mk_img s) 1"
proof -
  let ?i = "inum_of (length fs)" and ?d = "zero_dinode\<lparr>di_type := ty, di_nlink := 1\<rparr>"
  let ?s1 = "s\<lparr>mk_freeinode := mk_freeinode s + 1\<rparr>"
  note R = repD[OF r]
  have i: "unat ?i < 208" using inum_of(2)[of "length fs"] n by simp
  have z: "map_ok (sect (mk_img s)) (unat (mk_freeblock s)) (di_addrs ?d) 0" "owned (sect (mk_img s)) (di_addrs ?d) 0 = {}"
    by (simp_all add: map_ok_def owned_def nblk_def zero_dinode_def)
  then obtain img' where w: "winode ?i ?d ?s1 = Ret () (?s1\<lparr>mk_img := img'\<rparr>)" "img_ok img' (unat (mk_freeblock s))"
      "holds_file img' (unat (mk_freeblock s)) ?i (ty, [])" "own_of img' ?i = {}"
      "\<forall>j. unat j < 208 \<longrightarrow> j \<noteq> ?i \<longrightarrow> same_inode (inode_at img' j) (inode_at (mk_img s) j)"
      "\<forall>b. b \<noteq> IBLOCK ?i mk_sb \<longrightarrow> sect img' b = sect (mk_img s) b"
    using write_back[of ?s1 "unat (mk_freeblock s)" ?i ?d "[]" ty] R(1) i by (auto simp: zero_dinode_def file_bytes_def)
  have "mk_ialloc ty s = Ret ?i (?s1\<lparr>mk_img := img'\<rparr>)"
    using w(1) R(3) by (simp add: mk_ialloc_def getk_def putk_def kM_simps)
  moreover have "rep (?s1\<lparr>mk_img := img'\<rparr>) (fs @ [(ty, [])])"
  proof (rule rep_change[OF r, where k = "length fs"])
    show "mk_freeinode (?s1\<lparr>mk_img := img'\<rparr>) = inum_of (length (fs @ [(ty, [])]))" using R(3) by (simp add: inum_of_def)
    show "unat (mk_freeblock (?s1\<lparr>mk_img := img'\<rparr>)) = blocks_used (fs @ [(ty, [])])"
      using R(2) by (simp add: blocks_used_def tblk_def nblk_def)
    show "l < length fs \<and> (fs @ [(ty, [])]) ! l = fs ! l \<and>
        same_inode (inode_at (mk_img (?s1\<lparr>mk_img := img'\<rparr>)) (inum_of l)) (inode_at (mk_img s) (inum_of l)) \<and>
        (\<forall>b \<in> own_of (mk_img s) (inum_of l). sect (mk_img (?s1\<lparr>mk_img := img'\<rparr>)) b = sect (mk_img s) b)"
      if "l < length (fs @ [(ty, [])])" "l \<noteq> length fs" for l
    proof -
      have l: "l < length fs" using that by simp
      then have "b \<noteq> IBLOCK ?i mk_sb" if "b \<in> own_of (mk_img s) (inum_of l)" for b using R(8)[OF l that] iblock_meta[OF i] by auto
      then show ?thesis using l w(5,6) R(7)[OF l] inum_of(3)[of l "length fs"] n by (simp add: nth_append)
    qed
  qed (use w R n in \<open>simp_all add: nth_append\<close>)
  moreover have "sect img' 1 = sect (mk_img s) 1" using w(6) iblock_meta[OF i] by auto
  ultimately show ?thesis by (intro exI[of _ "?s1\<lparr>mk_img := img'\<rparr>"]) simp
qed

lemma blocks_used_mono:
  assumes "k < length fs" "length c \<le> length c'"
  shows "blocks_used (fs[k := (ty, c)]) \<le> blocks_used (fs[k := (ty, c')])"
proof -
  have "blocks_used (fs[k := (ty, c)]) + tblk (length (snd (fs ! k))) = blocks_used fs + tblk (length c)"
    "blocks_used (fs[k := (ty, c')]) + tblk (length (snd (fs ! k))) = blocks_used fs + tblk (length c')"
    using blocks_used_update[OF assms(1)] by simp_all
  then show ?thesis using tblk_mono[OF assms(2)] by linarith
qed

lemma iappend_all_rep:
  "rep s fs \<Longrightarrow> k < length fs \<Longrightarrow> fs ! k = (ty, c) \<Longrightarrow> length (c @ concat ps) \<le> MAXFILE * BSIZE \<Longrightarrow>
   blocks_used (fs[k := (ty, c @ concat ps)]) \<le> FSSIZE \<Longrightarrow>
   \<exists>s'. forK ps (iappend (inum_of k)) s = Ret () s' \<and> rep s' (fs[k := (ty, c @ concat ps)]) \<and> sect (mk_img s') 1 = sect (mk_img s) 1"
proof (induction ps arbitrary: s fs c)
  case Nil
  then have "fs[k := (ty, c)] = fs" by (metis list_update_id)
  then show ?case using Nil by simp
next
  case (Cons p ps)
  have "blocks_used (fs[k := (ty, c @ p)]) \<le> FSSIZE"
    using Cons.prems(5) blocks_used_mono[OF Cons.prems(2), of "c @ p" "c @ concat (p # ps)" ty] by simp
  then obtain s1 where s1: "iappend (inum_of k) p s = Ret () s1" "rep s1 (fs[k := (ty, c @ p)])" "sect (mk_img s1) 1 = sect (mk_img s) 1"
    using iappend_rep[OF Cons.prems(1-3), of p] Cons.prems(4) by auto
  from Cons.IH[OF s1(2), of "c @ p"] Cons.prems obtain s' where
    "forK ps (iappend (inum_of k)) s1 = Ret () s'" "rep s' (fs[k := (ty, (c @ p) @ concat ps)])" "sect (mk_img s') 1 = sect (mk_img s1) 1"
    by auto
  then show ?case using s1 by (simp add: kM_simps)
qed

text \<open>The files of the image after the given ones have been copied: the root directory and the files.\<close>

definition root_dir :: "(byte list \<times> byte list list) list \<Rightarrow> byte list" where
  "root_dir files = mk_dirent 1 [46] @ mk_dirent 1 [46, 46] @
     concat (map (\<lambda>k. mk_dirent (inum_of (k + 1)) (strip_name (fst (files ! k)))) [0..<length files])"

definition image_files :: "(byte list \<times> byte list list) list \<Rightarrow> (ushort \<times> byte list) list" where
  "image_files files = (T_DIR, root_dir files) # map (\<lambda>f. (T_FILE, concat (snd f))) files"

definition mkfs_fits :: "(byte list \<times> byte list list) list \<Rightarrow> bool" where
  "mkfs_fits files \<longleftrightarrow> length files < 199 \<and> blocks_used (image_files files) \<le> FSSIZE \<and>
     (\<forall>f \<in> set files. SLASH \<notin> set (fst f) \<and> length (concat (snd f)) \<le> MAXFILE * BSIZE)"

lemma length_mk_dirent [simp]: "length (mk_dirent i nm) = DIRENT"
  by (simp add: mk_dirent_def le16_def strncpyl_def min_def)

lemma root_dir_snoc:
  "root_dir (files @ [f]) = root_dir files @ mk_dirent (inum_of (length files + 1)) (strip_name (fst f))"
  by (simp add: root_dir_def nth_append) (auto intro!: arg_cong[where f = concat] map_cong)

lemma length_root_dir: "length (root_dir files) = DIRENT * (length files + 2)"
  by (induction files rule: rev_induct) (simp_all add: root_dir_snoc, simp add: root_dir_def)

lemma mk_file_rep:
  assumes r: "rep s (image_files files)" and f: "mkfs_fits (files @ [f])"
  shows "\<exists>s'. mk_file 1 f s = Ret () s' \<and> rep s' (image_files (files @ [f])) \<and> sect (mk_img s') 1 = sect (mk_img s) 1"
proof -
  let ?fs = "image_files files" and ?fs' = "image_files (files @ [f])" and ?n = "length files + 1"
  let ?de = "mk_dirent (inum_of ?n) (strip_name (fst f))" and ?fs1 = "image_files files @ [(T_FILE, [])]"
  have F: "length files < 198" "blocks_used ?fs' \<le> FSSIZE" "SLASH \<notin> set (fst f)" "length (concat (snd f)) \<le> MAXFILE * BSIZE"
    using f by (auto simp: mkfs_fits_def)
  have n: "length ?fs = ?n" by (simp add: image_files_def)
  obtain s1 where s1: "mk_ialloc T_FILE s = Ret (inum_of ?n) s1" "rep s1 ?fs1" "sect (mk_img s1) 1 = sect (mk_img s) 1"
    using ialloc_rep[OF r] F(1) n by fastforce
  let ?fs2 = "?fs1[0 := (T_DIR, root_dir files @ ?de)]"
  have f2: "?fs2 = (T_DIR, root_dir (files @ [f])) # map (\<lambda>f. (T_FILE, concat (snd f))) files @ [(T_FILE, [])]"
    by (simp add: image_files_def root_dir_snoc)
  then have f2': "?fs2[?n := (T_FILE, concat (snd f))] = ?fs'" by (simp add: image_files_def list_update_append)
  have "blocks_used ?fs2 \<le> blocks_used ?fs'" unfolding f2 by (simp add: blocks_used_def image_files_def tblk_def nblk_def)
  moreover have "?fs1 ! 0 = (T_DIR, root_dir files)" "0 < length ?fs1" by (simp_all add: image_files_def)
  moreover have "length (root_dir files @ ?de) \<le> MAXFILE * BSIZE" using F(1) by (simp add: length_root_dir)
  ultimately obtain s2 where s2: "iappend (inum_of 0) ?de s1 = Ret () s2" "rep s2 ?fs2" "sect (mk_img s2) 1 = sect (mk_img s1) 1"
    using iappend_rep[OF s1(2), of 0 T_DIR "root_dir files" ?de] F(2) by auto
  have "?n < length ?fs2" "?fs2 ! ?n = (T_FILE, [])" unfolding f2 by (simp_all add: nth_append)
  from iappend_all_rep[OF s2(2) this, of "snd f"] F(2,4) f2' obtain s3 where
    s3: "forK (snd f) (iappend (inum_of ?n)) s2 = Ret () s3" "rep s3 ?fs'" "sect (mk_img s3) 1 = sect (mk_img s2) 1" by auto
  have "mk_file 1 f s = Ret () s3" using F(3) s1(1) s2(1) s3(1) by (simp add: mk_file_def kM_simps inum_of_def[of 0])
  then show ?thesis using s1(3) s2(3) s3(2,3) by auto
qed

lemma mkfs_fits_snoc: "mkfs_fits (files @ [f]) \<Longrightarrow> mkfs_fits files"
proof -
  assume f: "mkfs_fits (files @ [f])"
  have "tblk (length (root_dir files)) \<le> tblk (length (root_dir (files @ [f])))" by (intro tblk_mono) (simp add: root_dir_snoc)
  then have "blocks_used (image_files files) \<le> blocks_used (image_files (files @ [f]))"
    by (simp add: blocks_used_def image_files_def)
  then show ?thesis using f by (auto simp: mkfs_fits_def)
qed

lemma mk_files_rep:
  assumes "rep s (image_files [])" "mkfs_fits files"
  shows "\<exists>s'. forK files (mk_file 1) s = Ret () s' \<and> rep s' (image_files files) \<and> sect (mk_img s') 1 = sect (mk_img s) 1"
  using assms(2)
proof (induction files rule: rev_induct)
  case (snoc f files)
  then obtain s1 where s1: "forK files (mk_file 1) s = Ret () s1" "rep s1 (image_files files)" "sect (mk_img s1) 1 = sect (mk_img s) 1"
    using mkfs_fits_snoc by blast
  with mk_file_rep[OF s1(2) snoc.prems] show ?case by (auto simp: forK_append kM_simps)
qed (use assms(1) in simp)

lemma zero_image:
  "n \<le> FSSIZE \<Longrightarrow> forK [0..<n] (\<lambda>i. wsect (of_nat i) (replicate BSIZE 0)) (s\<lparr>mk_img := []\<rparr>) =
   Ret () (s\<lparr>mk_img := replicate n (replicate BSIZE 0)\<rparr>)"
proof (induction n)
  case (Suc n)
  have "unat (of_nat n :: uint) = n" using Suc.prems by (intro unat_of_nat_small) simp
  then show ?case using Suc
    by (simp add: forK_append kM_simps wsect_def putk_def set_sect_def sect_no_small replicate_append_same)
qed simp

definition blank :: mkfs where
  "blank = mkfs_start\<lparr>mk_img := (replicate FSSIZE (replicate BSIZE 0))[1 := splice (replicate BSIZE 0) 0 (encode_sb mk_sb)]\<rparr>"

lemma length_encode_sb: "length (encode_sb s) = 28"
  by (simp add: encode_sb_def le32_def)

lemma blank_rep: "rep blank []"
  by (simp add: rep_def blank_def mkfs_start_def blocks_used_def img_ok_def mk_consts inum_of_def nth_list_update length_encode_sb)

lemma blank_sb: "decode_sb (sect (mk_img blank) 1) = mk_sb"
  by (simp add: blank_def sect_def decode_sb_def encode_sb_def splice_def get32_def le32_def of_le32_le32)

lemma mkfs_main_start:
  "mkfs_main files mkfs_start = bindK (mk_ialloc T_DIR) (\<lambda>rootino.
      if rootino \<noteq> ROOTINO then Panic ''assert''
      else seqK [
        iappend rootino (mk_dirent rootino [46]),
        iappend rootino (mk_dirent rootino [46, 46]),
        forK files (mk_file rootino),
        bindK (rinode rootino) (\<lambda>din.
          winode rootino (din\<lparr>di_size := (di_size din div of_nat BSIZE + 1) * of_nat BSIZE\<rparr>)),
        bindK (getk mk_freeblock) mk_balloc]) blank"
proof -
  have "mkfs_start\<lparr>mk_img := []\<rparr> = mkfs_start" by (simp add: mkfs_start_def)
  then have "forK [0..<FSSIZE] (\<lambda>i. wsect (of_nat i) (replicate BSIZE 0)) mkfs_start =
      Ret () (mkfs_start\<lparr>mk_img := replicate FSSIZE (replicate BSIZE 0)\<rparr>)"
    using zero_image[of FSSIZE mkfs_start] by simp
  then show ?thesis by (simp add: mkfs_main_def kM_simps blank_def)
qed

lemma mkfs_copied:
  assumes "mkfs_fits files"
  shows "\<exists>s. mkfs_main files mkfs_start = seqK [
        bindK (rinode 1) (\<lambda>din. winode 1 (din\<lparr>di_size := (di_size din div of_nat BSIZE + 1) * of_nat BSIZE\<rparr>)),
        bindK (getk mk_freeblock) mk_balloc] s \<and> rep s (image_files files) \<and> decode_sb (sect (mk_img s) 1) = mk_sb"
proof -
  obtain s1 where s1: "mk_ialloc T_DIR blank = Ret 1 s1" "rep s1 [(T_DIR, [])]" "sect (mk_img s1) 1 = sect (mk_img blank) 1"
    using ialloc_rep[OF blank_rep, of T_DIR] by (auto simp: inum_of_def)
  have small: "blocks_used [(T_DIR, c)] \<le> FSSIZE" if "length c \<le> 32" for c
    using that by (auto simp: blocks_used_def tblk_def nblk_def mk_consts)
  obtain s2 where s2: "iappend 1 (mk_dirent 1 [46]) s1 = Ret () s2" "rep s2 [(T_DIR, mk_dirent 1 [46])]" "sect (mk_img s2) 1 = sect (mk_img s1) 1"
    using iappend_rep[OF s1(2), of 0 T_DIR "[]" "mk_dirent 1 [46]"] small[of "mk_dirent 1 [46]"] by (auto simp: inum_of_def)
  obtain s3 where s3: "iappend 1 (mk_dirent 1 [46, 46]) s2 = Ret () s3" "rep s3 (image_files [])" "sect (mk_img s3) 1 = sect (mk_img s2) 1"
    using iappend_rep[OF s2(2), of 0 T_DIR _ "mk_dirent 1 [46, 46]"] small[of "mk_dirent 1 [46] @ mk_dirent 1 [46, 46]"]
    by (auto simp: inum_of_def image_files_def root_dir_def)
  obtain s4 where s4: "forK files (mk_file 1) s3 = Ret () s4" "rep s4 (image_files files)" "sect (mk_img s4) 1 = sect (mk_img s3) 1"
    using mk_files_rep[OF s3(2) assms] by blast
  have "decode_sb (sect (mk_img s4) 1) = mk_sb" using s1(3) s2(3) s3(3) s4(3) blank_sb by simp
  then show ?thesis using s1(1) s2(1) s3(1) s4(1,2) by (intro exI[of _ s4]) (simp add: mkfs_main_start kM_simps)
qed

lemma bitmap_free_bit: "bitmap_free bs b \<longleftrightarrow> \<not> bit (bs ! (b div 8)) (b mod 8)"
  by (simp add: bitmap_free_def bit_mask_def push_bit_of_1 and_exp_eq_0_iff_not_bit)

lemma bitmap_set_free:
  assumes "length bs = BSIZE" "i < BPB"
  shows "bitmap_free (bitmap_set bs i) b \<longleftrightarrow> b \<noteq> i \<and> bitmap_free bs b"
proof (cases "b div 8 = i div 8")
  case True
  have "i div 8 < BSIZE" using assms(2) by (simp add: div_less_iff_less_mult)
  then have "bitmap_set bs i ! (b div 8) = bs ! (i div 8) OR 2 ^ (i mod 8)"
    using assms(1) True by (simp add: bitmap_set_def bit_mask_def push_bit_of_1)
  moreover have "b mod 8 = i mod 8 \<longleftrightarrow> b = i" using True by (metis div_mod_decomp)
  moreover have "bit (2 ^ (i mod 8) :: byte) (b mod 8) \<longleftrightarrow> b mod 8 = i mod 8" by (auto simp: bit_exp_iff)
  ultimately show ?thesis using True by (auto simp: bitmap_free_bit bit_or_iff)
next
  case False
  then show ?thesis by (auto simp: bitmap_free_bit bitmap_set_def)
qed

lemma bitmap_filled:
  "n \<le> BPB \<Longrightarrow> length (fold (\<lambda>i buf. bitmap_set buf i) [0..<n] (replicate BSIZE 0)) = BSIZE \<and>
   (\<forall>b < BPB. bitmap_free (fold (\<lambda>i buf. bitmap_set buf i) [0..<n] (replicate BSIZE 0)) b \<longleftrightarrow> n \<le> b)"
proof (induction n)
  case 0
  have "bitmap_free (replicate BSIZE 0) b" if "b < BPB" for b
    using that by (simp add: bitmap_free_def div_less_iff_less_mult)
  then show ?case by simp
next
  case (Suc n)
  let ?bs = "fold (\<lambda>i buf. bitmap_set buf i) [0..<n] (replicate BSIZE 0)"
  have "length ?bs = BSIZE" "\<forall>b < BPB. bitmap_free ?bs b \<longleftrightarrow> n \<le> b" using Suc by simp_all
  then show ?case using bitmap_set_free[of ?bs n] Suc.prems by (simp add: bitmap_set_def) auto
qed

text \<open>The last two steps: the size of the root directory, rounded up, and the bitmap.\<close>

definition root_size :: "byte list list \<Rightarrow> uint" where
  "root_size img = (di_size (inode_at img 1) div of_nat BSIZE + 1) * of_nat BSIZE"

definition finished :: "byte list list \<Rightarrow> nat \<Rightarrow> byte list list \<Rightarrow> bool" where
  "finished img fb img' \<longleftrightarrow> same_inode (inode_at img' 1) ((inode_at img 1)\<lparr>di_size := root_size img\<rparr>) \<and>
     (\<forall>j. unat j < 208 \<longrightarrow> j \<noteq> 1 \<longrightarrow> same_inode (inode_at img' j) (inode_at img j)) \<and>
     (\<forall>b. b \<noteq> IBLOCK 1 mk_sb \<longrightarrow> b \<noteq> 58 \<longrightarrow> sect img' b = sect img b) \<and>
     length img' = FSSIZE \<and> (\<forall>b < FSSIZE. length (img' ! b) = BSIZE) \<and>
     (\<forall>b < BPB. bitmap_free (sect img' 58) b \<longleftrightarrow> fb \<le> b)"

lemma mkfs_finish:
  assumes r: "rep s fs"
  shows "\<exists>s'. seqK [
        bindK (rinode 1) (\<lambda>din. winode 1 (din\<lparr>di_size := (di_size din div of_nat BSIZE + 1) * of_nat BSIZE\<rparr>)),
        bindK (getk mk_freeblock) mk_balloc] s = Ret () s' \<and> finished (mk_img s) (blocks_used fs) (mk_img s')"
proof -
  note R = repD[OF r]
  let ?d = "(inode_at (mk_img s) 1)\<lparr>di_size := root_size (mk_img s)\<rparr>"
  have fb: "blocks_used fs \<le> FSSIZE" using R(1,2) by (simp add: img_ok_def)
  obtain img1 where w: "winode 1 ?d s = Ret () (s\<lparr>mk_img := img1\<rparr>)" "img_ok img1 (unat (mk_freeblock s))"
      "same_inode (inode_at img1 1) ?d" "\<forall>j. unat j < 208 \<longrightarrow> j \<noteq> 1 \<longrightarrow> same_inode (inode_at img1 j) (inode_at (mk_img s) j)"
      "\<forall>b. b \<noteq> IBLOCK 1 mk_sb \<longrightarrow> sect img1 b = sect (mk_img s) b"
    using winode_ok[OF R(1), of 1 ?d] by auto
  let ?bm = "fold (\<lambda>i buf. bitmap_set buf i) [0..<blocks_used fs] (replicate BSIZE 0)"
  let ?img2 = "img1[58 := ?bm]"
  have l1: "length img1 = FSSIZE" "\<forall>b < FSSIZE. length (img1 ! b) = BSIZE" using w(2) by (simp_all add: img_ok_def)
  have D: "sect ?img2 = (sect img1)(58 := ?bm)" using sect_update[of 58 img1 ?bm] l1(1) by simp
  have n: "inode_at ?img2 j = inode_at img1 j" if "unat j < 208" for j using iblock_meta[OF that] by (simp add: inode_at_def D)
  have bm: "length ?bm = BSIZE" "\<forall>b < BPB. bitmap_free ?bm b \<longleftrightarrow> blocks_used fs \<le> b" using bitmap_filled[of "blocks_used fs"] fb by simp_all
  have "bindK (rinode 1) (\<lambda>din. winode 1 (din\<lparr>di_size := (di_size din div of_nat BSIZE + 1) * of_nat BSIZE\<rparr>)) s =
      Ret () (s\<lparr>mk_img := img1\<rparr>)"
    using w(1) rinode_ok[OF R(1), of 1] by (simp add: kM_simps root_size_def)
  moreover have "bindK (getk mk_freeblock) mk_balloc (s\<lparr>mk_img := img1\<rparr>) = Ret () (s\<lparr>mk_img := ?img2\<rparr>)"
    using R(2) fb l1(1) by (simp add: getk_def mk_balloc_def kM_simps mk_sb_def mk_consts)
  moreover have "finished (mk_img s) (blocks_used fs) ?img2"
    unfolding finished_def using w(3-5) n D l1 bm by (simp add: nth_list_update)
  ultimately show ?thesis by (intro exI[of _ "s\<lparr>mk_img := ?img2\<rparr>"]) (simp add: kM_simps)
qed

definition file_addrs :: "byte list list \<Rightarrow> nat \<Rightarrow> nat \<Rightarrow> uint" where
  "file_addrs img k = di_addrs (inode_at img (inum_of k))"

lemma rep_file:
  assumes r: "rep s fs" and k: "k < length fs"
  shows "map_ok (sect (mk_img s)) (blocks_used fs) (file_addrs (mk_img s) k) (length (snd (fs ! k)))"
    "file_bytes (sect (mk_img s)) (file_addrs (mk_img s) k) (length (snd (fs ! k))) = snd (fs ! k)"
    "own_of (mk_img s) (inum_of k) = owned (sect (mk_img s)) (file_addrs (mk_img s) k) (length (snd (fs ! k)))"
    "unat (di_size (inode_at (mk_img s) (inum_of k))) = length (snd (fs ! k))"
    "di_type (inode_at (mk_img s) (inum_of k)) = fst (fs ! k)" "di_nlink (inode_at (mk_img s) (inum_of k)) = 1"
  using repD(2)[OF r] repD(5)[OF r k] holds_file_size[OF repD(5)[OF r k]]
  by (simp_all add: holds_file_def file_of_def own_of_def file_addrs_def)

text \<open>The last two steps keep the type, the links and the contents of every file.\<close>

lemma finished_file:
  assumes r: "rep s fs" and f: "finished (mk_img s) fb img'" and k: "k < length fs"
  defines "n \<equiv> length (snd (fs ! k))"
  shows "di_type (inode_at img' (inum_of k)) = fst (fs ! k)" "di_nlink (inode_at img' (inum_of k)) = 1"
    "di_size (inode_at img' (inum_of k)) = (if k = 0 then root_size (mk_img s) else di_size (inode_at (mk_img s) (inum_of k)))"
    "map_ok (sect img') (blocks_used fs) (file_addrs img' k) n" "file_bytes (sect img') (file_addrs img' k) n = snd (fs ! k)"
    "owned (sect img') (file_addrs img' k) n = own_of (mk_img s) (inum_of k)"
proof -
  let ?img = "mk_img s"
  note R = repD[OF r] and H = rep_file[OF r k, folded n_def]
  have i1: "inum_of 0 = 1" by (simp add: inum_of_def)
  have i: "same_inode (inode_at img' (inum_of k))
      (if k = 0 then (inode_at ?img 1)\<lparr>di_size := root_size ?img\<rparr> else inode_at ?img (inum_of k))"
    using f R(7)[OF k] R(4) k inum_of(3)[of k 0] i1 by (auto simp: finished_def)
  then show "di_type (inode_at img' (inum_of k)) = fst (fs ! k)" "di_nlink (inode_at img' (inum_of k)) = 1"
      "di_size (inode_at img' (inum_of k)) = (if k = 0 then root_size ?img else di_size (inode_at ?img (inum_of k)))"
    using i1 H(5,6) by (auto simp: same_inode_def)
  have "same_inode (inode_at img' (inum_of k)\<lparr>di_size := 0\<rparr>) (inode_at ?img (inum_of k)\<lparr>di_size := 0\<rparr>)"
    using i i1 by (auto simp: same_inode_def split: if_splits)
  note S = same_inode_map[OF this, simplified, folded file_addrs_def]
  have "sect img' b = sect ?img b" if "b \<in> owned (sect ?img) (file_addrs ?img k) n" for b
  proof -
    have "nmeta \<le> unat b" using that R(8)[OF k] H(3) by blast
    then have "b \<noteq> 58" "b \<noteq> IBLOCK 1 mk_sb" using iblock_meta[of 1] by (auto simp: mk_consts)
    then show ?thesis using f by (simp add: finished_def)
  qed
  note O = map_ok_other[OF H(1) this]
  show "map_ok (sect img') (blocks_used fs) (file_addrs img' k) n" "file_bytes (sect img') (file_addrs img' k) n = snd (fs ! k)"
    "owned (sect img') (file_addrs img' k) n = own_of ?img (inum_of k)"
    using O H(2,3) by (simp_all add: S)
qed

section \<open>The finished image\<close>

text \<open>
  What \<open>mkfs\<close> promises: the superblock, inode 1 with the root directory and the inodes after it with the files,
  each on blocks of its own in the data area, and a bitmap that marks as used exactly the blocks below the first
  block that was not given out. The size of the root directory is rounded up, always to a larger size.
\<close>

definition built :: "(byte list \<times> byte list list) list \<Rightarrow> byte list list \<Rightarrow> bool" where
  "built files img \<longleftrightarrow> (let fs = image_files files; D = sect img; len = (\<lambda>k. length (snd (fs ! k))) in
     length img = FSSIZE \<and> (\<forall>b < FSSIZE. length (img ! b) = BSIZE) \<and> decode_sb (D 1) = mk_sb \<and>
     (\<forall>k < length fs. di_type (inode_at img (inum_of k)) = fst (fs ! k) \<and> di_nlink (inode_at img (inum_of k)) = 1 \<and>
        unat (di_size (inode_at img (inum_of k))) = (if k = 0 then (len 0 div BSIZE + 1) * BSIZE else len k) \<and>
        file_bytes D (file_addrs img k) (len k) = snd (fs ! k) \<and> map_ok D (blocks_used fs) (file_addrs img k) (len k) \<and>
        (\<forall>l < length fs. k \<noteq> l \<longrightarrow> owned D (file_addrs img k) (len k) \<inter> owned D (file_addrs img l) (len l) = {})) \<and>
     (\<forall>b < BPB. bitmap_free (D (sb_bmapstart mk_sb)) b \<longleftrightarrow> blocks_used fs \<le> b))"

lemma image_files_nth: "length (image_files files) = length files + 1" "image_files files ! 0 = (T_DIR, root_dir files)"
  "image_files files ! Suc k = map (\<lambda>f. (T_FILE, concat (snd f))) files ! k"
  by (simp_all add: image_files_def)

lemma root_size_length:
  assumes "rep s (image_files files)" "length files < 199"
  shows "unat (root_size (mk_img s)) = (length (root_dir files) div BSIZE + 1) * BSIZE"
proof -
  have l: "length (root_dir files) < 3500" using assms(2) by (simp add: length_root_dir)
  have "unat (di_size (inode_at (mk_img s) 1)) = length (root_dir files)"
    using rep_file(4)[OF assms(1), of 0] by (simp add: image_files_nth inum_of_def)
  then have "unat (di_size (inode_at (mk_img s) 1) div of_nat BSIZE) = length (root_dir files) div BSIZE" by (simp add: unat_div)
  moreover have "length (root_dir files) div BSIZE < 7" using l by (simp add: div_less_iff_less_mult)
  ultimately show ?thesis by (simp add: root_size_def unat_word_ariths)
qed

lemma mkfs_built:
  assumes "mkfs_fits files"
  shows "\<exists>s. mkfs_main files mkfs_start = Ret () s \<and> built files (mk_img s)"
proof -
  let ?fs = "image_files files"
  obtain s where s: "mkfs_main files mkfs_start = seqK [
        bindK (rinode 1) (\<lambda>din. winode 1 (din\<lparr>di_size := (di_size din div of_nat BSIZE + 1) * of_nat BSIZE\<rparr>)),
        bindK (getk mk_freeblock) mk_balloc] s" "rep s ?fs" "decode_sb (sect (mk_img s) 1) = mk_sb"
    using mkfs_copied[OF assms] by blast
  obtain s' where s': "mkfs_main files mkfs_start = Ret () s'" "finished (mk_img s) (blocks_used ?fs) (mk_img s')"
    using mkfs_finish[OF s(2)] s(1) by auto
  note F = finished_file[OF s(2) s'(2)]
  have "decode_sb (sect (mk_img s') 1) = mk_sb" using s'(2) s(3) iblock_meta[of 1] by (force simp: finished_def)
  moreover have "unat (root_size (mk_img s)) = (length (snd (?fs ! 0)) div BSIZE + 1) * BSIZE"
    using root_size_length[OF s(2)] assms by (simp add: image_files_nth mkfs_fits_def)
  moreover have "sb_bmapstart mk_sb = 58" by (simp add: mk_sb_def mk_consts)
  ultimately have "built files (mk_img s')" unfolding built_def Let_def
    using s'(2) F rep_file(4)[OF s(2)] repD(6)[OF s(2)] by (simp add: finished_def)
  then show ?thesis using s'(1) by blast
qed

lemma built_file:
  assumes "built files img" "k < length files"
  shows "di_type (inode_at img (inum_of (k + 1))) = T_FILE" "di_nlink (inode_at img (inum_of (k + 1))) = 1"
    "own_of img (inum_of (k + 1)) = owned (sect img) (file_addrs img (k + 1)) (length (concat (snd (files ! k))))"
    "file_of img (inum_of (k + 1)) = concat (snd (files ! k))"
    "map_ok (sect img) (blocks_used (image_files files)) (file_addrs img (k + 1)) (length (concat (snd (files ! k))))"
    "unat (di_size (inode_at img (inum_of (k + 1)))) = length (concat (snd (files ! k)))"
proof -
  have n: "k + 1 < length (image_files files)" "image_files files ! (k + 1) = (T_FILE, concat (snd (files ! k)))"
    using assms(2) by (simp_all add: image_files_nth)
  then show "di_type (inode_at img (inum_of (k + 1))) = T_FILE" "di_nlink (inode_at img (inum_of (k + 1))) = 1"
      "map_ok (sect img) (blocks_used (image_files files)) (file_addrs img (k + 1)) (length (concat (snd (files ! k))))"
      and sz: "unat (di_size (inode_at img (inum_of (k + 1)))) = length (concat (snd (files ! k)))"
    using assms(1) unfolding built_def Let_def by force+
  have "file_bytes (sect img) (file_addrs img (k + 1)) (length (concat (snd (files ! k)))) = concat (snd (files ! k))"
    using assms(1) n unfolding built_def Let_def by (metis snd_conv)
  then show "file_of img (inum_of (k + 1)) = concat (snd (files ! k))"
      "own_of img (inum_of (k + 1)) = owned (sect img) (file_addrs img (k + 1)) (length (concat (snd (files ! k))))"
    using sz by (simp_all add: file_of_def own_of_def file_addrs_def)
qed

lemma built_disjoint:
  assumes "built files img" "k < length files" "l < length files" "k \<noteq> l"
  shows "own_of img (inum_of (k + 1)) \<inter> own_of img (inum_of (l + 1)) = {}"
proof -
  have "k + 1 < length (image_files files)" "l + 1 < length (image_files files)" "k + 1 \<noteq> l + 1"
    using assms(2-4) by (simp_all add: image_files_nth)
  then have "owned (sect img) (file_addrs img (k + 1)) (length (snd (image_files files ! (k + 1)))) \<inter>
      owned (sect img) (file_addrs img (l + 1)) (length (snd (image_files files ! (l + 1)))) = {}"
    using assms(1) unfolding built_def Let_def by blast
  then show ?thesis using built_file(3)[OF assms(1)] assms(2,3) by (simp add: image_files_nth)
qed

lemma built_root:
  assumes "built files img"
  shows "di_type (inode_at img 1) = T_DIR" "di_nlink (inode_at img 1) = 1"
    "unat (di_size (inode_at img 1)) = (length (root_dir files) div BSIZE + 1) * BSIZE"
    "file_bytes (sect img) (di_addrs (inode_at img 1)) (length (root_dir files)) = root_dir files"
    "map_ok (sect img) (blocks_used (image_files files)) (di_addrs (inode_at img 1)) (length (root_dir files))"
proof -
  have "inum_of 0 = 1" "0 < length (image_files files)" "image_files files ! 0 = (T_DIR, root_dir files)"
    by (simp_all add: inum_of_def image_files_nth)
  then show "di_type (inode_at img 1) = T_DIR" "di_nlink (inode_at img 1) = 1"
    "unat (di_size (inode_at img 1)) = (length (root_dir files) div BSIZE + 1) * BSIZE"
    "file_bytes (sect img) (di_addrs (inode_at img 1)) (length (root_dir files)) = root_dir files"
    "map_ok (sect img) (blocks_used (image_files files)) (di_addrs (inode_at img 1)) (length (root_dir files))"
    using assms unfolding built_def Let_def file_addrs_def by (force, force, force, metis snd_conv, metis snd_conv)
qed

text \<open>
  C5: \<open>mkfs\<close> builds the file system it is asked for. For files that fit, it finishes without a failed assertion,
  and the image has the superblock; inode 1 is the root directory, which lists ".", ".." and every file under its
  name without a leading underscore, with its size rounded up to more than its entries take; and the inodes after
  it are the files, with exactly their bytes, through the indirect block for the large ones. No two files share a
  block, every block of a file lies in the data area, and the bitmap marks as used exactly the blocks below the
  first one not given out.
\<close>
theorem mkfs_image:
  assumes "mkfs_fits files"
  shows "\<exists>s. mkfs_main files mkfs_start = Ret () s \<and> (let img = mk_img s; used = blocks_used (image_files files) in
    length img = FSSIZE \<and> decode_sb (sect img 1) = mk_sb \<and>
    di_type (inode_at img 1) = T_DIR \<and> di_nlink (inode_at img 1) = 1 \<and>
    unat (di_size (inode_at img 1)) = (length (root_dir files) div BSIZE + 1) * BSIZE \<and>
    file_bytes (sect img) (di_addrs (inode_at img 1)) (length (root_dir files)) = root_dir files \<and>
    (\<forall>k < length files. di_type (inode_at img (inum_of (k + 1))) = T_FILE \<and> di_nlink (inode_at img (inum_of (k + 1))) = 1 \<and>
       file_of img (inum_of (k + 1)) = concat (snd (files ! k)) \<and>
       (\<forall>b \<in> own_of img (inum_of (k + 1)). nmeta \<le> unat b \<and> unat b < used) \<and>
       (\<forall>l < length files. k \<noteq> l \<longrightarrow> own_of img (inum_of (k + 1)) \<inter> own_of img (inum_of (l + 1)) = {})) \<and>
    (\<forall>b < BPB. bitmap_free (sect img (sb_bmapstart mk_sb)) b \<longleftrightarrow> used \<le> b))"
proof -
  obtain s where s: "mkfs_main files mkfs_start = Ret () s" "built files (mk_img s)" using mkfs_built[OF assms] by blast
  let ?img = "mk_img s" and ?fs = "image_files files"
  have i1: "inum_of 0 = 1" by (simp add: inum_of_def)
  have B: "length ?img = FSSIZE" "decode_sb (sect ?img 1) = mk_sb"
      "\<forall>b < BPB. bitmap_free (sect ?img (sb_bmapstart mk_sb)) b \<longleftrightarrow> blocks_used ?fs \<le> b"
    using s(2) by (simp_all add: built_def Let_def)
  have F: "di_type (inode_at ?img (inum_of (k + 1))) = T_FILE \<and> di_nlink (inode_at ?img (inum_of (k + 1))) = 1 \<and>
      file_of ?img (inum_of (k + 1)) = concat (snd (files ! k)) \<and>
      (\<forall>b \<in> own_of ?img (inum_of (k + 1)). nmeta \<le> unat b \<and> unat b < blocks_used ?fs) \<and>
      (\<forall>l < length files. k \<noteq> l \<longrightarrow> own_of ?img (inum_of (k + 1)) \<inter> own_of ?img (inum_of (l + 1)) = {})"
    if k: "k < length files" for k
    using built_file[OF s(2) k] built_file(3)[OF s(2)] built_disjoint[OF s(2) k] k owned_meta by auto
  show ?thesis using s(1) B F built_root[OF s(2)] by (intro exI[of _ s]) (simp add: Let_def)
qed

theorem mkfs_image_witness:
  "\<exists>s. mkfs_main [([95, 97], [[1, 2, 3]])] mkfs_start = Ret () s \<and> file_of (mk_img s) 2 = [1, 2, 3] \<and>
    di_type (inode_at (mk_img s) 1) = T_DIR"
proof -
  have "mkfs_fits [([95, 97], [[1, 2, 3]])]"
    by (simp add: mkfs_fits_def blocks_used_def image_files_def length_root_dir tblk_def nblk_def mk_consts)
  from mkfs_image[OF this] show ?thesis by (auto simp: Let_def inum_of_def)
qed

end
