(* ===== verification/Fs_Boot.thy ===== *)
theory Fs_Boot
  imports Mkfs
begin

text \<open>
  The kernel reads what \<open>mkfs\<close> wrote: \<open>namei\<close> finds a file of the image by its name, \<open>ilock\<close> loads its inode and
  \<open>readi\<close> returns its bytes. The first part is about the inode cache: the operations that take, lock, unlock and
  drop an inode keep every inode of the cache that is marked valid equal to the inode on the disk.
\<close>

section \<open>The inode cache\<close>

definition disk_inode :: "kernel \<Rightarrow> uint \<Rightarrow> dinode" where
  "disk_inode K inum = decode_dinode (view K (IBLOCK inum (sb K))) (unat inum mod IPB)"

definition loaded :: "inode \<Rightarrow> dinode \<Rightarrow> bool" where
  "loaded x d \<longleftrightarrow> i_type x = di_type d \<and> i_nlink x = di_nlink d \<and> i_size x = di_size d \<and> i_addrs x = di_addrs d"

text \<open>\<open>L\<close> is the set of inodes the running process has locked; the others are free.\<close>

definition inodes_ok :: "nat set \<Rightarrow> kernel \<Rightarrow> bool" where
  "inodes_ok L K \<longleftrightarrow> cache_ok {} K \<and> card (pinned K) < NBUF \<and>
     (\<forall>i < NINODE. (sl_locked (sleeplocks K (InodeSl i)) \<noteq> 0 \<longleftrightarrow> i \<in> L) \<and>
        (i \<in> L \<longrightarrow> (\<exists>p. c_proc (cpu_of K) = Some p \<and> sl_pid (sleeplocks K (InodeSl i)) = p_pid (ptable K p))) \<and>
        (0 < i_ref (icache K i) \<longrightarrow> i_dev (icache K i) = 1 \<longrightarrow> i_valid (icache K i) \<noteq> 0 \<longrightarrow>
           loaded (icache K i) (disk_inode K (i_inum (icache K i)))))"

text \<open>What none of the operations below changes.\<close>

definition same_disk :: "kernel \<Rightarrow> kernel \<Rightarrow> bool" where
  "same_disk K K' \<longleftrightarrow> view K' = view K \<and> disk K' = disk K \<and> disksize K' = disksize K \<and> sb K' = sb K \<and>
     cpus K' = cpus K \<and> locks K' = locks K \<and> eflags_if K' = eflags_if K"

lemma same_disk_trans: "same_disk K K1 \<Longrightarrow> same_disk K1 K2 \<Longrightarrow> same_disk K K2"
  by (simp add: same_disk_def)

lemma same_disk_refl [simp]: "same_disk K K"
  by (simp add: same_disk_def)

lemma same_disk_inode: "same_disk K K' \<Longrightarrow> disk_inode K' = disk_inode K"
  by (simp add: same_disk_def disk_inode_def fun_eq_iff)

lemma read_only_ok: "read_only K K' \<Longrightarrow> same_disk K K' \<and> (inodes_ok L K \<longrightarrow> inodes_ok L K')"
  by (auto simp: read_only_def reading_def same_disk_def inodes_ok_def disk_inode_def)

lemma set_inode_sel [simp]:
  "sleeplocks (set_inode i f K) = sleeplocks K" "ptable (set_inode i f K) = ptable K" "disksize (set_inode i f K) = disksize K"
  "sb (set_inode i f K) = sb K" "cpu_of (set_inode i f K) = cpu_of K" "pinned (set_inode i f K) = pinned K"
  "icache (set_inode i f K) = (icache K)(i := f (icache K i))"
  by (auto simp: set_inode_def cpu_of_def this_cpu_def pinned_def caches_def)

lemma set_inode_disk [simp]: "same_disk K (set_inode i f K)" "disk_inode (set_inode i f K) = disk_inode K"
  by (simp_all add: same_disk_def disk_inode_def fun_eq_iff)

lemma inodes_ok_set:
  assumes "inodes_ok L K" "0 < i_ref (f (icache K i)) \<Longrightarrow> i_dev (f (icache K i)) = 1 \<Longrightarrow> i_valid (f (icache K i)) \<noteq> 0 \<Longrightarrow>
    loaded (f (icache K i)) (disk_inode K (i_inum (f (icache K i))))"
  shows "inodes_ok L (set_inode i f K)"
  using assms by (simp add: inodes_ok_def)

text \<open>\<open>iget\<close>.\<close>

lemma iget_state_ok:
  assumes "inodes_ok L K" "inode_room K"
  shows "inodes_ok L (iget_state n K)" "same_disk K (iget_state n K)"
proof -
  show "same_disk K (iget_state n K)" by (simp add: iget_state_def split: option.split)
  have "loaded (icache K i) (disk_inode K (i_inum (icache K i)))" if "icached n K = Some i" "i_valid (icache K i) \<noteq> 0" for i
    using that assms(1) by (auto simp: icached_def find_Some_iff inodes_ok_def)
  then show "inodes_ok L (iget_state n K)"
    using assms(1) by (auto simp: iget_state_def loaded_def split: option.split intro!: inodes_ok_set)
qed

section \<open>Locking an inode\<close>

definition locked_inode :: "kernel \<Rightarrow> nat \<Rightarrow> kernel \<Rightarrow> bool" where
  "locked_inode K ip K' \<longleftrightarrow> same_disk K K' \<and> (\<forall>j. j \<noteq> ip \<longrightarrow> icache K' j = icache K j) \<and>
     i_ref (icache K' ip) = i_ref (icache K ip) \<and> i_dev (icache K' ip) = i_dev (icache K ip) \<and>
     i_inum (icache K' ip) = i_inum (icache K ip) \<and> i_valid (icache K' ip) \<noteq> 0 \<and>
     loaded (icache K' ip) (disk_inode K (i_inum (icache K ip)))"

lemma set_sl_inode:
  fixes ip :: nat
  assumes "inodes_ok L K" "c_proc (cpu_of K) = Some p"
  defines "K' \<equiv> set_sl (InodeSl ip) (\<lambda>s. s\<lparr>sl_locked := 1, sl_pid := p_pid (ptable K p)\<rparr>) K"
  shows "inodes_ok (insert ip L) K'" "same_disk K K'" "icache K' = icache K"
proof -
  have v: "view K' = view K" "pinned K' = pinned K" "cpu_of K' = cpu_of K" "ptable K' = ptable K"
    by (simp_all add: K'_def set_sl_def view_def pinned_def caches_def cpu_of_def this_cpu_def fun_eq_iff cong: option.case_cong)
  show s: "same_disk K K'" "icache K' = icache K" unfolding same_disk_def v(1) by (simp_all add: K'_def set_sl_def)
  have "cache_ok {} K'" using assms(1) by (auto simp: inodes_ok_def cache_ok_def K'_def set_sl_def cpu_of_def this_cpu_def)
  then show "inodes_ok (insert ip L) K'"
    using assms(1,2) unfolding inodes_ok_def v s(2) same_disk_inode[OF s(1)] by (auto simp: K'_def set_sl_def)
qed

lemma give_buf_inode: "give_buf i (set_inode ip f K) = set_inode ip f (give_buf i K)"
  by (simp add: give_buf_def set_inode_def set_sl_def set_buf_def)

lemma runs_inode_acquire:
  assumes "idle B" "inodes_ok L K" "ip < NINODE" "ip \<notin> L"
  obtains K1 where "runs B [] (acquiresleep (InodeSl ip)) K () [] K1" "inodes_ok (insert ip L) K1" "same_disk K K1" "icache K1 = icache K"
proof -
  obtain p where p: "c_proc (cpu_of K) = Some p" using assms(2) by (auto simp: inodes_ok_def cache_ok_def)
  have "runs B [] (acquiresleep (InodeSl ip)) K () [] (set_sl (InodeSl ip) (\<lambda>s. s\<lparr>sl_locked := 1, sl_pid := p_pid (ptable K p)\<rparr>) K)"
    using assms p by (intro runs_acquiresleep) (auto simp: inodes_ok_def)
  then show ?thesis using that set_sl_inode[OF assms(2) p, of ip] by blast
qed

text \<open>What \<open>ilock\<close> does for an inode that is not valid yet, once it has the lock.\<close>

abbreviation (input) fill_inode :: "nat \<Rightarrow> unit kprog" where
  "fill_inode ip \<equiv> bindK (geti ip (\<lambda>x. x)) (\<lambda>x. bindK (gets sb) (\<lambda>s.
      bindK (bread (i_dev x) (IBLOCK (i_inum x) s)) (\<lambda>bp.
      bindK (getb bp (\<lambda>b. decode_dinode (b_data b) (unat (i_inum x) mod IPB))) (\<lambda>d. seqK [
        modi ip (\<lambda>x. x\<lparr>i_type := di_type d, i_major := di_major d, i_minor := di_minor d, i_nlink := di_nlink d,
          i_size := di_size d, i_addrs := di_addrs d\<rparr>),
        brelse bp,
        modi ip (\<lambda>x. x\<lparr>i_valid := 1\<rparr>),
        bindK (geti ip i_type) (\<lambda>t. if t = 0 then Panic ''ilock: no type'' else Ret ())]))))"

definition load_inode :: "dinode \<Rightarrow> inode \<Rightarrow> inode" where
  "load_inode d x = x\<lparr>i_type := di_type d, i_major := di_major d, i_minor := di_minor d, i_nlink := di_nlink d,
     i_size := di_size d, i_addrs := di_addrs d\<rparr>"

lemma loaded_inode:
  assumes "inodes_ok L K1" "same_disk K K1" "icache K1 = icache K" "i_valid (icache K ip) = 0" and r: "read_only K1 K2"
  defines "K3 \<equiv> set_inode ip (\<lambda>x. x\<lparr>i_valid := 1\<rparr>) (set_inode ip (load_inode (disk_inode K (i_inum (icache K ip)))) K2)"
  shows "inodes_ok L K3" "locked_inode K ip K3"
proof -
  let ?d = "disk_inode K (i_inum (icache K ip))"
  have s: "same_disk K K2" and ok: "inodes_ok L K2" and ic: "icache K2 = icache K"
    using read_only_ok[OF r] assms(1-3) same_disk_trans[OF assms(2)] read_onlyD(5)[OF r] by auto
  have "inodes_ok L (set_inode ip (load_inode ?d) K2)"
    using ok assms(4) by (intro inodes_ok_set) (simp_all add: ic load_inode_def)
  then show "inodes_ok L K3" unfolding K3_def
    by (rule inodes_ok_set) (simp add: ic loaded_def load_inode_def same_disk_inode[OF s])
  have "same_disk K K3" unfolding K3_def by (rule same_disk_trans[OF same_disk_trans[OF s set_inode_disk(1)] set_inode_disk(1)])
  then show "locked_inode K ip K3" unfolding K3_def by (simp add: locked_inode_def ic loaded_def load_inode_def)
qed

lemma runs_load:
  assumes B: "idle B" and K: "cache_ok {} K" "card (pinned K) < NBUF"
    and x: "i_dev (icache K ip) = 1" "IBLOCK (i_inum (icache K ip)) (sb K) < disksize K"
    and d: "d = disk_inode K (i_inum (icache K ip))" "di_type d \<noteq> 0"
  shows "\<exists>K2. read_only K K2 \<and> runs B [] (fill_inode ip) K () [] (set_inode ip (\<lambda>x. x\<lparr>i_valid := 1\<rparr>) (set_inode ip (load_inode d) K2))"
proof -
  let ?x = "icache K ip" and ?v = "\<lambda>x. x\<lparr>i_valid := 1\<rparr> :: inode"
  obtain i K1 where k: "runs B [] (bread 1 (IBLOCK (i_inum ?x) (sb K))) K i [] K1" "b_data (bcache K1 i) = view K (IBLOCK (i_inum ?x) (sb K))"
      "icache K1 = icache K" "cache_ok {i} K1" "read_only K (give_buf i K1)"
    using runs_take_block[OF B K x(2)] by blast
  have br: "runs B [] (brelse i) (set_inode ip (load_inode d) K1) () [] (set_inode ip (load_inode d) (give_buf i K1))"
    unfolding give_buf_inode[symmetric] using k(4) by (intro runs_brelse[OF B, where H = "{i}"]) simp_all
  let ?K4 = "set_inode ip ?v (set_inode ip (load_inode d) (give_buf i K1))"
  have t: "runs B [] (bindK (geti ip i_type) (\<lambda>t. if t = 0 then Panic ''ilock: no type'' else Ret ())) ?K4 () [] ?K4"
    using d(2) by (intro runs_bind[OF runs_geti[where v = "di_type d"]]) (simp_all add: runs_Ret load_inode_def)
  have l: "runs B [] (seqK [modi ip (load_inode d), brelse i, modi ip ?v,
      bindK (geti ip i_type) (\<lambda>t. if t = 0 then Panic ''ilock: no type'' else Ret ())]) K1 () [] ?K4"
    by (rule runs_seq(2)[OF runs_modi] runs_seq(2)[OF br] runs_seq(2)[OF t] runs_seq(1) refl)+
  have g: "runs B [] (gets sb) K (sb K) [] K" by (rule runs_gets) simp
  have gb: "runs B [] (getb i (\<lambda>b. decode_dinode (b_data b) (unat (i_inum ?x) mod IPB))) K1 d [] K1"
    by (rule runs_getb) (simp add: k(2) disk_inode_def d(1))
  have lf: "load_inode d = (\<lambda>x. x\<lparr>i_type := di_type d, i_major := di_major d, i_minor := di_minor d, i_nlink := di_nlink d,
      i_size := di_size d, i_addrs := di_addrs d\<rparr>)" by (simp add: fun_eq_iff load_inode_def)
  show ?thesis unfolding lf
    by (intro exI[of _ "give_buf i K1"] conjI k(5), rule runs_bind[OF runs_geti[OF refl]], unfold x(1),
      rule runs_bind[OF g], rule runs_bind[OF k(1)], rule runs_bind[OF gb], rule l[unfolded lf])
qed

lemma runs_ilock:
  assumes B: "idle B" and K: "inodes_ok L K" and ip: "ip < NINODE" "ip \<notin> L" "0 < i_ref (icache K ip)" "i_dev (icache K ip) = 1"
    and d: "IBLOCK (i_inum (icache K ip)) (sb K) < disksize K" "di_type (disk_inode K (i_inum (icache K ip))) \<noteq> 0"
  shows "\<exists>K'. runs B [] (ilock (Some ip)) K () [] K' \<and> inodes_ok (insert ip L) K' \<and> locked_inode K ip K'"
proof -
  let ?x = "icache K ip"
  obtain K1 where a: "runs B [] (acquiresleep (InodeSl ip)) K () [] K1" and K1: "inodes_ok (insert ip L) K1" "same_disk K K1" "icache K1 = icache K"
    using runs_inode_acquire[OF B K ip(1,2)] by blast
  have r: "\<not> i_ref ?x < 1" using ip(3) by simp
  show ?thesis
  proof (cases "i_valid ?x = 0")
    case False
    have "runs B [] (ilock (Some ip)) K () [] K1"
      unfolding ilock_def option.case using r False K1(3)
      by (intro runs_bind[OF runs_geti[OF refl]]) (auto intro!: runs_then[OF a] runs_bind[OF runs_geti[OF refl]] intro: runs_Ret)
    moreover have "loaded ?x (disk_inode K (i_inum ?x))" using K ip False by (simp add: inodes_ok_def)
    ultimately show ?thesis using K1 False by (intro exI[of _ K1]) (simp add: locked_inode_def)
  next
    case True
    have q: "cache_ok {} K1" "card (pinned K1) < NBUF" "i_dev (icache K1 ip) = 1" "IBLOCK (i_inum (icache K1 ip)) (sb K1) < disksize K1"
        "disk_inode K (i_inum ?x) = disk_inode K1 (i_inum (icache K1 ip))"
      using K1 d(1) ip(4) by (simp_all add: inodes_ok_def same_disk_def disk_inode_def)
    obtain K2 where l: "read_only K1 K2" and run: "runs B [] (fill_inode ip) K1 () [] (set_inode ip (\<lambda>x. x\<lparr>i_valid := 1\<rparr>) (set_inode ip (load_inode (disk_inode K (i_inum ?x))) K2))"
      using runs_load[OF B q d(2)] by blast
    have "runs B [] (ilock (Some ip)) K () [] (set_inode ip (\<lambda>x. x\<lparr>i_valid := 1\<rparr>) (set_inode ip (load_inode (disk_inode K (i_inum ?x))) K2))"
      unfolding ilock_def option.case
      by (rule runs_bind[OF runs_geti[OF refl]], unfold if_not_P[OF r], rule runs_then[OF a],
        rule runs_bind[OF runs_geti[OF refl]], unfold K1(3) True whenK_def if_P[OF refl], rule run)
    then show ?thesis using loaded_inode[OF K1 True l] by blast
  qed
qed

section \<open>Unlocking and dropping an inode\<close>

lemma runs_inode_release:
  assumes "idle B" "inodes_ok L K"
  obtains K1 where "runs B [] (releasesleep (InodeSl ip)) K () [] K1" "inodes_ok (L - {ip}) K1" "same_disk K K1" "icache K1 = icache K"
proof -
  let ?K1 = "(set_sl (InodeSl ip) (\<lambda>s. s\<lparr>sl_locked := 0, sl_pid := 0\<rparr>) K)
    \<lparr>ptable := woken (Some (ChSleeplock (InodeSl ip))) (ptable K)\<rparr>"
  have v: "view ?K1 = view K" "pinned ?K1 = pinned K" "cpu_of ?K1 = cpu_of K" "\<And>p. p_pid (ptable ?K1 p) = p_pid (ptable K p)"
    by (simp_all add: set_sl_def view_def pinned_def caches_def cpu_of_def this_cpu_def woken_def fun_eq_iff cong: option.case_cong)
  have s: "same_disk K ?K1" "icache ?K1 = icache K" unfolding same_disk_def v(1) by (simp_all add: set_sl_def)
  have "cache_ok {} ?K1" using assms(2) by (auto simp: inodes_ok_def cache_ok_def set_sl_def cpu_of_def this_cpu_def)
  then have "inodes_ok (L - {ip}) ?K1"
    using assms(2) unfolding inodes_ok_def v s(2) same_disk_inode[OF s(1)] by (simp add: set_sl_def)
  then show ?thesis using that[OF _ _ s] runs_releasesleep[OF assms(1), of "InodeSl ip" "[]" K] by simp
qed

lemma runs_iunlock:
  assumes B: "idle B" and K: "inodes_ok L K" and ip: "ip < NINODE" "ip \<in> L" "0 < i_ref (icache K ip)"
  obtains K1 where "runs B [] (iunlock (Some ip)) K () [] K1" "inodes_ok (L - {ip}) K1" "same_disk K K1" "icache K1 = icache K"
proof -
  obtain p where p: "c_proc (cpu_of K) = Some p" "sl_pid (sleeplocks K (InodeSl ip)) = p_pid (ptable K p)"
      "sl_locked (sleeplocks K (InodeSl ip)) \<noteq> 0"
    using K ip(1,2) unfolding inodes_ok_def by blast
  have h: "runs B [] (holdingsleep (InodeSl ip)) K True [] K" using B p by (intro runs_holdingsleep) auto
  obtain K1 where r: "runs B [] (releasesleep (InodeSl ip)) K () [] K1" "inodes_ok (L - {ip}) K1" "same_disk K K1" "icache K1 = icache K"
    using runs_inode_release[OF B K] by blast
  have "runs B [] (iunlock (Some ip)) K () [] K1"
    unfolding iunlock_def option.case using ip(3)
    by (intro runs_bind[OF h] runs_bind[OF runs_geti[OF refl]]) (simp add: r(1))
  then show ?thesis using that r(2-4) by blast
qed

lemma runs_iput:
  assumes B: "idle B" and K: "inodes_ok L K" and ip: "ip < NINODE" "ip \<notin> L" "i_valid (icache K ip) = 0 \<or> i_nlink (icache K ip) \<noteq> 0"
  obtains K1 where "runs B [] (iput ip) K () [] K1" "inodes_ok L K1" "same_disk K K1"
    "icache K1 = (icache K)(ip := (icache K ip)\<lparr>i_ref := i_ref (icache K ip) - 1\<rparr>)"
proof -
  let ?f = "\<lambda>x. x\<lparr>i_ref := i_ref x - 1\<rparr> :: inode"
  obtain K1 where a: "runs B [] (acquiresleep (InodeSl ip)) K () [] K1" "inodes_ok (insert ip L) K1" "same_disk K K1" "icache K1 = icache K"
    using runs_inode_acquire[OF B K ip(1,2)] by blast
  obtain K2 where b: "runs B [] (releasesleep (InodeSl ip)) K1 () [] K2" "inodes_ok (insert ip L - {ip}) K2" "same_disk K1 K2" "icache K2 = icache K1"
    using runs_inode_release[OF B a(2)] by blast
  have ok: "inodes_ok L K2" using b(2) ip(2) by simp
  have "inodes_ok L (set_inode ip ?f K2)"
    using ok ip(1) by (intro inodes_ok_set) (auto simp: inodes_ok_def loaded_def)
  moreover have "same_disk K (set_inode ip ?f K2)" by (rule same_disk_trans[OF same_disk_trans[OF a(3) b(3)] set_inode_disk(1)])
  moreover have "runs B [] (iput ip) K () [] (set_inode ip ?f K2)"
  proof -
    have d: "runs B [] (bindK (geti ip (\<lambda>x. i_valid x \<noteq> 0 \<and> i_nlink x = 0)) (\<lambda>dead. whenK dead
         (thenK (acquire IcacheLock) (bindK (geti ip i_ref) (\<lambda>r. thenK (release IcacheLock)
          (whenK (r = 1) (seqK [itrunc ip, modi ip (\<lambda>x. x\<lparr>i_type := 0\<rparr>), iupdate ip, modi ip (\<lambda>x. x\<lparr>i_valid := 0\<rparr>)]))))))) K1 () [] K1"
      using ip(3) by (intro runs_bind[OF runs_geti[where v = False]]) (auto simp: a(4) whenK_def intro: runs_Ret)
    have l: "runs B [] (acquire IcacheLock) K2 () [IcacheLock] K2" using B by (intro runs_acquire) (simp_all add: idle_def)
    show ?thesis unfolding iput_def
      by (rule runs_seq(2)[OF a(1)] runs_seq(2)[OF d] runs_seq(2)[OF b(1)] runs_seq(2)[OF l] runs_seq(2)[OF runs_modi]
        runs_seq(2)[OF runs_release] runs_seq(1) refl)+
  qed
  ultimately show ?thesis using that by (simp add: a(4) b(4))
qed

section \<open>Looking up a name in the root directory\<close>

text \<open>
  \<open>namei\<close> on \<open>/name\<close>: the root inode is taken and locked, its entries are searched, and it is given up again; what
  stays is a reference to the inode of the entry.
\<close>

lemma skipelem_name: "name \<noteq> [] \<Longrightarrow> SLASH \<notin> set name \<Longrightarrow> skipelem (SLASH # name) = Some ([], take DIRSIZ name)"
proof -
  assume n: "name \<noteq> []" "SLASH \<notin> set name"
  then have s: "dropWhile (\<lambda>c. c = SLASH) (SLASH # name) = name" by (cases name) auto
  have t: "takeWhile (\<lambda>c. c \<noteq> SLASH) name = name" "dropWhile (\<lambda>c. c \<noteq> SLASH) name = []"
    using n(2) by (auto simp: takeWhile_eq_all_conv dropWhile_eq_Nil_conv)
  show ?thesis unfolding skipelem_def Let_def s t using n(1) by simp
qed

lemma dname_take [simp]: "dname (take DIRSIZ s) = dname s"
  by (simp add: dname_def)

lemma dirlookup_name: "found (take DIRSIZ name) K dp = found name K dp"
  by (simp add: found_def fun_eq_iff)

definition two_free :: "kernel \<Rightarrow> bool" where
  "two_free K \<longleftrightarrow> (\<exists>i < NINODE. \<exists>j < NINODE. i \<noteq> j \<and> i_ref (icache K i) = 0 \<and> i_ref (icache K j) = 0)"

definition root_entry :: "kernel \<Rightarrow> nat \<Rightarrow> byte list" where
  "root_entry K i = (let d = disk_inode K 1 in
     take DIRENT (drop (DIRENT * i) (file_bytes (view K) (di_addrs d) (unat (di_size d)))))"

definition root_ok :: "nat \<Rightarrow> kernel \<Rightarrow> bool" where
  "root_ok n K \<longleftrightarrow> (let d = disk_inode K 1 in di_type d = T_DIR \<and> di_nlink d \<noteq> 0 \<and> unat (di_size d) = DIRENT * n \<and>
     file_ok (view K) (disksize K) (di_addrs d) (DIRENT * n) \<and> IBLOCK 1 (sb K) < disksize K)"

lemma same_disk_root: "same_disk K K' \<Longrightarrow> root_ok n K' = root_ok n K" "same_disk K K' \<Longrightarrow> root_entry K' = root_entry K"
  using same_disk_inode[of K K'] by (auto simp: root_ok_def root_entry_def Let_def same_disk_def)

lemma two_free_room:
  assumes "two_free K"
  shows "inode_room K" "ip = iget_slot m K \<Longrightarrow> (\<forall>j. j \<noteq> ip \<longrightarrow> icache K' j = icache K j) \<Longrightarrow> inode_room K'"
  using assms unfolding two_free_def inode_room_def by (blast, metis)

lemma root_readable:
  assumes "root_ok n K" "locked_inode K r K'" "inodes_ok L K'" "i_inum (icache K r) = 1" "i_dev (icache K r) = 1"
  shows "readable r K'" "i_type (icache K' r) = T_DIR" "unat (i_size (icache K' r)) = DIRENT * n" "entry K' r = root_entry K"
    "i_nlink (icache K' r) \<noteq> 0"
proof -
  have l: "loaded (icache K' r) (disk_inode K 1)" "same_disk K K'" "i_dev (icache K' r) = 1"
    using assms(2,4,5) by (simp_all add: locked_inode_def)
  then show "i_type (icache K' r) = T_DIR" "unat (i_size (icache K' r)) = DIRENT * n" "i_nlink (icache K' r) \<noteq> 0"
    using assms(1) by (simp_all add: loaded_def root_ok_def Let_def)
  then show "readable r K'"
    using l assms(1,3) by (simp add: readable_def inodes_ok_def root_ok_def Let_def loaded_def same_disk_def)
  show "entry K' r = root_entry K"
    using l by (intro ext) (simp add: entry_def root_entry_def contents_def Let_def loaded_def same_disk_def)
qed

lemma iget_slot_other:
  assumes "inode_room K" "r < NINODE" "0 < i_ref (icache K r)" "i_inum (icache K r) \<noteq> m"
  shows "iget_slot m K \<noteq> r"
proof
  assume r: "iget_slot m K = r"
  obtain f where "ifree K = Some f" using inode_room_free[OF assms(1)] by blast
  then have "i_ref (icache K f) = 0" by (auto simp: ifree_def find_Some_iff)
  moreover have "i_inum (icache K i) = m" if "icached m K = Some i" for i using that by (auto simp: icached_def find_Some_iff)
  ultimately show False using r assms(3,4) \<open>ifree K = Some f\<close> by (auto simp: iget_slot_def split: option.splits)
qed

text \<open>The root inode taken, locked and searched.\<close>

lemma runs_search_root:
  assumes B: "idle B" and K: "inodes_ok {} K" "two_free K" "root_ok n K"
    and e: "find (\<lambda>i. de_inum (root_entry K i) \<noteq> 0 \<and> dname name = dname (de_name (root_entry K i))) [0..<n] = Some i"
    and m: "m = ucast (de_inum (root_entry K i))" "m \<noteq> 1" and r: "r = iget_slot 1 K"
  obtains K2 K4 f where "runs B [] (iget 1 1) K r [] (iget_state 1 K)" "runs B [] (ilock (Some r)) (iget_state 1 K) () [] K2"
    "i_type (icache K2 r) = T_DIR" "runs B [] (dirlookup r (take DIRSIZ name)) K2 (Some (f, of_nat (DIRENT * i))) [] K4"
    "inodes_ok {r} K4" "same_disk K K4" "r < NINODE" "0 < i_ref (icache K4 r)" "i_nlink (icache K4 r) \<noteq> 0"
    "f < NINODE" "f \<noteq> r" "0 < i_ref (icache K4 f)" "i_dev (icache K4 f) = 1" "i_inum (icache K4 f) = m"
proof -
  let ?K1 = "iget_state 1 K"
  have room: "inode_room K" and free: "ifree K \<noteq> None" using two_free_room(1)[OF K(2)] inode_room_free by auto
  have g: "runs B [] (iget 1 1) K r [] ?K1" unfolding r using runs_iget[OF B] free by blast
  note rr = iget_slot_inode[OF room r] and K1 = iget_state_ok[OF K(1) room, of 1]
  have root1: "root_ok n ?K1" "root_entry ?K1 = root_entry K"
    using K(3) same_disk_root[OF K1(2)] by simp_all
  have "IBLOCK (i_inum (icache ?K1 r)) (sb ?K1) < disksize ?K1" "di_type (disk_inode ?K1 (i_inum (icache ?K1 r))) \<noteq> 0"
    using root1(1) rr(3) by (simp_all add: root_ok_def Let_def)
  then obtain K2 where l: "runs B [] (ilock (Some r)) ?K1 () [] K2" "inodes_ok {r} K2" "locked_inode ?K1 r K2"
    using runs_ilock[OF B K1(1), of r] rr(1,2,4) by auto
  note R = root_readable[OF root1(1) l(3,2) rr(3,2)]
  have o: "\<forall>j. j \<noteq> r \<longrightarrow> icache K2 j = icache K j" using l(3) rr(5) by (simp add: locked_inode_def)
  have room2: "inode_room K2" by (rule two_free_room(2)[OF K(2) r o])
  have f: "found (take DIRSIZ name) K2 r = (\<lambda>i. de_inum (root_entry K i) \<noteq> 0 \<and> dname name = dname (de_name (root_entry K i)))"
    unfolding dirlookup_name by (simp add: found_def fun_eq_iff R(4) root1(2))
  let ?f = "iget_slot m K2"
  obtain K3 where k3: "read_only K2 K3" "runs B [] (dirlookup r (take DIRSIZ name)) K2 (Some (?f, of_nat (DIRENT * i))) [] (iget_state m K3)"
    using runs_dirlookup[OF B R(1-3) room2, of "take DIRSIZ name"] e unfolding f R(4) root1(2) by (auto simp: m(1))
  have ic3: "icache K3 = icache K2" using read_onlyD(5)[OF k3(1)] .
  then have room3: "?f = iget_slot m K3" "inode_room K3"
    using room2 by (simp_all add: iget_slot_def icached_def ifree_def inode_room_def cong: option.case_cong)
  note K3 = read_only_ok[OF k3(1)] and ff = iget_slot_inode[OF room3(2,1)]
  have ok3: "inodes_ok {r} K3" using K3 l(2) by blast
  have "same_disk K K2" using l(3) same_disk_trans[OF K1(2)] by (simp add: locked_inode_def)
  then have K4: "inodes_ok {r} (iget_state m K3)" "same_disk K (iget_state m K3)"
    using iget_state_ok[OF ok3 room3(2), of m] K3 by (blast, blast intro: same_disk_trans)
  have i2: "0 < i_ref (icache K2 r)" "i_inum (icache K2 r) = 1" using l(3) rr(3,4) by (simp_all add: locked_inode_def)
  then have ne: "?f \<noteq> r" using iget_slot_other[OF room2 rr(1)] m(2) by simp
  have ir: "icache (iget_state m K3) r = icache K2 r" using ff(5) ne ic3 by metis
  show ?thesis using that[OF g l(1) R(2) k3(2) K4 rr(1) _ _ ff(1) ne ff(4) ff(2) ff(3)] i2 R(5) ir by simp
qed

lemma runs_namei_root:
  assumes B: "idle B" and K: "inodes_ok {} K" "two_free K" "root_ok n K" and name: "name \<noteq> []" "SLASH \<notin> set name"
    and e: "find (\<lambda>i. de_inum (root_entry K i) \<noteq> 0 \<and> dname name = dname (de_name (root_entry K i))) [0..<n] = Some i"
    and m: "m = ucast (de_inum (root_entry K i))" "m \<noteq> 1"
  obtains f K' where "runs B [] (namei (SLASH # name)) K (Some f) [] K'" "inodes_ok {} K'" "same_disk K K'" "f < NINODE"
    "0 < i_ref (icache K' f)" "i_dev (icache K' f) = 1" "i_inum (icache K' f) = m"
proof -
  let ?r = "iget_slot 1 K"
  obtain K2 K4 f where S: "runs B [] (iget 1 1) K ?r [] (iget_state 1 K)" "runs B [] (ilock (Some ?r)) (iget_state 1 K) () [] K2"
    "i_type (icache K2 ?r) = T_DIR" "runs B [] (dirlookup ?r (take DIRSIZ name)) K2 (Some (f, of_nat (DIRENT * i))) [] K4"
    "inodes_ok {?r} K4" "same_disk K K4" "?r < NINODE" "0 < i_ref (icache K4 ?r)" "i_nlink (icache K4 ?r) \<noteq> 0"
    "f < NINODE" "f \<noteq> ?r" "0 < i_ref (icache K4 f)" "i_dev (icache K4 f) = 1" "i_inum (icache K4 f) = m"
    using runs_search_root[OF B K e m refl] by blast
  obtain K5 where u: "runs B [] (iunlock (Some ?r)) K4 () [] K5" "inodes_ok {} K5" "same_disk K4 K5" "icache K5 = icache K4"
    using runs_iunlock[OF B S(5,7) _ S(8)] by auto
  obtain K6 where p: "runs B [] (iput ?r) K5 () [] K6" "inodes_ok {} K6" "same_disk K5 K6"
      "icache K6 = (icache K5)(?r := (icache K5 ?r)\<lparr>i_ref := i_ref (icache K5 ?r) - 1\<rparr>)"
    using runs_iput[OF B u(2) S(7)] S(9) u(4) by auto
  have up: "runs B [] (iunlockput ?r) K4 () [] K6" unfolding iunlockput_def
    by (rule runs_seq(2)[OF u(1)] runs_seq(2)[OF p(1)] runs_seq(1) refl)+
  have fin: "namex_loop False f nm [] = Ret (Some (f, nm))" for nm by (simp add: namex_loop.simps[of False f nm] skipelem_def)
  have "runs B [] (namex_loop False ?r [] (SLASH # name)) (iget_state 1 K) (Some (f, take DIRSIZ name)) [] K6"
    unfolding namex_loop.simps[of False ?r "[]"] skipelem_name[OF name] option.case prod.case
    by (rule runs_then[OF S(2)], rule runs_bind[OF runs_geti[OF refl]])
      (auto simp: S(3) fin intro!: runs_bind[OF S(4)] runs_then[OF up] intro: runs_Ret)
  then have "runs B [] (namei (SLASH # name)) K (Some f) [] K6"
    unfolding namei_def namex_def using S(1)
    by (intro runs_bind[where v = "Some (f, take DIRSIZ name)" and ?K1.0 = K6 and ?C1.0 = "[]"]
        runs_bind[where v = ?r and ?K1.0 = "iget_state 1 K" and ?C1.0 = "[]"]) (auto simp: hd0_def intro: runs_Ret)
  moreover have "same_disk K K6" using S(6) u(3) p(3) by (blast intro: same_disk_trans)
  moreover have "icache K6 f = icache K4 f" using p(4) u(4) S(11) by simp
  ultimately show ?thesis using that p(2) S(10,12-14) by metis
qed

section \<open>The entries of the image\<close>

lemma nth_chunk:
  assumes "\<forall>x \<in> set xs. length (g x) = n" "i < length xs"
  shows "take n (drop (n * i) (concat (map g xs))) = g (xs ! i)"
  using assms
proof (induction xs arbitrary: i)
  case (Cons x xs)
  show ?case using Cons.IH[of "i - 1"] Cons.prems by (cases i) simp_all
qed simp

definition entry_name :: "(byte list \<times> byte list list) list \<Rightarrow> nat \<Rightarrow> byte list" where
  "entry_name files i = (if i = 0 then [46] else if i = 1 then [46, 46] else strip_name (fst (files ! (i - 2))))"

lemma root_dir_nth:
  assumes "i < length files + 2"
  shows "take DIRENT (drop (DIRENT * i) (root_dir files)) = mk_dirent (if i < 2 then 1 else inum_of (i - 1)) (entry_name files i)"
proof -
  consider "i = 0" | "i = 1" | l where "i = l + 2" "l < length files"
  proof -
    have "i = 0 \<or> i = 1 \<or> (\<exists>l < length files. i = l + 2)" using assms by presburger
    then show thesis using that by blast
  qed
  then show ?thesis
  proof cases
    case (3 l)
    let ?g = "\<lambda>k. mk_dirent (inum_of (k + 1)) (strip_name (fst (files ! k)))"
    have "drop (DIRENT * i) (root_dir files) = drop (DIRENT * l) (concat (map ?g [0..<length files]))"
      using 3(1) by (simp add: root_dir_def)
    then show ?thesis using 3 nth_chunk[of "[0..<length files]" ?g DIRENT l] by (simp add: entry_name_def)
  qed (simp_all add: root_dir_def entry_name_def)
qed

lemma dname_dirent: "dname (de_name (mk_dirent m nm)) = dname nm"
proof -
  have "takeWhile (\<lambda>b. b \<noteq> 0) (take n (takeWhile (\<lambda>b. b \<noteq> 0) nm @ replicate l 0)) = takeWhile (\<lambda>b. b \<noteq> 0) (take n nm)"
    if "n \<le> l" for n l :: nat
    using that
  proof (induction nm arbitrary: n)
    case Nil
    show ?case by (cases n; cases l) simp_all
  next
    case (Cons c cs)
    show ?case using Cons.IH[of "n - 1"] Cons.prems by (cases n; cases l) auto
  qed
  from this[of DIRSIZ DIRSIZ] have "dname (strncpyl DIRSIZ nm) = dname nm"
    unfolding dname_def strncpyl_def take_take by (simp only: min.idem)
  moreover have "length (strncpyl DIRSIZ nm) = DIRSIZ" by (simp add: strncpyl_def)
  ultimately show ?thesis by (simp add: de_name_def mk_dirent_def le16_def)
qed

lemma inum_dirent: "unat m < 2 ^ 16 \<Longrightarrow> ucast (de_inum (mk_dirent m nm)) = m"
proof -
  assume m: "unat m < 2 ^ 16"
  have "de_inum (mk_dirent m nm) = ucast m" by (simp add: de_inum_def mk_dirent_def le16_def get16_def of_le16_le16)
  then show ?thesis using m by (simp add: word_unat_eq_iff unsigned_ucast_eq take_bit_nat_eq_self)
qed

lemma strip_name_set: "set (strip_name nm) \<subseteq> set nm"
  by (auto simp: strip_name_def split: list.split)

text \<open>The blocks of the image are on the disk.\<close>

lemma nblk_gt: "bn * BSIZE < sz \<Longrightarrow> bn < nblk sz"
  using less_eq_div_iff_mult_less_eq[of BSIZE "bn + 1" "sz + 511"] by (simp add: nblk_def)

lemma map_ok_file_ok:
  assumes m: "map_ok D fb a sz" and fb: "fb \<le> FSSIZE" and l: "\<And>b. b \<in> owned D a sz \<Longrightarrow> length (D b) = BSIZE"
  shows "file_ok D (of_nat FSSIZE) a sz"
proof -
  have ok: "blk_ok D (of_nat FSSIZE) b" if "b \<in> owned D a sz" for b
    using owned_meta[OF m that] l[OF that] fb by (auto simp: blk_ok_def mk_consts word_less_nat_alt)
  have "blk_addr D a bn \<in> owned D a sz" if "bn * BSIZE < sz" for bn
  proof -
    have "bn < nblk sz" using that by (rule nblk_gt)
    then show ?thesis by (simp add: owned_def)
  qed
  moreover have "a NDIRECT \<in> owned D a sz" if "NDIRECT * BSIZE < sz"
    using nblk_gt[OF that] by (simp add: owned_def)
  ultimately show ?thesis using m ok by (simp add: file_ok_def map_ok_def)
qed

section \<open>Reading a file of the image\<close>

text \<open>A kernel with the image on its disk.\<close>

definition mounted :: "byte list list \<Rightarrow> kernel \<Rightarrow> bool" where
  "mounted img K \<longleftrightarrow> (\<forall>b. unat b < FSSIZE \<longrightarrow> view K b = sect img b) \<and> sb K = mk_sb \<and> disksize K = of_nat FSSIZE"

definition names_differ :: "(byte list \<times> byte list list) list \<Rightarrow> nat \<Rightarrow> bool" where
  "names_differ files j \<longleftrightarrow> (\<forall>i < length files + 2. i \<noteq> j + 2 \<longrightarrow> dname (entry_name files i) \<noteq> dname (entry_name files (j + 2)))"

lemma mounted_inode:
  assumes "mounted img K" "unat i < 208"
  shows "disk_inode K i = inode_at img i" "IBLOCK i (sb K) < disksize K"
  using assms iblock_meta[OF assms(2)] by (simp_all add: mounted_def disk_inode_def inode_at_def mk_consts word_less_nat_alt)

lemma mounted_file:
  assumes K: "mounted img K" and m: "map_ok (sect img) fb a sz" "fb \<le> FSSIZE" and l: "\<forall>b < FSSIZE. length (img ! b) = BSIZE"
  shows "file_ok (view K) (disksize K) a sz" "file_bytes (view K) a sz = file_bytes (sect img) a sz"
proof -
  have o: "unat b < FSSIZE \<and> view K b = sect img b" if "b \<in> owned (sect img) a sz" for b
    using owned_meta[OF m(1) that] m(2) K by (simp add: mounted_def)
  note O = map_ok_other[OF m(1), of "view K"]
  show "file_bytes (view K) a sz = file_bytes (sect img) a sz" using O(3) o by blast
  have "file_ok (view K) (of_nat FSSIZE) a sz"
  proof (rule map_ok_file_ok[OF _ m(2)])
    show "map_ok (view K) fb a sz" using O(1) o by blast
    show "length (view K b) = BSIZE" if "b \<in> owned (view K) a sz" for b
      using that o l O(2) by (auto simp: sect_def)
  qed
  then show "file_ok (view K) (disksize K) a sz" using K by (simp add: mounted_def)
qed

text \<open>
  The size of the root directory counts one more block than the directory has when its entries fill their blocks; a
  directory whose entries do not is readable to the end.
\<close>

lemma mounted_root:
  assumes K: "mounted img K" and b: "built files img" and n: "(length files + 2) mod 32 \<noteq> 0" and u: "blocks_used (image_files files) \<le> FSSIZE"
  defines "N \<equiv> ((length (root_dir files) div BSIZE + 1) * BSIZE) div DIRENT"
  shows "root_ok N K" "length files + 2 \<le> N"
    "i < length files + 2 \<Longrightarrow> root_entry K i = mk_dirent (if i < 2 then 1 else inum_of (i - 1)) (entry_name files i)"
proof -
  let ?L = "length (root_dir files)" and ?sz = "(length (root_dir files) div BSIZE + 1) * BSIZE"
  note R = built_root[OF b] and I = mounted_inode[OF K, of 1]
  have N: "DIRENT * N = ?sz" "?L < ?sz" unfolding N_def using mod_less_divisor[of BSIZE ?L] mult_div_mod_eq[of BSIZE ?L] by simp_all
  then show "length files + 2 \<le> N" by (simp add: length_root_dir)
  have "?L mod BSIZE = DIRENT * ((length files + 2) mod 32)" unfolding length_root_dir mult_mod_right by simp
  then have mod0: "?L mod BSIZE \<noteq> 0" using n by simp
  moreover have "?L \<le> MAXFILE * BSIZE" using R(5) by (simp add: map_ok_def)
  ultimately have "?L div BSIZE < MAXFILE" using mult_div_mod_eq[of BSIZE ?L] by linarith
  moreover have "nblk ?sz = ?L div BSIZE + 1" using nblk_cases[of ?sz] by (simp del: One_nat_def)
  ultimately have m: "map_ok (sect img) (blocks_used (image_files files)) (di_addrs (inode_at img 1)) ?sz"
    using mod0 nblk_cases[of ?L] by (intro map_ok_sizes[OF R(5)]) simp_all
  have l: "\<forall>b < FSSIZE. length (img ! b) = BSIZE" using b by (simp add: built_def Let_def)
  note F = mounted_file[OF K m u l]
  show "root_ok N K" using F(1) R(1-3) I N(1) by (simp add: root_ok_def Let_def)
  show "root_entry K i = mk_dirent (if i < 2 then 1 else inum_of (i - 1)) (entry_name files i)" if i: "i < length files + 2"
  proof -
    have "[0..<?sz] = [0..<?L] @ [?L..<?sz]" using N(2) upt_add_eq_append[of 0 ?L "?sz - ?L"] by simp
    then have "file_bytes (sect img) (di_addrs (inode_at img 1)) ?sz = root_dir files @ map (file_byte (sect img) (di_addrs (inode_at img 1))) [?L..<?sz]"
      using R(4) by (simp add: file_bytes_def)
    then have "root_entry K i = take DIRENT (drop (DIRENT * i) (root_dir files))"
      using I(1) R(3) F(2) i by (simp add: root_entry_def Let_def length_root_dir)
    then show ?thesis using root_dir_nth[OF i] by simp
  qed
qed

lemma mounted_find:
  assumes K: "mounted img K" "built files img" "(length files + 2) mod 32 \<noteq> 0" "blocks_used (image_files files) \<le> FSSIZE"
    and j: "j < length files" "names_differ files j" "length files < 199"
  defines "N \<equiv> ((length (root_dir files) div BSIZE + 1) * BSIZE) div DIRENT"
  shows "find (\<lambda>i. de_inum (root_entry K i) \<noteq> 0 \<and> dname (strip_name (fst (files ! j))) = dname (de_name (root_entry K i))) [0..<N] =
      Some (j + 2)" "ucast (de_inum (root_entry K (j + 2))) = inum_of (j + 1)"
proof -
  note R = mounted_root[OF K, folded N_def]
  have e: "root_entry K (j + 2) = mk_dirent (inum_of (j + 1)) (strip_name (fst (files ! j)))"
    using R(3)[of "j + 2"] j(1) by (simp add: entry_name_def)
  have u: "unat (inum_of (j + 1)) = j + 2" using inum_of(1)[of "j + 1"] j by simp
  then show c: "ucast (de_inum (root_entry K (j + 2))) = inum_of (j + 1)" unfolding e using j by (intro inum_dirent) simp
  have "de_inum (root_entry K (j + 2)) \<noteq> 0" using c u by auto
  moreover have "\<not> dname (strip_name (fst (files ! j))) = dname (de_name (root_entry K i))" if "i < j + 2" for i
  proof -
    have "dname (entry_name files i) \<noteq> dname (entry_name files (j + 2))" using that j(1,2) by (simp add: names_differ_def)
    moreover have "entry_name files (j + 2) = strip_name (fst (files ! j))" by (simp add: entry_name_def)
    ultimately show ?thesis using R(3)[of i] that j(1) dname_dirent by fastforce
  qed
  ultimately show "find (\<lambda>i. de_inum (root_entry K i) \<noteq> 0 \<and> dname (strip_name (fst (files ! j))) = dname (de_name (root_entry K i))) [0..<N] =
      Some (j + 2)"
    unfolding find_Some_iff using R(2) j(1) by (intro exI[of _ "j + 2"]) (simp add: e[simplified] dname_dirent)
qed

text \<open>Open, lock and read, as \<open>exec\<close> and \<open>open\<close> followed by \<open>read\<close> do.\<close>

definition read_path :: "byte list \<Rightarrow> uint \<Rightarrow> (int \<times> byte list) option kprog" where
  "read_path path n = bindK (namei path) (\<lambda>r. case r of None \<Rightarrow> Ret None
     | Some ip \<Rightarrow> thenK (ilock (Some ip)) (bindK (readi ip 0 n) (\<lambda>r. Ret (Some r))))"

text \<open>
  C4: The kernel reads what \<open>mkfs\<close> wrote. Take an image built from some files and a kernel that has it on its disk, a
  consistent buffer and inode cache, and two free inode slots. For a file whose name differs from the others in the
  characters a directory entry holds, \<open>namei\<close> on its name, without a leading underscore, finds it in the root
  directory, \<open>ilock\<close> loads its inode, and \<open>readi\<close> returns its bytes from the start, as many as asked for. The disk
  does not change. The number of entries is assumed not to fill the last block of the directory.
\<close>
theorem mkfs_then_read:
  assumes "mkfs_fits files" and "mkfs_main files mkfs_start = Ret () s"
    and "cpu_ok k" and "idle k" and "inodes_ok {} k" and "two_free k" and "mounted (mk_img s) k"
    and "j < length files" and "names_differ files j" and "name \<noteq> []"
    and "fst (files ! j) = 95 # name \<or> fst (files ! j) = name \<and> hd name \<noteq> 95" and "(length files + 2) mod 32 \<noteq> 0"
  shows "wp (read_path (SLASH # name) n) (\<lambda>r (k', env'). env' = env \<and>
    r = (let bs = take (unat n) (concat (snd (files ! j))) in Some (int (length bs), bs)) \<and>
    disk k' = disk k \<and> view k' = view k) (k, env)"
proof -
  let ?m = "inum_of (j + 1)" and ?img = "mk_img s"
  let ?N = "((length (root_dir files) div BSIZE + 1) * BSIZE) div DIRENT"
  have nm: "strip_name (fst (files ! j)) = name" using assms(10,11) by (auto simp: strip_name_def split: list.split)
  have b: "built files ?img" using mkfs_built[OF assms(1)] assms(2) by auto
  have u: "blocks_used (image_files files) \<le> FSSIZE" and n: "length files < 199" and sl: "SLASH \<notin> set name"
    using assms(1,8) strip_name_set[of "fst (files ! j)"] nm by (auto simp: mkfs_fits_def)
  note R = mounted_root[OF assms(7) b assms(12) u] and F = mounted_find[OF assms(7) b assms(12) u assms(8,9) n, unfolded nm] and P = built_file[OF b assms(8)]
  have m: "?m \<noteq> 1" "unat ?m < 208" using inum_of(1)[of "j + 1"] n assms(8) by auto
  obtain ip K1 where k1: "runs k [] (namei (SLASH # name)) k (Some ip) [] K1" "inodes_ok {} K1" "same_disk k K1" "ip < NINODE"
      "0 < i_ref (icache K1 ip)" "i_dev (icache K1 ip) = 1" "i_inum (icache K1 ip) = ?m"
    using runs_namei_root[OF assms(4-6) R(1) assms(10) sl F(1) F(2)[symmetric] m(1)] by blast
  have M1: "mounted ?img K1" using assms(7) k1(3) by (simp add: mounted_def same_disk_def)
  note I = mounted_inode[OF M1 m(2)]
  have "IBLOCK (i_inum (icache K1 ip)) (sb K1) < disksize K1" "di_type (disk_inode K1 (i_inum (icache K1 ip))) \<noteq> 0"
    using I P(1) by (simp_all add: k1(7))
  then obtain K2 where k2: "runs k [] (ilock (Some ip)) K1 () [] K2" "inodes_ok {ip} K2" "locked_inode K1 ip K2"
    using runs_ilock[OF assms(4) k1(2,4) _ k1(5,6)] by auto
  have M2: "mounted ?img K2" "same_disk k K2"
    using M1 k2(3) k1(3) by (simp_all add: mounted_def same_disk_def locked_inode_def)
  have ld: "loaded (icache K2 ip) (inode_at ?img ?m)" "i_dev (icache K2 ip) = 1" using k2(3) I(1) k1(6,7) by (simp_all add: locked_inode_def)
  have l: "\<forall>b < FSSIZE. length (?img ! b) = BSIZE" using b by (simp add: built_def Let_def)
  note f = mounted_file[OF M2(1) P(5) u l]
  have rd: "readable ip K2" "contents K2 ip = concat (snd (files ! j))"
    using ld f P(1,4,6) k2(2) by (simp_all add: readable_def contents_def loaded_def inodes_ok_def file_addrs_def file_of_def)
  obtain K3 where k3: "runs k [] (readi ip 0 n) K2 (readi_spec ip 0 n K2) [] K3" "read_only K2 K3"
    using runs_readi[OF assms(4) rd(1)] by blast
  have "readi_spec ip 0 n K2 = (let bs = take (unat n) (concat (snd (files ! j))) in (int (length bs), bs))"
    by (simp add: readi_spec_def rd(2))
  then have "runs k [] (read_path (SLASH # name) n) k (let bs = take (unat n) (concat (snd (files ! j))) in Some (int (length bs), bs)) [] K3"
    unfolding read_path_def using k3(1)
    by (intro runs_bind[OF k1(1)]) (auto simp: Let_def intro!: runs_then[OF k2(1)] runs_bind[OF k3(1)] intro: runs_Ret)
  moreover have "same_disk k K3" using read_only_ok[OF k3(2)] same_disk_trans[OF M2(2)] by blast
  ultimately show ?thesis using assms(3) by (auto elim!: wp_mono[OF runsD] simp: same_disk_def synced_view)
qed

text \<open>A machine just started on an image.\<close>

definition image_kernel :: "byte list list \<Rightarrow> kernel" where
  "image_kernel img = boot_kernel\<lparr>disk := \<lambda>n. img ! n, sb := mk_sb\<rparr>"

lemma image_kernel_ok:
  "cpu_ok (image_kernel img)" "idle (image_kernel img)" "inodes_ok {} (image_kernel img)" "two_free (image_kernel img)"
  "mounted img (image_kernel img)"
proof -
  have ok: "cache_ok {} (image_kernel img)"
  proof -
    obtain xs where "linked (bcache boot_kernel) xs" using boot_ok(3) by (auto simp: cache_ok_def)
    then show ?thesis using boot_ok(3)
      by (auto simp: cache_ok_def image_kernel_def no_dups_def) (auto simp: boot_kernel_def zero_kernel_def buf_ok_def cpu_of_def)
  qed
  have "view (image_kernel img) b = disk (image_kernel img) (unat b)" for b
    by (rule view_uncached) (simp add: image_kernel_def boot_kernel_def zero_kernel_def)
  then show "mounted img (image_kernel img)"
    by (simp add: mounted_def image_kernel_def sect_def boot_kernel_def zero_kernel_def)
  have z: "i_ref (icache (image_kernel img) i) = 0" for i by (simp add: image_kernel_def boot_kernel_def zero_kernel_def)
  have "pinned (image_kernel img) = {}" by (simp add: pinned_def image_kernel_def boot_kernel_def zero_kernel_def)
  then show "inodes_ok {} (image_kernel img)"
    using ok z by (simp add: inodes_ok_def) (simp add: image_kernel_def boot_kernel_def zero_kernel_def)
  show "two_free (image_kernel img)" unfolding two_free_def by (rule exI[of _ 0], simp add: z, rule exI[of _ 1], simp)
  show "cpu_ok (image_kernel img)" "idle (image_kernel img)"
    by (simp_all add: image_kernel_def boot_kernel_def zero_kernel_def idle_def lock_free_def cpu_ok_def this_cpu_def cpu_of_def)
qed

theorem mkfs_then_read_witness:
  "\<exists>s. mkfs_main [([95, 97], [[1, 2], [3]])] mkfs_start = Ret () s \<and>
    wp (read_path [SLASH, 97] 10) (\<lambda>r (k', env'). env' = [] \<and> r = Some (3, [1, 2, 3]) \<and>
      disk k' = disk (image_kernel (mk_img s)) \<and> view k' = view (image_kernel (mk_img s))) (image_kernel (mk_img s), [])"
proof -
  let ?files = "[([95, 97], [[1, 2], [3]])] :: (byte list \<times> byte list list) list"
  have f: "mkfs_fits ?files"
    by (simp add: mkfs_fits_def blocks_used_def image_files_def length_root_dir tblk_def nblk_def mk_consts)
  have "names_differ ?files 0" by (auto simp: names_differ_def entry_name_def dname_def strip_name_def less_Suc_eq)
  moreover obtain s where s: "mkfs_main ?files mkfs_start = Ret () s" using mkfs_built[OF f] by blast
  ultimately have "wp (read_path (SLASH # [97]) 10) (\<lambda>r (k', env'). env' = [] \<and>
    r = (let bs = take (unat (10 :: uint)) (concat (snd (?files ! 0))) in Some (int (length bs), bs)) \<and>
    disk k' = disk (image_kernel (mk_img s)) \<and> view k' = view (image_kernel (mk_img s))) (image_kernel (mk_img s), [])"
    by (intro mkfs_then_read[OF f s image_kernel_ok]) simp_all
  then show ?thesis using s by (intro exI[of _ s]) (simp add: Let_def)
qed

end
