(* ===== verification/Umalloc.thy ===== *)
theory Umalloc
  imports Prelude
begin

text \<open>
  The memory allocator of user programs (\<open>umalloc.c\<close>): a circular list of free blocks in address order, threaded
  through the headers in the memory of the process, with next-fit allocation from the tail of a block and
  coalescing on \<open>free\<close>. A header is eight bytes, the pointer to the next free block and the size of the block in
  headers. What \<open>sbrk\<close> does is a parameter: \<open>u_grow\<close> says which requests the kernel grants.
\<close>

section \<open>The allocator\<close>

record uheap =
  u_mem :: memory
  u_base :: addr
  u_freep :: addr
  u_brk :: addr
  u_grow :: "addr \<Rightarrow> int \<Rightarrow> bool"

definition s_ptr :: "memory \<Rightarrow> addr \<Rightarrow> addr" where
  "s_ptr m p = load32 m p"

definition s_size :: "memory \<Rightarrow> addr \<Rightarrow> uint" where
  "s_size m p = load32 m (p + 4)"

definition set_ptr :: "addr \<Rightarrow> addr \<Rightarrow> memory \<Rightarrow> memory" where
  "set_ptr p v m = store32 m p v"

definition set_size :: "addr \<Rightarrow> uint \<Rightarrow> memory \<Rightarrow> memory" where
  "set_size p v m = store32 m (p + 4) v"

text \<open>\<open>sbrk\<close> as a program sees it: the old end of its memory, or -1.\<close>

definition sbrk :: "int \<Rightarrow> uheap \<Rightarrow> addr \<times> uheap" where
  "sbrk n h = (if u_grow h (u_brk h) n then (u_brk h, h\<lparr>u_brk := u_brk h + of_int n\<rparr>) else (- 1, h))"

text \<open>The loop of \<open>free\<close>: the free block after which \<open>bp\<close> belongs.\<close>

partial_function (option) free_place :: "memory \<Rightarrow> addr \<Rightarrow> addr \<Rightarrow> addr option" where
  "free_place m bp p =
     (if p < bp \<and> bp < s_ptr m p then Some p
      else if s_ptr m p \<le> p \<and> (p < bp \<or> bp < s_ptr m p) then Some p
      else free_place m bp (s_ptr m p))"

definition join_next :: "addr \<Rightarrow> addr \<Rightarrow> memory \<Rightarrow> memory" where
  "join_next bp p m =
     (if bp + 8 * s_size m bp = s_ptr m p then
        (let m1 = set_size bp (s_size m bp + s_size m (s_ptr m p)) m in set_ptr bp (s_ptr m1 (s_ptr m1 p)) m1)
      else set_ptr bp (s_ptr m p) m)"

definition join_prev :: "addr \<Rightarrow> addr \<Rightarrow> memory \<Rightarrow> memory" where
  "join_prev bp p m =
     (if p + 8 * s_size m p = bp then
        (let m1 = set_size p (s_size m p + s_size m bp) m in set_ptr p (s_ptr m1 bp) m1)
      else set_ptr p bp m)"

definition ufree :: "addr \<Rightarrow> uheap \<Rightarrow> uheap option" where
  "ufree ap h =
     (let bp = ap - 8 in
      map_option (\<lambda>p. h\<lparr>u_mem := join_prev bp p (join_next bp p (u_mem h)), u_freep := p\<rparr>)
        (free_place (u_mem h) bp (u_freep h)))"

definition morecore :: "uint \<Rightarrow> uheap \<Rightarrow> (addr \<times> uheap) option" where
  "morecore nu h =
     (let nu = (if nu < 4096 then 4096 else nu);
          (p, h1) = sbrk (sint (nu * 8)) h in
      if p = - 1 then Some (0, h1)
      else map_option (\<lambda>h2. (u_freep h2, h2)) (ufree (p + 8) (h1\<lparr>u_mem := set_size p nu (u_mem h1)\<rparr>)))"

text \<open>Taking \<open>nunits\<close> headers from block \<open>p\<close>, whose predecessor is \<open>prevp\<close>.\<close>

definition carve :: "uint \<Rightarrow> addr \<Rightarrow> addr \<Rightarrow> uheap \<Rightarrow> addr \<times> uheap" where
  "carve nunits prevp p h =
     (let m = u_mem h in
      if s_size m p = nunits then (p + 8, h\<lparr>u_mem := set_ptr prevp (s_ptr m p) m, u_freep := prevp\<rparr>)
      else
        (let m1 = set_size p (s_size m p - nunits) m;
             q = p + 8 * s_size m1 p in
         (q + 8, h\<lparr>u_mem := set_size q nunits m1, u_freep := prevp\<rparr>)))"

partial_function (option) malloc_loop :: "uint \<Rightarrow> addr \<Rightarrow> addr \<Rightarrow> uheap \<Rightarrow> (addr \<times> uheap) option" where
  "malloc_loop nunits prevp p h =
     (if nunits \<le> s_size (u_mem h) p then Some (carve nunits prevp p h)
      else if p = u_freep h then
        Option.bind (morecore nunits h) (\<lambda>r.
          if fst r = 0 then Some (0, snd r)
          else malloc_loop nunits (fst r) (s_ptr (u_mem (snd r)) (fst r)) (snd r))
      else malloc_loop nunits p (s_ptr (u_mem h) p) h)"

definition first_use :: "uheap \<Rightarrow> uheap" where
  "first_use h =
     (if u_freep h = 0 then
        h\<lparr>u_mem := set_size (u_base h) 0 (set_ptr (u_base h) (u_base h) (u_mem h)), u_freep := u_base h\<rparr>
      else h)"

definition malloc :: "uint \<Rightarrow> uheap \<Rightarrow> (addr \<times> uheap) option" where
  "malloc nbytes h =
     (let nunits = (nbytes + 8 - 1) div 8 + 1;
          h1 = first_use h;
          prevp = u_freep h1 in
      malloc_loop nunits prevp (s_ptr (u_mem h1) prevp) h1)"

section \<open>Headers in memory\<close>

text \<open>The header at an address, as numbers: the next block and the size.\<close>

definition hdr :: "memory \<Rightarrow> nat \<Rightarrow> nat \<times> nat" where
  "hdr m a = (unat (s_ptr m (of_nat a)), unat (s_size m (of_nat a)))"

lemma unat_of_nat32: "a < 2 ^ 32 \<Longrightarrow> unat (of_nat a :: addr) = a"
  by (simp add: unat_of_nat)

lemma nat_sep:
  fixes a b :: nat
  assumes "a + 4 \<le> 2 ^ 32" "b + 4 \<le> 2 ^ 32" "a + 4 \<le> b \<or> b + 4 \<le> a"
  shows "sep4 (of_nat a) (of_nat b)"
  using assms unfolding sep4_def by (auto simp: unat_sub_if' unat_of_nat32)

lemma nat_far:
  fixes a x :: nat
  assumes "a + 4 \<le> 2 ^ 32" "x < 2 ^ 32" "a + 4 \<le> x \<or> x < a"
  shows "4 \<le> unat (of_nat x - of_nat a :: addr)"
  using assms by (auto simp: unat_sub_if' unat_of_nat32)

text \<open>Two headers at \<open>a\<close> and \<open>b\<close> do not overlap.\<close>

definition apart8 :: "nat \<Rightarrow> nat \<Rightarrow> bool" where
  "apart8 a b \<longleftrightarrow> a + 8 \<le> 2 ^ 32 \<and> b + 8 \<le> 2 ^ 32 \<and> (a + 8 \<le> b \<or> b + 8 \<le> a)"

lemma of_nat_plus4: "of_nat a + 4 = (of_nat (a + 4) :: addr)"
  by simp

lemma hdr_set_ptr:
  "a + 8 \<le> 2 ^ 32 \<Longrightarrow> hdr (set_ptr (of_nat a) v m) a = (unat v, snd (hdr m a))"
  "apart8 a b \<Longrightarrow> hdr (set_ptr (of_nat a) v m) b = hdr m b"
proof -
  assume "a + 8 \<le> 2 ^ 32"
  then have "sep4 (of_nat a) (of_nat (a + 4))" by (intro nat_sep) simp_all
  then show "hdr (set_ptr (of_nat a) v m) a = (unat v, snd (hdr m a))"
    by (simp add: hdr_def s_ptr_def s_size_def set_ptr_def load32_store32_other)
next
  assume ab: "apart8 a b"
  then have "sep4 (of_nat a) (of_nat b)" "sep4 (of_nat a) (of_nat (b + 4))"
    by (intro nat_sep; auto simp: apart8_def)+
  then show "hdr (set_ptr (of_nat a) v m) b = hdr m b"
    by (simp add: hdr_def s_ptr_def s_size_def set_ptr_def load32_store32_other)
qed

lemma hdr_set_size:
  "a + 8 \<le> 2 ^ 32 \<Longrightarrow> hdr (set_size (of_nat a) v m) a = (fst (hdr m a), unat v)"
  "apart8 a b \<Longrightarrow> hdr (set_size (of_nat a) v m) b = hdr m b"
proof -
  assume "a + 8 \<le> 2 ^ 32"
  then have "sep4 (of_nat (a + 4)) (of_nat a)" by (intro nat_sep) simp_all
  then show "hdr (set_size (of_nat a) v m) a = (fst (hdr m a), unat v)"
    by (simp add: hdr_def s_ptr_def s_size_def set_size_def load32_store32_other)
next
  assume ab: "apart8 a b"
  then have "sep4 (of_nat (a + 4)) (of_nat b)" "sep4 (of_nat (a + 4)) (of_nat (b + 4))"
    by (intro nat_sep; auto simp: apart8_def)+
  then show "hdr (set_size (of_nat a) v m) b = hdr m b"
    by (simp add: hdr_def s_ptr_def s_size_def set_size_def load32_store32_other)
qed

lemma byte_set:
  assumes "a + 8 \<le> 2 ^ 32" "x < 2 ^ 32" "x < a \<or> a + 8 \<le> x"
  shows "set_ptr (of_nat a) v m (of_nat x) = m (of_nat x)" "set_size (of_nat a) v m (of_nat x) = m (of_nat x)"
proof -
  show "set_ptr (of_nat a) v m (of_nat x) = m (of_nat x)"
    unfolding set_ptr_def using assms by (intro store32_other nat_far) auto
  have "4 \<le> unat (of_nat x - of_nat (a + 4) :: addr)" using assms by (intro nat_far) auto
  then show "set_size (of_nat a) v m (of_nat x) = m (of_nat x)"
    unfolding set_size_def of_nat_plus4 by (rule store32_other)
qed

lemma hdrD:
  assumes "hdr m a = (p, n)"
  shows "s_ptr m (of_nat a) = of_nat p" "s_size m (of_nat a) = of_nat n"
  using assms by (auto simp: hdr_def)

section \<open>The free list\<close>

fun first :: "(nat \<times> nat) list \<Rightarrow> nat \<Rightarrow> nat" where
  "first [] e = e"
| "first (x # xs) e = fst x"

text \<open>The blocks \<open>xs\<close> linked in this order, the last one pointing to \<open>e\<close>.\<close>

fun seg :: "memory \<Rightarrow> (nat \<times> nat) list \<Rightarrow> nat \<Rightarrow> bool" where
  "seg m [] e = True"
| "seg m (x # xs) e = (hdr m (fst x) = (first xs e, snd x) \<and> seg m xs e)"

text \<open>Blocks in address order below \<open>hi\<close>, with something between each and the next.\<close>

fun spaced :: "(nat \<times> nat) list \<Rightarrow> nat \<Rightarrow> bool" where
  "spaced [] hi = True"
| "spaced (x # xs) hi = (fst x + 8 \<le> first xs hi \<and> fst x + 8 * snd x < first xs hi \<and> spaced xs hi)"

text \<open>A block in front of a list, merged with the first block when they touch.\<close>

fun joinb :: "nat \<times> nat \<Rightarrow> (nat \<times> nat) list \<Rightarrow> (nat \<times> nat) list" where
  "joinb x [] = [x]"
| "joinb x (y # ys) = (if fst x + 8 * snd x = fst y then (fst x, snd x + snd y) # ys else x # y # ys)"

definition bytes :: "nat \<times> nat \<Rightarrow> nat set" where
  "bytes x = {fst x..<fst x + 8 * snd x}"

definition region :: "(nat \<times> nat) list \<Rightarrow> nat set" where
  "region xs = (\<Union>x\<in>set xs. bytes x)"

lemma region_simps [simp]: "region [] = {}" "region (x # xs) = bytes x \<union> region xs" "region (xs @ ys) = region xs \<union> region ys"
  by (auto simp: region_def)

lemma first_append: "first (xs @ ys) e = first xs (first ys e)"
  by (cases xs) auto

lemma seg_append: "seg m (xs @ ys) e \<longleftrightarrow> seg m xs (first ys e) \<and> seg m ys e"
  by (induction xs) (auto simp: first_append)

lemma seg_cong: "(\<And>x. x \<in> set xs \<Longrightarrow> hdr m (fst x) = hdr m' (fst x)) \<Longrightarrow> seg m xs e = seg m' xs e"
  by (induction xs) auto

lemma spaced_append: "spaced (xs @ ys) hi \<longleftrightarrow> spaced xs (first ys hi) \<and> spaced ys hi"
  by (induction xs) (auto simp: first_append)

lemma spaced_le: "spaced xs hi \<Longrightarrow> x \<in> set xs \<Longrightarrow> first xs hi \<le> fst x \<and> fst x + 8 \<le> hi \<and> fst x + 8 * snd x < hi"
proof (induction xs arbitrary: x)
  case (Cons y ys)
  then show ?case using Cons.IH[of "hd ys"] by (cases ys) fastforce+
qed simp

lemma spaced_Cons: "spaced (x # xs) hi \<Longrightarrow> y \<in> set xs \<Longrightarrow> fst x + 8 \<le> fst y \<and> fst x + 8 * snd x < fst y"
  using spaced_le[of xs hi y] by auto

lemma spaced_split:
  assumes "spaced (vs @ x # ws) hi"
  shows "y \<in> set vs \<Longrightarrow> fst y < fst x" "y \<in> set ws \<Longrightarrow> fst x < fst y \<and> first ws e \<le> fst y"
proof -
  have "spaced vs (fst x)" "spaced (x # ws) hi" "spaced ws hi" using assms by (auto simp: spaced_append)
  then show "y \<in> set vs \<Longrightarrow> fst y < fst x" "y \<in> set ws \<Longrightarrow> fst x < fst y \<and> first ws e \<le> fst y"
    using spaced_le[of vs "fst x" y] spaced_Cons[of x ws hi y] spaced_le[of ws hi y] by (auto, cases ws, auto)
qed

lemma spaced_pair:
  "spaced xs hi \<Longrightarrow> x \<in> set xs \<Longrightarrow> y \<in> set xs \<Longrightarrow> x \<noteq> y \<Longrightarrow>
   fst x + 8 \<le> fst y \<and> fst x + 8 * snd x < fst y \<or> fst y + 8 \<le> fst x \<and> fst y + 8 * snd y < fst x"
proof (induction xs)
  case (Cons z zs)
  then show ?case using spaced_Cons[OF Cons.prems(1), of x] spaced_Cons[OF Cons.prems(1), of y] by simp blast
qed simp

lemma spaced_apart8: "spaced xs hi \<Longrightarrow> hi \<le> 2 ^ 32 \<Longrightarrow> x \<in> set xs \<Longrightarrow> y \<in> set xs \<Longrightarrow> x \<noteq> y \<Longrightarrow> apart8 (fst x) (fst y)"
  using spaced_pair[of xs hi x y] spaced_le[of xs hi x] spaced_le[of xs hi y] by (auto simp: apart8_def)

lemma region_joinb: "region (joinb x xs) = bytes x \<union> region xs"
  by (cases xs) (auto simp: bytes_def)

lemma spaced_joinb: "spaced xs hi \<Longrightarrow> fst x + 8 \<le> first xs hi \<Longrightarrow> fst x + 8 * snd x \<le> first xs hi \<Longrightarrow>
   (xs = [] \<Longrightarrow> fst x + 8 * snd x < hi) \<Longrightarrow> spaced (joinb x xs) hi"
  by (cases xs) (auto simp: algebra_simps)

text \<open>Closing the list to a ring; a ring may be entered anywhere.\<close>

definition ring :: "memory \<Rightarrow> (nat \<times> nat) list \<Rightarrow> bool" where
  "ring m xs = seg m xs (first xs 0)"

lemma ring_rotate: "ring m (xs @ ys) = ring m (ys @ xs)"
  by (cases xs; cases ys) (auto simp: ring_def seg_append first_append)

text \<open>Writing the header of \<open>x\<close> so that it continues with \<open>xs\<close>, merging when they touch.\<close>

lemma join_prev_hdr:
  assumes x: "snd (hdr m x) = n" and xs: "seg m xs e" "e < 2 ^ 32" "\<And>y. y \<in> set xs \<Longrightarrow> apart8 x (fst y)" "xs = [] \<Longrightarrow> x + 8 * n \<noteq> e"
    and b: "x + 8 * n < 2 ^ 32" "x + 8 \<le> 2 ^ 32" "\<And>y. y \<in> set xs \<Longrightarrow> n + snd y < 2 ^ 32"
  shows "\<exists>n' xs'. joinb (x, n) xs = (x, n') # xs' \<and> hdr (join_prev (of_nat (first xs e)) (of_nat x) m) x = (first xs' e, n')"
proof -
  have n: "s_size m (of_nat x) = of_nat n" using x hdrD(2)[of m x] by (metis surjective_pairing)
  have eq: "of_nat x + 8 * of_nat n = (of_nat y :: addr) \<longleftrightarrow> x + 8 * n = y" if "y < 2 ^ 32" for y
  proof -
    have "of_nat x + 8 * of_nat n = (of_nat (x + 8 * n) :: addr)" by simp
    then show ?thesis using b(1) that by (metis unat_of_nat32)
  qed
  show ?thesis
  proof (cases xs)
    case Nil
    then show ?thesis using xs(2,4) b x n eq[of e] by (simp add: join_prev_def hdr_set_ptr unat_of_nat32)
  next
    case (Cons y ys)
    have y: "apart8 x (fst y)" "hdr m (fst y) = (first ys e, snd y)" "n + snd y < 2 ^ 32" "fst y < 2 ^ 32"
      using xs(1) xs(3)[of y] b(3)[of y] Cons by (auto simp: apart8_def)
    have "first ys e < 2 ^ 32" using xs(2) xs(3)[of "hd ys"] Cons by (cases ys) (auto simp: apart8_def)
    show ?thesis
    proof (cases "x + 8 * n = fst y")
      case False
      then show ?thesis using Cons y b n eq[of "fst y"] x by (simp add: join_prev_def hdr_set_ptr unat_of_nat32)
    next
      case True
      let ?m1 = "set_size (of_nat x) (of_nat n + of_nat (snd y)) m"
      have "hdr ?m1 (fst y) = (first ys e, snd y)" using y by (simp add: hdr_set_size)
      note h = hdrD[OF this] hdrD[OF y(2)]
      have "unat (of_nat n + of_nat (snd y) :: uint) = n + snd y" using y(3) by (metis of_nat_add unat_of_nat32)
      then show ?thesis using Cons True y b n eq[of "fst y"] h \<open>first ys e < 2 ^ 32\<close>
        by (simp add: join_prev_def Let_def hdr_set_ptr hdr_set_size unat_of_nat32)
    qed
  qed
qed

lemma join_prev_other: "apart8 x y \<Longrightarrow> hdr (join_prev b (of_nat x) m) y = hdr m y"
  by (simp add: join_prev_def Let_def hdr_set_ptr hdr_set_size)

lemma join_prev_byte: "x + 8 \<le> 2 ^ 32 \<Longrightarrow> i < 2 ^ 32 \<Longrightarrow> i < x \<or> x + 8 \<le> i \<Longrightarrow> join_prev b (of_nat x) m (of_nat i) = m (of_nat i)"
  by (simp add: join_prev_def Let_def byte_set)

lemma join_next_prev:
  assumes "apart8 b x"
  shows "join_next (of_nat b) (of_nat x) m = join_prev (s_ptr m (of_nat x)) (of_nat b) m"
proof -
  have "s_ptr (set_size (of_nat b) v m) (of_nat x) = s_ptr m (of_nat x)" for v
    using hdr_set_size(2)[OF assms, of v m] by (simp add: hdr_def word_unat_eq_iff)
  then show ?thesis by (simp add: join_next_def join_prev_def Let_def)
qed

section \<open>\<open>free\<close>\<close>

text \<open>
  The allocator at rest: the free list starts with the empty block \<open>base\<close> and lies below the end of memory, which
  the kernel keeps below 2 GB.
\<close>

definition heap_ok :: "uheap \<Rightarrow> (nat \<times> nat) list \<Rightarrow> bool" where
  "heap_ok h bs \<longleftrightarrow> (\<exists>xs. bs = (unat (u_base h), 0) # xs \<and> (\<forall>x\<in>set xs. 0 < snd x)) \<and>
     0 < unat (u_base h) \<and> unat (u_base h) + 8 \<le> unat (u_brk h) \<and> unat (u_brk h) \<le> 2 ^ 31 \<and>
     spaced bs (Suc (unat (u_brk h))) \<and> ring (u_mem h) bs \<and> unat (u_freep h) \<in> fst ` set bs \<and>
     (\<forall>b n. u_grow h b n \<longrightarrow> 0 < n \<longrightarrow> uint b + n \<le> 2 ^ 31)"

text \<open>A block that is not on the free list and can be given back.\<close>

definition outside :: "uheap \<Rightarrow> (nat \<times> nat) list \<Rightarrow> nat \<times> nat \<Rightarrow> bool" where
  "outside h bs b \<longleftrightarrow> 0 < snd b \<and> unat (u_base h) < fst b \<and> fst b + 8 * snd b \<le> unat (u_brk h) \<and> snd (hdr (u_mem h) (fst b)) = snd b \<and>
     (\<forall>x\<in>set bs. fst x + 8 \<le> fst b \<and> fst x + 8 * snd x \<le> fst b \<or> fst b + 8 * snd b \<le> fst x)"

definition stops :: "memory \<Rightarrow> nat \<Rightarrow> nat \<Rightarrow> bool" where
  "stops m b c \<longleftrightarrow> (let q = fst (hdr m c) in c < b \<and> b < q \<or> q \<le> c \<and> (c < b \<or> b < q))"

lemma free_place_step:
  assumes "b < 2 ^ 32" "c < 2 ^ 32"
  shows "free_place m (of_nat b) (of_nat c) =
    (if stops m b c then Some (of_nat c) else free_place m (of_nat b) (of_nat (fst (hdr m c))))"
proof -
  have "s_ptr m (of_nat c) = of_nat (fst (hdr m c))" "fst (hdr m c) < 2 ^ 32"
    using unsigned_less[of "s_ptr m (of_nat c)"] by (simp_all add: hdr_def)
  then show ?thesis using assms
    by (subst free_place.simps) (auto simp: stops_def Let_def word_less_nat_alt word_le_nat_alt unat_of_nat32)
qed

lemma free_place_scan:
  "seg m xs e \<Longrightarrow> b < 2 ^ 32 \<Longrightarrow> (\<And>x. x \<in> set xs \<Longrightarrow> fst x < 2 ^ 32) \<Longrightarrow> \<exists>x\<in>set xs. stops m b (fst x) \<Longrightarrow>
   \<exists>x\<in>set xs. stops m b (fst x) \<and> free_place m (of_nat b) (of_nat (first xs e)) = Some (of_nat (fst x))"
proof (induction xs)
  case (Cons x xs)
  show ?case
  proof (cases "stops m b (fst x)")
    case True
    then show ?thesis using Cons.prems by (auto simp: free_place_step)
  next
    case False
    then show ?thesis using Cons free_place_step[of b "fst x" m] by auto
  qed
qed simp

lemma split_at:
  assumes ok: "heap_ok h bs" and out: "outside h bs (b, n)"
  obtains ys a k zs where "bs = ys @ (a, k) # zs" "a < b" "zs = [] \<or> b + 8 * n \<le> first zs 0" "a + 8 \<le> b" "a + 8 * k \<le> b"
proof -
  let ?P = "\<lambda>x. fst x < b" and ?base = "unat (u_base h)"
  obtain xs where bs: "bs = (?base, 0) # xs" using ok by (auto simp: heap_ok_def)
  have "takeWhile ?P bs \<noteq> []" using bs out by (simp add: outside_def)
  then obtain ys x where ys: "takeWhile ?P bs = ys @ [x]" by (metis rev_exhaust)
  have e: "bs = ys @ x # dropWhile ?P bs" using takeWhile_dropWhile_id[of ?P bs] ys by simp
  have "x \<in> set (takeWhile ?P bs)" using ys by simp
  then have x: "fst x < b" "x \<in> set bs" using e by (auto dest: set_takeWhileD)
  have z: "dropWhile ?P bs = [] \<or> b + 8 * n \<le> first (dropWhile ?P bs) 0"
  proof (cases "dropWhile ?P bs")
    case (Cons z zs)
    then have "z \<in> set bs" "\<not> fst z < b" using hd_dropWhile[of ?P bs] set_dropWhileD[of z ?P bs] by auto
    then show ?thesis using out Cons by (auto simp: outside_def)
  qed simp
  have "fst x + 8 \<le> b" "fst x + 8 * snd x \<le> b" using x out by (auto simp: outside_def)
  then show ?thesis using that[of ys "fst x" "snd x" "dropWhile ?P bs"] e x z by simp
qed

lemma free_place_found:
  assumes ok: "heap_ok h bs" and out: "outside h bs (b, n)" and s: "bs = ys @ (a, k) # zs" "a < b" "zs = [] \<or> b + 8 * n \<le> first zs 0"
  shows "free_place (u_mem h) (of_nat b) (u_freep h) = Some (of_nat a)"
proof -
  let ?m = "u_mem h" and ?base = "unat (u_base h)"
  obtain xs where bs: "bs = (?base, 0) # xs" using ok by (auto simp: heap_ok_def)
  have sp: "spaced bs (Suc (unat (u_brk h)))" and R: "ring ?m bs" and hi: "unat (u_brk h) \<le> 2 ^ 31" using ok by (auto simp: heap_ok_def)
  have lt: "fst x < 2 ^ 32" if "x \<in> set bs" for x using spaced_le[OF sp that] hi by simp
  have b: "b < 2 ^ 32" "?base < b" "0 < n" using out hi by (auto simp: outside_def)
  have nx: "fst (hdr ?m (fst x)) = first ws ?base" if "bs = vs @ x # ws" for vs x ws
    using R[unfolded that] arg_cong[OF bs[unfolded that], of "\<lambda>x. first x 0"] by (simp add: ring_def seg_append)
  have ak: "(a, k) \<in> set bs" using s(1) by simp
  then have "?base \<le> a" using spaced_le[OF sp] bs by fastforce
  then have ab: "stops ?m b a" using s(2,3) nx[OF s(1)] b by (cases zs) (auto simp: stops_def Let_def)
  have uniq: "fst x = a" if x: "x \<in> set bs" "stops ?m b (fst x)" for x
  proof -
    obtain vs ws where v: "bs = vs @ x # ws" using x(1) by (meson split_list)
    have "?base \<le> fst x" using spaced_le[OF sp x(1)] bs by simp
    then have xb: "fst x < b" "ws \<noteq> [] \<Longrightarrow> b < first ws 0"
      using x(2) nx[OF v] b spaced_append[of vs "x # ws" "Suc (unat (u_brk h))"] sp v
      by (cases ws; auto simp: stops_def Let_def)+
    have "(a, k) \<in> set vs \<or> x = (a, k) \<or> (a, k) \<in> set ws" "x \<in> set ys \<or> x = (a, k) \<or> x \<in> set zs"
      using ak[unfolded v] x(1)[unfolded s(1)] by auto
    moreover have "ws \<noteq> []" "first ws 0 \<le> a" if "(a, k) \<in> set ws"
      using that spaced_split(2)[OF sp[unfolded v] that, of 0] by auto
    moreover have "zs \<noteq> []" "first zs 0 \<le> fst x" if "x \<in> set zs"
      using that spaced_split(2)[OF sp[unfolded s(1)] that, of 0] by auto
    moreover have "a < fst x" if "(a, k) \<in> set vs" using spaced_split(1)[OF sp[unfolded v] that] by simp
    moreover have "fst x < a" if "x \<in> set ys" using spaced_split(1)[OF sp[unfolded s(1)] that] by simp
    ultimately show ?thesis using xb s(2,3) by (metis (no_types) add_leD1 fst_conv leD le_less_trans less_asym)
  qed
  obtain vs f ws where f: "bs = vs @ f # ws" "fst f = unat (u_freep h)" using ok by (auto simp: heap_ok_def image_iff dest: split_list)
  have "ring ?m (f # ws @ vs)" using R f(1) ring_rotate[of ?m vs "f # ws"] by simp
  then have "seg ?m (f # ws @ vs) (fst f)" by (simp add: ring_def)
  moreover have e: "set (f # ws @ vs) = set bs" using f(1) by auto
  moreover have "\<exists>x\<in>set bs. stops ?m b (fst x)" using ak ab by (intro bexI[of _ "(a, k)"]) auto
  ultimately have "\<exists>x\<in>set bs. stops ?m b (fst x) \<and> free_place ?m (of_nat b) (of_nat (fst f)) = Some (of_nat (fst x))"
    using free_place_scan[of ?m "f # ws @ vs" "fst f" b] b(1) lt unfolding e by simp
  then show ?thesis using uniq f(2) by (auto simp: word_unat_eq_iff)
qed

lemma joinb_tail: "joinb (x, n) xs = (x, n') # xs' \<Longrightarrow> set xs' \<subseteq> set xs \<and> n \<le> n' \<and> (seg m xs e \<longrightarrow> seg m xs' e)"
  by (cases xs) (auto split: if_splits)

lemma heap_shape:
  assumes ok: "heap_ok h bs" and out: "outside h bs (b, n)" and s: "bs = ys @ (a, k) # zs" "a < b"
  shows "\<exists>xs. ys @ joinb (a, k) (joinb (b, n) zs) = (unat (u_base h), 0) # xs \<and> (\<forall>x\<in>set xs. 0 < snd x)"
proof -
  obtain xs where xs: "bs = (unat (u_base h), 0) # xs" "\<forall>x\<in>set xs. 0 < snd x" using ok by (auto simp: heap_ok_def)
  have n: "0 < n" using out by (simp add: outside_def)
  have J: "\<forall>x\<in>set (joinb (c, j) ws). 0 < snd x" if "0 < j" "\<forall>x\<in>set ws. 0 < snd x" for c j ws
    using that by (cases ws) auto
  show ?thesis
  proof (cases ys)
    case Nil
    then have "joinb (a, k) (joinb (b, n) zs) = (a, k) # joinb (b, n) zs" using s xs(1) by (cases zs) auto
    then show ?thesis using Nil s(1) xs J[OF n] by simp
  next
    case (Cons y ys')
    then have "0 < k" "\<forall>x\<in>set zs. 0 < snd x" using s(1) xs by auto
    then show ?thesis using Cons s(1) xs J[OF _ J[OF n, of zs b], of k a] by fastforce
  qed
qed

lemma ufree_Some:
  assumes ok: "heap_ok h bs" and out: "outside h bs (b, n)"
    and s: "bs = ys @ (a, k) # zs" "a < b" "zs = [] \<or> b + 8 * n \<le> first zs 0" "a + 8 \<le> b" "a + 8 * k \<le> b"
  shows "\<exists>m. ufree (of_nat (b + 8)) h = Some (h\<lparr>u_mem := m, u_freep := of_nat a\<rparr>) \<and>
    heap_ok (h\<lparr>u_mem := m, u_freep := of_nat a\<rparr>) (ys @ joinb (a, k) (joinb (b, n) zs)) \<and>
    (\<forall>x < 2 ^ 32. (x < a \<or> a + 8 \<le> x) \<longrightarrow> (x < b \<or> b + 8 \<le> x) \<longrightarrow> m (of_nat x) = u_mem h (of_nat x))"
proof -
  let ?m = "u_mem h" and ?base = "unat (u_base h)" and ?hi = "Suc (unat (u_brk h))"
  let ?m1 = "join_next (of_nat b) (of_nat a) ?m"
  let ?m2 = "join_prev (of_nat b) (of_nat a) ?m1"
  obtain xs where bs: "bs = (?base, 0) # xs" using ok by (auto simp: heap_ok_def)
  have sp: "spaced bs ?hi" and R: "seg ?m bs ?base" and hi: "?hi \<le> 2 ^ 31 + 1" using ok bs by (auto simp: heap_ok_def ring_def)
  have b: "0 < n" "?base < b" "b + 8 * n < ?hi" "snd (hdr ?m b) = n" using out by (auto simp: outside_def)
  have S: "spaced ys a" "a + 8 * k < ?hi" "spaced zs ?hi" using sp s(1) b(3) s(5) by (auto simp: spaced_append)
  have Z: "fst y + 8 * snd y < ?hi \<and> b + 8 * n \<le> fst y" if "y \<in> set zs" for y
    using spaced_le[OF S(3) that] s(3) that by (cases zs) auto
  have H: "hdr ?m a = (first zs ?base, k)" "seg ?m zs ?base" "seg ?m ys a" using R s(1) by (auto simp: seg_append)
  have ba: "apart8 b a" using s(4) b hi by (auto simp: apart8_def)
  have m1: "?m1 = join_prev (of_nat (first zs ?base)) (of_nat b) ?m" unfolding join_next_prev[OF ba] hdrD(1)[OF H(1)] ..
  obtain n1 zs1 where J1: "joinb (b, n) zs = (b, n1) # zs1" "hdr ?m1 b = (first zs1 ?base, n1)"
    using join_prev_hdr[OF b(4) H(2)] Z b hi unfolding m1 by (fastforce simp: apart8_def)
  note T1 = joinb_tail[OF J1(1), of ?m ?base]
  have o1: "hdr ?m1 y = hdr ?m y" if "apart8 b y" for y unfolding m1 by (rule join_prev_other[OF that])
  have sJ: "spaced ((b, n1) # zs1) ?hi"
    unfolding J1(1)[symmetric] using S(3) s(3) b by (intro spaced_joinb) (cases zs; auto)+
  have A: "apart8 a (fst y) \<and> k + snd y < 2 ^ 32" if "y \<in> set ((b, n1) # zs1)" for y
    using spaced_le[OF sJ that] s(4) S(2) hi by (auto simp: apart8_def)
  have "seg ?m zs1 ?base" using T1 H(2) by simp
  moreover have "apart8 b (fst y)" if "y \<in> set zs1" for y using T1 Z[of y] that b hi by (auto simp: apart8_def)
  ultimately have g1: "seg ?m1 ((b, n1) # zs1) ?base" using J1(2) seg_cong[of zs1 ?m ?m1] o1 by simp
  have "snd (hdr ?m1 a) = k" using o1[OF ba] H(1) by simp
  from join_prev_hdr[OF this g1] obtain k2 ws where J2: "joinb (a, k) ((b, n1) # zs1) = (a, k2) # ws" "hdr ?m2 a = (first ws ?base, k2)"
    using A S(2) s(4) b hi by force
  note T2 = joinb_tail[OF J2(1), of ?m1 ?base]
  have o2: "hdr ?m2 y = hdr ?m1 y" if "apart8 a y" for y by (rule join_prev_other[OF that])
  have "hdr ?m1 (fst y) = hdr ?m2 (fst y)" if "y \<in> set ws" for y using T2 A[of y] o2[of "fst y"] that by auto
  then have "seg ?m2 ws ?base" using T2 g1 seg_cong[of ws ?m1 ?m2] by simp
  moreover have "seg ?m2 ys a"
  proof -
    have "hdr ?m2 (fst y) = hdr ?m (fst y)" if "y \<in> set ys" for y
      using spaced_le[OF S(1) that] o1[of "fst y"] o2[of "fst y"] s(4) b hi by (auto simp: apart8_def)
    then show ?thesis using H(3) seg_cong[of ys ?m2 ?m] by simp
  qed
  ultimately have "seg ?m2 (ys @ joinb (a, k) (joinb (b, n) zs)) ?base" using J1(1) J2 by (simp add: seg_append)
  moreover have "spaced (ys @ joinb (a, k) (joinb (b, n) zs)) ?hi"
    unfolding spaced_append J1(1) using S(1) J2(1) spaced_joinb[OF sJ, of "(a, k)"] s(4,5) by simp
  moreover note heap_shape[OF ok out s(1,2)]
  moreover have "a < 2 ^ 32" "a \<in> fst ` set (joinb (a, k) (joinb (b, n) zs))" using s(4) b hi J1(1) J2(1) by auto
  ultimately have "heap_ok (h\<lparr>u_mem := ?m2, u_freep := of_nat a\<rparr>) (ys @ joinb (a, k) (joinb (b, n) zs))"
    using ok by (auto simp: heap_ok_def ring_def unat_of_nat32)
  moreover have "ufree (of_nat (b + 8)) h = Some (h\<lparr>u_mem := ?m2, u_freep := of_nat a\<rparr>)"
    using free_place_found[OF ok out s(1-3)] by (simp add: ufree_def Let_def)
  moreover have "?m2 (of_nat x) = ?m (of_nat x)" if "x < 2 ^ 32" "x < a \<or> a + 8 \<le> x" "x < b \<or> b + 8 \<le> x" for x
    unfolding m1 using that s(4) b hi by (simp add: join_prev_byte)
  ultimately show ?thesis by blast
qed

end
