(* ===== verification/Malloc_Safe.thy ===== *)
theory Malloc_Safe
  imports Umalloc
begin

text \<open>
  What a program gets from \<open>malloc\<close> and \<open>free\<close>: blocks that are its own.
\<close>

section \<open>\<open>malloc\<close>\<close>

text \<open>The bytes a change of the free list may touch.\<close>

definition scratch :: "uheap \<Rightarrow> (nat \<times> nat) list \<Rightarrow> nat set" where
  "scratch h bs = region bs \<union> {unat (u_base h)..<unat (u_base h) + 8}"

lemma heap_okE:
  assumes "heap_ok h bs"
  obtains xs where "bs = (unat (u_base h), 0) # xs" "\<And>x. x \<in> set xs \<Longrightarrow> 0 < snd x" "0 < unat (u_base h)"
    "unat (u_base h) + 8 \<le> unat (u_brk h)" "unat (u_brk h) \<le> 2 ^ 31" "spaced bs (Suc (unat (u_brk h)))"
    "seg (u_mem h) bs (unat (u_base h))" "unat (u_freep h) \<in> fst ` set bs"
proof -
  obtain xs where "bs = (unat (u_base h), 0) # xs" "\<forall>x\<in>set xs. 0 < snd x" using assms unfolding heap_ok_def by blast
  then show ?thesis using assms that[of xs] unfolding heap_ok_def ring_def by simp
qed

lemma heap_block: "heap_ok h bs \<Longrightarrow> x \<in> set bs \<Longrightarrow> x = (unat (u_base h), 0) \<or> 0 < snd x"
  by (erule heap_okE) (metis set_ConsD)

lemma header_scratch:
  assumes "heap_ok h bs" "x \<in> set bs" "i \<notin> scratch h bs"
  shows "i < fst x \<or> fst x + 8 \<le> i"
  using heap_block[OF assms(1,2)]
proof
  assume "0 < snd x"
  moreover have "i \<notin> bytes x" using assms(2,3) by (auto simp: scratch_def region_def)
  ultimately show ?thesis by (auto simp: bytes_def)
qed (use assms(3) in \<open>auto simp: scratch_def\<close>)

lemma heap_bound:
  assumes "heap_ok h bs" "x \<in> set bs"
  shows "unat (u_base h) \<le> fst x" "fst x + 8 \<le> unat (u_brk h)" "fst x + 8 * snd x \<le> unat (u_brk h)" "fst x + 8 \<le> 2 ^ 31" "snd x < 2 ^ 28"
proof -
  obtain xs where bs: "bs = (unat (u_base h), 0) # xs" and h: "0 < unat (u_base h)"
    "unat (u_base h) + 8 \<le> unat (u_brk h)" "unat (u_brk h) \<le> 2 ^ 31" "spaced bs (Suc (unat (u_brk h)))"
    by (rule heap_okE[OF assms(1)])
  note sp = spaced_le[OF h(4) assms(2)]
  show c: "fst x + 8 * snd x \<le> unat (u_brk h)" using sp by simp
  show b: "fst x + 8 \<le> unat (u_brk h)" using heap_block[OF assms] c h(2) by auto
  show d: "unat (u_base h) \<le> fst x" using sp bs by simp
  show "fst x + 8 \<le> 2 ^ 31" "snd x < 2 ^ 28" using h c b d by simp_all
qed

lemma heap_seg:
  assumes "heap_ok h bs" "bs = us @ x # vs"
  shows "hdr (u_mem h) (fst x) = (first vs (unat (u_base h)), snd x)" "seg (u_mem h) us (fst x)" "seg (u_mem h) vs (unat (u_base h))"
proof -
  have "seg (u_mem h) bs (unat (u_base h))" by (rule heap_okE[OF assms(1)])
  then show "hdr (u_mem h) (fst x) = (first vs (unat (u_base h)), snd x)" "seg (u_mem h) us (fst x)" "seg (u_mem h) vs (unat (u_base h))"
    using assms(2) by (simp_all add: seg_append)
qed

text \<open>Changing the part of the heap after block \<open>y\<close>.\<close>

lemma heap_okI:
  assumes "heap_ok h (us @ y # vs)" "\<And>x. x \<in> set ws \<Longrightarrow> 0 < snd x" "spaced (y # ws) (Suc (unat (u_brk h)))"
    "seg m (us @ y # ws) (unat (u_base h))"
  shows "heap_ok (h\<lparr>u_mem := m, u_freep := of_nat (fst y)\<rparr>) (us @ y # ws)"
proof -
  have y: "fst y + 8 \<le> 2 ^ 31" using heap_bound(4)[OF assms(1), of y] by simp
  obtain xs where xs: "us @ y # vs = (unat (u_base h), 0) # xs" "\<And>x. x \<in> set xs \<Longrightarrow> 0 < snd x" "spaced (us @ y # vs) (Suc (unat (u_brk h)))"
    by (rule heap_okE[OF assms(1)]) blast
  have "\<exists>zs. us @ y # ws = (unat (u_base h), 0) # zs \<and> (\<forall>x\<in>set zs. 0 < snd x)"
  proof (cases us)
    case (Cons u us')
    then have "xs = us' @ y # vs" "u = (unat (u_base h), 0)" using xs(1) by auto
    then show ?thesis using Cons xs(2) assms(2) by auto
  qed (use xs(1) assms(2) in auto)
  moreover have "spaced (us @ y # ws) (Suc (unat (u_brk h)))" using xs(3) assms(3) by (simp add: spaced_append)
  moreover have "first (us @ y # ws) 0 = unat (u_base h)" using xs(1) by (cases us) auto
  ultimately show ?thesis using assms(1,4) y unfolding heap_ok_def ring_def by (simp add: unat_of_nat32)
qed

lemma carve_block:
  assumes ok: "heap_ok h bs" and s: "bs = us @ (q, j) # (a, k) # vs" and nu: "0 < nu" "nu \<le> k"
  defines "b \<equiv> a + 8 * (k - nu)"
  shows "\<exists>m. carve (of_nat nu) (of_nat q) (of_nat a) h = (of_nat (b + 8), h\<lparr>u_mem := m, u_freep := of_nat q\<rparr>) \<and>
    heap_ok (h\<lparr>u_mem := m, u_freep := of_nat q\<rparr>) (us @ (q, j) # (if k = nu then vs else (a, k - nu) # vs)) \<and>
    snd (hdr m b) = nu \<and> (\<forall>i < 2 ^ 32. i \<notin> scratch h bs \<longrightarrow> m (of_nat i) = u_mem h (of_nat i))"
proof -
  let ?m = "u_mem h" and ?base = "unat (u_base h)" and ?hi = "Suc (unat (u_brk h))"
  have sp: "spaced bs ?hi" by (rule heap_okE[OF ok])
  have inb: "(q, j) \<in> set bs" "(a, k) \<in> set bs" using s by auto
  have A8: "apart8 (fst x) (fst y)" if "x \<in> set bs" "y \<in> set bs" "x \<noteq> y" for x y
    using spaced_pair[OF sp that] heap_bound(4)[OF ok that(1)] heap_bound(4)[OF ok that(2)] by (auto simp: apart8_def)
  note ha = heap_seg[OF ok, of "us @ [(q, j)]" "(a, k)" vs] and hq = heap_seg[OF ok, of us "(q, j)" "(a, k) # vs"]
  have f: "first vs ?base < 2 ^ 32" using heap_bound(4)[OF ok, of "hd vs"] s unsigned_less[of "u_base h"] by (cases vs) auto
  have k: "a + 8 * k < ?hi" "k < 2 ^ 28" "a + 8 \<le> 2 ^ 31" "q + 8 \<le> 2 ^ 31" "q + 8 \<le> a" "q + 8 * j < a" "a + 8 * k < first vs ?hi"
      "spaced vs ?hi" "0 < k"
    using heap_bound[OF ok inb(2)] heap_bound(4)[OF ok inb(1)] sp s nu by (auto simp: spaced_append)
  have un: "unat (of_nat nu :: uint) = nu" "unat (of_nat k :: uint) = k" using nu k(2) by (simp_all add: unat_of_nat32)
  have lt: "fst x < q" if "x \<in> set us" for x using spaced_split(1)[of us "(q, j)" "(a, k) # vs" ?hi x] that sp s by simp
  have gt: "a + 8 * k < fst x" if "x \<in> set vs" for x using spaced_le[OF k(8) that] k(7) that by (cases vs) auto
  have pos: "0 < snd x" if "x \<in> set vs" for x
    using heap_block[OF ok, of x] gt[OF that] heap_bound(1)[OF ok inb(2)] that s by auto
  have H: "hdr ?m a = (first vs ?base, k)" "hdr ?m q = (a, j)" "seg ?m us q" "seg ?m vs ?base" using ha hq s by auto
  show ?thesis
  proof (cases "k = nu")
    case True
    let ?m' = "set_ptr (of_nat q) (of_nat (first vs ?base)) ?m"
    have o: "hdr ?m' (fst x) = hdr ?m (fst x)" if "x \<in> set us \<or> x \<in> set vs \<or> x = (a, k)" for x
      using A8[OF inb(1), of x] that s lt[of x] gt[of x] k(5) by (intro hdr_set_ptr(2)) force
    have "seg ?m' (us @ (q, j) # vs) ?base"
      using H k(4) f o seg_cong[of us ?m' ?m] seg_cong[of vs ?m' ?m] by (simp add: seg_append hdr_set_ptr unat_of_nat32)
    then have "heap_ok (h\<lparr>u_mem := ?m', u_freep := of_nat q\<rparr>) (us @ (q, j) # vs)"
      using heap_okI[OF ok[unfolded s], of vs ?m'] pos k by simp
    moreover have "snd (hdr ?m' b) = nu" using o[of "(a, k)"] H(1) True by (simp add: b_def)
    moreover have "carve (of_nat nu) (of_nat q) (of_nat a) h = (of_nat (b + 8), h\<lparr>u_mem := ?m', u_freep := of_nat q\<rparr>)"
      using True hdrD[OF H(1)] by (simp add: carve_def Let_def b_def add.commute)
    moreover have "?m' (of_nat i) = ?m (of_nat i)" if "i < 2 ^ 32" "i \<notin> scratch h bs" for i
      using byte_set(1)[of q i] header_scratch[OF ok inb(1) that(2)] k(4) that(1) by simp
    ultimately show ?thesis unfolding if_P[OF True] by blast
  next
    case False
    let ?m1 = "set_size (of_nat a) (of_nat (k - nu)) ?m"
    let ?m2 = "set_size (of_nat b) (of_nat nu) ?m1"
    have b: "a + 8 \<le> b" "b + 8 * nu = a + 8 * k" "b + 8 < 2 ^ 32" using False nu k by (auto simp: b_def algebra_simps)
    have o: "hdr ?m2 (fst x) = hdr ?m (fst x)" if "x \<in> set us \<or> x \<in> set vs \<or> x = (q, j)" for x
    proof -
      have "apart8 a (fst x)" "apart8 b (fst x)"
        using that lt[of x] gt[of x] k(4,5) heap_bound(4)[OF ok, of x] s b nu(1) by (auto simp: apart8_def)
      then show ?thesis by (simp add: hdr_set_size)
    qed
    have "unat (of_nat (k - nu) :: uint) = k - nu" using k(2) by (simp add: unat_of_nat32)
    moreover have "apart8 b a" using b k by (auto simp: apart8_def)
    ultimately have a: "hdr ?m2 a = (first vs ?base, k - nu)" "hdr ?m1 a = (first vs ?base, k - nu)" using H(1) k(3) by (simp_all add: hdr_set_size)
    have "seg ?m2 (us @ (q, j) # (a, k - nu) # vs) ?base"
      using H a o seg_cong[of us ?m2 ?m] seg_cong[of vs ?m2 ?m] o[of "(q, j)"] by (simp add: seg_append)
    moreover have "0 < snd x" if "x \<in> set ((a, k - nu) # vs)" for x using that pos[of x] False nu by auto
    moreover have "spaced ((q, j) # (a, k - nu) # vs) ?hi" using k b nu by auto
    ultimately have "heap_ok (h\<lparr>u_mem := ?m2, u_freep := of_nat q\<rparr>) (us @ (q, j) # (a, k - nu) # vs)"
      using heap_okI[OF ok[unfolded s], of "(a, k - nu) # vs" ?m2] unfolding fst_conv by blast
    moreover have "snd (hdr ?m2 b) = nu" using b(3) un by (simp add: hdr_set_size)
    moreover have "carve (of_nat nu) (of_nat q) (of_nat a) h = (of_nat (b + 8), h\<lparr>u_mem := ?m2, u_freep := of_nat q\<rparr>)"
    proof -
      have "of_nat k \<noteq> (of_nat nu :: uint)" using False un by metis
      moreover have "of_nat k - of_nat nu = (of_nat (k - nu) :: uint)" using nu by simp
      moreover have "of_nat a + 8 * of_nat (k - nu) = (of_nat b :: addr)" by (simp add: b_def)
      ultimately show ?thesis using hdrD(2)[OF H(1)] hdrD(2)[OF a(2)] by (simp only: carve_def Let_def if_False) simp
    qed
    moreover have "?m2 (of_nat i) = ?m (of_nat i)" if "i < 2 ^ 32" "i \<notin> scratch h bs" for i
    proof -
      have "i \<notin> bytes (a, k)" using that(2) inb(2) by (auto simp: scratch_def region_def)
      then have "i < b \<or> b + 8 \<le> i" "i < a \<or> a + 8 \<le> i" using b k(9) nu(1) by (auto simp: bytes_def)
      then show ?thesis using that(1) b(3) k(3) by (simp add: byte_set)
    qed
    ultimately show ?thesis unfolding if_not_P[OF False] by blast
  qed
qed

text \<open>The loop of \<open>malloc\<close> over the blocks \<open>xs\<close>, the last of which is the one it started after.\<close>

lemma malloc_scan:
  assumes "seg (u_mem h) xs e" "xs \<noteq> []" "fst (last xs) = unat (u_freep h)" "\<And>x. x \<in> set (butlast xs) \<Longrightarrow> fst x \<noteq> unat (u_freep h)"
    and "\<And>x. x \<in> set xs \<Longrightarrow> fst x < 2 ^ 32" "nu < 2 ^ 32" "fst (hdr (u_mem h) prev) = first xs e"
  shows "(\<exists>x\<in>set xs. \<exists>q. nu \<le> snd x \<and> (q = prev \<or> q \<in> fst ` set xs) \<and> fst (hdr (u_mem h) q) = fst x \<and>
      malloc_loop (of_nat nu) (of_nat prev) (of_nat (first xs e)) h = Some (carve (of_nat nu) (of_nat q) (of_nat (fst x)) h)) \<or>
    (\<forall>x\<in>set xs. snd x < nu) \<and> malloc_loop (of_nat nu) (of_nat prev) (of_nat (first xs e)) h =
      Option.bind (morecore (of_nat nu) h) (\<lambda>r. if fst r = 0 then Some (0, snd r)
          else malloc_loop (of_nat nu) (fst r) (s_ptr (u_mem (snd r)) (fst r)) (snd r))"
  using assms
proof (induction xs arbitrary: prev)
  case (Cons x xs)
  have x: "hdr (u_mem h) (fst x) = (first xs e, snd x)" "fst x < 2 ^ 32" using Cons.prems(1,5) by auto
  have le: "of_nat nu \<le> s_size (u_mem h) (of_nat (fst x)) \<longleftrightarrow> nu \<le> snd x"
    using x(1) Cons.prems(6) by (auto simp: hdr_def word_le_nat_alt unat_of_nat32)
  have eq: "of_nat (fst x) = u_freep h \<longleftrightarrow> fst x = unat (u_freep h)" using x(2) by (simp add: word_unat_eq_iff unat_of_nat32)
  consider "nu \<le> snd x" | "snd x < nu" "xs = []" | "snd x < nu" "xs \<noteq> []" by linarith
  then show ?case
  proof cases
    case 1
    then show ?thesis using le Cons.prems(7) by (subst malloc_loop.simps) auto
  next
    case 2
    then have "fst x = unat (u_freep h)" using Cons.prems(3) by simp
    then show ?thesis using 2 le eq malloc_loop.simps[of "of_nat nu" "of_nat prev" "of_nat (fst x)" h] by auto
  next
    case 3
    then have "fst x \<noteq> unat (u_freep h)" using Cons.prems(4)[of x] by simp
    then have e: "malloc_loop (of_nat nu) (of_nat prev) (of_nat (first (x # xs) e)) h = malloc_loop (of_nat nu) (of_nat (fst x)) (of_nat (first xs e)) h"
      using 3 le eq hdrD(1)[OF x(1)] by (subst malloc_loop.simps) simp
    note IH = Cons.IH[of "fst x"]
    show ?thesis
    proof (rule disjE[OF IH])
      show "fst x' \<noteq> unat (u_freep h)" if "x' \<in> set (butlast xs)" for x' using Cons.prems(4)[of x'] 3 that by simp
      show "fst x' < 2 ^ 32" if "x' \<in> set xs" for x' using Cons.prems(5)[of x'] that by simp
    next
      assume "\<exists>y\<in>set xs. \<exists>q. nu \<le> snd y \<and> (q = fst x \<or> q \<in> fst ` set xs) \<and> fst (hdr (u_mem h) q) = fst y \<and>
        malloc_loop (of_nat nu) (of_nat (fst x)) (of_nat (first xs e)) h = Some (carve (of_nat nu) (of_nat q) (of_nat (fst y)) h)" (is "\<exists>y\<in>_. \<exists>q. ?P y q")
      then obtain y q where "y \<in> set xs" "?P y q" by blast
      then show ?thesis unfolding e by (intro disjI1 bexI[of _ y] exI[of _ q]) auto
    qed (use 3 Cons.prems x(1) e in \<open>simp_all\<close>)
  qed
qed simp

lemma takeWhile_pre: "spaced (ts @ x # vs) hi \<Longrightarrow> takeWhile (\<lambda>y. fst y \<noteq> fst x) (ts @ x # vs) = ts"
proof -
  assume sp: "spaced (ts @ x # vs) hi"
  have "fst y \<noteq> fst x" if "y \<in> set ts" for y using spaced_split(1)[OF sp that] by simp
  then show ?thesis by (simp add: takeWhile_append2)
qed

lemma heap_pred:
  assumes ok: "heap_ok h bs" and s: "bs = ts @ (a, k) # vs" "0 < k" and q: "q \<in> fst ` set bs" "fst (hdr (u_mem h) q) = a"
  obtains us j where "ts = us @ [(q, j)]"
proof -
  obtain y where y: "y \<in> set bs" "fst y = q" using q(1) by auto
  then obtain v1 w1 where v: "bs = v1 @ y # w1" by (meson split_list)
  obtain xs where bs: "bs = (unat (u_base h), 0) # xs" "spaced bs (Suc (unat (u_brk h)))" by (rule heap_okE[OF ok]) blast
  have f: "first w1 (unat (u_base h)) = a" using heap_seg(1)[OF ok v] y(2) q(2) by simp
  have "ts \<noteq> []" using bs(1) s by auto
  then have "a \<noteq> unat (u_base h)" using spaced_split(1)[of ts "(a, k)" vs _ "(unat (u_base h), 0)"] bs s by (cases ts) auto
  then obtain z ws where w: "w1 = z # ws" "fst z = a" using f by (cases w1) auto
  have "ts = v1 @ [y]"
    using takeWhile_pre[of ts "(a, k)" vs] takeWhile_pre[of "v1 @ [y]" z ws] bs(2) s(1) v w by simp
  then show ?thesis using that[of v1 "snd y"] y(2) by (metis prod.collapse)
qed

lemma spaced_mono: "spaced xs hi \<Longrightarrow> hi \<le> hi' \<Longrightarrow> spaced xs hi'"
proof (induction xs)
  case (Cons x xs)
  then show ?case by (cases xs) auto
qed simp

lemma morecore_units:
  assumes "nu < 2 ^ 28"
  shows "(if of_nat nu < (4096 :: uint) then 4096 else of_nat nu) = (of_nat (max nu 4096) :: uint)"
    "sint (of_nat (max nu 4096) * 8 :: uint) = 8 * int (max nu 4096)"
proof -
  show "(if of_nat nu < (4096 :: uint) then 4096 else of_nat nu) = (of_nat (max nu 4096) :: uint)"
    using assms unfolding word_less_nat_alt by (auto simp: unat_of_nat32 max_def)
  have lt: "max nu 4096 < 2 ^ 28" using assms by simp
  have "unat (of_nat (max nu 4096 * 8) :: uint) = max nu 4096 * 8" using lt by (intro unat_of_nat32) simp
  then have "uint (of_nat (max nu 4096 * 8) :: uint) = int (max nu 4096 * 8)" by (metis of_nat_unat)
  moreover have "(of_nat (max nu 4096 * 8) :: uint) = of_nat (max nu 4096) * 8" by (simp only: of_nat_mult of_nat_numeral)
  ultimately have "uint (of_nat (max nu 4096) * 8 :: uint) = 8 * int (max nu 4096)" by simp
  then show "sint (of_nat (max nu 4096) * 8 :: uint) = 8 * int (max nu 4096)"
    using lt unfolding sint_uint by (simp add: signed_take_bit_int_eq_self)
qed

lemma morecore_None: "nu < 2 ^ 28 \<Longrightarrow> \<not> u_grow h (u_brk h) (8 * int (max nu 4096)) \<Longrightarrow> morecore (of_nat nu) h = Some (0, h)"
  unfolding morecore_def Let_def sbrk_def morecore_units by simp

text \<open>A successful \<open>morecore\<close>: the new memory is free, and in one block.\<close>

lemma morecore_Some:
  assumes ok: "heap_ok h bs" and nu: "nu < 2 ^ 28" and g: "u_grow h (u_brk h) (8 * int (max nu 4096))"
  defines "brk \<equiv> unat (u_brk h)" and "nu' \<equiv> max nu 4096"
  shows "\<exists>m f bs'. let h' = h\<lparr>u_brk := of_nat (brk + 8 * nu'), u_mem := m, u_freep := of_nat f\<rparr> in
    morecore (of_nat nu) h = Some (of_nat f, h') \<and> 0 < f \<and> f < 2 ^ 31 \<and> heap_ok h' bs' \<and>
    region bs' = region bs \<union> {brk..<brk + 8 * nu'} \<and> brk + 8 * nu' \<le> 2 ^ 31 \<and> (\<exists>x\<in>set bs'. nu \<le> snd x) \<and>
    (\<forall>i < 2 ^ 32. i \<notin> scratch h bs \<union> {brk..<brk + 8 * nu'} \<longrightarrow> m (of_nat i) = u_mem h (of_nat i))"
proof -
  define en where "en = brk + 8 * nu'"
  let ?m0 = "set_size (u_brk h) (of_nat nu') (u_mem h)"
  let ?h0 = "h\<lparr>u_brk := of_nat en, u_mem := ?m0\<rparr>"
  have en: "brk + 8 * nu' = en" by (simp add: en_def)
  have nu': "nu \<le> nu'" "4096 \<le> nu'" "nu' < 2 ^ 28" using nu by (auto simp: nu'_def)
  note n = morecore_units(1)[OF nu, folded nu'_def] and si = morecore_units(2)[OF nu, folded nu'_def]
  have "uint (u_brk h) + 8 * int nu' \<le> 2 ^ 31"
    using ok g nu'(2) unfolding heap_ok_def nu'_def by simp
  moreover have "int en = uint (u_brk h) + 8 * int nu'" unfolding en_def brk_def by simp
  ultimately have "int en \<le> int (2 ^ 31)" by simp
  then have bb: "en \<le> 2 ^ 31" unfolding of_nat_le_iff .
  have B: "of_nat brk = u_brk h" by (simp add: brk_def)
  have b1: "u_brk h + of_int (8 * int nu') = of_nat en" using B by (simp add: en_def algebra_simps)
  have "unat (- 1 :: addr) = 2 ^ 32 - 1" by (simp add: unsigned_minus_1_eq_mask mask_eq_exp_minus_1)
  then have ne: "u_brk h \<noteq> - 1" using bb by (auto simp: en_def brk_def)
  have ub: "unat (of_nat en :: addr) = en" using bb by (simp add: unat_of_nat32)
  have hb: "fst x + 8 \<le> brk" "fst x + 8 * snd x \<le> brk" "fst x + 8 \<le> 2 ^ 31" if "x \<in> set bs" for x
    using heap_bound[OF ok that] by (auto simp: brk_def)
  have "hdr ?m0 (fst x) = hdr (u_mem h) (fst x)" if "x \<in> set bs" for x
    unfolding B[symmetric] using hb[OF that] bb nu' by (intro hdr_set_size(2)) (auto simp: apart8_def en_def)
  then have "ring ?m0 bs = ring (u_mem h) bs" using seg_cong[of bs ?m0 "u_mem h"] by (simp add: ring_def)
  moreover have "spaced bs (Suc en)" using ok spaced_mono[of bs "Suc brk" "Suc en"] by (simp add: heap_ok_def brk_def en_def)
  ultimately have ok0: "heap_ok ?h0 bs" using ok bb ub unfolding heap_ok_def by (simp add: en_def brk_def)
  have "snd (hdr ?m0 brk) = nu'" unfolding B[symmetric] using bb nu' by (simp add: hdr_set_size unat_of_nat32 en_def)
  then have out: "outside ?h0 bs (brk, nu')"
    using hb ok nu' ub unfolding outside_def heap_ok_def brk_def[symmetric] by (simp add: brk_def[symmetric] en)
  obtain ys a k zs where s: "bs = ys @ (a, k) # zs" "a < brk" "zs = [] \<or> brk + 8 * nu' \<le> first zs 0" "a + 8 \<le> brk" "a + 8 * k \<le> brk"
    by (rule split_at[OF ok0 out])
  let ?bs = "ys @ joinb (a, k) (joinb (brk, nu') zs)"
  obtain m where m: "ufree (of_nat (brk + 8)) ?h0 = Some (?h0\<lparr>u_mem := m, u_freep := of_nat a\<rparr>)"
      "heap_ok (?h0\<lparr>u_mem := m, u_freep := of_nat a\<rparr>) ?bs"
      "\<And>x. x < 2 ^ 32 \<Longrightarrow> x < a \<or> a + 8 \<le> x \<Longrightarrow> x < brk \<or> brk + 8 \<le> x \<Longrightarrow> m (of_nat x) = ?m0 (of_nat x)"
    using ufree_Some[OF ok0 out s] by auto
  have "morecore (of_nat nu) h = Some (of_nat a, ?h0\<lparr>u_mem := m, u_freep := of_nat a\<rparr>)"
    using m(1) g n si ne b1 B by (simp add: morecore_def sbrk_def Let_def nu'_def add.commute)
  moreover have "\<exists>x\<in>set ?bs. nu \<le> snd x" using nu' by (cases zs) auto
  moreover have "m (of_nat i) = u_mem h (of_nat i)" if "i < 2 ^ 32" "i \<notin> scratch h bs \<union> {brk..<en}" for i
    using m(3)[of i] byte_set(2)[of brk i] that header_scratch[OF ok, of "(a, k)" i] s(1) nu'(2) bb B en by auto
  moreover have "0 < a" using heap_bound(1)[OF ok, of "(a, k)"] ok s(1) by (auto simp: heap_ok_def)
  moreover have "region ?bs = region bs \<union> {brk..<en}" unfolding s(1) using en by (auto simp: region_joinb bytes_def)
  moreover have "a < 2 ^ 31" using hb(3)[of "(a, k)"] s(1) by simp
  ultimately show ?thesis using m(2) bb
    by (intro exI[of _ m] exI[of _ a] exI[of _ ?bs]) (simp add: Let_def en)
qed

text \<open>\<open>taken h bs nu p h'\<close>: \<open>p\<close> points to a block of \<open>nu\<close> headers that was part of the free blocks \<open>bs\<close>.\<close>

definition taken :: "uheap \<Rightarrow> (nat \<times> nat) list \<Rightarrow> nat \<Rightarrow> addr \<Rightarrow> uheap \<Rightarrow> bool" where
  "taken h bs nu p h' \<longleftrightarrow> (\<exists>m f b bs'. h' = h\<lparr>u_mem := m, u_freep := f\<rparr> \<and> p = of_nat (b + 8) \<and> heap_ok h' bs' \<and>
     outside h' bs' (b, nu) \<and> region bs = region bs' \<union> bytes (b, nu) \<and>
     (\<forall>i < 2 ^ 32. i \<notin> scratch h bs \<longrightarrow> m (of_nat i) = u_mem h (of_nat i)))"

lemma carve_taken:
  assumes ok: "heap_ok h bs" and s: "bs = us @ (q, j) # (a, k) # vs" and nu: "0 < nu" "nu \<le> k"
  shows "case carve (of_nat nu) (of_nat q) (of_nat a) h of (p, h') \<Rightarrow> taken h bs nu p h'"
proof -
  let ?b = "a + 8 * (k - nu)" and ?bs = "us @ (q, j) # (if k = nu then vs else (a, k - nu) # vs)"
  obtain m where m: "carve (of_nat nu) (of_nat q) (of_nat a) h = (of_nat (?b + 8), h\<lparr>u_mem := m, u_freep := of_nat q\<rparr>)"
    "heap_ok (h\<lparr>u_mem := m, u_freep := of_nat q\<rparr>) ?bs" "snd (hdr m ?b) = nu"
    "\<forall>i < 2 ^ 32. i \<notin> scratch h bs \<longrightarrow> m (of_nat i) = u_mem h (of_nat i)"
    using carve_block[OF ok s nu] by blast
  have sp: "spaced bs (Suc (unat (u_brk h)))" by (rule heap_okE[OF ok])
  have b: "?b + 8 * nu = a + 8 * k" "a \<le> ?b" "k \<noteq> nu \<Longrightarrow> a + 8 \<le> ?b" using nu by (auto simp: algebra_simps)
  have sep: "fst x + 8 \<le> ?b \<and> fst x + 8 * snd x \<le> ?b \<or> ?b + 8 * nu \<le> fst x" if x: "x \<in> set ?bs" for x
  proof -
    consider "x \<in> set (us @ [(q, j)])" | "x = (a, k - nu)" "k \<noteq> nu" | "x \<in> set vs" using x by (auto split: if_splits)
    then show ?thesis
    proof cases
      case 1
      then show ?thesis using spaced_le[of "us @ [(q, j)]" a x] sp s b(2) by (auto simp: spaced_append)
    next
      case 3
      have "spaced ((a, k) # vs) (Suc (unat (u_brk h)))" using sp s by (simp add: spaced_append)
      from spaced_Cons[OF this 3] show ?thesis using b(1) by simp
    qed (use b in auto)
  qed
  have "q < a" "unat (u_base h) \<le> q" "a + 8 * k \<le> unat (u_brk h)"
    using heap_bound(1)[OF ok, of "(q, j)"] heap_bound(3)[OF ok, of "(a, k)"] sp s by (auto simp: spaced_append)
  then have "outside (h\<lparr>u_mem := m, u_freep := of_nat q\<rparr>) ?bs (?b, nu)"
    unfolding outside_def using nu(1) m(3) b sep by simp
  moreover have "region bs = region ?bs \<union> bytes (?b, nu)" unfolding s using b by (auto simp: bytes_def)
  ultimately show ?thesis unfolding m(1) prod.case taken_def using m(2,4) by blast
qed

text \<open>Once around the list: a block is taken, or all are too small.\<close>

lemma malloc_round:
  assumes ok: "heap_ok h bs" and nu: "0 < nu" "nu < 2 ^ 32"
  defines "r \<equiv> malloc_loop (of_nat nu) (u_freep h) (s_ptr (u_mem h) (u_freep h)) h"
  shows "(\<exists>p h'. r = Some (p, h') \<and> taken h bs nu p h') \<or>
    (\<forall>x\<in>set bs. snd x < nu) \<and> r = Option.bind (morecore (of_nat nu) h) (\<lambda>r. if fst r = 0 then Some (0, snd r)
          else malloc_loop (of_nat nu) (fst r) (s_ptr (u_mem (snd r)) (fst r)) (snd r))"
proof -
  let ?f = "unat (u_freep h)" and ?m = "u_mem h" and ?base = "unat (u_base h)"
  obtain xs where bs: "bs = (?base, 0) # xs" "spaced bs (Suc (unat (u_brk h)))" "seg ?m bs ?base" "?f \<in> fst ` set bs"
    by (rule heap_okE[OF ok]) blast
  obtain y where y: "y \<in> set bs" "fst y = ?f" using bs(4) by auto
  obtain vs ws where v: "bs = vs @ y # ws" using y(1) by (meson split_list)
  let ?xs = "ws @ vs @ [y]"
  have b0: "first (vs @ y # ws) 0 = ?base" using bs(1) v by simp
  have "ring ?m ?xs" using ring_rotate[of ?m "vs @ [y]" ws] bs v by (simp add: ring_def)
  then have R: "seg ?m ?xs (first ?xs 0)" by (simp add: ring_def)
  have p: "fst (hdr ?m ?f) = first ?xs (first ?xs 0)"
    using heap_seg(1)[OF ok v] y(2) b0 by (cases ws) (auto simp: first_append)
  have d: "fst x \<noteq> ?f" if "x \<in> set (butlast ?xs)" for x
    using spaced_split[of vs y ws _ x] bs(2) v that y(2) by (auto simp: butlast_append)
  have S: "set ?xs = set bs" using v by auto
  have lt: "fst x < 2 ^ 32" if "x \<in> set ?xs" for x using heap_bound(4)[OF ok, of x] that unfolding S by simp
  have "r = malloc_loop (of_nat nu) (of_nat ?f) (of_nat (first ?xs (first ?xs 0))) h"
    unfolding r_def p[symmetric] by (simp add: hdr_def)
  then have M: "(\<exists>x\<in>set bs. \<exists>q. nu \<le> snd x \<and> (q = ?f \<or> q \<in> fst ` set bs) \<and> fst (hdr ?m q) = fst x \<and>
      r = Some (carve (of_nat nu) (of_nat q) (of_nat (fst x)) h)) \<or>
    (\<forall>x\<in>set bs. snd x < nu) \<and> r = Option.bind (morecore (of_nat nu) h) (\<lambda>r. if fst r = 0 then Some (0, snd r)
          else malloc_loop (of_nat nu) (fst r) (s_ptr (u_mem (snd r)) (fst r)) (snd r))"
    using malloc_scan[OF R _ _ d lt nu(2) p] y(2) unfolding S by simp
  have "case carve (of_nat nu) (of_nat q) (of_nat (fst x)) h of (p, h') \<Rightarrow> taken h bs nu p h'"
    if x: "x \<in> set bs" "nu \<le> snd x" "q = ?f \<or> q \<in> fst ` set bs" "fst (hdr ?m q) = fst x" for x q
  proof -
    obtain ts ws where t: "bs = ts @ (fst x, snd x) # ws" using x(1) by (metis split_list surjective_pairing)
    obtain us j where "ts = us @ [(q, j)]" using heap_pred[OF ok t, of q] x nu(1) bs(4) by auto
    then show ?thesis using carve_taken[OF ok, of us q j "fst x" "snd x" ws nu] t nu(1) x(2) by simp
  qed
  then show ?thesis using M by (metis (no_types, lifting) case_prodE)
qed

lemma heap_freep: "heap_ok h bs \<Longrightarrow> u_freep h \<noteq> 0"
proof -
  assume ok: "heap_ok h bs"
  then obtain x where "x \<in> set bs" "fst x = unat (u_freep h)" by (auto simp: heap_ok_def)
  then show ?thesis using heap_bound(1)[OF ok, of x] ok by (auto simp: heap_ok_def)
qed

text \<open>The number of headers for a request, the header of the block included.\<close>

definition units :: "nat \<Rightarrow> nat" where
  "units n = (n + 7) div 8 + 1"

lemma malloc_units:
  fixes nbytes :: uint
  assumes "unat nbytes < 2 ^ 31 - 16"
  shows "(nbytes + 8 - 1) div 8 + 1 = of_nat (units (unat nbytes))" "units (unat nbytes) < 2 ^ 28" "0 < units (unat nbytes)"
    "unat nbytes + 8 \<le> 8 * units (unat nbytes)"
proof -
  have "unat (nbytes + 7) = unat nbytes + 7" using assms by (simp add: unat_word_ariths(1))
  then have "unat ((nbytes + 7) div 8) = (unat nbytes + 7) div 8" by (simp add: unat_div)
  moreover have "(unat nbytes + 7) div 8 + 1 < 2 ^ 28" using assms by simp
  ultimately have u: "units (unat nbytes) = unat ((nbytes + 7) div 8 + 1)" by (simp add: unat_word_ariths(1) units_def)
  have "nbytes + 8 - 1 = nbytes + 7" by simp
  then show "(nbytes + 8 - 1) div 8 + 1 = of_nat (units (unat nbytes))" unfolding u by (simp add: add.commute)
  show "units (unat nbytes) < 2 ^ 28" "0 < units (unat nbytes)" using \<open>(unat nbytes + 7) div 8 + 1 < 2 ^ 28\<close> by (simp_all add: units_def)
  have "n + 8 \<le> 8 * ((n + 7) div 8 + 1)" for n :: nat by presburger
  then show "unat nbytes + 8 \<le> 8 * units (unat nbytes)" unfolding units_def .
qed

text \<open>What \<open>malloc\<close> does, with the memory it asked the kernel for first when no block was large enough.\<close>

definition enlarged :: "uheap \<Rightarrow> (nat \<times> nat) list \<Rightarrow> uheap \<Rightarrow> (nat \<times> nat) list \<Rightarrow> bool" where
  "enlarged h bs h1 bs1 \<longleftrightarrow> heap_ok h1 bs1 \<and> u_base h1 = u_base h \<and> u_grow h1 = u_grow h \<and> unat (u_brk h) \<le> unat (u_brk h1) \<and>
     region bs1 = region bs \<union> {unat (u_brk h)..<unat (u_brk h1)} \<and>
     (\<forall>i < 2 ^ 32. i \<notin> scratch h bs \<union> {unat (u_brk h)..<unat (u_brk h1)} \<longrightarrow> u_mem h1 (of_nat i) = u_mem h (of_nat i))"

lemma malloc_Some:
  assumes ok: "heap_ok h bs" and nb: "unat nbytes < 2 ^ 31 - 16"
  defines "nu \<equiv> units (unat nbytes)"
  shows "malloc nbytes h = Some (0, h) \<and> \<not> u_grow h (u_brk h) (8 * int (max nu 4096)) \<and> (\<forall>x\<in>set bs. snd x < nu) \<or>
    (\<exists>p h' h1 bs1. malloc nbytes h = Some (p, h') \<and> p \<noteq> 0 \<and> enlarged h bs h1 bs1 \<and> taken h1 bs1 nu p h')"
proof -
  note U = malloc_units[OF nb, folded nu_def]
  have nu32: "nu < 2 ^ 32" using U(2) by simp
  let ?r = "malloc_loop (of_nat nu) (u_freep h) (s_ptr (u_mem h) (u_freep h)) h"
  have e: "malloc nbytes h = ?r" using heap_freep[OF ok] unfolding malloc_def Let_def U(1) first_use_def by simp
  have tz: "p \<noteq> 0" if "taken h1 bs1 nu p h'" for h1 bs1 p h'
  proof -
    obtain b bs' where b: "p = of_nat (b + 8)" "outside h' bs' (b, nu)" "heap_ok h' bs'" using \<open>taken h1 bs1 nu p h'\<close> by (auto simp: taken_def)
    have "b + 8 < 2 ^ 32" using b(2,3) U(3) by (auto simp: outside_def heap_ok_def)
    then have "unat p = b + 8" unfolding b(1) by (rule unat_of_nat32)
    then show ?thesis by auto
  qed
  have E0: "enlarged h bs h bs" using ok by (simp add: enlarged_def)
  show ?thesis
  proof (cases "\<exists>p h'. ?r = Some (p, h') \<and> taken h bs nu p h'")
    case True
    then show ?thesis unfolding e using tz E0 by blast
  next
    case False
    then have small: "\<forall>x\<in>set bs. snd x < nu" and r: "?r = Option.bind (morecore (of_nat nu) h) (\<lambda>r. if fst r = 0 then Some (0, snd r)
          else malloc_loop (of_nat nu) (fst r) (s_ptr (u_mem (snd r)) (fst r)) (snd r))"
      using malloc_round[OF ok U(3) nu32] by auto
    show ?thesis
    proof (cases "u_grow h (u_brk h) (8 * int (max nu 4096))")
      case True
      let ?brk = "unat (u_brk h)" and ?n = "max nu 4096"
      obtain m f bs1 h1 where h1: "h1 = h\<lparr>u_brk := of_nat (?brk + 8 * ?n), u_mem := m, u_freep := of_nat f\<rparr>"
        "morecore (of_nat nu) h = Some (of_nat f, h1)" "0 < f" "f < 2 ^ 31" "heap_ok h1 bs1" "region bs1 = region bs \<union> {?brk..<?brk + 8 * ?n}"
        "?brk + 8 * ?n \<le> 2 ^ 31" "\<exists>x\<in>set bs1. nu \<le> snd x"
        "\<forall>i < 2 ^ 32. i \<notin> scratch h bs \<union> {?brk..<?brk + 8 * ?n} \<longrightarrow> m (of_nat i) = u_mem h (of_nat i)"
        using morecore_Some[OF ok U(2) True] unfolding Let_def by blast
      have b1: "unat (u_brk h1) = ?brk + 8 * ?n" unfolding h1(1) using h1(7) by (simp del: of_nat_add of_nat_mult add: unat_of_nat32)
      have "unat (of_nat f :: addr) = f" using h1(4) by (intro unat_of_nat32) simp
      then have "of_nat f \<noteq> (0 :: addr)" using h1(3) by auto
      then have "?r = malloc_loop (of_nat nu) (u_freep h1) (s_ptr (u_mem h1) (u_freep h1)) h1" using r h1(1,2) by simp
      moreover obtain p h' where "malloc_loop (of_nat nu) (u_freep h1) (s_ptr (u_mem h1) (u_freep h1)) h1 = Some (p, h')" "taken h1 bs1 nu p h'"
        using malloc_round[OF h1(5) U(3) nu32] h1(8) leD by blast
      moreover have "enlarged h bs h1 bs1" unfolding enlarged_def b1 using h1(1,5,6,9) by simp
      ultimately show ?thesis unfolding e using tz by auto
    next
      case False
      then have "morecore (of_nat nu) h = Some (0, h)" by (rule morecore_None[OF U(2)])
      then show ?thesis using e r small False by simp
    qed
  qed
qed

section \<open>Programs\<close>

text \<open>
  A program that uses the allocator as intended: it frees pointers it has, once each, and writes inside its blocks.
  Its blocks are pairs of a pointer and the number of bytes asked for.
\<close>

definition fresh_heap :: "uheap \<Rightarrow> bool" where
  "fresh_heap h \<longleftrightarrow> u_freep h = 0 \<and> 0 < unat (u_base h) \<and> unat (u_base h) + 8 \<le> unat (u_brk h) \<and> unat (u_brk h) \<le> 2 ^ 31 \<and>
     (\<forall>b n. u_grow h b n \<longrightarrow> 0 < n \<longrightarrow> uint b + n \<le> 2 ^ 31)"

inductive client :: "uheap \<Rightarrow> uheap \<Rightarrow> (nat \<times> nat) set \<Rightarrow> bool" for h0 where
  client_start: "client h0 h0 {}"
| client_malloc: "client h0 h L \<Longrightarrow> unat n < 2 ^ 31 - 16 \<Longrightarrow> malloc n h = Some (p, h') \<Longrightarrow>
    client h0 h' (if p = 0 then L else insert (unat p, unat n) L)"
| client_free: "client h0 h L \<Longrightarrow> (p, n) \<in> L \<Longrightarrow> ufree (of_nat p) h = Some h' \<Longrightarrow> client h0 h' (L - {(p, n)})"
| client_write: "client h0 h L \<Longrightarrow> (p, n) \<in> L \<Longrightarrow> i < n \<Longrightarrow> client h0 (h\<lparr>u_mem := (u_mem h)(of_nat (p + i) := v)\<rparr>) L"

text \<open>The block behind a pointer, as its header records it.\<close>

definition blk :: "uheap \<Rightarrow> nat \<Rightarrow> nat \<times> nat" where
  "blk h p = (p - 8, snd (hdr (u_mem h) (p - 8)))"

definition client_ok :: "uheap \<Rightarrow> (nat \<times> nat) list \<Rightarrow> (nat \<times> nat) set \<Rightarrow> bool" where
  "client_ok h bs L \<longleftrightarrow> heap_ok h bs \<and>
     (\<forall>x\<in>L. 8 \<le> fst x \<and> outside h bs (blk h (fst x)) \<and> snd x + 8 \<le> 8 * snd (blk h (fst x))) \<and>
     (\<forall>x\<in>L. \<forall>y\<in>L. x \<noteq> y \<longrightarrow> bytes (blk h (fst x)) \<inter> bytes (blk h (fst y)) = {})"

text \<open>The free blocks and the blocks of the program make up all memory from \<open>lo\<close> to the end.\<close>

definition live :: "uheap \<Rightarrow> (nat \<times> nat) set \<Rightarrow> nat set" where
  "live h L = (\<Union>x\<in>L. bytes (blk h (fst x)))"

definition covers :: "nat \<Rightarrow> uheap \<Rightarrow> (nat \<times> nat) list \<Rightarrow> (nat \<times> nat) set \<Rightarrow> bool" where
  "covers lo h bs L \<longleftrightarrow> lo \<le> unat (u_brk h) \<and> region bs \<union> live h L = {lo..<unat (u_brk h)}"

lemma live_cong: "(\<And>x. x \<in> L \<Longrightarrow> hdr (u_mem h') (fst x - 8) = hdr (u_mem h) (fst x - 8)) \<Longrightarrow> live h' L = live h L"
  by (simp add: live_def blk_def)

lemma hdr_cong: "(\<And>i. a \<le> i \<Longrightarrow> i < a + 8 \<Longrightarrow> m (of_nat i) = m' (of_nat i)) \<Longrightarrow> hdr m a = hdr m' a"
proof -
  assume e: "\<And>i. a \<le> i \<Longrightarrow> i < a + 8 \<Longrightarrow> m (of_nat i) = m' (of_nat i)"
  have "m (of_nat a + of_nat i) = m' (of_nat a + of_nat i)" if "i < 8" for i using e[of "a + i"] that by simp
  from this[of 0] this[of 1] this[of 2] this[of 3] this[of 4] this[of 5] this[of 6] this[of 7]
  show ?thesis by (simp add: hdr_def s_ptr_def s_size_def load32_alt add.assoc)
qed

text \<open>Bytes of a block that is not on the free list are none of the allocator's.\<close>

lemma outside_iff:
  assumes ok: "heap_ok h bs"
  shows "outside h bs b \<longleftrightarrow> 0 < snd b \<and> unat (u_base h) < fst b \<and> fst b + 8 * snd b \<le> unat (u_brk h) \<and>
    snd (hdr (u_mem h) (fst b)) = snd b \<and> bytes b \<inter> scratch h bs = {}"
proof -
  have "(\<forall>x\<in>set bs. fst x + 8 \<le> fst b \<and> fst x + 8 * snd x \<le> fst b \<or> fst b + 8 * snd b \<le> fst x) \<longleftrightarrow> bytes b \<inter> scratch h bs = {}"
    if b: "0 < snd b" "unat (u_base h) < fst b"
  proof
    assume A: "\<forall>x\<in>set bs. fst x + 8 \<le> fst b \<and> fst x + 8 * snd x \<le> fst b \<or> fst b + 8 * snd b \<le> fst x"
    have "(unat (u_base h), 0) \<in> set bs" using ok by (auto simp: heap_ok_def)
    then have "unat (u_base h) + 8 \<le> fst b" using A b by fastforce
    then show "bytes b \<inter> scratch h bs = {}" using A by (fastforce simp: bytes_def scratch_def region_def)
  next
    assume D: "bytes b \<inter> scratch h bs = {}"
    show "\<forall>x\<in>set bs. fst x + 8 \<le> fst b \<and> fst x + 8 * snd x \<le> fst b \<or> fst b + 8 * snd b \<le> fst x"
    proof
      fix x assume x: "x \<in> set bs"
      have H: "i < fst x \<or> fst x + 8 \<le> i" "i \<notin> bytes x" if "i \<in> bytes b" for i
      proof -
        have i: "i \<notin> scratch h bs" using that D by blast
        show "i < fst x \<or> fst x + 8 \<le> i" by (rule header_scratch[OF ok x i])
        show "i \<notin> bytes x" using i x by (auto simp: scratch_def region_def)
      qed
      show "fst x + 8 \<le> fst b \<and> fst x + 8 * snd x \<le> fst b \<or> fst b + 8 * snd b \<le> fst x"
        using H[of "fst b"] H[of "fst x"] H(1)[of "fst b + 8 * snd b - 1"] b(1) by (auto simp: bytes_def)
    qed
  qed
  then show ?thesis unfolding outside_def by blast
qed

lemma client_frame:
  assumes c: "client_ok h bs L" and ok: "heap_ok h' bs'" "u_base h' = u_base h" "unat (u_brk h) \<le> unat (u_brk h')" and L: "L' \<subseteq> L"
    and same: "\<And>x. x \<in> L' \<Longrightarrow> hdr (u_mem h') (fst x - 8) = hdr (u_mem h) (fst x - 8)"
    and sep: "\<And>x. x \<in> L' \<Longrightarrow> bytes (blk h (fst x)) \<inter> scratch h' bs' = {}"
  shows "client_ok h' bs' L'"
proof -
  have b: "blk h' (fst x) = blk h (fst x)" if "x \<in> L'" for x using same[OF that] by (simp add: blk_def)
  have "outside h' bs' (blk h (fst x))" if "x \<in> L'" for x
  proof -
    have "outside h bs (blk h (fst x))" "heap_ok h bs" using c L that by (auto simp: client_ok_def)
    then show ?thesis using outside_iff[of h bs] outside_iff[OF ok(1)] sep[OF that] same[OF that] ok(2,3)
      by (auto simp: blk_def)
  qed
  then show ?thesis using c ok(1) L b unfolding client_ok_def by (simp add: subsetD)
qed

lemma live_bytes:
  assumes "client_ok h bs L" "x \<in> L"
  shows "bytes (blk h (fst x)) \<inter> scratch h bs = {}" "i \<in> bytes (blk h (fst x)) \<Longrightarrow> i < unat (u_brk h) \<and> i < 2 ^ 32"
    "{fst x - 8..<fst x + snd x} \<subseteq> bytes (blk h (fst x))"
proof -
  have ok: "heap_ok h bs" and o: "outside h bs (blk h (fst x))" "8 \<le> fst x" "snd x + 8 \<le> 8 * snd (blk h (fst x))"
    using assms by (auto simp: client_ok_def)
  have hi: "unat (u_brk h) \<le> 2 ^ 31" by (rule heap_okE[OF ok])
  have "0 < snd (blk h (fst x))" "fst (blk h (fst x)) + 8 * snd (blk h (fst x)) \<le> unat (u_brk h)"
    using o(1) unfolding outside_def by simp_all
  then show "i \<in> bytes (blk h (fst x)) \<Longrightarrow> i < unat (u_brk h) \<and> i < 2 ^ 32" using hi by (auto simp: bytes_def)
  show "bytes (blk h (fst x)) \<inter> scratch h bs = {}" using o(1) outside_iff[OF ok] by blast
  show "{fst x - 8..<fst x + snd x} \<subseteq> bytes (blk h (fst x))" using o by (auto simp: bytes_def blk_def)
qed

text \<open>The allocator changes nothing in the blocks of the program.\<close>

definition keeps :: "(nat \<times> nat) set \<Rightarrow> uheap \<Rightarrow> uheap \<Rightarrow> bool" where
  "keeps L h h' \<longleftrightarrow> (\<forall>x\<in>L. \<forall>i\<in>bytes (blk h (fst x)). u_mem h' (of_nat i) = u_mem h (of_nat i))"

lemma keeps_hdr: "client_ok h bs L \<Longrightarrow> keeps L h h' \<Longrightarrow> x \<in> L \<Longrightarrow> hdr (u_mem h') (fst x - 8) = hdr (u_mem h) (fst x - 8)"
proof (rule hdr_cong)
  fix i assume a: "client_ok h bs L" "keeps L h h'" "x \<in> L" "fst x - 8 \<le> i" "i < fst x - 8 + 8"
  then have "8 \<le> fst x" by (auto simp: client_ok_def)
  then have "i \<in> bytes (blk h (fst x))" using a live_bytes(3)[OF a(1,3)] by auto
  then show "u_mem h' (of_nat i) = u_mem h (of_nat i)" using a(2,3) by (auto simp: keeps_def)
qed

lemma client_ok_malloc:
  fixes nbytes :: uint
  assumes c: "client_ok h bs L" and nb: "unat nbytes < 2 ^ 31 - 16" and e: "enlarged h bs h1 bs1"
    and t: "taken h1 bs1 (units (unat nbytes)) p h'"
  shows "\<exists>bs'. client_ok h' bs' (insert (unat p, unat nbytes) L) \<and> keeps L h h' \<and>
    (\<forall>lo. covers lo h bs L \<longrightarrow> covers lo h' bs' (insert (unat p, unat nbytes) L))"
proof -
  let ?nu = "units (unat nbytes)"
  note U = malloc_units[OF nb]
  obtain m f b bs' where h': "h' = h1\<lparr>u_mem := m, u_freep := f\<rparr>" and b: "p = of_nat (b + 8)" "heap_ok h' bs'" "outside h' bs' (b, ?nu)"
      "region bs1 = region bs' \<union> bytes (b, ?nu)" "\<And>i. i < 2 ^ 32 \<Longrightarrow> i \<notin> scratch h1 bs1 \<Longrightarrow> m (of_nat i) = u_mem h1 (of_nat i)"
    using t unfolding taken_def by blast
  let ?new = "{unat (u_brk h)..<unat (u_brk h1)}"
  have h1: "u_base h1 = u_base h" "unat (u_brk h) \<le> unat (u_brk h1)" "region bs1 = region bs \<union> ?new"
      "\<And>i. i < 2 ^ 32 \<Longrightarrow> i \<notin> scratch h bs \<union> ?new \<Longrightarrow> u_mem h1 (of_nat i) = u_mem h (of_nat i)"
    using e unfolding enlarged_def by blast+
  have s: "scratch h1 bs1 = scratch h bs \<union> ?new" "scratch h' bs' \<subseteq> scratch h1 bs1" "bytes (b, ?nu) \<subseteq> scratch h1 bs1"
    using h1(1,3) b(4) h' by (auto simp: scratch_def)
  have d: "bytes (blk h (fst x)) \<inter> scratch h1 bs1 = {}" if "x \<in> L" for x
    using live_bytes(1,2)[OF c that] s(1) by fastforce
  have k: "keeps L h h'" unfolding keeps_def
  proof (intro ballI)
    fix x i assume x: "x \<in> L" "i \<in> bytes (blk h (fst x))"
    then have "i < 2 ^ 32" "i \<notin> scratch h1 bs1" using live_bytes(2)[OF c x] d[OF x(1)] by auto
    then show "u_mem h' (of_nat i) = u_mem h (of_nat i)" using b(5) h1(4) h' s(1) by simp
  qed
  have d': "bytes (blk h (fst x)) \<inter> scratch h' bs' = {}" if "x \<in> L" for x using d[OF that] s(2) by blast
  have "client_ok h' bs' L"
    by (rule client_frame[OF c b(2) _ _ subset_refl keeps_hdr[OF c k] d']) (use h' h1 in auto)
  moreover have "b + 8 < 2 ^ 32" using b(2,3) U(3) by (auto simp: outside_def heap_ok_def)
  then have p: "unat p = b + 8" unfolding b(1) by (rule unat_of_nat32)
  then have B: "blk h' (unat p) = (b, ?nu)" using b(3) by (simp add: blk_def outside_def)
  moreover have "bytes (blk h' (fst x)) \<inter> bytes (b, ?nu) = {}" if "x \<in> L" for x
    using d[OF that] s(3) keeps_hdr[OF c k that] by (auto simp: blk_def)
  ultimately have "client_ok h' bs' (insert (unat p, unat nbytes) L)"
    using b(3) p U(4) unfolding client_ok_def by (auto simp: Int_commute)
  moreover have "covers lo h' bs' (insert (unat p, unat nbytes) L)" if "covers lo h bs L" for lo
  proof -
    have "live h' (insert (unat p, unat nbytes) L) = bytes (b, ?nu) \<union> live h L"
      using live_cong[of L h' h] keeps_hdr[OF c k] B by (simp add: live_def)
    then have "region bs' \<union> live h' (insert (unat p, unat nbytes) L) = region bs \<union> live h L \<union> ?new"
      using b(4) h1(3) by blast
    then show ?thesis using that h1(2) h' unfolding covers_def by auto
  qed
  ultimately show ?thesis using k by blast
qed

lemma client_ok_free:
  assumes c: "client_ok h bs L" and x: "(p, n) \<in> L"
  shows "\<exists>h' bs'. ufree (of_nat p) h = Some h' \<and> client_ok h' bs' (L - {(p, n)}) \<and> keeps (L - {(p, n)}) h h' \<and>
    (\<forall>lo. covers lo h bs L \<longrightarrow> covers lo h' bs' (L - {(p, n)}))"
proof -
  let ?L = "L - {(p, n)}"
  have ok: "heap_ok h bs" and o: "outside h bs (blk h p)" "8 \<le> p" using c x by (auto simp: client_ok_def)
  obtain b where "p = b + 8" using o(2) by (metis add.commute le_iff_add)
  then obtain k where b: "blk h p = (b, k)" "p = b + 8" by (simp add: blk_def)
  obtain ys a j zs where s: "bs = ys @ (a, j) # zs" "a < b" "zs = [] \<or> b + 8 * k \<le> first zs 0" "a + 8 \<le> b" "a + 8 * j \<le> b"
    by (rule split_at[OF ok o(1)[unfolded b(1)]])
  let ?bs = "ys @ joinb (a, j) (joinb (b, k) zs)"
  obtain m where m: "ufree (of_nat p) h = Some (h\<lparr>u_mem := m, u_freep := of_nat a\<rparr>)" "heap_ok (h\<lparr>u_mem := m, u_freep := of_nat a\<rparr>) ?bs"
      "\<And>i. i < 2 ^ 32 \<Longrightarrow> i < a \<or> a + 8 \<le> i \<Longrightarrow> i < b \<or> b + 8 \<le> i \<Longrightarrow> m (of_nat i) = u_mem h (of_nat i)"
    using ufree_Some[OF ok o(1)[unfolded b(1)] s] unfolding b(2) by blast
  let ?h' = "h\<lparr>u_mem := m, u_freep := of_nat a\<rparr>"
  have sc: "scratch ?h' ?bs = scratch h bs \<union> bytes (b, k)" unfolding s(1) by (auto simp: scratch_def region_joinb)
  have hb: "i < b \<or> b + 8 \<le> i" if "i \<notin> bytes (b, k)" for i using that o(1) unfolding b(1) outside_def by (auto simp: bytes_def)
  have d: "bytes (blk h (fst y)) \<inter> bytes (b, k) = {}" if "y \<in> ?L" for y
    using c x that b(1) unfolding client_ok_def by (metis DiffD1 DiffD2 fst_conv singletonI)
  have k: "keeps ?L h ?h'" unfolding keeps_def
  proof (intro ballI)
    fix y i assume y: "y \<in> ?L" "i \<in> bytes (blk h (fst y))"
    then have yL: "y \<in> L" by simp
    have "i \<notin> bytes (b, k)" "i \<notin> scratch h bs" using d[OF y(1)] live_bytes(1)[OF c yL] y(2) by auto
    moreover have "i < a \<or> a + 8 \<le> i" using header_scratch[OF ok, of "(a, j)" i] calculation s(1) by simp
    ultimately show "u_mem ?h' (of_nat i) = u_mem h (of_nat i)"
      using m(3)[of i] live_bytes(2)[OF c yL y(2)] hb[of i] by simp
  qed
  have hd: "hdr (u_mem ?h') (fst y - 8) = hdr (u_mem h) (fst y - 8)" if "y \<in> ?L" for y
    using keeps_hdr[of h bs ?L ?h' y] c k that by (auto simp: client_ok_def)
  have d': "bytes (blk h (fst y)) \<inter> scratch ?h' ?bs = {}" if "y \<in> ?L" for y
    using d[OF that] live_bytes(1)[OF c, of y] that unfolding sc by (simp add: Int_Un_distrib)
  have "client_ok ?h' ?bs ?L" by (rule client_frame[OF c m(2) _ _ Diff_subset hd d']) simp_all
  moreover have "covers lo ?h' ?bs ?L" if "covers lo h bs L" for lo
  proof -
    have "live h L = live h ?L \<union> bytes (b, k)" using x b(1) by (auto simp: live_def)
    moreover have "region ?bs = region bs \<union> bytes (b, k)" unfolding s(1) by (auto simp: region_joinb)
    ultimately show ?thesis using that live_cong[of ?L ?h' h] hd unfolding covers_def by auto
  qed
  ultimately show ?thesis using m(1) k by blast
qed

lemma client_ok_write:
  assumes c: "client_ok h bs L" and x: "(p, n) \<in> L" "i < n"
  shows "client_ok (h\<lparr>u_mem := (u_mem h)(of_nat (p + i) := v)\<rparr>) bs L"
    "live (h\<lparr>u_mem := (u_mem h)(of_nat (p + i) := v)\<rparr>) L = live h L"
proof -
  let ?h' = "h\<lparr>u_mem := (u_mem h)(of_nat (p + i) := v)\<rparr>"
  have ok: "heap_ok h bs" and p: "8 \<le> p" using c x by (auto simp: client_ok_def)
  have pi: "p + i \<in> bytes (blk h p)" using live_bytes(3)[OF c x(1)] p x(2) by (auto simp: subset_iff)
  then have lt: "p + i < 2 ^ 32" using live_bytes(2)[OF c x(1)] by simp
  have same: "hdr (u_mem ?h') a = hdr (u_mem h) a" if "a + 8 \<le> 2 ^ 32" "p + i < a \<or> a + 8 \<le> p + i" for a
  proof (rule hdr_cong)
    fix j assume "a \<le> j" "j < a + 8"
    then have "unat (of_nat j :: addr) \<noteq> unat (of_nat (p + i) :: addr)" using that lt by (auto simp: unat_of_nat32 simp del: of_nat_add)
    then show "u_mem ?h' (of_nat j) = u_mem h (of_nat j)" by auto
  qed
  have hf: "hdr (u_mem ?h') (fst y) = hdr (u_mem h) (fst y)" if "y \<in> set bs" for y
    using header_scratch[OF ok that, of "p + i"] live_bytes(1)[OF c x(1)] pi heap_bound(4)[OF ok that] by (intro same) auto
  have "ring (u_mem ?h') bs = ring (u_mem h) bs" using seg_cong[of bs "u_mem ?h'" "u_mem h"] hf by (simp add: ring_def)
  then have ok': "heap_ok ?h' bs" using ok by (simp add: heap_ok_def)
  have sc: "scratch ?h' bs = scratch h bs" by (simp add: scratch_def)
  have hl: "hdr (u_mem ?h') (fst y - 8) = hdr (u_mem h) (fst y - 8)" if y: "y \<in> L" for y
  proof -
    have y8: "8 \<le> fst y" using c y by (auto simp: client_ok_def)
    have hb: "{fst y - 8..<fst y} \<subseteq> bytes (blk h (fst y))" using live_bytes(3)[OF c y] by auto
    have "p + i \<notin> {fst y - 8..<fst y}"
    proof (cases "y = (p, n)")
      case False
      then have "bytes (blk h (fst y)) \<inter> bytes (blk h p) = {}" using c x(1) y unfolding client_ok_def by fastforce
      then show ?thesis using pi hb by blast
    qed simp
    moreover have "fst y - 8 \<in> bytes (blk h (fst y))" "fst y - 1 \<in> bytes (blk h (fst y))" using hb y8 by (auto simp: subset_iff)
    then have "fst y - 1 < unat (u_brk h)" using live_bytes(2)[OF c y] by blast
    moreover have "unat (u_brk h) \<le> 2 ^ 31" by (rule heap_okE[OF ok])
    ultimately show ?thesis using y8 by (intro same) auto
  qed
  show "client_ok ?h' bs L" by (rule client_frame[OF c ok' _ _ subset_refl hl live_bytes(1)[OF c, folded sc]]) simp_all
  show "live ?h' L = live h L" by (rule live_cong) (rule hl)
qed

lemma first_use_ok:
  assumes "fresh_heap h"
  shows "client_ok (first_use h) [(unat (u_base h), 0)] {}" "malloc nbytes h = malloc nbytes (first_use h)"
proof -
  have f: "u_freep h = 0" "0 < unat (u_base h)" "unat (u_base h) + 8 \<le> 2 ^ 31" using assms by (auto simp: fresh_heap_def)
  let ?m = "set_size (u_base h) 0 (set_ptr (u_base h) (u_base h) (u_mem h))"
  have B: "u_base h = of_nat (unat (u_base h))" by simp
  have "hdr ?m (unat (u_base h)) = (unat (u_base h), 0)"
    using f(3) hdr_set_size(1)[of "unat (u_base h)" 0] hdr_set_ptr(1)[of "unat (u_base h)" "u_base h" "u_mem h"] by simp
  then show "client_ok (first_use h) [(unat (u_base h), 0)] {}"
    using assms f unfolding client_ok_def heap_ok_def first_use_def fresh_heap_def by (simp add: ring_def)
  have "u_base h \<noteq> 0" using f(2) by auto
  then show "malloc nbytes h = malloc nbytes (first_use h)" using f(1) by (simp add: malloc_def first_use_def Let_def)
qed

lemma malloc_client:
  assumes c: "client_ok h bs L" and nb: "unat nbytes < 2 ^ 31 - 16"
  shows "\<exists>p h' bs'. malloc nbytes h = Some (p, h') \<and> client_ok h' bs' (if p = 0 then L else insert (unat p, unat nbytes) L) \<and> keeps L h h' \<and>
    (p = 0 \<longrightarrow> \<not> u_grow h (u_brk h) (8 * int (max (units (unat nbytes)) 4096))) \<and>
    (\<forall>lo. covers lo h bs L \<longrightarrow> covers lo h' bs' (if p = 0 then L else insert (unat p, unat nbytes) L))"
proof -
  have ok: "heap_ok h bs" using c by (simp add: client_ok_def)
  from malloc_Some[OF ok nb] show ?thesis
  proof
    assume "\<exists>p h' h1 bs1. malloc nbytes h = Some (p, h') \<and> p \<noteq> 0 \<and> enlarged h bs h1 bs1 \<and> taken h1 bs1 (units (unat nbytes)) p h'"
    then obtain p h' where p: "malloc nbytes h = Some (p, h')" "p \<noteq> 0" and "\<exists>h1 bs1. enlarged h bs h1 bs1 \<and> taken h1 bs1 (units (unat nbytes)) p h'" by blast
    with client_ok_malloc[OF c nb] show ?thesis by (intro exI[of _ p] exI[of _ h']) auto
  qed (use c in \<open>auto simp: keeps_def\<close>)
qed

lemma client_inv:
  "client h0 h L \<Longrightarrow> fresh_heap h0 \<Longrightarrow>
   h = h0 \<and> L = {} \<or> (\<exists>bs. client_ok h bs L \<and> covers (unat (u_brk h0)) h bs L)"
proof (induction rule: client.induct)
  case (client_malloc h L n p h')
  obtain k bs where k: "client_ok k bs L" "malloc n k = Some (p, h')" "covers (unat (u_brk h0)) k bs L"
  proof (cases "h = h0 \<and> L = {}")
    case True
    have "covers (unat (u_brk h0)) (first_use h0) [(unat (u_base h0), 0)] {}" by (simp add: covers_def live_def bytes_def first_use_def)
    then show ?thesis using that first_use_ok[OF client_malloc.prems] True client_malloc.hyps(3) by simp
  qed (use that client_malloc in blast)
  then show ?case using malloc_client[OF k(1) client_malloc.hyps(2)] by auto
next
  case (client_free h L p n h')
  then obtain bs where "client_ok h bs L" "covers (unat (u_brk h0)) h bs L" by auto
  then show ?case using client_ok_free[of h bs L p n] client_free.hyps(2,3) by auto
next
  case (client_write h L p n i v)
  then obtain bs where "client_ok h bs L" "covers (unat (u_brk h0)) h bs L" by auto
  then show ?case using client_ok_write[of h bs L p n i v] client_write.hyps(2,3) by (auto simp: covers_def)
qed simp

lemma keeps_contents:
  assumes "client_ok h bs L" "keeps L' h h'" "L' \<subseteq> L" "x \<in> L'" "i < snd x"
  shows "u_mem h' (of_nat (fst x + i)) = u_mem h (of_nat (fst x + i))"
proof -
  have "x \<in> L" using assms(3,4) by blast
  then have "fst x + i \<in> bytes (blk h (fst x))" using assms(5) by (intro subsetD[OF live_bytes(3)[OF assms(1)]]) simp_all
  then show ?thesis using assms(2,4) unfolding keeps_def by blast
qed

text \<open>
  C17: \<open>malloc\<close> and \<open>free\<close> are safe for every program that frees only what it was given, once, and writes only inside
  its blocks. In every state such a program can reach: its blocks do not overlap and lie between \<open>base\<close> and the end
  of memory; \<open>malloc\<close> of any size up to nearly 2 GB returns, null only if the kernel refused to grow the memory,
  and leaves the contents of all blocks alone; and \<open>free\<close> of any block returns and leaves those of the others alone.
\<close>
theorem malloc_free_safe:
  assumes "fresh_heap h0" and "client h0 h L"
  shows "(\<forall>x\<in>L. \<forall>y\<in>L. x \<noteq> y \<longrightarrow> {fst x..<fst x + snd x} \<inter> {fst y..<fst y + snd y} = {} \<and> fst x \<noteq> fst y) \<and>
    (\<forall>x\<in>L. unat (u_base h) + 8 < fst x \<and> fst x + snd x \<le> unat (u_brk h)) \<and>
    (\<forall>n. unat n < 2 ^ 31 - 16 \<longrightarrow> (\<exists>p h'. malloc n h = Some (p, h') \<and>
       (p = 0 \<longrightarrow> \<not> u_grow h (u_brk h) (8 * int (max (units (unat n)) 4096))) \<and>
       (\<forall>x\<in>L. \<forall>i < snd x. u_mem h' (of_nat (fst x + i)) = u_mem h (of_nat (fst x + i))))) \<and>
    (\<forall>x\<in>L. \<exists>h'. ufree (of_nat (fst x)) h = Some h' \<and>
       (\<forall>y\<in>L - {x}. \<forall>i < snd y. u_mem h' (of_nat (fst y + i)) = u_mem h (of_nat (fst y + i))))"
proof (cases "h = h0 \<and> L = {}")
  case f: True
  have "u_grow (first_use h) = u_grow h" "u_brk (first_use h) = u_brk h" by (simp_all add: first_use_def)
  then have "\<exists>p h'. malloc n h = Some (p, h') \<and> (p = 0 \<longrightarrow> \<not> u_grow h (u_brk h) (8 * int (max (units (unat n)) 4096)))"
    if "unat n < 2 ^ 31 - 16" for n
    using f malloc_client[OF first_use_ok(1)[OF assms(1)] that] first_use_ok(2)[OF assms(1), of n] by auto
  then show ?thesis using f by simp
next
  case False
  then obtain bs where c: "client_ok h bs L" using client_inv[OF assms(2,1)] by blast
  have sub: "{fst x..<fst x + snd x} \<subseteq> bytes (blk h (fst x))" "fst x - 8 \<in> bytes (blk h (fst x))" if "x \<in> L" for x
    using live_bytes(3)[OF c that] c that by (auto simp: client_ok_def subset_iff)
  have "{fst x..<fst x + snd x} \<inter> {fst y..<fst y + snd y} = {} \<and> fst x \<noteq> fst y" if "x \<in> L" "y \<in> L" "x \<noteq> y" for x y
  proof -
    have disj: "bytes (blk h (fst x)) \<inter> bytes (blk h (fst y)) = {}" using c that unfolding client_ok_def by blast
    moreover have "bytes (blk h (fst x)) \<noteq> {}" using sub(2)[OF that(1)] by blast
    ultimately have "fst x \<noteq> fst y" by auto
    moreover have "{fst x..<fst x + snd x} \<inter> {fst y..<fst y + snd y} = {}"
      using disj sub(1)[OF that(1)] sub(1)[OF that(2)] by blast
    ultimately show ?thesis by blast
  qed
  moreover have "unat (u_base h) + 8 < fst x \<and> fst x + snd x \<le> unat (u_brk h)" if "x \<in> L" for x
    using c that unfolding client_ok_def outside_def blk_def by fastforce
  moreover have "\<exists>p h'. malloc n h = Some (p, h') \<and> (p = 0 \<longrightarrow> \<not> u_grow h (u_brk h) (8 * int (max (units (unat n)) 4096))) \<and>
       (\<forall>x\<in>L. \<forall>i < snd x. u_mem h' (of_nat (fst x + i)) = u_mem h (of_nat (fst x + i)))" if "unat n < 2 ^ 31 - 16" for n :: uint
    using malloc_client[OF c that] keeps_contents[OF c _ subset_refl] by blast
  moreover have "\<exists>h'. ufree (of_nat (fst x)) h = Some h' \<and>
       (\<forall>y\<in>L - {x}. \<forall>i < snd y. u_mem h' (of_nat (fst y + i)) = u_mem h (of_nat (fst y + i)))" if "x \<in> L" for x
    using client_ok_free[OF c, of "fst x" "snd x"] that keeps_contents[OF c _ Diff_subset] by (metis prod.collapse)
  ultimately show ?thesis by blast
qed

lemma one_block:
  assumes "spaced xs hi" "region xs = {lo..<e}" "\<And>x. x \<in> set xs \<Longrightarrow> 0 < snd x"
  shows "xs = [] \<or> (\<exists>n. xs = [(lo, n)] \<and> lo + 8 * n = e)"
proof (cases xs)
  case (Cons x ys)
  have sub: "bytes y \<subseteq> {lo..<e}" if "y \<in> set xs" for y using assms(2) that by (auto simp: region_def)
  have x: "fst x \<in> {lo..<e}" "fst x + 8 * snd x \<le> e"
    using sub[of x] assms(3)[of x] Cons subsetD[OF sub[of x], of "fst x + 8 * snd x - 1"] by (auto simp: bytes_def)
  have later: "fst x + 8 * snd x < fst y" if "y \<in> set ys" for y using spaced_Cons[of x ys hi y] assms(1) Cons that by blast
  have "fst x + 8 * snd x \<notin> region xs" using later Cons by (fastforce simp: region_def bytes_def)
  then have e: "fst x + 8 * snd x = e" using x assms(2) by auto
  have "ys = []"
  proof (rule ccontr)
    assume "ys \<noteq> []"
    then have "hd ys \<in> set ys" by simp
    then show False using later[of "hd ys"] subsetD[OF sub[of "hd ys"], of "fst (hd ys)"] assms(3)[of "hd ys"] e Cons by (auto simp: bytes_def)
  qed
  moreover have "fst x = lo" using x assms(2) Cons calculation e by (auto simp: bytes_def atLeastLessThan_eq_iff)
  ultimately show ?thesis using Cons e by (metis prod.collapse)
qed simp

text \<open>
  C18: No memory is lost. When a program has freed all its blocks, whatever it did before, the free list consists of
  \<open>base\<close> and a single block with all the memory the kernel ever gave it, or of \<open>base\<close> alone if it gave none: every
  \<open>free\<close> merged the block with its neighbours.
\<close>
theorem free_all_restores:
  assumes "fresh_heap h0" and "client h0 h {}" and "u_freep h \<noteq> 0"
  shows "let lo = unat (u_brk h0); hi = unat (u_brk h); base = unat (u_base h) in
    (if lo = hi then hdr (u_mem h) base = (base, 0)
     else hdr (u_mem h) base = (lo, 0) \<and> hdr (u_mem h) lo = (base, (hi - lo) div 8))"
proof -
  have "u_freep h0 = 0" using assms(1) by (simp add: fresh_heap_def)
  then obtain bs where c: "client_ok h bs {}" "covers (unat (u_brk h0)) h bs {}" using client_inv[OF assms(2,1)] assms(3) by auto
  then have ok: "heap_ok h bs" by (simp add: client_ok_def)
  obtain xs where bs: "bs = (unat (u_base h), 0) # xs" "\<And>x. x \<in> set xs \<Longrightarrow> 0 < snd x" "spaced bs (Suc (unat (u_brk h)))"
      "seg (u_mem h) bs (unat (u_base h))" by (rule heap_okE[OF ok]) blast
  have R: "region xs = {unat (u_brk h0)..<unat (u_brk h)}" "unat (u_brk h0) \<le> unat (u_brk h)"
    using c(2) bs(1) by (auto simp: covers_def live_def bytes_def)
  have "spaced xs (Suc (unat (u_brk h)))" using bs(1,3) by simp
  from one_block[OF this R(1) bs(2)] show ?thesis
  proof
    assume "xs = []"
    then show ?thesis using R bs(1,4) by (auto simp: Let_def)
  next
    assume "\<exists>n. xs = [(unat (u_brk h0), n)] \<and> unat (u_brk h0) + 8 * n = unat (u_brk h)"
    then obtain n where n: "xs = [(unat (u_brk h0), n)]" "unat (u_brk h) = unat (u_brk h0) + 8 * n" by metis
    then show ?thesis using bs(1,4) bs(2)[of "(unat (u_brk h0), n)"] by (simp add: Let_def)
  qed
qed

text \<open>A program with its data at 4 KB, its memory ending at 8 KB, and a kernel with memory to spare.\<close>

definition small_program :: uheap where
  "small_program = \<lparr>u_mem = (\<lambda>_. 0), u_base = 0x1000, u_freep = 0, u_brk = 0x2000, u_grow = (\<lambda>b n. uint b + n \<le> 2 ^ 31)\<rparr>"

lemma small_program_fresh: "fresh_heap small_program"
  by (simp add: fresh_heap_def small_program_def)

lemma small_program_runs:
  obtains p h where "malloc 100 small_program = Some (p, h)" "client small_program h {(unat p, 100)}"
proof -
  obtain p h where p: "malloc 100 small_program = Some (p, h)"
      "p = 0 \<longrightarrow> \<not> u_grow (first_use small_program) (u_brk (first_use small_program)) (8 * int (max (units (unat (100 :: uint))) 4096))"
    using malloc_client[OF first_use_ok(1)[OF small_program_fresh], of 100] first_use_ok(2)[OF small_program_fresh, of 100] by auto
  then have "p \<noteq> 0" by (auto simp: small_program_def first_use_def units_def)
  then show ?thesis using that[OF p(1)] client_malloc[OF client_start _ p(1)] by simp
qed

theorem malloc_free_safe_witness:
  "\<exists>h p h'. client small_program h {(p, 100)} \<and> ufree (of_nat p) h = Some h' \<and>
     (\<exists>q h''. malloc 50 h = Some (q, h''))"
proof -
  obtain p h where p: "malloc 100 small_program = Some (p, h)" "client small_program h {(unat p, 100)}" by (rule small_program_runs)
  show ?thesis using malloc_free_safe[OF small_program_fresh p(2)] p(2) by force
qed

theorem free_all_restores_witness:
  "\<exists>h. client small_program h {} \<and> u_freep h \<noteq> 0 \<and> (let lo = unat (u_brk small_program); hi = unat (u_brk h); base = unat (u_base h) in
    (if lo = hi then hdr (u_mem h) base = (base, 0)
     else hdr (u_mem h) base = (lo, 0) \<and> hdr (u_mem h) lo = (base, (hi - lo) div 8)))"
proof -
  obtain p h where p: "malloc 100 small_program = Some (p, h)" "client small_program h {(unat p, 100)}" by (rule small_program_runs)
  then obtain bs where "client_ok h bs {(unat p, 100)}" using client_inv[OF p(2) small_program_fresh] by auto
  from client_ok_free[OF this, of "unat p" 100] obtain h' bs' where h': "ufree (of_nat (unat p)) h = Some h'" "client_ok h' bs' {}" by auto
  have c: "client small_program h' {}" using client_free[OF p(2) _ h'(1), of 100] by simp
  moreover have "u_freep h' \<noteq> 0" using h'(2) heap_freep by (auto simp: client_ok_def)
  ultimately show ?thesis using free_all_restores[OF small_program_fresh c] by blast
qed

end
