(* ===== verification/Boot.thy ===== *)
theory Boot
  imports Cstring
begin

text \<open>
  The boot loader (\<open>bootmain.c\<close>): reading the kernel from the disk by programmed input, sector by sector, and placing
  the segments of the ELF image in memory. The disk controller is not part of the program: it is a parameter, the bytes
  its data port delivers as a function of the registers written before. The theorem relies on what the ATA interface
  documents, \<open>reads_sectors\<close>: one sector, the one the address registers name. Waiting for the controller to be ready
  only reads its status and is left out.
\<close>

section \<open>The disk controller\<close>

record ata =
  a_count :: byte
  a_lba0 :: byte
  a_lba1 :: byte
  a_lba2 :: byte
  a_head :: byte
  a_cmd :: byte

definition outb :: "ushort \<Rightarrow> byte \<Rightarrow> ata \<Rightarrow> ata" where
  "outb port v d =
     (if port = 0x1F2 then d\<lparr>a_count := v\<rparr>
      else if port = 0x1F3 then d\<lparr>a_lba0 := v\<rparr>
      else if port = 0x1F4 then d\<lparr>a_lba1 := v\<rparr>
      else if port = 0x1F5 then d\<lparr>a_lba2 := v\<rparr>
      else if port = 0x1F6 then d\<lparr>a_head := v\<rparr>
      else if port = 0x1F7 then d\<lparr>a_cmd := v\<rparr>
      else d)"

type_synonym controller = "ata \<Rightarrow> byte list"

text \<open>The words \<open>rep insl\<close> stores, byte by byte.\<close>

fun insl :: "memory \<Rightarrow> addr \<Rightarrow> byte list \<Rightarrow> memory" where
  "insl m a [] = m"
| "insl m a (b # bs) = insl (m(a := b)) (a + 1) bs"

section \<open>The loader\<close>

definition readsect :: "controller \<Rightarrow> addr \<Rightarrow> uint \<Rightarrow> ata \<times> memory \<Rightarrow> ata \<times> memory" where
  "readsect ctl dst offset = (\<lambda>(d, m).
     let d = outb 0x1F2 1 d;
         d = outb 0x1F3 (ucast offset) d;
         d = outb 0x1F4 (ucast (drop_bit 8 offset)) d;
         d = outb 0x1F5 (ucast (drop_bit 16 offset)) d;
         d = outb 0x1F6 (ucast (drop_bit 24 offset OR 0xE0)) d;
         d = outb 0x1F7 0x20 d in
     (d, insl m dst (take 512 (ctl d))))"

partial_function (option) readseg_loop :: "controller \<Rightarrow> addr \<Rightarrow> addr \<Rightarrow> uint \<Rightarrow> ata \<times> memory \<Rightarrow> (ata \<times> memory) option" where
  "readseg_loop ctl pa epa offset s =
     (if pa < epa then readseg_loop ctl (pa + 512) epa (offset + 1) (readsect ctl pa offset s) else Some s)"

definition readseg :: "controller \<Rightarrow> addr \<Rightarrow> uint \<Rightarrow> uint \<Rightarrow> ata \<times> memory \<Rightarrow> (ata \<times> memory) option" where
  "readseg ctl pa cnt offset s = readseg_loop ctl (pa - offset mod 512) (pa + cnt) (offset div 512 + 1) s"

definition load16 :: "memory \<Rightarrow> addr \<Rightarrow> uint" where
  "load16 m a = ucast (m a) OR push_bit 8 (ucast (m (a + 1)))"

text \<open>One program header: off at 4, paddr at 12, filesz at 16, memsz at 20.\<close>

definition load_ph :: "controller \<Rightarrow> addr \<Rightarrow> ata \<times> memory \<Rightarrow> (ata \<times> memory) option" where
  "load_ph ctl ph s =
     (let m = snd s; pa = load32 m (ph + 12) in
      map_option (\<lambda>(d, m').
        let filesz = load32 m' (ph + 16); memsz = load32 m' (ph + 20) in
        (d, if filesz < memsz then stosb m' (pa + filesz) 0 (unat (memsz - filesz)) else m'))
      (readseg ctl pa (load32 m (ph + 16)) (load32 m (ph + 4)) s))"

partial_function (option) ph_loop :: "controller \<Rightarrow> addr \<Rightarrow> addr \<Rightarrow> ata \<times> memory \<Rightarrow> (ata \<times> memory) option" where
  "ph_loop ctl ph eph s =
     (if ph < eph then Option.bind (load_ph ctl ph s) (\<lambda>s'. ph_loop ctl (ph + 32) eph s') else Some s)"

abbreviation (input) ELF_MAGIC :: uint where "ELF_MAGIC \<equiv> 0x464C457F"
abbreviation (input) ELF_SCRATCH :: addr where "ELF_SCRATCH \<equiv> 0x10000"

text \<open>The entry point that is called, or none when the disk holds no ELF image and the loader returns.\<close>

definition bootmain :: "controller \<Rightarrow> ata \<times> memory \<Rightarrow> (addr option \<times> memory) option" where
  "bootmain ctl s =
     Option.bind (readseg ctl ELF_SCRATCH 4096 0 s) (\<lambda>s1.
     let m = snd s1 in
     if load32 m ELF_SCRATCH \<noteq> ELF_MAGIC then Some (None, m)
     else
       (let ph = ELF_SCRATCH + load32 m (ELF_SCRATCH + 28);
            eph = ph + 32 * load16 m (ELF_SCRATCH + 44) in
        map_option (\<lambda>(d, m'). (Some (load32 m' (ELF_SCRATCH + 24)), m')) (ph_loop ctl ph eph s1)))"

section \<open>Reading sectors\<close>

text \<open>The disk, a byte for every position.\<close>

type_synonym disk = "nat \<Rightarrow> byte"

definition sector_bytes :: "disk \<Rightarrow> nat \<Rightarrow> byte list" where
  "sector_bytes dk n = map (\<lambda>i. dk (512 * n + i)) [0..<512]"

text \<open>The 28-bit sector number; the upper half of the last register selects the addressing mode (bit 6) and the drive (bit 4).\<close>

definition ata_sector :: "ata \<Rightarrow> nat" where
  "ata_sector d = unat (a_lba0 d) + 256 * unat (a_lba1 d) + 65536 * unat (a_lba2 d) + 16777216 * (unat (a_head d) mod 16)"

text \<open>The read command (0x20) for one sector of drive 0, by sector number.\<close>

definition reads_sectors :: "controller \<Rightarrow> disk \<Rightarrow> bool" where
  "reads_sectors ctl dk \<longleftrightarrow>
     (\<forall>d. a_cmd d = 0x20 \<and> a_count d = 1 \<and> bit (a_head d) 6 \<and> \<not> bit (a_head d) 4 \<longrightarrow> ctl d = sector_bytes dk (ata_sector d))"

lemma insl_at: "length bs \<le> 2 ^ 32 \<Longrightarrow> insl m a bs x = (if unat (x - a) < length bs then bs ! unat (x - a) else m x)"
proof (induction bs arbitrary: m a)
  case (Cons b bs)
  show ?case
  proof (cases "x = a")
    case True
    have "unat (a - (a + 1) :: addr) = 2 ^ 32 - 1" by (simp add: unsigned_minus_1_eq_mask mask_eq_exp_minus_1)
    then show ?thesis using Cons True by simp
  next
    case False
    have e: "1 + (x - (a + 1)) = x - a" by simp
    have "unat (x - a) = Suc (unat (x - (a + 1)))" using unatSuc[of "x - (a + 1)"] False unfolding e by simp
    then show ?thesis using Cons False by simp
  qed
qed simp

lemma byte_of_word:
  fixes x :: uint
  shows "unat (ucast (drop_bit k x) :: byte) = unat x div 2 ^ k mod 256"
proof -
  have "unat (ucast (drop_bit k x) :: byte) = take_bit 8 (unat (drop_bit k x))" by (simp add: unsigned_ucast_eq)
  also have "\<dots> = unat x div 2 ^ k mod 256" unfolding unat_drop_bit_eq take_bit_eq_mod drop_bit_eq_div[of k "unat x"] by simp
  finally show ?thesis .
qed

lemma head_nibble:
  fixes x :: uint
  shows "unat (ucast (drop_bit 24 x OR 0xE0) :: byte) mod 16 = unat x div 2 ^ 24 mod 16"
proof -
  have E: "\<not> bit (0xE0 :: uint) n \<and> \<not> bit (0xE0 :: byte) n \<and> \<not> bit (0xE0 :: int) n \<and> \<not> bit (0xE0 :: nat) n" if "n < 4" for n
  proof -
    have "n = 0 \<or> n = 1 \<or> n = 2 \<or> n = 3" using that by arith
    then show ?thesis by (elim disjE) simp_all
  qed
  have "take_bit 4 (ucast (drop_bit 24 x OR 0xE0) :: byte) = take_bit 4 (ucast (drop_bit 24 x))"
    by (rule bit_word_eqI) (auto simp: bit_take_bit_iff bit_ucast_iff bit_or_iff E)
  from arg_cong[OF this, of unat]
  have "unat (ucast (drop_bit 24 x OR 0xE0) :: byte) mod 2 ^ 4 = unat (ucast (drop_bit 24 x) :: byte) mod 2 ^ 4"
    by (simp only: take_bit_eq_mod unat_mod) simp
  also have "\<dots> = unat x div 2 ^ 24 mod 256 mod 2 ^ 4" unfolding byte_of_word ..
  also have "\<dots> = unat x div 2 ^ 24 mod 2 ^ 4" by (rule mod_mod_cancel) simp
  finally show ?thesis by simp
qed

lemma sector_registers:
  fixes offset :: uint
  assumes "unat offset < 2 ^ 28"
  shows "unat (ucast offset :: byte) + 256 * unat (ucast (drop_bit 8 offset) :: byte) + 65536 * unat (ucast (drop_bit 16 offset) :: byte) +
    16777216 * (unat (ucast (drop_bit 24 offset OR 0xE0) :: byte) mod 16) = unat offset"
proof -
  have "x mod 256 + 256 * (x div 256 mod 256) + 65536 * (x div 65536 mod 256) + 16777216 * (x div 16777216 mod 16) = x"
    if "x < 2 ^ 28" for x :: nat
    using that mod_mult2_eq[of x 256 256] mod_mult2_eq[of x 65536 256] mod_mult2_eq[of x 16777216 16] by simp
  from this[OF assms] show ?thesis using byte_of_word[of 0 offset] byte_of_word[of 8 offset] byte_of_word[of 16 offset] head_nibble[of offset]
    by simp
qed

lemma head_mode:
  fixes x :: uint
  assumes "unat x < 2 ^ 28"
  shows "bit (ucast (drop_bit 24 x OR 0xE0) :: byte) 6 \<and> \<not> bit (ucast (drop_bit 24 x OR 0xE0) :: byte) 4"
proof -
  have "\<not> bit (unat x) 28" using assms by (simp add: bit_iff_odd)
  then have "\<not> bit x 28" by (simp add: bit_unsigned_iff)
  then show ?thesis by (simp add: bit_ucast_iff bit_or_iff bit_drop_bit_eq)
qed

lemma readsect_at:
  assumes "reads_sectors ctl dk" "unat offset < 2 ^ 28"
  obtains d' where "readsect ctl dst offset (d, m) = (d', insl m dst (sector_bytes dk (unat offset)))"
proof -
  let ?d = "fst (readsect ctl dst offset (d, m))"
  have "ata_sector ?d = unat offset"
    using sector_registers[OF assms(2)] by (simp add: readsect_def Let_def outb_def ata_sector_def)
  moreover have "a_cmd ?d = 0x20 \<and> a_count ?d = 1 \<and> bit (a_head ?d) 6 \<and> \<not> bit (a_head ?d) 4"
    using head_mode[OF assms(2)] by (simp add: readsect_def Let_def outb_def)
  ultimately have "ctl ?d = sector_bytes dk (unat offset)" using assms(1) unfolding reads_sectors_def by metis
  then show ?thesis using that[of ?d] by (simp add: readsect_def Let_def sector_bytes_def)
qed

text \<open>Memory with the bytes \<open>f\<close> in a range.\<close>

definition overlay :: "nat \<Rightarrow> nat \<Rightarrow> (nat \<Rightarrow> byte) \<Rightarrow> memory \<Rightarrow> memory" where
  "overlay a n f m = (\<lambda>x. if a \<le> unat x \<and> unat x < a + n then f (unat x) else m x)"

lemma overlay_0 [simp]: "overlay a 0 f m = m"
  by (rule ext) (auto simp: overlay_def)

lemma unat_of_nat_addr: "n < 2 ^ 32 \<Longrightarrow> unat (of_nat n :: addr) = n"
  by (simp add: unat_of_nat)

lemma insl_overlay:
  assumes "a + length bs \<le> 2 ^ 32" "length bs < 2 ^ 32"
  shows "insl m (of_nat a) bs = overlay a (length bs) (\<lambda>x. bs ! (x - a)) m"
proof (rule ext)
  fix x :: addr
  show "insl m (of_nat a) bs x = overlay a (length bs) (\<lambda>x. bs ! (x - a)) m x"
  proof (cases "bs = []")
    case False
    then have a: "unat (of_nat a :: addr) = a" using assms by (intro unat_of_nat_addr) (cases bs; simp)
    have "unat x < 2 ^ 32" using unsigned_less[of x] by simp
    then have "unat (x - of_nat a) = (if a \<le> unat x then unat x - a else unat x + 2 ^ 32 - a)"
      using a by (simp add: unat_sub_if')
    then show ?thesis using assms by (auto simp: insl_at overlay_def)
  qed simp
qed

lemma readseg_loop_Some:
  assumes C: "reads_sectors ctl dk"
  shows "A + 512 * n < 2 ^ 32 \<Longrightarrow> E \<le> A + 512 * n \<Longrightarrow> (n \<noteq> 0 \<Longrightarrow> A + 512 * (n - 1) < E) \<Longrightarrow> k + n \<le> 2 ^ 28 \<Longrightarrow>
   \<exists>d'. readseg_loop ctl (of_nat A) (of_nat E) (of_nat k) (d, m) = Some (d', overlay A (512 * n) (\<lambda>x. dk (512 * k + (x - A))) m)"
proof (induction n arbitrary: A k d m)
  case 0
  then show ?case by (subst readseg_loop.simps) (auto simp: word_less_nat_alt unat_of_nat_addr)
next
  case (Suc n)
  have "A < E" using Suc.prems(3) by simp
  then have lt: "(of_nat A :: addr) < of_nat E" using Suc.prems(1,2) by (simp add: word_less_nat_alt unat_of_nat_addr)
  have k: "unat (of_nat k :: uint) = k" using Suc.prems(4) by (intro unat_of_nat_addr) simp
  obtain d1 where r: "readsect ctl (of_nat A) (of_nat k) (d, m) = (d1, insl m (of_nat A) (sector_bytes dk k))"
    using readsect_at[OF C, of "of_nat k" "of_nat A" d m] k Suc.prems(4) by auto
  let ?m1 = "overlay A 512 (\<lambda>x. dk (512 * k + (x - A))) m"
  have m1: "insl m (of_nat A) (sector_bytes dk k) = ?m1"
    using insl_overlay[of A "sector_bytes dk k" m] Suc.prems(1) by (auto simp: sector_bytes_def overlay_def fun_eq_iff)
  have "n \<noteq> 0 \<Longrightarrow> A + 512 + 512 * (n - 1) < E" using Suc.prems(3) by (cases n) auto
  then obtain d' where "readseg_loop ctl (of_nat (A + 512)) (of_nat E) (of_nat (k + 1)) (d1, ?m1) =
      Some (d', overlay (A + 512) (512 * n) (\<lambda>x. dk (512 * (k + 1) + (x - (A + 512)))) ?m1)"
    using Suc.IH[of "A + 512" "k + 1" d1 ?m1] Suc.prems by auto
  moreover have "overlay (A + 512) (512 * n) (\<lambda>x. dk (512 * (k + 1) + (x - (A + 512)))) ?m1 = overlay A (512 * Suc n) (\<lambda>x. dk (512 * k + (x - A))) m"
    by (rule ext) (auto simp: overlay_def algebra_simps)
  ultimately show ?case using lt r m1 by (subst readseg_loop.simps) (simp add: algebra_simps)
qed

text \<open>The image of the kernel starts at sector 1.\<close>

definition kimage :: "disk \<Rightarrow> nat \<Rightarrow> byte" where
  "kimage dk i = dk (512 + i)"

definition span :: "nat \<Rightarrow> nat \<Rightarrow> nat" where
  "span off cnt = 512 * ((off mod 512 + cnt + 511) div 512)"

lemma span_covers: "off mod 512 + cnt \<le> span off cnt" "span off cnt \<le> off mod 512 + cnt + 511"
proof -
  let ?y = "off mod 512 + cnt + 511"
  have "512 * (?y div 512) + ?y mod 512 = ?y" "?y mod 512 < 512" by simp_all
  then show "off mod 512 + cnt \<le> span off cnt" "span off cnt \<le> off mod 512 + cnt + 511" unfolding span_def by linarith+
qed

lemma readseg_Some:
  assumes C: "reads_sectors ctl dk" and a: "unat off mod 512 \<le> unat pa" "unat pa + unat cnt + 512 < 2 ^ 32"
  shows "\<exists>d'. readseg ctl pa cnt off (d, m) = Some (d', overlay (unat pa - unat off mod 512) (span (unat off) (unat cnt))
    (\<lambda>x. kimage dk (unat off + x - unat pa)) m)"
proof -
  define r q n where "r = unat off mod 512" and "q = unat off div 512" and "n = (r + unat cnt + 511) div 512"
  have rq: "unat off = 512 * q + r" unfolding r_def q_def by (rule mult_div_mod_eq[symmetric])
  have r512: "r < 512" unfolding r_def by (rule mod_less_divisor) simp
  have off: "unat off < 2 ^ 32" "unat cnt < 2 ^ 32" using unsigned_less[of off] unsigned_less[of cnt] by simp_all
  have n: "512 * n = span (unat off) (unat cnt)" by (simp add: span_def n_def r_def)
  note sp = span_covers[of "unat off" "unat cnt", folded n r_def]
  have "r < 2 ^ 32" "q < 2 ^ 32" using off(1) rq r512 by linarith+
  then have "unat (of_nat r :: uint) = r \<and> unat (of_nat q :: uint) = q" using unat_of_nat_addr by blast
  moreover have "unat (off mod 512) = r" "unat (off div 512) = q" unfolding unat_mod unat_div r_def q_def by simp_all
  ultimately have md: "of_nat r = off mod 512" "of_nat q = off div 512" unfolding word_unat_eq_iff by (simp_all only:)
  have r: "r \<le> unat pa" using a(1) by (simp add: r_def)
  have A: "pa - off mod 512 = of_nat (unat pa - r)" using r by (simp add: of_nat_diff md(1))
  have E: "pa + cnt = of_nat (unat pa + unat cnt)" by simp
  have k: "off div 512 + 1 = of_nat (q + 1)" by (simp add: md(2))
  have "unat pa - r + 512 * n < 2 ^ 32" "unat pa + unat cnt \<le> unat pa - r + 512 * n" using sp r a(2) by linarith+
  moreover have "unat pa - r + 512 * (n - 1) < unat pa + unat cnt" if "n \<noteq> 0"
  proof -
    have "512 * (n - 1) + 512 = 512 * n" using that by (cases n) simp_all
    then show ?thesis using sp(2) r by linarith
  qed
  moreover have "q + 1 + n \<le> 2 ^ 28"
  proof -
    have "512 * (q + 1 + n) \<le> unat off + unat cnt + 1535" using sp(2) rq r512 by (simp add: algebra_simps)
    also have "\<dots> \<le> 512 * 2 ^ 28" using off by simp
    finally show ?thesis by simp
  qed
  ultimately obtain d' where d': "readseg ctl pa cnt off (d, m) = Some (d', overlay (unat pa - r) (512 * n) (\<lambda>x. dk (512 * (q + 1) + (x - (unat pa - r)))) m)"
    using readseg_loop_Some[OF C, of "unat pa - r" n "unat pa + unat cnt" "q + 1" d m] unfolding readseg_def A E k by blast
  have "512 * (q + 1) + (x - (unat pa - r)) = 512 + (unat off + x - unat pa)" if x: "unat pa - r \<le> x" for x
  proof -
    obtain y where "x = unat pa - r + y" using x le_Suc_ex by blast
    moreover obtain z where "unat pa = r + z" using r le_Suc_ex by blast
    ultimately show ?thesis using rq by simp
  qed
  then have "overlay (unat pa - r) (512 * n) (\<lambda>x. dk (512 * (q + 1) + (x - (unat pa - r)))) m =
      overlay (unat pa - r) (512 * n) (\<lambda>x. kimage dk (unat off + x - unat pa)) m"
    by (simp add: overlay_def kimage_def fun_eq_iff)
  then show ?thesis using d' unfolding n r_def by auto
qed

section \<open>Loading the segments\<close>

text \<open>The fields of the ELF image \<open>f\<close> the loader uses.\<close>

definition img32 :: "(nat \<Rightarrow> byte) \<Rightarrow> nat \<Rightarrow> uint" where
  "img32 f i = of_le32 (f i) (f (i + 1)) (f (i + 2)) (f (i + 3))"

definition phoff :: "(nat \<Rightarrow> byte) \<Rightarrow> nat" where
  "phoff f = unat (img32 f 28)"

definition phnum :: "(nat \<Rightarrow> byte) \<Rightarrow> nat" where
  "phnum f = unat (ucast (f 44) OR push_bit 8 (ucast (f 45)) :: uint)"

record segment =
  sg_off :: nat
  sg_pa :: nat
  sg_filesz :: nat
  sg_memsz :: nat

definition segment_at :: "(nat \<Rightarrow> byte) \<Rightarrow> nat \<Rightarrow> segment" where
  "segment_at f p = \<lparr>sg_off = unat (img32 f (p + 4)), sg_pa = unat (img32 f (p + 12)), sg_filesz = unat (img32 f (p + 16)),
     sg_memsz = unat (img32 f (p + 20))\<rparr>"

definition segments :: "(nat \<Rightarrow> byte) \<Rightarrow> segment list" where
  "segments f = map (\<lambda>j. segment_at f (phoff f + 32 * j)) [0..<phnum f]"

text \<open>Where the first sector of a segment is put: its address, moved down to a sector boundary of the disk.\<close>

definition start :: "segment \<Rightarrow> nat" where
  "start s = sg_pa s - sg_off s mod 512"

text \<open>A segment is empty, or lies above the page where the headers are read.\<close>

definition seg_ok :: "segment \<Rightarrow> bool" where
  "seg_ok s \<longleftrightarrow> sg_filesz s \<le> sg_memsz s \<and>
     (sg_memsz s = 0 \<and> sg_off s mod 512 = 0 \<or> 0x11000 + sg_off s mod 512 \<le> sg_pa s \<and> sg_pa s + sg_memsz s + 1024 < 2 ^ 32)"

definition boot_image :: "(nat \<Rightarrow> byte) \<Rightarrow> bool" where
  "boot_image f \<longleftrightarrow> img32 f 0 = ELF_MAGIC \<and> phoff f + 32 * phnum f \<le> 4096 \<and> (\<forall>s\<in>set (segments f). seg_ok s) \<and>
     sorted_wrt (\<lambda>s t. (sg_memsz t = 0 \<and> sg_off t mod 512 = 0) \<or> sg_pa s + sg_memsz s \<le> start t) (segments f)"

definition loaded :: "(nat \<Rightarrow> byte) \<Rightarrow> memory \<Rightarrow> segment \<Rightarrow> bool" where
  "loaded f m s \<longleftrightarrow> (\<forall>i < sg_memsz s. m (of_nat (sg_pa s + i)) = (if i < sg_filesz s then f (sg_off s + i) else 0))"

definition headers_in :: "(nat \<Rightarrow> byte) \<Rightarrow> memory \<Rightarrow> bool" where
  "headers_in f m \<longleftrightarrow> (\<forall>i < 4096. m (of_nat (0x10000 + i)) = f i)"

lemma headers_load32: "headers_in f m \<Longrightarrow> p + 4 \<le> 4096 \<Longrightarrow> load32 m (of_nat (0x10000 + p)) = img32 f p"
proof -
  assume h: "headers_in f m" and p: "p + 4 \<le> 4096"
  have "m (of_nat (0x10000 + p) + of_nat j) = f (p + j)" if "j < 4" for j
    using h p that unfolding headers_in_def of_nat_add[symmetric] by (simp add: add.assoc del: of_nat_add)
  from this[of 0] this[of 1] this[of 2] this[of 3] show ?thesis unfolding load32_alt img32_def by simp
qed

lemma fill_at:
  assumes "a + n \<le> 2 ^ 32" "x < 2 ^ 32" "a < 2 ^ 32"
  shows "fill m (of_nat a) b n (of_nat x) = (if a \<le> x \<and> x < a + n then b else m (of_nat x))"
proof -
  have "unat (of_nat x - of_nat a :: addr) = (if a \<le> x then x - a else x + 2 ^ 32 - a)"
    using assms by (simp add: unat_sub_if' unat_of_nat_addr)
  then show ?thesis using assms unfolding fill_def by auto
qed

lemma overlay_at: "x < 2 ^ 32 \<Longrightarrow> overlay a n f m (of_nat x) = (if a \<le> x \<and> x < a + n then f x else m (of_nat x))"
  by (simp add: overlay_def unat_of_nat_addr)

lemma load_ph_Some:
  fixes dk :: disk
  defines "f \<equiv> kimage dk"
  assumes C: "reads_sectors ctl dk" and h: "headers_in f m" and p: "p + 32 \<le> 4096" and ok: "seg_ok (segment_at f p)"
  defines "s \<equiv> segment_at f p"
  shows "\<exists>d' m'. load_ph ctl (of_nat (0x10000 + p)) (d, m) = Some (d', m') \<and> headers_in f m' \<and> loaded f m' s \<and>
    (\<forall>x < 2 ^ 32. (sg_memsz s = 0 \<and> sg_off s mod 512 = 0) \<or> x < start s \<longrightarrow> m' (of_nat x) = m (of_nat x))"
proof -
  define ph :: addr where "ph = of_nat (0x10000 + p)"
  let ?pa = "img32 f (p + 12)" and ?off = "img32 f (p + 4)" and ?fs = "img32 f (p + 16)" and ?ms = "img32 f (p + 20)"
  have ld: "load32 M (ph + 12) = ?pa" "load32 M (ph + 4) = ?off" "load32 M (ph + 16) = ?fs" "load32 M (ph + 20) = ?ms" if "headers_in f M" for M
    using headers_load32[OF that, of "p + 12"] headers_load32[OF that, of "p + 4"] headers_load32[OF that, of "p + 16"]
      headers_load32[OF that, of "p + 20"] p by (simp_all add: ph_def add.assoc)
  have S: "sg_pa s = unat ?pa" "sg_off s = unat ?off" "sg_filesz s = unat ?fs" "sg_memsz s = unat ?ms" by (simp_all add: s_def segment_at_def)
  have fm: "unat ?fs \<le> unat ?ms" using ok S unfolding s_def[symmetric] seg_ok_def by simp
  show ?thesis
  proof (cases "sg_memsz s = 0 \<and> sg_off s mod 512 = 0")
    case True
    then have z: "?fs = 0" "?ms = 0" "?off mod 512 = 0" using fm S by (simp_all add: word_unat_eq_iff unat_mod)
    have "readseg ctl ?pa 0 ?off (d, m) = Some (d, m)" unfolding readseg_def z(3) by (subst readseg_loop.simps) simp
    then have "load_ph ctl ph (d, m) = Some (d, m)" unfolding load_ph_def Let_def snd_conv ld[OF h] z by (simp add: ld[OF h] z)
    then show ?thesis using h True unfolding ph_def loaded_def by (intro exI[of _ d] exI[of _ m]) simp
  next
    case False
    then have b: "0x11000 + unat ?off mod 512 \<le> unat ?pa" "unat ?pa + unat ?ms + 1024 < 2 ^ 32"
      using ok S unfolding s_def[symmetric] seg_ok_def by auto
    let ?m1 = "overlay (start s) (span (unat ?off) (unat ?fs)) (\<lambda>x. f (unat ?off + x - unat ?pa)) m"
    obtain d' where r: "readseg ctl ?pa ?fs ?off (d, m) = Some (d', ?m1)"
      using readseg_Some[OF C, of ?off ?pa ?fs d m] b fm unfolding start_def S f_def by auto
    have st: "0x11000 \<le> start s" "start s + unat ?off mod 512 = unat ?pa" using b(1) S by (auto simp: start_def)
    have h1: "headers_in f ?m1" using h st(1) unfolding headers_in_def by (auto simp: overlay_at simp del: of_nat_add)
    let ?m2 = "if ?fs < ?ms then stosb ?m1 (?pa + ?fs) 0 (unat (?ms - ?fs)) else ?m1"
    have l: "load_ph ctl ph (d, m) = Some (d', ?m2)"
      unfolding load_ph_def Let_def snd_conv ld[OF h] r by (simp add: ld[OF h1])
    have m2: "?m2 (of_nat x) = (if unat ?pa + unat ?fs \<le> x \<and> x < unat ?pa + unat ?ms then 0 else ?m1 (of_nat x))" if "x < 2 ^ 32" for x
    proof (cases "?fs < ?ms")
      case lt: True
      have "?pa + ?fs = of_nat (unat ?pa + unat ?fs)" "unat (?ms - ?fs) = unat ?ms - unat ?fs" "unat (?ms - ?fs) \<le> 2 ^ 32"
        using fm b(2) by (simp_all add: unat_sub_if')
      then show ?thesis using lt fill_at[of "unat ?pa + unat ?fs" "unat ?ms - unat ?fs" x ?m1 0] that b(2) fm
        by (simp only: if_True stosb_fill) (simp add: le_add_diff_inverse)
    next
      case False
      then have "\<not> (unat ?pa + unat ?fs \<le> x \<and> x < unat ?pa + unat ?ms)" by (simp add: word_less_nat_alt)
      then show ?thesis using False by (simp only: if_False)
    qed
    have sp: "unat ?off mod 512 + unat ?fs \<le> span (unat ?off) (unat ?fs)" by (rule span_covers)
    have "headers_in f ?m2" unfolding headers_in_def
    proof (intro allI impI)
      fix i :: nat assume i: "i < 4096"
      then have "\<not> (unat ?pa + unat ?fs \<le> 0x10000 + i \<and> 0x10000 + i < unat ?pa + unat ?ms)" using b(1) by linarith
      moreover have "?m1 (of_nat (0x10000 + i)) = f i" using h1 i unfolding headers_in_def by blast
      moreover have "0x10000 + i < 2 ^ 32" using i by simp
      ultimately show "?m2 (of_nat (0x10000 + i)) = f i" by (simp only: m2 if_False)
    qed
    moreover have "loaded f ?m2 s" unfolding loaded_def S
    proof (intro allI impI)
      fix i assume i: "i < unat ?ms"
      then have lt: "unat ?pa + i < 2 ^ 32" using b(2) by linarith
      show "?m2 (of_nat (unat ?pa + i)) = (if i < unat ?fs then f (unat ?off + i) else 0)"
        unfolding m2[OF lt] overlay_at[OF lt] using i st(2) sp by auto
    qed
    moreover have "?m2 (of_nat x) = m (of_nat x)" if "x < 2 ^ 32" "x < start s" for x
      unfolding m2[OF that(1)] overlay_at[OF that(1)] using that(2) st by auto
    ultimately show ?thesis using l[unfolded ph_def] False by blast
  qed
qed

lemma ph_loop_Some:
  fixes dk :: disk
  defines "f \<equiv> kimage dk"
  assumes C: "reads_sectors ctl dk"
  shows "headers_in f m \<Longrightarrow> j \<le> n \<Longrightarrow> p0 + 32 * n \<le> 4096 \<Longrightarrow>
    (\<forall>i \<in> {j..<n}. seg_ok (segment_at f (p0 + 32 * i))) \<Longrightarrow>
    sorted_wrt (\<lambda>s t. (sg_memsz t = 0 \<and> sg_off t mod 512 = 0) \<or> sg_pa s + sg_memsz s \<le> start t)
      (map (\<lambda>i. segment_at f (p0 + 32 * i)) [0..<n]) \<Longrightarrow>
    (\<forall>i < n. sg_pa (segment_at f (p0 + 32 * i)) + sg_memsz (segment_at f (p0 + 32 * i)) \<le> 2 ^ 32) \<Longrightarrow>
    (\<forall>i < j. loaded f m (segment_at f (p0 + 32 * i))) \<Longrightarrow>
    \<exists>d' m'. ph_loop ctl (of_nat (0x10000 + p0 + 32 * j)) (of_nat (0x10000 + p0 + 32 * n)) (d, m) = Some (d', m') \<and>
      headers_in f m' \<and> (\<forall>i < n. loaded f m' (segment_at f (p0 + 32 * i)))"
proof (induction "n - j" arbitrary: j d m)
  case 0
  then show ?case by (subst ph_loop.simps) auto
next
  case (Suc k)
  let ?s = "\<lambda>i. segment_at f (p0 + 32 * i)"
  have jn: "j < n" using Suc.hyps(2) by simp
  obtain d1 m1 where l: "load_ph ctl (of_nat (0x10000 + (p0 + 32 * j))) (d, m) = Some (d1, m1)" "headers_in f m1" "loaded f m1 (?s j)"
      "\<And>x. x < 2 ^ 32 \<Longrightarrow> (sg_memsz (?s j) = 0 \<and> sg_off (?s j) mod 512 = 0) \<or> x < start (?s j) \<Longrightarrow> m1 (of_nat x) = m (of_nat x)"
  proof -
    have "p0 + 32 * j + 32 \<le> 4096" "seg_ok (?s j)" using Suc.prems(3,4) jn by auto
    from load_ph_Some[OF C Suc.prems(1)[unfolded f_def] this[unfolded f_def], of d] show ?thesis using that unfolding f_def by blast
  qed
  have "loaded f m1 (?s i)" if i: "i < Suc j" for i
  proof (cases "i = j")
    case False
    then have "i < j" using i by simp
    have c: "(sg_memsz (?s j) = 0 \<and> sg_off (?s j) mod 512 = 0) \<or> sg_pa (?s i) + sg_memsz (?s i) \<le> start (?s j)"
      using Suc.prems(5) \<open>i < j\<close> jn by (simp add: sorted_wrt_iff_nth_less)
    have "m1 (of_nat (sg_pa (?s i) + t)) = m (of_nat (sg_pa (?s i) + t))" if "t < sg_memsz (?s i)" for t
    proof -
      have "sg_pa (?s i) + sg_memsz (?s i) \<le> 2 ^ 32" using Suc.prems(6) \<open>i < j\<close> jn by simp
      then show ?thesis using c that by (intro l(4)) auto
    qed
    then show ?thesis using Suc.prems(7) \<open>i < j\<close> unfolding loaded_def by simp
  qed (use l(3) in simp)
  then obtain d' m' where r: "ph_loop ctl (of_nat (0x10000 + p0 + 32 * Suc j)) (of_nat (0x10000 + p0 + 32 * n)) (d1, m1) = Some (d', m')"
      "headers_in f m'" "\<forall>i < n. loaded f m' (?s i)"
    using Suc.hyps(1)[of "Suc j" m1 d1] Suc.hyps(2) Suc.prems l(2) jn by fastforce
  have "(of_nat (0x10000 + p0 + 32 * j) :: addr) < of_nat (0x10000 + p0 + 32 * n)"
    using jn Suc.prems(3) by (simp add: word_less_nat_alt unat_of_nat_addr del: of_nat_add)
  moreover have "(of_nat (0x10000 + p0 + 32 * j) :: addr) + 32 = of_nat (0x10000 + p0 + 32 * Suc j)" by simp
  ultimately have "ph_loop ctl (of_nat (0x10000 + p0 + 32 * j)) (of_nat (0x10000 + p0 + 32 * n)) (d, m) = Some (d', m')"
    using l(1) r(1) by (subst ph_loop.simps) (simp only: if_True add.assoc bind.simps)
  then show ?case using r(2,3) by blast
qed

text \<open>
  C6: The boot loader loads the kernel. With a controller that reads the sectors it is asked for, and from a disk with an ELF image at sector 1 whose program headers are in its first
  page and whose segments, in the order of the headers, lie one after the other above the page the headers are read to,
  \<open>bootmain\<close> finishes and calls the entry point of the image, and memory holds every segment at its physical address: its
  bytes in the file, and zeros up to its size in memory. This although each segment is read in whole sectors, so that up
  to 511 bytes before and after it are overwritten.
\<close>
theorem bootmain_loads_kernel:
  assumes C: "reads_sectors ctl dk" and "boot_image (kimage dk)"
  shows "\<exists>m'. bootmain ctl (d, m) = Some (Some (img32 (kimage dk) 24), m') \<and> (\<forall>s\<in>set (segments (kimage dk)). loaded (kimage dk) m' s)"
proof -
  let ?f = "kimage dk"
  let ?s = "\<lambda>i. segment_at ?f (phoff ?f + 32 * i)"
  have B: "img32 ?f 0 = ELF_MAGIC" "phoff ?f + 32 * phnum ?f \<le> 4096" and ok: "\<And>i. i < phnum ?f \<Longrightarrow> seg_ok (?s i)"
    and so: "sorted_wrt (\<lambda>s t. (sg_memsz t = 0 \<and> sg_off t mod 512 = 0) \<or> sg_pa s + sg_memsz s \<le> start t) (map ?s [0..<phnum ?f])"
    using assms(2) unfolding boot_image_def segments_def by auto
  let ?m1 = "overlay 0x10000 4096 (\<lambda>x. ?f (x - 0x10000)) m"
  obtain d1 where r: "readseg ctl 0x10000 4096 0 (d, m) = Some (d1, ?m1)"
    using readseg_Some[OF C, of 0 "0x10000" 4096 d m] by (auto simp: span_def)
  have h: "headers_in ?f ?m1" unfolding headers_in_def by (auto simp: overlay_at simp del: of_nat_add)
  have ld: "load32 M 0x10000 = img32 ?f 0" "load32 M (0x10000 + 28) = img32 ?f 28" "load32 M (0x10000 + 24) = img32 ?f 24"
    if "headers_in ?f M" for M
    using headers_load32[OF that, of 0] headers_load32[OF that, of 28] headers_load32[OF that, of 24] by simp_all
  have "?m1 (of_nat (0x10000 + 44)) = ?f 44" "?m1 (of_nat (0x10000 + 45)) = ?f 45" using h[unfolded headers_in_def, rule_format, of 44] h[unfolded headers_in_def, rule_format, of 45] by simp_all
  then have n: "unat (load16 ?m1 (0x10000 + 44)) = phnum ?f" by (simp add: load16_def phnum_def)
  have ph: "(0x10000 :: addr) + load32 ?m1 (0x10000 + 28) = of_nat (0x10000 + phoff ?f + 32 * 0)" unfolding ld(2)[OF h] phoff_def by simp
  have eph: "of_nat (0x10000 + phoff ?f + 32 * 0) + 32 * load16 ?m1 (0x10000 + 44) = of_nat (0x10000 + phoff ?f + 32 * phnum ?f)"
    unfolding n[symmetric] by simp
  have "sg_pa (?s i) + sg_memsz (?s i) \<le> 2 ^ 32" if "i < phnum ?f" for i
  proof -
    have "sg_pa (?s i) < 2 ^ 32" using unsigned_less[of "img32 ?f (phoff ?f + 32 * i + 12)"] by (simp add: segment_at_def)
    then show ?thesis using ok[OF that] unfolding seg_ok_def by auto
  qed
  then obtain d' m' where m': "ph_loop ctl (of_nat (0x10000 + phoff ?f + 32 * 0)) (of_nat (0x10000 + phoff ?f + 32 * phnum ?f)) (d1, ?m1) = Some (d', m')"
      "headers_in ?f m'" "\<forall>i < phnum ?f. loaded ?f m' (?s i)"
    using ph_loop_Some[OF C h, of 0 "phnum ?f" "phoff ?f" d1] B(2) ok so by auto
  have "bootmain ctl (d, m) = Some (Some (img32 ?f 24), m')"
    unfolding bootmain_def r bind.simps Let_def snd_conv ld(1)[OF h] B(1) ph eph m'(1) by (simp only: option.map prod.case ld(3)[OF m'(2)] simp_thms if_False)
  then show ?thesis using m'(3) by (auto simp: segments_def)
qed

text \<open>A kernel of two bytes and two zeros, to be loaded at 1 MB.\<close>

definition tiny_disk :: disk where
  "tiny_disk i = (case map_of [(512, 0x7F), (513, 0x45), (514, 0x4C), (515, 0x46), (538, 0x10), (540, 52), (556, 1), (569, 2), (578, 0x10),
     (580, 2), (584, 4), (1024, 0xAA), (1025, 0xBB)] i of None \<Rightarrow> 0 | Some b \<Rightarrow> b)"

lemma tiny_kernel:
  "segments (kimage tiny_disk) = [\<lparr>sg_off = 512, sg_pa = 0x100000, sg_filesz = 2, sg_memsz = 4\<rparr>]" "boot_image (kimage tiny_disk)"
  "img32 (kimage tiny_disk) 24 = 0x100000"
proof -
  have p: "phoff (kimage tiny_disk) = 52" "phnum (kimage tiny_disk) = 1" "img32 (kimage tiny_disk) 0 = ELF_MAGIC"
    by (simp_all add: phoff_def phnum_def img32_def of_le32_def kimage_def tiny_disk_def)
  show s: "segments (kimage tiny_disk) = [\<lparr>sg_off = 512, sg_pa = 0x100000, sg_filesz = 2, sg_memsz = 4\<rparr>]"
    by (simp add: segments_def p segment_at_def img32_def of_le32_def kimage_def tiny_disk_def)
  show "boot_image (kimage tiny_disk)" unfolding boot_image_def s p by (simp add: seg_ok_def)
  show "img32 (kimage tiny_disk) 24 = 0x100000" by (simp add: img32_def of_le32_def kimage_def tiny_disk_def)
qed

theorem bootmain_loads_kernel_witness:
  "\<exists>m'. bootmain (\<lambda>d. sector_bytes tiny_disk (ata_sector d))
       (\<lparr>a_count = 0, a_lba0 = 0, a_lba1 = 0, a_lba2 = 0, a_head = 0, a_cmd = 0\<rparr>, \<lambda>_. 0xFF) = Some (Some 0x100000, m') \<and>
     m' 0x100000 = 0xAA \<and> m' 0x100001 = 0xBB \<and> m' 0x100002 = 0 \<and> m' 0x100003 = 0"
proof -
  have C: "reads_sectors (\<lambda>d. sector_bytes tiny_disk (ata_sector d)) tiny_disk" by (simp add: reads_sectors_def)
  obtain m' where m': "bootmain (\<lambda>d. sector_bytes tiny_disk (ata_sector d))
       (\<lparr>a_count = 0, a_lba0 = 0, a_lba1 = 0, a_lba2 = 0, a_head = 0, a_cmd = 0\<rparr>, \<lambda>_. 0xFF) = Some (Some 0x100000, m')"
      "loaded (kimage tiny_disk) m' \<lparr>sg_off = 512, sg_pa = 0x100000, sg_filesz = 2, sg_memsz = 4\<rparr>"
    using bootmain_loads_kernel[OF C tiny_kernel(2), unfolded tiny_kernel] by auto
  note l = m'(2)[unfolded loaded_def, rule_format]
  show ?thesis using m'(1) l[of 0] l[of 1] l[of 2] l[of 3] by (auto simp: kimage_def tiny_disk_def)
qed

end
