(* ===== verification/Grep.thy ===== *)
theory Grep
  imports Prelude
begin

text \<open>
  The user programs \<open>grep\<close> and \<open>wc\<close>. Strings are byte lists without the terminating zero. What \<open>read\<close>
  delivers is the list of the chunks it returns, one for each call; the models give what is written.
\<close>

section \<open>The matcher\<close>

abbreviation (input) CARET :: byte where "CARET \<equiv> 94"
abbreviation (input) STAR :: byte where "STAR \<equiv> 42"
abbreviation (input) DOLLAR :: byte where "DOLLAR \<equiv> 36"
abbreviation (input) DOT :: byte where "DOT \<equiv> 46"

text \<open>\<open>matchhere re text\<close> and \<open>matchstar c re text\<close>; the clauses follow the tests of the code in order.\<close>

function matchhere :: "byte list \<Rightarrow> byte list \<Rightarrow> bool" and
    matchstar :: "byte \<Rightarrow> byte list \<Rightarrow> byte list \<Rightarrow> bool" where
  "matchhere re text =
     (case re of
        [] \<Rightarrow> True
      | c # re' \<Rightarrow>
          if re' \<noteq> [] \<and> hd re' = STAR then matchstar c (tl re') text
          else if c = DOLLAR \<and> re' = [] then text = []
          else if text \<noteq> [] \<and> (c = DOT \<or> c = hd text) then matchhere re' (tl text)
          else False)"
| "matchstar c re text =
     (if matchhere re text then True
      else if text \<noteq> [] \<and> (hd text = c \<or> c = DOT) then matchstar c re (tl text)
      else False)"
  by pat_completeness auto
termination
  by (relation "(\<lambda>x. case x of Inl (re, t) \<Rightarrow> length re | Inr (c, re, t) \<Rightarrow> length re + 1) <*mlex*>
      measure (\<lambda>x. case x of Inl (re, t) \<Rightarrow> length t | Inr (c, re, t) \<Rightarrow> length t)")
    (auto intro: wf_mlex mlex_less mlex_leq simp: neq_Nil_conv)

declare matchhere.simps [simp del] matchstar.simps [simp del]

fun match_from :: "byte list \<Rightarrow> byte list \<Rightarrow> bool" where
  "match_from re [] = matchhere re []"
| "match_from re (b # text) = (matchhere re (b # text) \<or> match_from re text)"

definition match :: "byte list \<Rightarrow> byte list \<Rightarrow> bool" where
  "match re text = (case re of c # re' \<Rightarrow> if c = CARET then matchhere re' text else match_from re text
     | [] \<Rightarrow> match_from re text)"

section \<open>The lines of a file\<close>

text \<open>\<open>strchr(p, '\n')\<close> on the text up to its first zero byte: the position of the newline.\<close>

fun find_newline :: "byte list \<Rightarrow> nat option" where
  "find_newline [] = None"
| "find_newline (b # bs) = (if b = 0 then None else if b = 10 then Some 0 else map_option Suc (find_newline bs))"

lemma find_newline_less: "find_newline bs = Some i \<Longrightarrow> i < length bs"
  by (induction bs arbitrary: i) (auto split: if_splits)

text \<open>The inner loop: what is written and what is left behind the last newline.\<close>

function grep_scan :: "byte list \<Rightarrow> byte list \<Rightarrow> byte list \<times> byte list" where
  "grep_scan pat p =
     (case find_newline p of
        None \<Rightarrow> ([], p)
      | Some i \<Rightarrow>
          let (out, rest) = grep_scan pat (drop (Suc i) p)
          in ((if match pat (take i p) then take (Suc i) p else []) @ out, rest))"
  by auto
termination
  by (relation "measure (\<lambda>(pat, p). length p)") (auto dest: find_newline_less)

declare grep_scan.simps [simp del]

text \<open>The outer loop; \<open>acc\<close> are the \<open>m\<close> bytes kept in the buffer.\<close>

fun grep_loop :: "byte list \<Rightarrow> byte list \<Rightarrow> byte list list \<Rightarrow> byte list" where
  "grep_loop pat acc [] = []"
| "grep_loop pat acc (chunk # chunks) =
     (let (out, rest) = grep_scan pat (acc @ chunk);
          kept = (if length rest = length (acc @ chunk) then [] else rest)
      in out @ grep_loop pat kept chunks)"

definition grep :: "byte list \<Rightarrow> byte list list \<Rightarrow> byte list" where
  "grep pat chunks = grep_loop pat [] chunks"

section \<open>Counting\<close>

record wc_state =
  wc_l :: int
  wc_w :: int
  wc_c :: int
  wc_inword :: bool

definition wc_space :: "byte \<Rightarrow> bool" where
  "wc_space b \<longleftrightarrow> b \<in> set [32, 13, 9, 10, 11]"

definition wc_step :: "byte \<Rightarrow> wc_state \<Rightarrow> wc_state" where
  "wc_step b s =
     (let s = s\<lparr>wc_c := wc_c s + 1\<rparr>;
          s = (if b = 10 then s\<lparr>wc_l := wc_l s + 1\<rparr> else s)
      in if wc_space b then s\<lparr>wc_inword := False\<rparr>
         else if \<not> wc_inword s then s\<lparr>wc_w := wc_w s + 1, wc_inword := True\<rparr>
         else s)"

fun wc_loop :: "byte list list \<Rightarrow> wc_state \<Rightarrow> wc_state" where
  "wc_loop [] s = s"
| "wc_loop (chunk # chunks) s = wc_loop chunks (fold wc_step chunk s)"

definition wc :: "byte list list \<Rightarrow> int \<times> int \<times> int" where
  "wc chunks = (let s = wc_loop chunks \<lparr>wc_l = 0, wc_w = 0, wc_c = 0, wc_inword = False\<rparr> in (wc_l s, wc_w s, wc_c s))"

section \<open>What the matcher means\<close>

text \<open>
  A pattern is a sequence of atoms, each one character or any number of them, and may be tied to the end of
  the text. A dot stands for every character.
\<close>

datatype atom = One byte | Many byte

fun atoms :: "byte list \<Rightarrow> atom list" where
  "atoms [] = []"
| "atoms [c] = (if c = DOLLAR then [] else [One c])"
| "atoms (c # d # re) = (if d = STAR then Many c # atoms re else One c # atoms (d # re))"

fun at_end :: "byte list \<Rightarrow> bool" where
  "at_end [] = False"
| "at_end [c] = (c = DOLLAR)"
| "at_end (c # d # re) = (if d = STAR then at_end re else at_end (d # re))"

definition fits :: "byte \<Rightarrow> byte \<Rightarrow> bool" where
  "fits c b \<longleftrightarrow> c = DOT \<or> c = b"

primrec words :: "atom list \<Rightarrow> byte list set" where
  "words [] = {[]}"
| "words (a # as) = (case a of
     One c \<Rightarrow> {b # w | b w. fits c b \<and> w \<in> words as}
   | Many c \<Rightarrow> {u @ w | u w. list_all (fits c) u \<and> w \<in> words as})"

definition tail_ok :: "byte list \<Rightarrow> byte list \<Rightarrow> bool" where
  "tail_ok re rest = (if at_end re then rest = [] else True)"

definition accepts :: "byte list \<Rightarrow> byte list \<Rightarrow> bool" where
  "accepts re text \<longleftrightarrow> (\<exists>w rest. text = w @ rest \<and> w \<in> words (atoms re) \<and> tail_ok re rest)"

lemma accepts_Nil: "accepts [] text"
  by (simp add: accepts_def tail_ok_def)

lemma accepts_dollar: "accepts [DOLLAR] text \<longleftrightarrow> text = []"
  by (auto simp: accepts_def tail_ok_def)

lemma accepts_star: "accepts (c # STAR # re) text \<longleftrightarrow>
    (\<exists>u rest. text = u @ rest \<and> list_all (fits c) u \<and> accepts re rest)"
proof -
  have "tail_ok (c # STAR # re) = tail_ok re" by (simp add: tail_ok_def fun_eq_iff)
  then show ?thesis by (simp add: accepts_def) (metis append.assoc)
qed

lemma accepts_char:
  assumes "re = [] \<longrightarrow> c \<noteq> DOLLAR" "re \<noteq> [] \<longrightarrow> hd re \<noteq> STAR"
  shows "accepts (c # re) text \<longleftrightarrow> text \<noteq> [] \<and> fits c (hd text) \<and> accepts re (tl text)"
proof -
  have "atoms (c # re) = One c # atoms re" "tail_ok (c # re) = tail_ok re"
    using assms by (cases re; simp add: tail_ok_def fun_eq_iff)+
  then have "accepts (c # re) text \<longleftrightarrow>
      (\<exists>b w rest. text = b # w @ rest \<and> fits c b \<and> w \<in> words (atoms re) \<and> tail_ok re rest)"
    by (simp add: accepts_def) (metis append_Cons)
  then show ?thesis by (cases "text") (auto simp: accepts_def)
qed

lemma star_unfold: "(\<exists>u rest. text = u @ rest \<and> list_all (fits c) u \<and> P rest) \<longleftrightarrow>
    P text \<or> text \<noteq> [] \<and> fits c (hd text) \<and> (\<exists>u rest. tl text = u @ rest \<and> list_all (fits c) u \<and> P rest)"
proof (cases "text")
  case (Cons b t)
  show ?thesis
  proof
    assume "\<exists>u rest. text = u @ rest \<and> list_all (fits c) u \<and> P rest"
    then obtain u rest where u: "text = u @ rest" "list_all (fits c) u" "P rest" by blast
    then show "P text \<or> text \<noteq> [] \<and> fits c (hd text) \<and>
        (\<exists>u rest. tl text = u @ rest \<and> list_all (fits c) u \<and> P rest)"
      by (cases u) auto
  next
    assume "P text \<or> text \<noteq> [] \<and> fits c (hd text) \<and>
        (\<exists>u rest. tl text = u @ rest \<and> list_all (fits c) u \<and> P rest)"
    then show "\<exists>u rest. text = u @ rest \<and> list_all (fits c) u \<and> P rest"
    proof (elim disjE conjE exE)
      assume "P text"
      then show ?thesis by (intro exI[of _ "[]"] exI[of _ "text"]) simp
    next
      fix u rest
      assume "fits c (hd text)" "tl text = u @ rest" "list_all (fits c) u" "P rest"
      then show ?thesis using Cons by (intro exI[of _ "b # u"] exI[of _ rest]) simp
    qed
  qed
qed simp

lemma matchhere_accepts: "matchhere re text \<longleftrightarrow> accepts re text"
  and matchstar_accepts: "matchstar c re' text' \<longleftrightarrow> accepts (c # STAR # re') text'"
proof (induction re "text" and c re' text' rule: matchhere_matchstar.induct)
  case (1 re "text")
  show ?case
  proof (cases re)
    case Nil
    then show ?thesis by (simp add: matchhere.simps[of "[]"] accepts_Nil)
  next
    case (Cons c r)
    show ?thesis
    proof (cases "r \<noteq> [] \<and> hd r = STAR")
      case True
      then obtain r' where "r = STAR # r'" by (cases r) auto
      then show ?thesis using 1(1)[OF Cons True] unfolding matchhere.simps[of re] by (simp add: Cons)
    next
      case star: False
      show ?thesis
      proof (cases "c = DOLLAR \<and> r = []")
        case True
        then show ?thesis using Cons by (simp add: matchhere.simps[of "[DOLLAR]"] accepts_dollar)
      next
        case False
        then have "accepts (c # r) text \<longleftrightarrow> text \<noteq> [] \<and> fits c (hd text) \<and> accepts r (tl text)"
          using star by (intro accepts_char) auto
        then show ?thesis
          using 1(2)[OF Cons star False] star False unfolding matchhere.simps[of re] by (auto simp: Cons fits_def)
      qed
    qed
  qed
next
  case (2 c re "text")
  have "accepts (c # STAR # re) text \<longleftrightarrow>
      accepts re text \<or> text \<noteq> [] \<and> fits c (hd text) \<and> accepts (c # STAR # re) (tl text)"
    unfolding accepts_star by (rule star_unfold)
  then show ?case
    using 2 by (auto simp: matchstar.simps[of c re "text"] fits_def)
qed

lemma match_from_suffix: "match_from re text \<longleftrightarrow> (\<exists>pre post. text = pre @ post \<and> matchhere re post)"
proof (induction "text")
  case (Cons b "text")
  have "(\<exists>pre post. b # text = pre @ post \<and> matchhere re post) \<longleftrightarrow>
      matchhere re (b # text) \<or> (\<exists>pre post. text = pre @ post \<and> matchhere re post)"
    by (metis append_Cons append_Nil append_eq_Cons_conv)
  then show ?case using Cons by simp
qed auto

text \<open>
  C31: The matcher decides the language of the pattern: it finds a pattern exactly when the text has a word of
  the pattern somewhere, at the start if the pattern begins with a caret, at the end if it ends with a dollar.
\<close>

theorem match_correct:
  "match re text \<longleftrightarrow>
     (if re \<noteq> [] \<and> hd re = CARET
      then \<exists>w post. text = w @ post \<and> w \<in> words (atoms (tl re)) \<and> (if at_end (tl re) then post = [] else True)
      else \<exists>pre w post. text = pre @ w @ post \<and> w \<in> words (atoms re) \<and> (if at_end re then post = [] else True))"
proof (cases "re \<noteq> [] \<and> hd re = CARET")
  case True
  then obtain re' where "re = CARET # re'" by (cases re) auto
  then show ?thesis by (simp add: match_def matchhere_accepts accepts_def tail_ok_def)
next
  case False
  then have "match re text = match_from re text" by (cases re) (simp_all add: match_def)
  also have "\<dots> = (\<exists>pre w post. text = pre @ w @ post \<and> w \<in> words (atoms re) \<and> tail_ok re post)"
    unfolding match_from_suffix matchhere_accepts accepts_def by blast
  finally show ?thesis unfolding tail_ok_def if_not_P[OF False] .
qed

section \<open>Lines\<close>

text \<open>The complete lines of a text, without their newlines, and what follows the last newline.\<close>

fun lines :: "byte list \<Rightarrow> byte list list \<times> byte list" where
  "lines [] = ([], [])"
| "lines (b # bs) =
     (let (ls, r) = lines bs in
      if b = 10 then ([] # ls, r)
      else case ls of [] \<Rightarrow> ([], b # r) | l # ls' \<Rightarrow> ((b # l) # ls', r))"

definition matching :: "byte list \<Rightarrow> byte list \<Rightarrow> byte list" where
  "matching pat bs = concat (map (\<lambda>l. l @ [10]) (filter (match pat) (fst (lines bs))))"

lemma lines_append: "lines (x @ y) = (fst (lines x) @ fst (lines (snd (lines x) @ y)), snd (lines (snd (lines x) @ y)))"
proof (induction x)
  case (Cons b x)
  show ?case
  proof (cases "lines x")
    case (Pair ls r)
    then show ?thesis using Cons by (cases ls) (auto simp: Let_def split: prod.splits list.splits)
  qed
qed simp

lemma lines_line: "10 \<notin> set l \<Longrightarrow> lines (l @ 10 # bs) = (l # fst (lines bs), snd (lines bs))"
  by (induction l) (auto simp: Let_def split: prod.splits)

lemma lines_part: "10 \<notin> set l \<Longrightarrow> lines l = ([], l)"
  by (induction l) auto

lemma lines_rest: "10 \<in> set p \<Longrightarrow> length (snd (lines p)) < length p"
proof (induction p)
  case (Cons b p)
  have "length (snd (lines p)) \<le> length p"
    by (induction p) (auto simp: Let_def split: prod.splits list.splits)
  then show ?case
    using Cons lines_part[of p] by (auto simp: Let_def split: prod.splits list.splits)
qed simp

lemma rest_no_newline: "10 \<notin> set (snd (lines p))"
  by (induction p) (auto simp: Let_def split: prod.splits list.splits)

lemma find_newline_Some:
  "find_newline p = Some i \<Longrightarrow> p = take i p @ 10 # drop (Suc i) p \<and> 10 \<notin> set (take i p)"
  by (induction p arbitrary: i) (auto split: if_splits)

lemma find_newline_None: "find_newline p = None \<Longrightarrow> 0 \<notin> set p \<Longrightarrow> 10 \<notin> set p"
  by (induction p) (auto split: if_splits)

lemma grep_scan_lines: "0 \<notin> set p \<Longrightarrow> grep_scan pat p = (matching pat p, snd (lines p))"
proof (induction pat p rule: grep_scan.induct)
  case (1 pat p)
  show ?case
  proof (cases "find_newline p")
    case None
    then show ?thesis
      using find_newline_None[OF None 1(2)] by (simp add: grep_scan.simps[of pat p] matching_def lines_part)
  next
    case (Some i)
    have p: "p = take i p @ 10 # drop (Suc i) p" "10 \<notin> set (take i p)"
      using find_newline_Some[OF Some] by auto
    have l: "lines p = (take i p # fst (lines (drop (Suc i) p)), snd (lines (drop (Suc i) p)))"
      using lines_line[OF p(2), of "drop (Suc i) p"] p(1) by simp
    have t: "take (Suc i) p = take i p @ [10]"
      using find_newline_less[OF Some] p(1) by (metis take_Suc_conv_app_nth nth_append_length length_take min.absorb4)
    have "0 \<notin> set (drop (Suc i) p)" using 1(2) by (meson in_set_dropD)
    from 1(1)[OF Some this] show ?thesis
      using Some by (simp add: grep_scan.simps[of pat p] matching_def l t)
  qed
qed

lemma grep_loop_lines:
  assumes "0 \<notin> set acc" "10 \<notin> set acc" "\<forall>c\<in>set chunks. 0 \<notin> set c \<and> 10 \<in> set c"
  shows "grep_loop pat acc chunks = matching pat (acc @ concat chunks)"
  using assms
proof (induction chunks arbitrary: acc)
  case Nil
  then show ?case by (simp add: matching_def lines_part)
next
  case (Cons c cs)
  let ?p = "acc @ c" and ?r = "snd (lines (acc @ c))"
  have nul: "0 \<notin> set ?p" and nl: "10 \<in> set ?p" using Cons.prems by auto
  have "set (snd (lines q)) \<subseteq> set q" for q
    by (induction q) (auto simp: Let_def split: prod.splits list.splits)
  then have "0 \<notin> set ?r" using nul by blast
  then have "grep_loop pat ?r cs = matching pat (?r @ concat cs)"
    using Cons.prems by (intro Cons.IH) (auto simp: rest_no_newline)
  moreover have "matching pat (?p @ concat cs) = matching pat ?p @ matching pat (?r @ concat cs)"
    by (simp add: matching_def lines_append[of ?p "concat cs"] del: append_assoc)
  ultimately show ?case
    using lines_rest[OF nl] by (simp add: grep_scan_lines[OF nul])
qed



text \<open>
  C33: A read that delivers no end of line is forgotten: the start of the line is dropped, so a line that matches
  is not printed when it arrives in two parts, although the same line is printed when it arrives at once.
\<close>

theorem grep_loses_split_line:
  assumes "0 \<notin> set l" "10 \<notin> set l" "0 \<notin> set r" "10 \<notin> set r" "match pat (l @ r)" "\<not> match pat r"
  shows "grep pat [l @ r @ [10]] = l @ r @ [10] \<and> grep pat [l, r @ [10]] = []"
proof -
  have one: "grep_scan pat (x @ [10]) = (if match pat x then x @ [10] else [], [])"
    if "0 \<notin> set x" "10 \<notin> set x" for x
    using that by (simp add: grep_scan_lines matching_def lines_line)
  show ?thesis
    using assms one[of "l @ r"] one[of r]
    by (simp add: grep_def grep_scan_lines[of l] matching_def lines_part)
qed

theorem grep_loses_split_line_witness:
  "grep [97, 98] [[97] @ [98] @ [10]] = [97] @ [98] @ [10] \<and> grep [97, 98] [[97], [98] @ [10]] = []"
  by (rule grep_loses_split_line) (simp_all add: match_def matchhere.simps)

section \<open>Counts\<close>

text \<open>A word starts at a character that is no space and does not follow one.\<close>

fun word_starts :: "bool \<Rightarrow> byte list \<Rightarrow> nat" where
  "word_starts inword [] = 0"
| "word_starts inword (b # bs) =
     (if wc_space b then word_starts False bs else (if inword then 0 else 1) + word_starts True bs)"

lemma wc_fold: "fold wc_step bs s =
    \<lparr>wc_l = wc_l s + int (length (filter (\<lambda>b. b = 10) bs)), wc_w = wc_w s + int (word_starts (wc_inword s) bs),
     wc_c = wc_c s + int (length bs), wc_inword = (if bs = [] then wc_inword s else \<not> wc_space (last bs))\<rparr>"
  by (induction bs arbitrary: s) (auto simp: wc_step_def Let_def wc_space_def)

lemma wc_loop_concat: "wc_loop chunks s = fold wc_step (concat chunks) s"
  by (induction chunks arbitrary: s) auto

text \<open>
  \<open>wc\<close> counts the newlines, the words and the bytes of the input, however the reads divide it.
\<close>

lemma wc_correct:
  "wc chunks = (int (length (filter (\<lambda>b. b = 10) (concat chunks))), int (word_starts False (concat chunks)),
     int (length (concat chunks)))"
  by (simp add: wc_def wc_loop_concat wc_fold Let_def)

end
