(* ===== verification/Sh_Parse.thy ===== *)
theory Sh_Parse
  imports Prelude
begin

text \<open>
  The parser of the shell \<open>sh.c\<close>. The text still to be read, from \<open>*ps\<close> to \<open>es\<close>, is a byte list; a token is the
  bytes between \<open>q\<close> and \<open>eq\<close>, which \<open>nulterminate\<close> turns into a string after parsing. The parsing functions
  call each other with fuel that goes down at every call; \<open>parsecmd_returns\<close> shows that it never runs out.
\<close>

datatype cmd =
    EXEC "byte list list"
  | REDIR cmd "byte list" uint nat
  | PIPE cmd cmd
  | LIST cmd cmd
  | BACK cmd

datatype 'a parse = POk 'a "byte list" | PPanic string | PFuel

definition pbind :: "'a parse \<Rightarrow> ('a \<Rightarrow> byte list \<Rightarrow> 'b parse) \<Rightarrow> 'b parse" where
  "pbind m f = (case m of POk x s \<Rightarrow> f x s | PPanic e \<Rightarrow> PPanic e | PFuel \<Rightarrow> PFuel)"

section \<open>Tokens\<close>

abbreviation (input) PIPE_CH :: byte where "PIPE_CH \<equiv> 124"
abbreviation (input) LPAREN :: byte where "LPAREN \<equiv> 40"
abbreviation (input) RPAREN :: byte where "RPAREN \<equiv> 41"
abbreviation (input) SEMI :: byte where "SEMI \<equiv> 59"
abbreviation (input) AMP :: byte where "AMP \<equiv> 38"
abbreviation (input) LESS :: byte where "LESS \<equiv> 60"
abbreviation (input) GREATER :: byte where "GREATER \<equiv> 62"
abbreviation (input) PLUS :: byte where "PLUS \<equiv> 43"
abbreviation (input) WORD :: byte where "WORD \<equiv> 97"

definition whitespace :: "byte list" where
  "whitespace = [32, 9, 13, 10, 11]"

definition symbols :: "byte list" where
  "symbols = [LESS, PIPE_CH, GREATER, AMP, SEMI, LPAREN, RPAREN]"

definition skip_ws :: "byte list \<Rightarrow> byte list" where
  "skip_ws s = dropWhile (\<lambda>b. b \<in> set whitespace) s"

definition word_char :: "byte \<Rightarrow> bool" where
  "word_char b \<longleftrightarrow> b \<notin> set whitespace \<and> b \<notin> set symbols"

text \<open>The token type, the token and the rest. The type of a word is the character \<open>a\<close>, that of \<open>>>\<close> is \<open>+\<close>.\<close>

definition gettoken :: "byte list \<Rightarrow> byte \<times> byte list \<times> byte list" where
  "gettoken s =
     (case skip_ws s of
        [] \<Rightarrow> (0, [], [])
      | c # r \<Rightarrow>
          if c \<in> {PIPE_CH, LPAREN, RPAREN, SEMI, AMP, LESS} then (c, [c], skip_ws r)
          else if c = GREATER then
            (if r \<noteq> [] \<and> hd r = GREATER then (PLUS, [c, c], skip_ws (tl r)) else (c, [c], skip_ws r))
          else (WORD, takeWhile word_char (c # r), skip_ws (dropWhile word_char (c # r))))"

definition peek :: "byte list \<Rightarrow> byte list \<Rightarrow> bool" where
  "peek toks s = (skip_ws s \<noteq> [] \<and> hd (skip_ws s) \<in> set toks)"

text \<open>\<open>peek\<close> moves \<open>*ps\<close> past white space: its callers go on with \<open>skip_ws\<close> of the text.\<close>

definition eat :: "byte list \<Rightarrow> byte list" where
  "eat s = snd (snd (gettoken s))"

lemma skip_ws_le: "length (skip_ws s) \<le> length s"
  by (simp add: skip_ws_def length_dropWhile_le)

lemma eat_less: "skip_ws s \<noteq> [] \<Longrightarrow> length (eat s) < length s"
proof -
  assume "skip_ws s \<noteq> []"
  then obtain c r where s: "skip_ws s = c # r" by (cases "skip_ws s") auto
  have "length (skip_ws r) \<le> length r" "length (skip_ws (tl r)) \<le> length r"
    using skip_ws_le[of r] skip_ws_le[of "tl r"] by auto
  moreover have "length (skip_ws (dropWhile word_char r)) \<le> length r"
    using skip_ws_le[of "dropWhile word_char r"] length_dropWhile_le[of word_char r] by linarith
  moreover have "c \<notin> set whitespace"
    using hd_dropWhile[of "\<lambda>b. b \<in> set whitespace" s] s unfolding skip_ws_def by force
  then have "word_char c" if "c \<notin> {PIPE_CH, LPAREN, RPAREN, SEMI, AMP, LESS}" "c \<noteq> GREATER"
    using that by (simp add: word_char_def symbols_def)
  ultimately have "length (eat s) \<le> length r"
    by (auto simp: eat_def gettoken_def s)
  then show ?thesis using skip_ws_le[of s] s by simp
qed

section \<open>Redirections and words\<close>

type_synonym redir = "byte list \<times> uint \<times> nat"

definition O_CREATE_WRONLY :: uint where
  "O_CREATE_WRONLY = 0x201"

definition mk_redir :: "byte \<Rightarrow> byte list \<Rightarrow> redir" where
  "mk_redir tok file = (if tok = LESS then (file, 0, 0) else (file, O_CREATE_WRONLY, 1))"

definition add_redirs :: "cmd \<Rightarrow> redir list \<Rightarrow> cmd" where
  "add_redirs c rs = foldl (\<lambda>c (file, mode, fd). REDIR c file mode fd) c rs"

lemma peek_nonempty: "peek toks s \<Longrightarrow> skip_ws s \<noteq> []"
  by (simp add: peek_def)

text \<open>The redirections \<open>parseredirs\<close> wraps around its argument, in order.\<close>

function parse_redirs :: "byte list \<Rightarrow> redir list parse" where
  "parse_redirs s =
     (if peek [LESS, GREATER] s then
        let tok = fst (gettoken s); (tok2, file, s2) = gettoken (eat s) in
        if tok2 \<noteq> WORD then PPanic ''missing file for redirection''
        else pbind (parse_redirs s2) (\<lambda>rs s. POk (mk_redir tok file # rs) s)
      else POk [] (skip_ws s))"
  by auto
termination
proof (relation "measure length")
  fix s tok x tok2 y f s2
  assume a: "peek [LESS, GREATER] s" "x = gettoken (eat s)" "(tok2, y) = x" "(f, s2) = y"
  have "s2 = eat (eat s)" using a(2-4) by (cases "gettoken (eat s)") (simp add: eat_def[of "eat s"])
  moreover have "length (eat (eat s)) \<le> length (eat s)"
  proof (cases "skip_ws (eat s) = []")
    case True
    then show ?thesis by (simp add: eat_def[of "eat s"] gettoken_def)
  next
    case False
    then show ?thesis using eat_less[of "eat s"] by simp
  qed
  ultimately show "(s2, s) \<in> measure length" using eat_less[OF peek_nonempty[OF a(1)]] by simp
qed simp

declare parse_redirs.simps [simp del]

abbreviation (input) MAXARGS :: nat where "MAXARGS \<equiv> 10"

lemma gettoken_word: "fst (gettoken s) = WORD \<Longrightarrow> skip_ws s \<noteq> []"
  by (auto simp: gettoken_def)

lemma parse_redirs_shorter: "parse_redirs s = POk rs s' \<Longrightarrow> length s' \<le> length s"
proof (induction s arbitrary: rs s' rule: parse_redirs.induct)
  case (1 s)
  show ?case
  proof (cases "peek [LESS, GREATER] s")
    case False
    then show ?thesis using 1(2) skip_ws_le[of s] by (simp add: parse_redirs.simps[of s])
  next
    case True
    obtain tok2 f s2 where g: "gettoken (eat s) = (tok2, f, s2)" by (cases "gettoken (eat s)") auto
    with 1(2) True obtain rs' where r: "tok2 = WORD" "parse_redirs s2 = POk rs' s'"
      by (auto simp: parse_redirs.simps[of s] pbind_def split: if_splits parse.splits)
    have "length s' \<le> length s2" using 1(1)[OF True refl refl g[symmetric] refl _ r(2)] r(1) by simp
    moreover have "length s2 < length (eat s)"
      using eat_less[of "eat s"] gettoken_word[of "eat s"] g r(1) by (simp add: eat_def[of "eat s"])
    ultimately show ?thesis using eat_less[OF peek_nonempty[OF True]] by simp
  qed
qed

text \<open>
  The loop of \<open>parseexec\<close>, with the arguments and redirections so far; the code puts the arguments into the
  innermost command while the redirections are wrapped around it.
\<close>

function exec_loop :: "byte list list \<Rightarrow> redir list \<Rightarrow> byte list \<Rightarrow> cmd parse" where
  "exec_loop argv rs s =
     (if peek [PIPE_CH, RPAREN, AMP, SEMI] s then POk (add_redirs (EXEC argv) rs) (skip_ws s)
      else
        let (tok, q, s2) = gettoken s in
        if tok = 0 then POk (add_redirs (EXEC argv) rs) s2
        else if tok \<noteq> WORD then PPanic ''syntax''
        else if MAXARGS \<le> length argv + 1 then PPanic ''too many args''
        else case parse_redirs s2 of
            POk rs' s3 \<Rightarrow> exec_loop (argv @ [q]) (rs @ rs') s3
          | PPanic e \<Rightarrow> PPanic e
          | PFuel \<Rightarrow> PFuel)"
  by auto
termination
proof (relation "measure (\<lambda>(argv, rs, s). length s)")
  fix argv :: "byte list list" and rs :: "redir list" and s x tok y q s2 rs' s3
  assume a: "x = gettoken s" "(tok, y) = x" "(q, s2) = y" "tok \<noteq> 0" "\<not> tok \<noteq> WORD" "parse_redirs s2 = POk rs' s3"
  then have "fst (gettoken s) = WORD" "s2 = eat s" by (cases "gettoken s"; simp add: eat_def)+
  then have "length s2 < length s" using eat_less gettoken_word by simp
  then show "((argv @ [q], rs @ rs', s3), argv, rs, s) \<in> measure (\<lambda>(argv, rs, s). length s)"
    using parse_redirs_shorter[OF a(6)] by simp
qed simp

declare exec_loop.simps [simp del]

function back_loop :: "cmd \<Rightarrow> byte list \<Rightarrow> cmd \<times> byte list" where
  "back_loop c s = (if peek [AMP] s then back_loop (BACK c) (eat s) else (c, skip_ws s))"
  by auto
termination
  by (relation "measure (\<lambda>(c, s). length s)") (auto dest: eat_less[OF peek_nonempty])

declare back_loop.simps [simp del]

section \<open>The grammar\<close>

fun parseline :: "nat \<Rightarrow> byte list \<Rightarrow> cmd parse" and
    parsepipe :: "nat \<Rightarrow> byte list \<Rightarrow> cmd parse" and
    parseexec :: "nat \<Rightarrow> byte list \<Rightarrow> cmd parse" and
    parseblock :: "nat \<Rightarrow> byte list \<Rightarrow> cmd parse" where
  "parseline 0 s = PFuel"
| "parseline (Suc n) s =
     pbind (parsepipe n s) (\<lambda>c s.
     let (c, s) = back_loop c s in
     if peek [SEMI] s then pbind (parseline n (eat s)) (\<lambda>c2 s. POk (LIST c c2) s)
     else POk c (skip_ws s))"
| "parsepipe 0 s = PFuel"
| "parsepipe (Suc n) s =
     pbind (parseexec n s) (\<lambda>c s.
     if peek [PIPE_CH] s then pbind (parsepipe n (eat s)) (\<lambda>c2 s. POk (PIPE c c2) s)
     else POk c (skip_ws s))"
| "parseexec 0 s = PFuel"
| "parseexec (Suc n) s =
     (if peek [LPAREN] s then parseblock n s
      else pbind (parse_redirs s) (\<lambda>rs s. exec_loop [] rs s))"
| "parseblock 0 s = PFuel"
| "parseblock (Suc n) s =
     (if \<not> peek [LPAREN] s then PPanic ''parseblock''
      else
        pbind (parseline n (eat s)) (\<lambda>c s.
        if \<not> peek [RPAREN] s then PPanic ''syntax - missing )''
        else pbind (parse_redirs (eat s)) (\<lambda>rs s. POk (add_redirs c rs) s)))"

definition parse_fuel :: "byte list \<Rightarrow> nat" where
  "parse_fuel s = 4 * length s + 3"

definition parsecmd :: "byte list \<Rightarrow> cmd parse" where
  "parsecmd s =
     pbind (parseline (parse_fuel s) s) (\<lambda>c s.
     if skip_ws s \<noteq> [] then PPanic ''syntax'' else POk c [])"

section \<open>Parsing ends\<close>

lemma pbind_POk: "pbind m f = POk x s \<longleftrightarrow> (\<exists>y s'. m = POk y s' \<and> f y s' = POk x s)"
  by (cases m) (auto simp: pbind_def)

lemma pbind_PFuel: "pbind m f = PFuel \<longleftrightarrow> m = PFuel \<or> (\<exists>y s'. m = POk y s' \<and> f y s' = PFuel)"
  by (cases m) (auto simp: pbind_def)

lemma eat_le: "length (eat s) \<le> length s"
  using eat_less[of s] by (cases "skip_ws s = []") (auto simp: eat_def[of s] gettoken_def)

lemma parse_redirs_fuel: "parse_redirs s \<noteq> PFuel"
  by (induction s rule: parse_redirs.induct)
    (subst parse_redirs.simps, auto simp: pbind_PFuel split: prod.splits)

lemma exec_loop_fuel: "exec_loop argv rs s \<noteq> PFuel"
proof (induction argv rs s rule: exec_loop.induct)
  case (1 argv rs s)
  then show ?case
    by (subst exec_loop.simps)
      (auto simp: parse_redirs_fuel split: prod.splits parse.splits)
qed

lemma exec_loop_shorter: "exec_loop argv rs s = POk c s' \<Longrightarrow> length s' \<le> length s"
proof (induction argv rs s rule: exec_loop.induct)
  case (1 argv rs s)
  obtain tok q s2 where g: "gettoken s = (tok, q, s2)" by (cases "gettoken s") auto
  then have e: "s2 = eat s" by (simp add: eat_def)
  show ?case
  proof (cases "peek [PIPE_CH, RPAREN, AMP, SEMI] s \<or> tok = 0")
    case True
    then have "s' = skip_ws s \<or> s' = eat s"
      using 1(2) g e by (simp add: exec_loop.simps[of argv rs s] split: if_splits)
    then show ?thesis using skip_ws_le[of s] eat_le[of s] by auto
  next
    case False
    then obtain rs' s3 where r: "tok = WORD" "\<not> MAXARGS \<le> length argv + 1" "parse_redirs s2 = POk rs' s3"
      "exec_loop (argv @ [q]) (rs @ rs') s3 = POk c s'"
      using 1(2) g by (auto simp: exec_loop.simps[of argv rs s] split: if_splits parse.splits)
    have "length s' \<le> length s3"
      using 1(1)[OF _ refl g[symmetric] refl _ _ r(2,3,4)] False r(1) by simp
    then show ?thesis using parse_redirs_shorter[OF r(3)] eat_le[of s] e by simp
  qed
qed

lemma back_loop_shorter: "length (snd (back_loop c s)) \<le> length s"
proof (induction c s rule: back_loop.induct)
  case (1 c s)
  then show ?case
    using eat_le[of s] skip_ws_le[of s] by (cases "peek [AMP] s") (simp_all add: back_loop.simps[of c s])
qed

lemma parse_shorter:
  "parseline n s = POk c s' \<Longrightarrow> length s' \<le> length s"
  "parsepipe n s = POk c s' \<Longrightarrow> length s' \<le> length s"
  "parseexec n s = POk c s' \<Longrightarrow> length s' \<le> length s"
  "parseblock n s = POk c s' \<Longrightarrow> length s' \<le> length s"
proof (induction n arbitrary: s c s')
  case (Suc n)
  note le = skip_ws_le eat_le back_loop_shorter exec_loop_shorter parse_redirs_shorter
  {
    case 1
    then obtain c1 s1 where p: "parsepipe n s = POk c1 s1" by (auto simp: pbind_POk)
    obtain c2 s2 where bl: "back_loop c1 s1 = (c2, s2)" by (cases "back_loop c1 s1") auto
    have "length s2 \<le> length s" using Suc(2)[OF p] back_loop_shorter[of c1 s1] bl by simp
    then show ?case
      using 1 p bl skip_ws_le[of s2] eat_le[of s2] Suc(1) by (fastforce simp: pbind_POk split: if_splits)
  next
    case 2
    then obtain c1 s1 where p: "parseexec n s = POk c1 s1" by (auto simp: pbind_POk)
    have "length s1 \<le> length s" using Suc(3)[OF p] by simp
    then show ?case
      using 2 p skip_ws_le[of s1] eat_le[of s1] Suc(2) by (fastforce simp: pbind_POk split: if_splits)
  next
    case 3
    then show ?case
      using Suc(4) parse_redirs_shorter exec_loop_shorter
      by (auto simp: pbind_POk split: if_splits) (meson le_trans)
  next
    case 4
    then obtain c1 s1 rs where p: "parseline n (eat s) = POk c1 s1" "parse_redirs (eat s1) = POk rs s'"
      by (auto simp: pbind_POk split: if_splits)
    show ?case
      using Suc(1)[OF p(1)] parse_redirs_shorter[OF p(2)] eat_le[of s] eat_le[of s1] by simp
  }
qed simp_all

lemma parse_fuel_enough:
  "4 * length s + 3 \<le> n \<Longrightarrow> parseline n s \<noteq> PFuel"
  "4 * length s + 2 \<le> n \<Longrightarrow> parsepipe n s \<noteq> PFuel"
  "4 * length s + 1 \<le> n \<Longrightarrow> parseexec n s \<noteq> PFuel"
  "4 * length s \<le> n \<Longrightarrow> 0 < n \<Longrightarrow> parseblock n s \<noteq> PFuel"
proof (induction n arbitrary: s)
  case (Suc n)
  {
    case 1
    have p: "parsepipe n s \<noteq> PFuel" using 1 Suc(2) by simp
    have "parseline n (eat s2) \<noteq> PFuel" if "parsepipe n s = POk c1 s1" "back_loop c1 s1 = (c2, s2)" "peek [SEMI] s2"
      for c1 s1 c2 s2
    proof -
      have "length s2 \<le> length s"
        using parse_shorter(2)[OF that(1)] back_loop_shorter[of c1 s1] that(2) by simp
      then have "length (eat s2) < length s" using eat_less[OF peek_nonempty[OF that(3)]] by simp
      then show ?thesis using 1 Suc(1)[of "eat s2"] by simp
    qed
    then show ?case using p by (auto simp: pbind_PFuel split: prod.splits)
  next
    case 2
    have p: "parseexec n s \<noteq> PFuel" using 2 Suc(3) by simp
    have "parsepipe n (eat s1) \<noteq> PFuel" if "parseexec n s = POk c1 s1" "peek [PIPE_CH] s1" for c1 s1
    proof -
      have "length (eat s1) < length s"
        using parse_shorter(3)[OF that(1)] eat_less[OF peek_nonempty[OF that(2)]] by simp
      then show ?thesis using 2 Suc(2)[of "eat s1"] by simp
    qed
    then show ?case using p by (auto simp: pbind_PFuel)
  next
    case 3
    have "parseblock n s \<noteq> PFuel" if "peek [LPAREN] s"
    proof -
      have "s \<noteq> []" using peek_nonempty[OF that] by (auto simp: skip_ws_def)
      then show ?thesis using 3 Suc(4) by (cases s) auto
    qed
    then show ?case by (auto simp: pbind_PFuel parse_redirs_fuel exec_loop_fuel)
  next
    case 4
    have "parseline n (eat s) \<noteq> PFuel" if "peek [LPAREN] s"
      using 4 Suc(1)[of "eat s"] eat_less[OF peek_nonempty[OF that]] by simp
    then show ?case by (auto simp: pbind_PFuel parse_redirs_fuel)
  }
qed simp_all

text \<open>
  C34: The parser returns on every input: it gives a command or reports an error, and never recurses without
  end.
\<close>

theorem parsecmd_returns: "parsecmd s \<noteq> PFuel"
  using parse_fuel_enough(1)[of s "parse_fuel s"]
  by (auto simp: parsecmd_def parse_fuel_def pbind_PFuel)

section \<open>Printing and parsing\<close>

text \<open>
  The text of a command: every token is followed by a space, and a command is put in parentheses where the
  grammar asks for a simpler one.
\<close>

fun rank :: "cmd \<Rightarrow> nat" where
  "rank (EXEC ws) = 0"
| "rank (REDIR c f m d) = 0"
| "rank (PIPE l r) = 1"
| "rank (BACK c) = 2"
| "rank (LIST l r) = 3"

definition parens :: "nat \<Rightarrow> cmd \<Rightarrow> byte list \<Rightarrow> byte list" where
  "parens r c t = (if r < rank c then [LPAREN, 32] @ t @ [RPAREN, 32] else t)"

definition show_words :: "byte list list \<Rightarrow> byte list" where
  "show_words ws = concat (map (\<lambda>w. w @ [32]) ws)"

definition show_redir :: "redir \<Rightarrow> byte list" where
  "show_redir r = (case r of (f, m, d) \<Rightarrow> (if d = 0 then [LESS, 32] else [GREATER, 32]) @ f @ [32])"

fun show_cmd :: "cmd \<Rightarrow> byte list" where
  "show_cmd (EXEC ws) = show_words ws"
| "show_cmd (REDIR c f m d) = parens 0 c (show_cmd c) @ show_redir (f, m, d)"
| "show_cmd (PIPE l r) = parens 0 l (show_cmd l) @ [PIPE_CH, 32] @ parens 1 r (show_cmd r)"
| "show_cmd (BACK c) = parens 2 c (show_cmd c) @ [AMP, 32]"
| "show_cmd (LIST l r) = parens 2 l (show_cmd l) @ [SEMI, 32] @ show_cmd r"

definition is_word :: "byte list \<Rightarrow> bool" where
  "is_word w \<longleftrightarrow> w \<noteq> [] \<and> list_all word_char w"

text \<open>Commands with fewer than \<open>MAXARGS\<close> proper words and the two redirections the parser makes.\<close>

fun wf_cmd :: "cmd \<Rightarrow> bool" where
  "wf_cmd (EXEC ws) = (length ws < MAXARGS \<and> list_all is_word ws)"
| "wf_cmd (REDIR c f m d) = (wf_cmd c \<and> is_word f \<and> (m = 0 \<and> d = 0 \<or> m = O_CREATE_WRONLY \<and> d = 1))"
| "wf_cmd (PIPE l r) = (wf_cmd l \<and> wf_cmd r)"
| "wf_cmd (BACK c) = wf_cmd c"
| "wf_cmd (LIST l r) = (wf_cmd l \<and> wf_cmd r)"

text \<open>What may follow: \<open>stops cs k\<close> when \<open>k\<close> is empty or starts with one of \<open>cs\<close>.\<close>

definition stops :: "byte list \<Rightarrow> byte list \<Rightarrow> bool" where
  "stops cs k \<longleftrightarrow> k = [] \<or> hd k \<in> set cs \<and> hd k \<in> set symbols"

lemma stops_mono: "stops cs k \<Longrightarrow> set cs \<subseteq> set ds \<Longrightarrow> stops ds k"
  by (auto simp: stops_def)

lemma skip_ws_space [simp]: "skip_ws (32 # k) = skip_ws k"
  by (simp add: skip_ws_def whitespace_def)

lemma skip_ws_sym: "c \<in> set symbols \<Longrightarrow> skip_ws (c # k) = c # k"
  by (auto simp: skip_ws_def whitespace_def symbols_def)

lemma skip_ws_stops: "stops cs k \<Longrightarrow> skip_ws k = k"
  using skip_ws_sym[of "hd k" "tl k"] by (cases k) (auto simp: stops_def skip_ws_def)

lemma skip_ws_word: "is_word w \<Longrightarrow> skip_ws (w @ k) = w @ k"
  by (cases w) (auto simp: is_word_def word_char_def skip_ws_def)

lemma peek_stops: "stops cs k \<Longrightarrow> peek ds k \<longleftrightarrow> k \<noteq> [] \<and> hd k \<in> set ds"
  by (simp add: peek_def skip_ws_stops)

lemma peek_sym: "c \<in> set symbols \<Longrightarrow> peek ds (c # k) \<longleftrightarrow> c \<in> set ds"
  by (simp add: peek_def skip_ws_sym)

lemma peek_word: "is_word w \<Longrightarrow> set ds \<subseteq> set symbols \<Longrightarrow> \<not> peek ds (w @ k)"
  using skip_ws_word[of w k] by (cases w) (auto simp: peek_def is_word_def word_char_def)

lemma eat_sym: "c \<in> {PIPE_CH, LPAREN, RPAREN, SEMI, AMP, LESS} \<Longrightarrow> eat (c # 32 # k) = skip_ws k"
  using skip_ws_sym[of c "32 # k"] by (auto simp: eat_def gettoken_def symbols_def)

lemma eat_greater: "eat (GREATER # 32 # k) = skip_ws k"
  using skip_ws_sym[of GREATER "32 # k"] by (auto simp: eat_def gettoken_def symbols_def)

lemma gettoken_is_word:
  assumes "is_word w"
  shows "gettoken (w @ 32 # k) = (WORD, w, skip_ws k)"
proof -
  obtain c w' where w: "w = c # w'" "word_char c" "list_all word_char w'"
    using assms by (cases w) (auto simp: is_word_def)
  have t: "takeWhile word_char (w @ 32 # k) = w" "dropWhile word_char (w @ 32 # k) = 32 # k"
    using assms by (auto simp: is_word_def list_all_iff takeWhile_append dropWhile_append word_char_def whitespace_def)
  have "c \<notin> {PIPE_CH, LPAREN, RPAREN, SEMI, AMP, LESS}" "c \<noteq> GREATER"
    using w(2) by (auto simp: word_char_def symbols_def)
  then show ?thesis
    using skip_ws_word[OF assms, of "32 # k"] t unfolding w(1) by (simp add: gettoken_def)
qed

lemma gettoken_stops: "stops cs k \<Longrightarrow> k \<noteq> [] \<Longrightarrow> fst (gettoken k) \<noteq> 0"
  by (cases k) (auto simp: stops_def gettoken_def skip_ws_sym symbols_def)

definition wf_redir :: "redir \<Rightarrow> bool" where
  "wf_redir r = (case r of (f, m, d) \<Rightarrow> is_word f \<and> (m = 0 \<and> d = 0 \<or> m = O_CREATE_WRONLY \<and> d = 1))"

definition show_redirs :: "redir list \<Rightarrow> byte list" where
  "show_redirs rs = concat (map show_redir rs)"

abbreviation (input) ENDERS :: "byte list" where "ENDERS \<equiv> [PIPE_CH, RPAREN, AMP, SEMI]"

lemma parse_redirs_none:
  "\<not> peek [LESS, GREATER] k \<Longrightarrow> parse_redirs k = POk [] (skip_ws k)"
  by (simp add: parse_redirs.simps[of k])

lemma show_redir_sym: "\<exists>c r. show_redir x = c # 32 # r \<and> c \<in> {LESS, GREATER}"
  by (cases x) (auto simp: show_redir_def)

lemma skip_ws_redirs: "stops cs k \<Longrightarrow> skip_ws (show_redirs rs @ k) = show_redirs rs @ k"
proof (cases rs)
  case (Cons x xs)
  obtain c r where "show_redir x = c # 32 # r" "c \<in> {LESS, GREATER}" using show_redir_sym by blast
  then show ?thesis using skip_ws_sym[of c] by (auto simp: show_redirs_def Cons symbols_def)
qed (simp add: show_redirs_def skip_ws_stops)

lemma parse_redirs_show:
  assumes "list_all wf_redir rs" "stops ENDERS k"
  shows "parse_redirs (show_redirs rs @ k) = POk rs k"
  using assms(1)
proof (induction rs)
  case Nil
  have "\<not> peek [LESS, GREATER] k" using assms(2) by (auto simp: peek_stops[OF assms(2)] stops_def)
  then show ?case by (simp add: show_redirs_def parse_redirs_none skip_ws_stops[OF assms(2)])
next
  case (Cons x xs)
  obtain f m d where x: "x = (f, m, d)" by (cases x)
  let ?c = "if d = 0 then LESS else GREATER" and ?k = "show_redirs xs @ k"
  have wf: "is_word f" "m = 0 \<and> d = 0 \<or> m = O_CREATE_WRONLY \<and> d = 1" using Cons.prems by (auto simp: wf_redir_def x)
  have t: "show_redirs (x # xs) @ k = ?c # 32 # f @ 32 # ?k"
    by (simp add: show_redirs_def show_redir_def x)
  have c: "peek [LESS, GREATER] (?c # 32 # f @ 32 # ?k)" by (auto simp: peek_sym symbols_def)
  have "fst (gettoken (?c # 32 # f @ 32 # ?k)) = ?c"
    using skip_ws_sym[of ?c] by (auto simp: gettoken_def symbols_def)
  moreover have "eat (?c # 32 # f @ 32 # ?k) = f @ 32 # ?k"
    using skip_ws_word[OF wf(1)] eat_greater by (simp add: eat_sym)
  moreover have "mk_redir ?c f = x" using wf(2) by (auto simp: mk_redir_def x)
  moreover have "parse_redirs ?k = POk xs k" using Cons by simp
  ultimately show ?case
    unfolding t using c skip_ws_redirs[OF assms(2), of xs]
    by (simp add: parse_redirs.simps[of "?c # 32 # f @ 32 # ?k"] gettoken_is_word[OF wf(1)] pbind_def)
qed

lemma exec_loop_end:
  assumes "stops ENDERS k"
  shows "exec_loop argv rs k = POk (add_redirs (EXEC argv) rs) k"
proof (cases "k = []")
  case True
  then show ?thesis by (simp add: exec_loop.simps[of argv rs "[]"] peek_def skip_ws_def gettoken_def)
next
  case False
  then have "peek ENDERS k" using assms by (auto simp: peek_stops[OF assms] stops_def)
  then show ?thesis by (simp add: exec_loop.simps[of argv rs k] skip_ws_stops[OF assms])
qed

lemma words_front:
  assumes "list_all is_word ws" "ws \<noteq> []"
  shows "skip_ws (show_words ws @ k) = show_words ws @ k" "set ds \<subseteq> set symbols \<Longrightarrow> \<not> peek ds (show_words ws @ k)"
  using assms skip_ws_word[of "hd ws"] peek_word[of "hd ws"] by (cases ws; simp add: show_words_def)+

lemma exec_loop_show:
  assumes "list_all is_word ws" "length argv + length ws < MAXARGS" "ws \<noteq> []" "list_all wf_redir rs" "stops ENDERS k"
  shows "exec_loop argv rs0 (show_words ws @ show_redirs rs @ k) = POk (add_redirs (EXEC (argv @ ws)) (rs0 @ rs)) k"
  using assms(1-3)
proof (induction ws arbitrary: argv rs0)
  case (Cons w ws)
  let ?t = "show_words ws @ show_redirs rs @ k"
  have w: "is_word w" using Cons.prems by simp
  have t: "show_words (w # ws) @ show_redirs rs @ k = w @ 32 # ?t" by (simp add: show_words_def)
  have np: "\<not> peek ENDERS (w @ 32 # ?t)" by (rule peek_word[OF w]) (simp add: symbols_def)
  have "\<exists>rs' s3. parse_redirs (skip_ws ?t) = POk rs' s3 \<and>
      exec_loop (argv @ [w]) (rs0 @ rs') s3 = POk (add_redirs (EXEC (argv @ w # ws)) (rs0 @ rs)) k"
  proof (cases ws)
    case Nil
    then have "skip_ws ?t = show_redirs rs @ k" by (simp add: show_words_def skip_ws_redirs[OF assms(5)])
    then show ?thesis
      using Nil by (simp add: parse_redirs_show[OF assms(4,5)] exec_loop_end[OF assms(5)])
  next
    case (Cons v vs)
    have f: "list_all is_word ws" "ws \<noteq> []" using Cons.prems Cons by auto
    have "parse_redirs ?t = POk [] ?t"
      using words_front[OF f] by (simp add: parse_redirs_none symbols_def)
    then show ?thesis
      using Cons.IH[OF f(1) _ f(2), of "argv @ [w]" rs0] Cons.prems(2) words_front(1)[OF f] by simp
  qed
  then show ?case
    unfolding t using np Cons.prems(2)
    by (auto simp: exec_loop.simps[of argv rs0 "w @ 32 # ?t"] gettoken_is_word[OF w])
qed simp

fun base :: "cmd \<Rightarrow> cmd" where
  "base (REDIR c f m d) = base c"
| "base c = c"

fun redirs :: "cmd \<Rightarrow> redir list" where
  "redirs (REDIR c f m d) = redirs c @ [(f, m, d)]"
| "redirs c = []"

lemma add_redirs_base: "add_redirs (base c) (redirs c) = c"
  by (induction c) (auto simp: add_redirs_def)

lemma show_base: "parens 0 c (show_cmd c) = parens 0 (base c) (show_cmd (base c)) @ show_redirs (redirs c)"
  by (induction c) (auto simp: parens_def show_redirs_def)

lemma wf_redirs: "wf_cmd c \<Longrightarrow> list_all wf_redir (redirs c)"
  by (induction c) (auto simp: wf_redir_def)

lemma parens_same:
  "rank c \<noteq> 1 \<Longrightarrow> parens 1 c t = parens 0 c t" "rank c \<noteq> 2 \<Longrightarrow> parens 2 c t = parens 1 c t"
  "rank c \<noteq> 3 \<Longrightarrow> parens 2 c t = t"
  by (cases c; simp add: parens_def)+

lemma skip_ws_parens:
  "skip_ws (t @ k) = t @ k \<Longrightarrow> skip_ws (parens r c t @ k) = parens r c t @ k"
  by (simp add: parens_def skip_ws_sym symbols_def)

lemma skip_ws_show: "wf_cmd c \<Longrightarrow> skip_ws k = k \<Longrightarrow> skip_ws (show_cmd c @ k) = show_cmd c @ k"
proof (induction c arbitrary: k)
  case (EXEC ws)
  then show ?case by (cases ws) (simp_all add: words_front show_words_def skip_ws_word)
next
  case (REDIR c f m d)
  obtain x r where x: "show_redir (f, m, d) = x # 32 # r" "x \<in> {LESS, GREATER}" using show_redir_sym by blast
  have "skip_ws (show_redir (f, m, d) @ k) = show_redir (f, m, d) @ k"
    using x skip_ws_sym[of x] by (auto simp: symbols_def)
  then show ?case using REDIR skip_ws_parens[of "show_cmd c" "show_redir (f, m, d) @ k"] by simp
next
  case (PIPE l r)
  then show ?case
    using skip_ws_parens[of "show_cmd l"] by (simp add: skip_ws_sym symbols_def)
next
  case (LIST l r)
  then show ?case
    using skip_ws_parens[of "show_cmd l"] by (simp add: skip_ws_sym symbols_def)
next
  case (BACK c)
  then show ?case
    using skip_ws_parens[of "show_cmd c"] by (simp add: skip_ws_sym symbols_def)
qed

text \<open>What each parsing function does with the text of a command.\<close>

definition goodE :: "cmd \<Rightarrow> bool" where
  "goodE c \<longleftrightarrow> (\<forall>n k. stops ENDERS k \<longrightarrow> 4 * length (parens 0 c (show_cmd c) @ k) + 1 \<le> n \<longrightarrow>
     parseexec n (parens 0 c (show_cmd c) @ k) = POk c k)"

definition goodP :: "cmd \<Rightarrow> bool" where
  "goodP c \<longleftrightarrow> (\<forall>n k. stops [RPAREN, AMP, SEMI] k \<longrightarrow> 4 * length (parens 1 c (show_cmd c) @ k) + 2 \<le> n \<longrightarrow>
     parsepipe n (parens 1 c (show_cmd c) @ k) = POk c k)"

definition goodB :: "cmd \<Rightarrow> bool" where
  "goodB c \<longleftrightarrow> (\<forall>n k. stops [RPAREN, AMP, SEMI] k \<longrightarrow> 4 * length (parens 2 c (show_cmd c) @ k) + 2 \<le> n \<longrightarrow>
     (\<exists>p k'. parsepipe n (parens 2 c (show_cmd c) @ k) = POk p k' \<and> back_loop p k' = back_loop c k))"

definition goodL :: "cmd \<Rightarrow> bool" where
  "goodL c \<longleftrightarrow> (\<forall>n k. stops [RPAREN] k \<longrightarrow> 4 * length (show_cmd c @ k) + 3 \<le> n \<longrightarrow>
     parseline n (show_cmd c @ k) = POk c k)"

lemma stops_sym: "c \<in> set cs \<Longrightarrow> c \<in> set symbols \<Longrightarrow> stops cs (c # k)"
  by (simp add: stops_def)

lemma goodE_exec:
  assumes "base c = EXEC ws" "wf_cmd c" "length ws < MAXARGS" "list_all is_word ws"
  shows "goodE c"
  unfolding goodE_def
proof (intro allI impI)
  fix n k
  assume k: "stops ENDERS k" and n: "4 * length (parens 0 c (show_cmd c) @ k) + 1 \<le> n"
  let ?s = "show_words ws @ show_redirs (redirs c) @ k"
  have t: "parens 0 c (show_cmd c) @ k = ?s" using show_base[of c] assms(1) by (simp add: parens_def)
  have c: "add_redirs (EXEC ws) (redirs c) = c" using add_redirs_base[of c] assms(1) by simp
  note rs = wf_redirs[OF assms(2)]
  obtain m where m: "n = Suc m" using n by (cases n) auto
  show "parseexec n (parens 0 c (show_cmd c) @ k) = POk c k"
  proof (cases "ws = []")
    case True
    have "\<not> peek [LPAREN] (show_redirs (redirs c) @ k)"
    proof (cases "redirs c")
      case Nil
      then show ?thesis using k by (auto simp: show_redirs_def peek_stops[OF k] stops_def)
    next
      case (Cons x xs)
      obtain d r where "show_redir x = d # 32 # r" "d \<in> {LESS, GREATER}" using show_redir_sym by blast
      then show ?thesis using Cons peek_sym[of d] by (auto simp: show_redirs_def symbols_def)
    qed
    then show ?thesis
      using True c by (simp add: t m show_words_def parse_redirs_show[OF rs k] pbind_def exec_loop_end[OF k])
  next
    case False
    have "parse_redirs ?s = POk [] ?s"
      using words_front[OF assms(4) False] by (simp add: parse_redirs_none symbols_def)
    then show ?thesis
      using exec_loop_show[OF assms(4) _ False rs k, of "[]" "[]"] assms(3) words_front(2)[OF assms(4) False] c
      by (simp add: t m pbind_def symbols_def)
  qed
qed

lemma goodE_block:
  assumes "goodL (base c)" "0 < rank (base c)" "wf_cmd c" "wf_cmd (base c)"
  shows "goodE c"
  unfolding goodE_def
proof (intro allI impI)
  fix n k
  assume k: "stops ENDERS k" and n: "4 * length (parens 0 c (show_cmd c) @ k) + 1 \<le> n"
  let ?r = "show_redirs (redirs c) @ k" and ?b = "base c"
  let ?k = "RPAREN # 32 # ?r"
  have t: "parens 0 c (show_cmd c) @ k = LPAREN # 32 # show_cmd ?b @ ?k"
    using show_base[of c] assms(2) by (simp add: parens_def)
  obtain m where m: "n = Suc (Suc m)" "4 * length (show_cmd ?b @ ?k) + 3 \<le> m"
    using n unfolding t by (cases n; cases "n - 1") auto
  have "skip_ws (show_cmd ?b @ ?k) = show_cmd ?b @ ?k"
    by (rule skip_ws_show[OF assms(4)]) (simp add: skip_ws_sym symbols_def)
  then have e: "eat (LPAREN # 32 # show_cmd ?b @ ?k) = show_cmd ?b @ ?k" by (simp add: eat_sym)
  have "parseline m (show_cmd ?b @ ?k) = POk ?b ?k"
    using assms(1) m(2) unfolding goodL_def by (simp add: stops_sym symbols_def)
  moreover have "parse_redirs (eat ?k) = POk (redirs c) k"
    using skip_ws_redirs[OF k] parse_redirs_show[OF wf_redirs[OF assms(3)] k] by (simp add: eat_sym)
  ultimately show "parseexec n (parens 0 c (show_cmd c) @ k) = POk c k"
    unfolding t m(1) by (simp add: peek_sym symbols_def e pbind_def add_redirs_base)
qed

lemma goodP_exec:
  assumes "rank c \<noteq> 1" "goodE c"
  shows "goodP c"
  unfolding goodP_def parens_same(1)[OF assms(1)]
proof (intro allI impI)
  fix n k
  assume k: "stops [RPAREN, AMP, SEMI] k" and n: "4 * length (parens 0 c (show_cmd c) @ k) + 2 \<le> n"
  then obtain m where m: "n = Suc m" by (cases n) auto
  have "parseexec m (parens 0 c (show_cmd c) @ k) = POk c k"
    using assms(2) n stops_mono[OF k, of ENDERS] unfolding goodE_def m by simp
  then show "parsepipe n (parens 0 c (show_cmd c) @ k) = POk c k"
    using k by (auto simp: m pbind_def peek_stops[OF k] skip_ws_stops[OF k] stops_def)
qed

lemma goodP_pipe:
  assumes "goodE l" "goodP r" "wf_cmd r"
  shows "goodP (PIPE l r)"
  unfolding goodP_def
proof (intro allI impI)
  fix n k
  let ?c = "PIPE l r" and ?k = "parens 1 r (show_cmd r) @ k"
  assume k: "stops [RPAREN, AMP, SEMI] k" and n: "4 * length (parens 1 ?c (show_cmd ?c) @ k) + 2 \<le> n"
  have t: "parens 1 ?c (show_cmd ?c) @ k = parens 0 l (show_cmd l) @ PIPE_CH # 32 # ?k"
    by (simp add: parens_def)
  obtain m where m: "n = Suc m" "4 * length (parens 0 l (show_cmd l) @ PIPE_CH # 32 # ?k) + 1 \<le> m"
    using n unfolding t by (cases n) auto
  have "parseexec m (parens 0 l (show_cmd l) @ PIPE_CH # 32 # ?k) = POk l (PIPE_CH # 32 # ?k)"
    using assms(1) m(2) unfolding goodE_def by (simp add: stops_sym symbols_def)
  moreover have "eat (PIPE_CH # 32 # ?k) = ?k"
    using skip_ws_parens[OF skip_ws_show[OF assms(3) skip_ws_stops[OF k]]] by (simp add: eat_sym)
  moreover have "parsepipe m ?k = POk r k"
    using assms(2) m(2) k unfolding goodP_def by simp
  ultimately show "parsepipe n (parens 1 ?c (show_cmd ?c) @ k) = POk ?c k"
    unfolding t m(1) by (simp add: pbind_def peek_sym symbols_def)
qed

lemma goodB_pipe:
  assumes "rank c \<noteq> 2" "goodP c"
  shows "goodB c"
  using assms(2) unfolding goodB_def goodP_def parens_same(2)[OF assms(1)] by blast

lemma goodB_back:
  assumes "goodB c"
  shows "goodB (BACK c)"
  unfolding goodB_def
proof (intro allI impI)
  fix n k
  assume k: "stops [RPAREN, AMP, SEMI] k" and n: "4 * length (parens 2 (BACK c) (show_cmd (BACK c)) @ k) + 2 \<le> n"
  have t: "parens 2 (BACK c) (show_cmd (BACK c)) @ k = parens 2 c (show_cmd c) @ AMP # 32 # k"
    by (simp add: parens_def)
  have "stops [RPAREN, AMP, SEMI] (AMP # 32 # k)" by (simp add: stops_sym symbols_def)
  then obtain p k' where "parsepipe n (parens 2 c (show_cmd c) @ AMP # 32 # k) = POk p k'"
    "back_loop p k' = back_loop c (AMP # 32 # k)"
    using assms n unfolding goodB_def t by blast
  moreover have "back_loop c (AMP # 32 # k) = back_loop (BACK c) k"
    by (simp add: back_loop.simps[of c] peek_sym symbols_def eat_sym skip_ws_stops[OF k])
  ultimately show "\<exists>p k'. parsepipe n (parens 2 (BACK c) (show_cmd (BACK c)) @ k) = POk p k' \<and>
      back_loop p k' = back_loop (BACK c) k"
    unfolding t by auto
qed

lemma back_loop_done:
  assumes "stops [RPAREN, SEMI] k"
  shows "back_loop c k = (c, k)"
proof -
  have "\<not> peek [AMP] k" unfolding peek_stops[OF assms] using assms by (auto simp: stops_def)
  then show ?thesis by (simp add: back_loop.simps[of c k] skip_ws_stops[OF assms])
qed

lemma goodL_back:
  assumes "rank c \<noteq> 3" "goodB c"
  shows "goodL c"
  unfolding goodL_def
proof (intro allI impI)
  fix n k
  assume k: "stops [RPAREN] k" and n: "4 * length (show_cmd c @ k) + 3 \<le> n"
  then obtain m where m: "n = Suc m" by (cases n) auto
  have "stops [RPAREN, AMP, SEMI] k" using k by (rule stops_mono) auto
  then obtain p k' where "parsepipe m (show_cmd c @ k) = POk p k'" "back_loop p k' = back_loop c k"
    using assms(2) n unfolding goodB_def m parens_same(3)[OF assms(1)] by fastforce
  moreover have "back_loop c k = (c, k)" by (rule back_loop_done[OF stops_mono[OF k]]) simp
  ultimately show "parseline n (show_cmd c @ k) = POk c k"
    using k by (auto simp: m pbind_def peek_stops[OF k] skip_ws_stops[OF k] stops_def)
qed

lemma goodL_list:
  assumes "goodB l" "goodL r" "wf_cmd r"
  shows "goodL (LIST l r)"
  unfolding goodL_def
proof (intro allI impI)
  fix n k
  let ?k = "SEMI # 32 # show_cmd r @ k"
  assume k: "stops [RPAREN] k" and n: "4 * length (show_cmd (LIST l r) @ k) + 3 \<le> n"
  then obtain m where m: "n = Suc m" by (cases n) auto
  have "stops [RPAREN, AMP, SEMI] ?k" by (simp add: stops_sym symbols_def)
  moreover have "4 * length (parens 2 l (show_cmd l) @ ?k) + 2 \<le> m" using n m by simp
  ultimately obtain p k' where p: "parsepipe m (parens 2 l (show_cmd l) @ ?k) = POk p k'"
    "back_loop p k' = back_loop l ?k"
    using assms(1) unfolding goodB_def by blast
  have "back_loop l ?k = (l, ?k)" by (rule back_loop_done) (simp add: stops_sym symbols_def)
  moreover have "eat ?k = show_cmd r @ k"
    using skip_ws_show[OF assms(3) skip_ws_stops[OF k]] by (simp add: eat_sym)
  moreover have "parseline m (show_cmd r @ k) = POk r k"
    using assms(2) k n unfolding goodL_def m by simp
  ultimately show "parseline n (show_cmd (LIST l r) @ k) = POk (LIST l r) k"
    using p by (simp add: m pbind_def peek_sym symbols_def)
qed

lemma base_not_redir: "base c \<noteq> REDIR d f m e"
  by (induction c) auto

lemma wf_base: "wf_cmd c \<Longrightarrow> wf_cmd (base c)"
  by (induction c) auto

lemma good: "wf_cmd c \<Longrightarrow> goodL c \<and> goodP c \<and> goodB c \<and> goodE c \<and> goodL (base c)"
proof (induction c)
  case (EXEC ws)
  then have "goodE (EXEC ws)" by (intro goodE_exec) auto
  then show ?case using goodP_exec goodB_pipe goodL_back by simp
next
  case (REDIR c f m d)
  let ?c = "REDIR c f m d"
  have L: "goodL (base ?c)" and w: "wf_cmd (base ?c)" using REDIR wf_base by auto
  have "goodE ?c"
  proof (cases "rank (base ?c) = 0")
    case True
    then obtain ws where "base ?c = EXEC ws" using base_not_redir[of c] by (cases "base c") auto
    then show ?thesis using w REDIR.prems by (intro goodE_exec) auto
  next
    case False
    then show ?thesis using goodE_block[OF L _ REDIR.prems w] by simp
  qed
  then show ?case using L goodP_exec goodB_pipe goodL_back by simp
next
  case (PIPE l r)
  then have "goodP (PIPE l r)" by (intro goodP_pipe) auto
  then have "goodB (PIPE l r)" by (simp add: goodB_pipe)
  then show ?case using PIPE \<open>goodP (PIPE l r)\<close> goodE_block[of "PIPE l r"] by (simp add: goodL_back)
next
  case (LIST l r)
  then have "goodL (LIST l r)" by (intro goodL_list) auto
  then show ?case using LIST goodE_block[of "LIST l r"] goodP_exec goodB_pipe by simp
next
  case (BACK c)
  then have "goodB (BACK c)" by (intro goodB_back) auto
  then have "goodL (BACK c)" by (simp add: goodL_back)
  then show ?case using BACK \<open>goodB (BACK c)\<close> goodE_block[of "BACK c"] goodP_exec by simp
qed

text \<open>
  C35: Printing and parsing: the parser gives back every command of proper words from its text, with pipes,
  lists, background jobs, redirections and parentheses nested in any way.
\<close>

theorem parsecmd_show:
  assumes "wf_cmd c"
  shows "parsecmd (show_cmd c) = POk c []"
proof -
  have "parseline (parse_fuel (show_cmd c)) (show_cmd c @ []) = POk c []"
    using good[OF assms] unfolding goodL_def by (simp add: stops_def parse_fuel_def)
  then show ?thesis by (simp add: parsecmd_def pbind_def skip_ws_def)
qed

theorem parsecmd_show_witness:
  "parsecmd (show_cmd (LIST (BACK (EXEC [[108, 115]])) (PIPE (REDIR (LIST (EXEC [[97]]) (EXEC [[98], [99]])) [102] 0 0)
     (EXEC [[119, 99]])))) =
   POk (LIST (BACK (EXEC [[108, 115]])) (PIPE (REDIR (LIST (EXEC [[97]]) (EXEC [[98], [99]])) [102] 0 0)
     (EXEC [[119, 99]]))) []"
  by (rule parsecmd_show) (simp add: is_word_def word_char_def whitespace_def symbols_def)

end
