(* ===== verification/Sh_Run.thy ===== *)
theory Sh_Run
  imports Sh_Parse
begin

text \<open>
  How the shell \<open>sh.c\<close> runs a command: \<open>runcmd\<close>, \<open>getcmd\<close>, \<open>main\<close>, and the \<open>runcmd\<close> of HW3, whose pipeline children
  skip the calls that connect them. A process of the shell is the list of its actions, with a forked child as the
  list of the child's actions. Descriptors follow \<open>sysfile.c\<close>: \<open>open\<close>, \<open>dup\<close> and \<open>pipe\<close> take the lowest free ones. A
  call that can fail for a reason outside the shell (a missing file, no memory, no process slot) succeeds as the
  oracle \<open>ok\<close> says for its number.
\<close>

section \<open>Descriptors\<close>

datatype fobj = Inherited nat | Opened "byte list" uint | PipeR nat | PipeW nat

type_synonym fdtab = "fobj option list"

abbreviation (input) NOFILES :: nat where "NOFILES \<equiv> 16"

definition lowest :: "fdtab \<Rightarrow> nat option" where
  "lowest t = find (\<lambda>fd. t ! fd = None) [0..<length t]"

definition close_fd :: "nat \<Rightarrow> fdtab \<Rightarrow> fdtab" where
  "close_fd fd t = t[fd := None]"

definition dup_fd :: "nat \<Rightarrow> fdtab \<Rightarrow> fdtab" where
  "dup_fd fd t = (if fd < length t \<and> t ! fd \<noteq> None then (case lowest t of None \<Rightarrow> t | Some g \<Rightarrow> t[g := t ! fd]) else t)"

text \<open>The number of the next pipe and of the next call that may fail.\<close>

record world =
  w_pipe :: nat
  w_call :: nat

definition tick :: "world \<Rightarrow> world" where
  "tick w = w\<lparr>w_call := w_call w + 1\<rparr>"

definition open_fd :: "(nat \<Rightarrow> bool) \<Rightarrow> byte list \<Rightarrow> uint \<Rightarrow> fdtab \<Rightarrow> world \<Rightarrow> (nat \<times> fdtab) option" where
  "open_fd ok file mode t w =
     (if ok (w_call w) then map_option (\<lambda>fd. (fd, t[fd := Some (Opened file mode)])) (lowest t) else None)"

text \<open>\<open>pipe(p)\<close>: the descriptors of the two ends and the new table.\<close>

definition pipe_fds :: "(nat \<Rightarrow> bool) \<Rightarrow> fdtab \<Rightarrow> world \<Rightarrow> ((nat \<times> nat) \<times> fdtab) option" where
  "pipe_fds ok t w =
     (if \<not> ok (w_call w) then None
      else case lowest t of None \<Rightarrow> None | Some p0 \<Rightarrow>
        let t1 = t[p0 := Some (PipeR (w_pipe w))] in
        map_option (\<lambda>p1. ((p0, p1), t1[p1 := Some (PipeW (w_pipe w))])) (lowest t1))"

section \<open>Running a command\<close>

datatype act =
    Fork "act list"
  | Wait fdtab
  | Exec "byte list list" fdtab
  | Chdir "byte list"
  | Print2 "byte list"
  | Exit

definition msg :: "string \<Rightarrow> byte list" where
  "msg s = map of_char s"

definition panic_sh :: "string \<Rightarrow> act list" where
  "panic_sh s = [Print2 (msg s @ [10]), Exit]"

type_synonym child = "nat \<times> nat \<Rightarrow> fdtab \<Rightarrow> fdtab"

text \<open>What the two children of a pipeline do before \<open>runcmd\<close>.\<close>

definition left_end :: child where
  "left_end = (\<lambda>(p0, p1) t. close_fd p1 (close_fd p0 (dup_fd p1 (close_fd 1 t))))"

definition right_end :: child where
  "right_end = (\<lambda>(p0, p1) t. close_fd p1 (close_fd p0 (dup_fd p0 (close_fd 0 t))))"

text \<open>
  \<open>runcmd\<close> for given child setups: the actions of the process that calls it. \<open>fork1\<close> panics when \<open>fork\<close> fails.
  The table in \<open>Wait\<close> and \<open>Exec\<close> is the process's table at that call.
\<close>

fun runcmd_with :: "child \<Rightarrow> child \<Rightarrow> (nat \<Rightarrow> bool) \<Rightarrow> cmd \<Rightarrow> fdtab \<Rightarrow> world \<Rightarrow> act list \<times> world" where
  "runcmd_with lc rc ok (EXEC argv) t w =
     (if argv = [] then ([Exit], w)
      else if ok (w_call w) then ([Exec argv t], tick w)
      else ([Print2 (msg ''exec '' @ hd argv @ msg '' failed\<newline>''), Exit], tick w))"
| "runcmd_with lc rc ok (REDIR c file mode fd) t w =
     (case open_fd ok file mode (close_fd fd t) w of
        None \<Rightarrow> ([Print2 (msg ''open '' @ file @ msg '' failed\<newline>''), Exit], tick w)
      | Some (_, t') \<Rightarrow> runcmd_with lc rc ok c t' (tick w))"
| "runcmd_with lc rc ok (LIST l r) t w =
     (if \<not> ok (w_call w) then (panic_sh ''fork'', tick w)
      else
        let (a, w1) = runcmd_with lc rc ok l t (tick w); (b, w2) = runcmd_with lc rc ok r t w1 in
        (Fork a # Wait t # b, w2))"
| "runcmd_with lc rc ok (PIPE l r) t w =
     (case pipe_fds ok t w of
        None \<Rightarrow> (panic_sh ''pipe'', tick w)
      | Some (p, t1) \<Rightarrow>
          let w1 = (tick w)\<lparr>w_pipe := w_pipe w + 1\<rparr> in
          if \<not> ok (w_call w1) then (panic_sh ''fork'', tick w1)
          else
            let (a, w2) = runcmd_with lc rc ok l (lc p t1) (tick w1) in
            if \<not> ok (w_call w2) then (Fork a # panic_sh ''fork'', tick w2)
            else
              let (b, w3) = runcmd_with lc rc ok r (rc p t1) (tick w2);
                  t2 = close_fd (snd p) (close_fd (fst p) t1) in
              ([Fork a, Fork b, Wait t2, Wait t2, Exit], w3))"
| "runcmd_with lc rc ok (BACK c) t w =
     (if \<not> ok (w_call w) then (panic_sh ''fork'', tick w)
      else let (a, w1) = runcmd_with lc rc ok c t (tick w) in ([Fork a, Exit], w1))"

definition runcmd :: "(nat \<Rightarrow> bool) \<Rightarrow> cmd \<Rightarrow> fdtab \<Rightarrow> world \<Rightarrow> act list \<times> world" where
  "runcmd = runcmd_with left_end right_end"

text \<open>In HW3 the children of a pipeline go straight to \<open>runcmd\<close>.\<close>

definition runcmd3 :: "(nat \<Rightarrow> bool) \<Rightarrow> cmd \<Rightarrow> fdtab \<Rightarrow> world \<Rightarrow> act list \<times> world" where
  "runcmd3 = runcmd_with (\<lambda>_ t. t) (\<lambda>_ t. t)"

section \<open>The command loop\<close>

text \<open>
  \<open>gets(buf, max)\<close> reads byte by byte, up to the end of a line; \<open>inp\<close> is what \<open>read\<close> delivers, up to the end of the
  input.
\<close>

fun gets_loop :: "nat \<Rightarrow> byte list \<Rightarrow> byte list" where
  "gets_loop 0 inp = []"
| "gets_loop (Suc n) [] = []"
| "gets_loop (Suc n) (c # inp) = (if c = 10 \<or> c = 13 then [c] else c # gets_loop n inp)"

definition ulib_gets :: "nat \<Rightarrow> byte list \<Rightarrow> byte list" where
  "ulib_gets n inp = gets_loop (n - 1) inp"

text \<open>The string \<open>getcmd\<close> leaves in the buffer; it reports the end of the input when it is empty.\<close>

definition getcmd :: "byte list \<Rightarrow> byte list" where
  "getcmd inp = takeWhile (\<lambda>b. b \<noteq> 0) (ulib_gets 100 inp)"

definition run_line :: "(nat \<Rightarrow> bool) \<Rightarrow> byte list \<Rightarrow> fdtab \<Rightarrow> world \<Rightarrow> act list \<times> world" where
  "run_line ok buf t w =
     (case parsecmd buf of
        POk c _ \<Rightarrow> runcmd ok c t w
      | PPanic e \<Rightarrow> (panic_sh e, w)
      | PFuel \<Rightarrow> ([], w))"

text \<open>Each element of the argument is what the standard input holds when \<open>getcmd\<close> is called.\<close>

fun sh_loop :: "(nat \<Rightarrow> bool) \<Rightarrow> byte list list \<Rightarrow> fdtab \<Rightarrow> world \<Rightarrow> act list" where
  "sh_loop ok [] t w = [Print2 (msg ''$ ''), Exit]"
| "sh_loop ok (inp # ins) t w =
     Print2 (msg ''$ '') #
     (let buf = getcmd inp in
      if buf = [] then [Exit]
      else if take 3 buf = msg ''cd '' then
        let dir = drop 3 (butlast buf) in
        Chdir dir # (if ok (w_call w) then [] else [Print2 (msg ''cannot cd '' @ dir @ [10])]) @ sh_loop ok ins t (tick w)
      else if \<not> ok (w_call w) then panic_sh ''fork''
      else let (a, w1) = run_line ok buf t (tick w) in Fork a # Wait t # sh_loop ok ins t w1)"

lemma lowest_Some: "lowest t = Some fd \<longleftrightarrow> fd < length t \<and> t ! fd = None \<and> (\<forall>g < fd. t ! g \<noteq> None)"
  by (auto simp: lowest_def find_Some_iff)

lemma lowest_None: "lowest t = None \<longleftrightarrow> None \<notin> set t"
  by (auto simp: lowest_def find_None_iff in_set_conv_nth)

lemma count_None_update:
  "i < length xs \<Longrightarrow> xs ! i = None \<Longrightarrow> v \<noteq> None \<Longrightarrow> count_list xs None = Suc (count_list (xs[i := v]) None)"
proof (induction xs arbitrary: i)
  case (Cons x xs)
  then show ?case by (cases i) auto
qed simp

text \<open>The loop that opens the console until descriptors 0, 1 and 2 are taken.\<close>

function open_console :: "(nat \<Rightarrow> bool) \<Rightarrow> fdtab \<Rightarrow> world \<Rightarrow> fdtab \<times> world" where
  "open_console ok t w =
     (case open_fd ok (msg ''console'') 2 t w of
        None \<Rightarrow> (t, tick w)
      | Some (fd, t') \<Rightarrow> if 3 \<le> fd then (close_fd fd t', tick w) else open_console ok t' (tick w))"
  by auto
termination
proof (relation "measure (\<lambda>(ok, t, w). count_list t None)")
  fix ok t w x fd t'
  assume "open_fd ok (msg ''console'') 2 t w = Some x" "(fd, t') = x"
  then have "lowest t = Some fd" "t' = t[fd := Some (Opened (msg ''console'') 2)]"
    by (auto simp: open_fd_def split: if_splits)
  then show "((ok, t', tick w), ok, t, w) \<in> measure (\<lambda>(ok, t, w). count_list t None)"
    using count_None_update[of fd t "Some (Opened (msg ''console'') 2)"] by (simp add: lowest_Some)
qed simp

declare open_console.simps [simp del]

definition sh_main :: "(nat \<Rightarrow> bool) \<Rightarrow> byte list list \<Rightarrow> fdtab \<Rightarrow> act list" where
  "sh_main ok ins t = (let (t1, w) = open_console ok t \<lparr>w_pipe = 0, w_call = 0\<rparr> in sh_loop ok ins t1 w)"

section \<open>What the programs get\<close>

text \<open>The programs a process and its children execute, with their tables, and all tables seen at \<open>exec\<close> and \<open>wait\<close>.\<close>

fun progs :: "act \<Rightarrow> (byte list list \<times> fdtab) list" where
  "progs (Fork as) = concat (map progs as)"
| "progs (Exec argv t) = [(argv, t)]"
| "progs _ = []"

fun tabs :: "act \<Rightarrow> fdtab list" where
  "tabs (Fork as) = concat (map tabs as)"
| "tabs (Exec argv t) = [t]"
| "tabs (Wait t) = [t]"
| "tabs _ = []"

definition programs :: "act list \<Rightarrow> (byte list list \<times> fdtab) list" where
  "programs as = concat (map progs as)"

definition tables :: "act list \<Rightarrow> fdtab list" where
  "tables as = concat (map tabs as)"

text \<open>Standard input and output are open, and a table that differs from \<open>t\<close> in these two only.\<close>

definition std_open :: "fdtab \<Rightarrow> bool" where
  "std_open t \<longleftrightarrow> 0 < length t \<and> 1 < length t \<and> t ! 0 \<noteq> None \<and> t ! 1 \<noteq> None"

definition std_differ :: "fdtab \<Rightarrow> fdtab \<Rightarrow> bool" where
  "std_differ t t' \<longleftrightarrow> std_open t' \<and> length t' = length t \<and> drop 2 t' = drop 2 t"

fun redirs01 :: "cmd \<Rightarrow> bool" where
  "redirs01 (EXEC argv) = True"
| "redirs01 (REDIR c file mode fd) = (fd < 2 \<and> redirs01 c)"
| "redirs01 (PIPE l r) = (redirs01 l \<and> redirs01 r)"
| "redirs01 (LIST l r) = (redirs01 l \<and> redirs01 r)"
| "redirs01 (BACK c) = redirs01 c"

lemma programs_simps [simp]:
  "programs [] = []" "programs (a # as) = progs a @ programs as" "concat (map progs as) = programs as"
  by (simp_all add: programs_def)

lemma tables_simps [simp]:
  "tables [] = []" "tables (a # as) = tabs a @ tables as" "concat (map tabs as) = tables as"
  by (simp_all add: tables_def)

lemma panic_sh_tables [simp]: "tables (panic_sh e) = []" "programs (panic_sh e) = []"
  by (simp_all add: panic_sh_def)

lemma pipe_fds_Some:
  assumes "std_open t" "pipe_fds ok t w = Some (p, t1)"
  obtains p0 p1 where "p = (p0, p1)" "2 \<le> p0" "2 \<le> p1" "p0 < length t" "p1 < length t" "p0 \<noteq> p1"
    "t ! p0 = None" "t ! p1 = None" "t1 = t[p0 := Some (PipeR (w_pipe w)), p1 := Some (PipeW (w_pipe w))]"
proof -
  obtain p0 p1 where p: "p = (p0, p1)" "lowest t = Some p0" "lowest (t[p0 := Some (PipeR (w_pipe w))]) = Some p1"
      "t1 = t[p0 := Some (PipeR (w_pipe w)), p1 := Some (PipeW (w_pipe w))]"
    using assms(2) by (auto simp: pipe_fds_def Let_def split: if_splits option.splits)
  have a: "p0 < length t" "t ! p0 = None" using p(2) by (auto simp: lowest_Some)
  then have b: "p1 < length t" "p1 \<noteq> p0" "t ! p1 = None"
    using p(3) by (auto simp: lowest_Some nth_list_update split: if_splits)
  have "p0 \<notin> {0, 1}" "p1 \<notin> {0, 1}" using assms(1) a(2) b(3) unfolding std_open_def by fastforce+
  then have "2 \<le> p0" "2 \<le> p1" by auto
  then show ?thesis using that[OF p(1) _ _ a(1) b(1) _ a(2) b(3) p(4)] b(2) by simp
qed

lemma lowest_std:
  "std_open t \<Longrightarrow> lowest (t[0 := None]) = Some 0" "std_open t \<Longrightarrow> lowest (t[1 := None]) = Some 1"
  by (auto simp: lowest_Some std_open_def)

lemma std_open_update [simp]: "std_open t \<Longrightarrow> x \<noteq> None \<Longrightarrow> std_open (t[i := x])"
  by (cases "i = 0"; cases "i = 1") (auto simp: std_open_def)

lemma std_differ_update: "std_differ t (t[i := x])" if "std_open t" "x \<noteq> None" "i < 2"
  using that by (simp add: std_differ_def)

lemma std_differ_trans: "std_differ t u \<Longrightarrow> std_differ u v \<Longrightarrow> std_differ t v"
  by (simp add: std_differ_def)

lemma pipe_ends:
  assumes "std_open t" "pipe_fds ok t w = Some (p, t1)"
  shows "left_end p t1 = t[1 := Some (PipeW (w_pipe w))]" "right_end p t1 = t[0 := Some (PipeR (w_pipe w))]"
    "close_fd (snd p) (close_fd (fst p) t1) = t"
proof -
  from pipe_fds_Some[OF assms] obtain p0 p1 where p: "p = (p0, p1)" "2 \<le> p0" "2 \<le> p1" "p0 < length t"
    "p1 < length t" "p0 \<noteq> p1" "t ! p0 = None" "t ! p1 = None"
    and t1: "t1 = t[p0 := Some (PipeR (w_pipe w)), p1 := Some (PipeW (w_pipe w))]" by metis
  have so: "std_open t1" using assms(1) by (simp add: t1)
  have n: "t1 ! p0 = Some (PipeR (w_pipe w))" "t1 ! p1 = Some (PipeW (w_pipe w))" "length t1 = length t"
    using p by (simp_all add: t1 nth_list_update)
  have "close_fd p1 (close_fd p0 (t1[i := x])) = t[i := x]" if "i < 2" for i x
    using p that by (intro nth_equalityI) (auto simp: t1 close_fd_def nth_list_update)
  note c = this[of 1] this[of 0]
  have "dup_fd p1 (close_fd 1 t1) = t1[1 := Some (PipeW (w_pipe w))]" "dup_fd p0 (close_fd 0 t1) = t1[0 := Some (PipeR (w_pipe w))]"
    using p n lowest_std[OF so] by (simp_all add: dup_fd_def close_fd_def)
  then show "left_end p t1 = t[1 := Some (PipeW (w_pipe w))]" "right_end p t1 = t[0 := Some (PipeR (w_pipe w))]"
    using p(1) c by (simp_all add: left_end_def right_end_def)
  show "close_fd (snd p) (close_fd (fst p) t1) = t"
    using p by (intro nth_equalityI) (auto simp: t1 close_fd_def nth_list_update)
qed

lemma redir_fd:
  assumes "std_open t" "fd < 2" "open_fd ok file mode (close_fd fd t) w = Some (fd', t')"
  shows "t' = t[fd := Some (Opened file mode)]"
proof -
  have "fd = 0 \<or> fd = 1" using assms(2) by auto
  then show ?thesis using assms lowest_std[OF assms(1)] by (auto simp: open_fd_def close_fd_def split: if_splits)
qed

lemma runcmd_tables:
  "redirs01 c \<Longrightarrow> std_open t \<Longrightarrow> t' \<in> set (tables (fst (runcmd ok c t w))) \<Longrightarrow> std_differ t t'"
  unfolding runcmd_def
proof (induction c arbitrary: t t' w)
  case (EXEC argv)
  then show ?case by (auto simp: std_differ_def split: if_splits)
next
  case (REDIR c fl mode fd)
  show ?case
  proof (cases "open_fd ok fl mode (close_fd fd t) w")
    case None
    then show ?thesis using REDIR.prems by simp
  next
    case (Some q)
    obtain fd' u where q: "q = (fd', u)" by (cases q)
    have u: "u = t[fd := Some (Opened fl mode)]" using redir_fd REDIR.prems(1,2) Some q by auto
    then have "std_differ u t'"
      using REDIR.IH[of u t' "tick w"] REDIR.prems Some q by simp
    moreover have "std_differ t u" using REDIR.prems(1,2) by (simp add: u std_differ_update)
    ultimately show ?thesis using std_differ_trans by blast
  qed
next
  case (PIPE l r)
  show ?case
  proof (cases "pipe_fds ok t w")
    case None
    then show ?thesis using PIPE.prems by simp
  next
    case (Some q)
    obtain p t1 where q: "q = (p, t1)" by (cases q)
    note e = pipe_ends[OF PIPE.prems(2) Some[unfolded q]]
    have d: "std_differ t (left_end p t1)" "std_differ t (right_end p t1)" "std_open (left_end p t1)"
      "std_open (right_end p t1)" "std_differ t t"
      using PIPE.prems(2) by (simp_all add: e std_differ_update) (simp add: std_differ_def)
    have h: "redirs01 l" "redirs01 r" using PIPE.prems(1) by auto
    have "std_differ t t'" if "t' \<in> set (tables (fst (runcmd_with left_end right_end ok l (left_end p t1) w')))" for w'
      using PIPE.IH(1)[OF h(1) d(3) that] d(1) std_differ_trans by blast
    moreover have "std_differ t t'"
      if "t' \<in> set (tables (fst (runcmd_with left_end right_end ok r (right_end p t1) w')))" for w'
      using PIPE.IH(2)[OF h(2) d(4) that] d(2) std_differ_trans by blast
    moreover note PIPE.prems(3)
    ultimately show ?thesis using d(5)
      by (simp add: Some q e(3) Let_def case_prod_beta split: if_splits) auto
  qed
next
  case (LIST l r)
  have "std_differ t t" "redirs01 l" "redirs01 r" using LIST.prems(1,2) by (simp_all add: std_differ_def)
  then show ?case using LIST.prems(2,3) LIST.IH[of t t']
    by (auto simp: Let_def case_prod_beta split: if_splits)
next
  case (BACK c)
  then show ?case by (auto simp: case_prod_beta split: if_splits)
qed

lemma add_redirs01: "redirs01 c \<Longrightarrow> \<forall>(f, m, fd) \<in> set rs. fd < 2 \<Longrightarrow> redirs01 (add_redirs c rs)"
  by (induction rs arbitrary: c) (auto simp: add_redirs_def)

lemma parse_redirs01: "parse_redirs s = POk rs s' \<Longrightarrow> \<forall>(f, m, fd) \<in> set rs. fd < 2"
proof (induction s arbitrary: rs s' rule: parse_redirs.induct)
  case (1 s)
  show ?case
  proof (cases "peek [LESS, GREATER] s")
    case False
    then show ?thesis using 1(2) by (simp add: parse_redirs.simps[of s])
  next
    case True
    obtain tok2 f s2 where g: "gettoken (eat s) = (tok2, f, s2)" by (cases "gettoken (eat s)") auto
    with 1(2) True obtain rs' where r: "tok2 = WORD" "parse_redirs s2 = POk rs' s'"
        "rs = mk_redir (fst (gettoken s)) f # rs'"
      by (auto simp: parse_redirs.simps[of s] pbind_def split: if_splits parse.splits)
    have "\<forall>(f, m, fd) \<in> set rs'. fd < 2" using 1(1)[OF True refl refl g[symmetric] refl _ r(2)] r(1) by simp
    then show ?thesis by (simp add: r(3) mk_redir_def split: prod.splits)
  qed
qed

lemma exec_loop_redirs01:
  "exec_loop argv rs s = POk c s' \<Longrightarrow> \<forall>(f, m, fd) \<in> set rs. fd < 2 \<Longrightarrow> redirs01 c"
proof (induction argv rs s rule: exec_loop.induct)
  case (1 argv rs s)
  obtain tok q s2 where g: "gettoken s = (tok, q, s2)" by (cases "gettoken s") auto
  show ?case
  proof (cases "peek [PIPE_CH, RPAREN, AMP, SEMI] s \<or> tok = 0")
    case True
    then have "c = add_redirs (EXEC argv) rs"
      using 1(2) g by (simp add: exec_loop.simps[of argv rs s] split: if_splits)
    then show ?thesis using 1(3) by (simp add: add_redirs01)
  next
    case False
    then obtain rs' s3 where r: "tok = WORD" "\<not> MAXARGS \<le> length argv + 1" "parse_redirs s2 = POk rs' s3"
      "exec_loop (argv @ [q]) (rs @ rs') s3 = POk c s'"
      using 1(2) g by (auto simp: exec_loop.simps[of argv rs s] split: if_splits parse.splits)
    have "\<forall>(f, m, fd) \<in> set (rs @ rs'). fd < 2" using 1(3) parse_redirs01[OF r(3)] by (simp add: ball_Un)
    then show ?thesis
      using 1(1)[OF _ refl g[symmetric] refl _ _ r(2,3,4)] False r(1) by simp
  qed
qed

lemma back_loop_redirs01: "redirs01 c \<Longrightarrow> redirs01 (fst (back_loop c s))"
proof (induction c s rule: back_loop.induct)
  case (1 c s)
  then show ?case by (cases "peek [AMP] s") (simp_all add: back_loop.simps[of c s])
qed

lemma parse_redirs01_all:
  "parseline n s = POk c s' \<Longrightarrow> redirs01 c" "parsepipe n s = POk c s' \<Longrightarrow> redirs01 c"
  "parseexec n s = POk c s' \<Longrightarrow> redirs01 c" "parseblock n s = POk c s' \<Longrightarrow> redirs01 c"
proof (induction n arbitrary: s c s')
  case (Suc n)
  {
    case 1
    then obtain c1 s1 where p: "parsepipe n s = POk c1 s1" by (auto simp: pbind_POk)
    obtain c2 s2 where bl: "back_loop c1 s1 = (c2, s2)" by (cases "back_loop c1 s1") auto
    have "redirs01 c2" using back_loop_redirs01[OF Suc(2)[OF p], of s1] bl by simp
    then show ?case using 1 p bl Suc(1) by (fastforce simp: pbind_POk split: if_splits)
  next
    case 2
    then show ?case using Suc(2,3) by (fastforce simp: pbind_POk split: if_splits)
  next
    case 3
    then show ?case using Suc(4) parse_redirs01 exec_loop_redirs01 by (fastforce simp: pbind_POk split: if_splits)
  next
    case 4
    then show ?case using Suc(1) parse_redirs01 add_redirs01 by (fastforce simp: pbind_POk split: if_splits)
  }
qed simp_all

lemma parsecmd_redirs01: "parsecmd s = POk c s' \<Longrightarrow> redirs01 c"
  using parse_redirs01_all(1) by (fastforce simp: parsecmd_def pbind_POk split: if_splits)

lemma run_line_tables:
  "std_open t \<Longrightarrow> t' \<in> set (tables (fst (run_line ok buf t w))) \<Longrightarrow> std_differ t t'"
  using runcmd_tables parsecmd_redirs01 by (fastforce simp: run_line_def split: parse.splits)

lemma sh_loop_tables: "std_open t \<Longrightarrow> t' \<in> set (tables (sh_loop ok ins t w)) \<Longrightarrow> std_differ t t'"
proof (induction ins arbitrary: w)
  case (Cons inp ins)
  obtain a w1 where r: "run_line ok (getcmd inp) t (tick w) = (a, w1)" by fastforce
  have "std_differ t t" using Cons.prems(1) by (simp add: std_differ_def)
  moreover have "x \<in> set (tables a) \<Longrightarrow> std_differ t x" for x
    using run_line_tables[OF Cons.prems(1), of x ok "getcmd inp" "tick w"] r by simp
  ultimately show ?case using Cons.prems(2) Cons.IH[OF Cons.prems(1)] r
    by (auto simp: Let_def split: if_splits)
qed simp

section \<open>Pipelines\<close>

fun pipeline :: "byte list list list \<Rightarrow> cmd" where
  "pipeline [] = EXEC []"
| "pipeline [a] = EXEC a"
| "pipeline (a # as) = PIPE (EXEC a) (pipeline as)"

definition two_free :: "fdtab \<Rightarrow> bool" where
  "two_free t \<longleftrightarrow> (\<exists>p q. p < q \<and> q < length t \<and> t ! p = None \<and> t ! q = None)"

text \<open>The table of stage \<open>i\<close> of \<open>len\<close> stages whose pipes are numbered from \<open>n\<close>.\<close>

definition stage :: "fdtab \<Rightarrow> nat \<Rightarrow> nat \<Rightarrow> nat \<Rightarrow> fdtab" where
  "stage t n len i =
     t[0 := if i = 0 then t ! 0 else Some (PipeR (n + i - 1)), 1 := if i + 1 = len then t ! 1 else Some (PipeW (n + i))]"

lemma two_free_pipe:
  assumes "std_open t" "two_free t" "ok (w_call w)"
  shows "\<exists>p t1. pipe_fds ok t w = Some (p, t1)"
proof -
  obtain p q where pq: "p < q" "q < length t" "t ! p = None" "t ! q = None" using assms(2) by (auto simp: two_free_def)
  then have "None \<in> set t" by (metis nth_mem)
  then obtain p0 where p0: "lowest t = Some p0" using lowest_None by fastforce
  then have "p0 \<le> p" using pq(3) by (meson linorder_not_le lowest_Some)
  then have "t[p0 := x] ! q = None" for x using pq by simp
  then have "None \<in> set (t[p0 := Some (PipeR (w_pipe w))])" by (metis length_list_update nth_mem pq(2))
  then obtain p1 where "lowest (t[p0 := Some (PipeR (w_pipe w))]) = Some p1" using lowest_None by fastforce
  then show ?thesis using p0 assms(3) by (simp add: pipe_fds_def Let_def)
qed

lemma two_free_update: "std_open t \<Longrightarrow> two_free t \<Longrightarrow> i < 2 \<Longrightarrow> two_free (t[i := x])"
proof -
  assume a: "std_open t" "two_free t" "i < 2"
  then obtain p q where pq: "p < q" "q < length t" "t ! p = None" "t ! q = None" by (auto simp: two_free_def)
  have "t ! i \<noteq> None" using a(1,3) less_2_cases by (fastforce simp: std_open_def)
  then have "i \<noteq> p" "i \<noteq> q" using pq by auto
  then have "t[i := x] ! p = None" "t[i := x] ! q = None" using pq by simp_all
  then show ?thesis using pq(1,2) unfolding two_free_def by (metis length_list_update)
qed

lemma stage_Cons:
  assumes "std_open t"
  shows "map (\<lambda>i. ((a # as) ! i, stage t n (Suc (length as)) i)) [0..<Suc (length as)] =
    (a, if as = [] then t else t[1 := Some (PipeW n)]) #
    map (\<lambda>i. (as ! i, stage (t[0 := Some (PipeR n)]) (n + 1) (length as) i)) [0..<length as]"
proof -
  have u: "[0..<Suc (length as)] = 0 # map Suc [0..<length as]" by (simp add: map_Suc_upt upt_conv_Cons del: upt_Suc)
  have "stage t n (Suc (length as)) 0 = (if as = [] then t else t[1 := Some (PipeW n)])"
    by (simp add: stage_def)
  moreover have "stage t n (Suc (length as)) (Suc i) = stage (t[0 := Some (PipeR n)]) (n + 1) (length as) i" for i
    using assms by (auto simp: stage_def std_open_def)
  ultimately show ?thesis unfolding u by (simp del: upt_Suc)
qed

lemma runcmd_pipeline:
  assumes "\<And>c. ok c"
  shows "as \<noteq> [] \<Longrightarrow> [] \<notin> set as \<Longrightarrow> std_open t \<Longrightarrow> two_free t \<Longrightarrow>
    programs (fst (runcmd ok (pipeline as) t w)) =
    map (\<lambda>i. (as ! i, stage t (w_pipe w) (length as) i)) [0..<length as]"
proof (induction as arbitrary: t w rule: pipeline.induct)
  case (2 a)
  then show ?case using assms by (simp add: runcmd_def stage_def)
next
  case (3 a b bs)
  obtain p t1 where p: "pipe_fds ok t w = Some (p, t1)" using two_free_pipe 3 assms by blast
  note e = pipe_ends[OF 3(4) p]
  have a: "a \<noteq> []" using 3(3) by auto
  let ?w = "(tick w)\<lparr>w_pipe := w_pipe w + 1\<rparr>"
  have "programs (fst (runcmd ok (pipeline (b # bs)) (t[0 := Some (PipeR (w_pipe w))]) (tick (tick (tick ?w))))) =
      map (\<lambda>i. ((b # bs) ! i, stage (t[0 := Some (PipeR (w_pipe w))]) (w_pipe w + 1) (length (b # bs)) i))
        [0..<length (b # bs)]"
    using 3(1)[of "t[0 := Some (PipeR (w_pipe w))]" "tick (tick (tick ?w))"] 3(3-5)
    by (simp add: two_free_update tick_def)
  moreover have "programs (fst (runcmd ok (pipeline (a # b # bs)) t w)) = (a, t[1 := Some (PipeW (w_pipe w))]) #
      programs (fst (runcmd ok (pipeline (b # bs)) (t[0 := Some (PipeR (w_pipe w))]) (tick (tick (tick ?w)))))"
    using a assms e(1,2) p by (simp add: runcmd_def case_prod_beta Let_def)
  ultimately show ?case using stage_Cons[OF 3(4), of a "b # bs" "w_pipe w"] by simp
qed simp

text \<open>
  C15: the shell connects a pipeline of any length. When its calls succeed, the stages are executed in order, each
  with exactly its own arguments; the standard input of a stage is the read end of the pipe whose write end is the
  standard output of the stage before it, the first stage keeps the shell's standard input and the last its
  standard output, and no stage holds any other descriptor than the shell had.
\<close>
theorem pipeline_connected:
  assumes "\<And>c. ok c" and "as \<noteq> []" and "[] \<notin> set as" and "std_open t" and "two_free t"
  shows "programs (fst (runcmd ok (pipeline as) t w)) =
    map (\<lambda>i. (as ! i, t[0 := if i = 0 then t ! 0 else Some (PipeR (w_pipe w + i - 1)),
      1 := if i + 1 = length as then t ! 1 else Some (PipeW (w_pipe w + i))])) [0..<length as]"
  using runcmd_pipeline[OF assms] by (simp add: stage_def)

theorem pipeline_connected_witness:
  "programs (fst (runcmd (\<lambda>_. True) (pipeline [[msg ''ls''], [msg ''grep'', msg ''x''], [msg ''wc'']])
      (map (Some \<circ> Inherited) [0, 1, 2] @ replicate 13 None) \<lparr>w_pipe = 7, w_call = 0\<rparr>)) =
   [([msg ''ls''], [Some (Inherited 0), Some (PipeW 7), Some (Inherited 2)] @ replicate 13 None),
    ([msg ''grep'', msg ''x''], [Some (PipeR 7), Some (PipeW 8), Some (Inherited 2)] @ replicate 13 None),
    ([msg ''wc''], [Some (PipeR 8), Some (Inherited 1), Some (Inherited 2)] @ replicate 13 None)]"
proof -
  let ?t = "map (Some \<circ> Inherited) [0, 1, 2] @ replicate 13 None"
  have "two_free ?t" unfolding two_free_def by (rule exI[of _ 3], rule exI[of _ 4]) simp
  then show ?thesis
    using pipeline_connected[of "\<lambda>_. True" "[[msg ''ls''], [msg ''grep'', msg ''x''], [msg ''wc'']]" ?t "\<lparr>w_pipe = 7, w_call = 0\<rparr>"]
    by (simp add: std_open_def upt_rec)
qed

text \<open>
  C36: the shell of HW3 does not connect a pipeline. Both programs run with the standard input and output of the
  shell, and each inherits both ends of a pipe that nobody uses.
\<close>
theorem hw3_pipe_unconnected:
  assumes "\<And>c. ok c" and "a \<noteq> []" and "b \<noteq> []" and "std_open t" and "two_free t"
  shows "\<exists>t1 p0 p1. programs (fst (runcmd3 ok (PIPE (EXEC a) (EXEC b)) t w)) = [(a, t1), (b, t1)] \<and>
    t1 ! 0 = t ! 0 \<and> t1 ! 1 = t ! 1 \<and> t1 ! p0 = Some (PipeR (w_pipe w)) \<and> t1 ! p1 = Some (PipeW (w_pipe w))"
proof -
  obtain p t1 where p: "pipe_fds ok t w = Some (p, t1)" using two_free_pipe assms(1,4,5) by blast
  from pipe_fds_Some[OF assms(4) p] obtain p0 p1 where q: "2 \<le> p0" "2 \<le> p1" "p0 < length t" "p1 < length t"
    "p0 \<noteq> p1" "t1 = t[p0 := Some (PipeR (w_pipe w)), p1 := Some (PipeW (w_pipe w))]" by metis
  have "programs (fst (runcmd3 ok (PIPE (EXEC a) (EXEC b)) t w)) = [(a, t1), (b, t1)]"
    using assms(1-3) p by (simp add: runcmd3_def case_prod_beta Let_def)
  then show ?thesis using q by (intro exI[of _ t1] exI[of _ p0] exI[of _ p1]) simp
qed

theorem hw3_pipe_unconnected_witness:
  "\<exists>t1 p0 p1. programs (fst (runcmd3 (\<lambda>_. True) (PIPE (EXEC [msg ''ls'']) (EXEC [msg ''wc'']))
      (map (Some \<circ> Inherited) [0, 1, 2] @ replicate 13 None) \<lparr>w_pipe = 7, w_call = 0\<rparr>)) =
     [([msg ''ls''], t1), ([msg ''wc''], t1)] \<and>
   t1 ! 0 = Some (Inherited 0) \<and> t1 ! 1 = Some (Inherited 1) \<and> t1 ! p0 = Some (PipeR 7) \<and> t1 ! p1 = Some (PipeW 7)"
proof -
  let ?t = "map (Some \<circ> Inherited) [0, 1, 2] @ replicate 13 None"
  have "two_free ?t" unfolding two_free_def by (rule exI[of _ 3], rule exI[of _ 4]) simp
  then show ?thesis
    using hw3_pipe_unconnected[of "\<lambda>_. True" "[msg ''ls'']" "[msg ''wc'']" ?t "\<lparr>w_pipe = 7, w_call = 0\<rparr>"]
    by (simp add: std_open_def)
qed

section \<open>The shell as a whole\<close>

lemma open_console_opens:
  assumes "3 < length t" "w_call w + count_list (take 3 t) None < n" "\<And>c. c < n \<Longrightarrow> ok c"
    "open_console ok t w = (t1, w1)"
  shows "length t1 = length t \<and> drop 3 t1 = drop 3 t \<and> None \<notin> set (take 3 t1)"
  using assms
proof (induction ok t w arbitrary: t1 w1 rule: open_console.induct)
  case (1 ok t w)
  have ok: "ok (w_call w)" using 1(3,4) by simp
  show ?case
  proof (cases "lowest t")
    case None
    then have "open_fd ok (msg ''console'') 2 t w = None" by (simp add: open_fd_def)
    then have "None \<notin> set t" "open_console ok t w = (t, tick w)"
      using None by (simp_all add: lowest_None open_console.simps[of ok t w])
    then show ?thesis using 1(5) by (auto dest: in_set_takeD)
  next
    case (Some fd)
    then have fd: "fd < length t" "t ! fd = None" "\<And>g. g < fd \<Longrightarrow> t ! g \<noteq> None" by (auto simp: lowest_Some)
    let ?o = "Some (Opened (msg ''console'') 2)"
    have o: "open_fd ok (msg ''console'') 2 t w = Some (fd, t[fd := ?o])" using Some ok by (simp add: open_fd_def)
    show ?thesis
    proof (cases "3 \<le> fd")
      case True
      then have "t1 = t" using 1(5) o fd(1,2) list_update_id[of t fd]
        by (simp add: open_console.simps[of ok t w] close_fd_def)
      moreover have "None \<notin> set (take 3 t)" using fd(3) True by (auto simp: in_set_conv_nth)
      ultimately show ?thesis by simp
    next
      case False
      then have "open_console ok (t[fd := ?o]) (tick w) = (t1, w1)"
        using 1(5) o by (simp add: open_console.simps[of ok t w])
      moreover have "count_list (take 3 t) None = Suc (count_list (take 3 (t[fd := ?o])) None)"
        unfolding take_update_swap using fd False 1(2) by (intro count_None_update) simp_all
      ultimately show ?thesis
        using 1(1)[OF o refl False, of t1 w1] 1(2,3) 1(4) False by (simp add: tick_def)
    qed
  qed
qed

text \<open>
  C16: the shell leaks no descriptors. Whatever is typed, every program it runs and every process of it that waits
  has standard input, output and error open, and beyond these exactly the descriptors the shell was started with:
  no end of a pipe stays open by accident, so a reader sees the end of the file when the writers are done. Only
  the first four calls, which open the console, are assumed to succeed.
\<close>
theorem shell_no_leak:
  assumes "3 < length t" and "\<And>c. c < 4 \<Longrightarrow> ok c" and "t' \<in> set (tables (sh_main ok ins t))"
  shows "drop 3 t' = drop 3 t \<and> t' ! 0 \<noteq> None \<and> t' ! 1 \<noteq> None \<and> t' ! 2 \<noteq> None"
proof -
  let ?w = "\<lparr>w_pipe = 0, w_call = 0\<rparr>"
  obtain t1 w where m: "open_console ok t ?w = (t1, w)" by fastforce
  have "count_list (take 3 t) None \<le> length (take 3 t)" by (rule count_le_length)
  then have "w_call ?w + count_list (take 3 t) None < 4" by simp
  from open_console_opens[OF assms(1) this assms(2) m]
  have l: "length t1 = length t" "drop 3 t1 = drop 3 t" "None \<notin> set (take 3 t1)" by auto
  have "t1 ! i \<in> set (take 3 t1)" if "i < 3" for i using l(1) assms(1) that nth_mem[of i "take 3 t1"] by simp
  then have "t1 ! i \<noteq> None" if "i < 3" for i using l(3) that by metis
  then have o: "t1 ! 0 \<noteq> None" "t1 ! 1 \<noteq> None" "t1 ! 2 \<noteq> None" by simp_all
  moreover have "0 < length t1" "1 < length t1" using l(1) assms(1) by linarith+
  ultimately have "std_open t1" unfolding std_open_def by blast
  then have d: "std_differ t1 t'" using sh_loop_tables assms(3) m by (simp add: sh_main_def)
  then have "drop 1 (drop 2 t') = drop 1 (drop 2 t1)" "drop 2 t' ! 0 = drop 2 t1 ! 0" "length t' = length t1" "std_open t'"
    by (simp_all add: std_differ_def)
  then show ?thesis using l o assms(1) by (simp add: std_open_def numeral_eq_Suc)
qed

theorem shell_no_leak_witness:
  "(let t' = [Some (PipeR 0), Some (Inherited 1), Some (Opened (msg ''console'') 2)] @ replicate 13 None;
        t = [Some (Inherited 0), Some (Inherited 1)] @ replicate 14 None in
    t' \<in> set (tables (sh_main (\<lambda>_. True) [msg ''ls|wc\<newline>''] t)) \<and> drop 3 t' = drop 3 t \<and>
    t' ! 0 \<noteq> None \<and> t' ! 1 \<noteq> None \<and> t' ! 2 \<noteq> None)"
proof -
  let ?t' = "[Some (PipeR 0), Some (Inherited 1), Some (Opened (msg ''console'') 2)] @ replicate 13 None"
  let ?t = "[Some (Inherited 0), Some (Inherited 1)] @ replicate 14 None"
  have "?t' \<in> set (tables (sh_main (\<lambda>_. True) [msg ''ls|wc\<newline>''] ?t))" by code_simp
  then show ?thesis using shell_no_leak[of ?t "\<lambda>_. True" ?t' "[msg ''ls|wc\<newline>'']"] by simp
qed

end
