(* ===== verification/Hwsh.thy ===== *)
theory Hwsh
  imports Sh_Parse
begin

text \<open>
  The shell of HW1 (\<open>hwsh.c\<close>): its parser for sequences (\<open>;\<close>) and parallel commands (\<open>&\<close>), with the static
  variables \<open>invalid\<close> and \<open>expectingParallel\<close> passed explicitly, and the commands \<open>runcmd\<close> starts. White space and
  \<open>peek\<close> are those of \<open>Sh_Parse\<close>. A pointer the code leaves uninitialised is \<open>None\<close>.
\<close>

datatype hwcmd =
    HExec "byte list list"
  | HSeq "hwcmd option" "hwcmd option"
  | HPar hwcmd "hwcmd option"
  | HInvalid

text \<open>The program may exit while parsing.\<close>

datatype 'a hres = HOk 'a | HExit string

section \<open>Tokens and words\<close>

definition hw_symbols :: "byte list" where
  "hw_symbols = [LESS, PIPE_CH, GREATER, SEMI, AMP]"

definition hw_char :: "byte \<Rightarrow> bool" where
  "hw_char b \<longleftrightarrow> b \<notin> set whitespace \<and> b \<notin> set hw_symbols"

definition hw_gettoken :: "byte list \<Rightarrow> byte \<times> byte list \<times> byte list" where
  "hw_gettoken s =
     (case skip_ws s of
        [] \<Rightarrow> (0, [], [])
      | c # r \<Rightarrow>
          if c = SEMI \<or> c = AMP then (c, [c], skip_ws r)
          else (WORD, takeWhile hw_char (c # r), skip_ws (dropWhile hw_char (c # r))))"

definition hw_eat :: "byte list \<Rightarrow> byte list" where
  "hw_eat s = snd (snd (hw_gettoken s))"

text \<open>The loop of \<open>parseexec\<close>; \<open>n\<close> arguments may still come before there are \<open>MAXARGS\<close>.\<close>

fun hw_exec_loop :: "nat \<Rightarrow> byte list list \<Rightarrow> byte list \<Rightarrow> (hwcmd \<times> byte list) hres" where
  "hw_exec_loop n argv s =
     (if peek [SEMI, AMP] s then HOk (HExec argv, skip_ws s)
      else
        let (tok, q, s2) = hw_gettoken s in
        if tok = 0 then HOk (HExec argv, s2)
        else if tok \<noteq> WORD then HExit ''syntax error''
        else case n of
            0 \<Rightarrow> HExit ''too many args''
          | Suc n \<Rightarrow> hw_exec_loop n (argv @ [q]) s2)"

declare hw_exec_loop.simps [simp del]

definition hw_parseexec :: "byte list \<Rightarrow> (hwcmd \<times> byte list) hres" where
  "hw_parseexec s = hw_exec_loop (MAXARGS - 1) [] s"

lemma hw_eat_le: "length (hw_eat s) \<le> length s"
proof (cases "skip_ws s")
  case (Cons c r)
  have "length (skip_ws r) \<le> length r" "length (skip_ws (dropWhile hw_char (c # r))) \<le> length (c # r)"
    using skip_ws_le[of r] skip_ws_le[of "dropWhile hw_char (c # r)"] length_dropWhile_le[of hw_char "c # r"]
    by (linarith, linarith)
  then show ?thesis using skip_ws_le[of s] Cons by (auto simp: hw_eat_def hw_gettoken_def)
qed (simp add: hw_eat_def hw_gettoken_def)

lemma hw_eat_less: "peek [SEMI, AMP] s \<Longrightarrow> length (hw_eat s) < length s"
proof -
  assume "peek [SEMI, AMP] s"
  then obtain c r where s: "skip_ws s = c # r" "c = SEMI \<or> c = AMP"
    by (cases "skip_ws s") (auto simp: peek_def)
  then show ?thesis using skip_ws_le[of s] skip_ws_le[of r] by (auto simp: hw_eat_def hw_gettoken_def)
qed

lemma hw_exec_shorter: "hw_exec_loop n argv s = HOk (c, s') \<Longrightarrow> length s' \<le> length s"
proof (induction n argv s rule: hw_exec_loop.induct)
  case (1 n argv s)
  obtain tok q s2 where g: "hw_gettoken s = (tok, q, s2)" by (cases "hw_gettoken s") auto
  have e: "length s2 \<le> length s" using hw_eat_le[of s] g by (simp add: hw_eat_def)
  show ?case
  proof (cases "peek [SEMI, AMP] s \<or> tok = 0")
    case True
    then show ?thesis
      using 1(2) e g skip_ws_le[of s] by (auto simp: hw_exec_loop.simps[of n argv s] split: if_splits)
  next
    case False
    then obtain m where m: "tok = WORD" "n = Suc m" "hw_exec_loop m (argv @ [q]) s2 = HOk (c, s')"
      using 1(2) g by (auto simp: hw_exec_loop.simps[of n argv s] split: if_splits nat.splits)
    have "length s' \<le> length s2" using 1(1)[OF _ refl g[symmetric] refl _ _ m(2,3)] False m(1) by simp
    then show ?thesis using e by simp
  qed
qed

section \<open>The grammar\<close>

text \<open>The command, the rest of the line, \<open>invalid\<close> and \<open>expectingParallel\<close>.\<close>

type_synonym hwres = "(hwcmd option \<times> byte list \<times> bool \<times> bool) hres"

function hw_parseparallel :: "byte list \<Rightarrow> bool \<Rightarrow> bool \<Rightarrow> hwres" where
  "hw_parseparallel s invalid expecting =
     (if expecting \<and> s = [] then HOk (None, s, True, False)
      else case hw_parseexec s of
          HExit e \<Rightarrow> HExit e
        | HOk (c, s1) \<Rightarrow>
            let has = peek [AMP] s1; s1 = skip_ws s1 in
            if \<not> invalid \<and> has \<or> expecting then
              let expecting = (has \<or> \<not> expecting);
                  s2 = (if expecting then hw_eat s1 else s1) in
              if expecting \<and> peek [SEMI] s2 then HOk (Some c, skip_ws s2, True, False)
              else case hw_parseparallel s2 invalid expecting of
                  HExit e \<Rightarrow> HExit e
                | HOk (nxt, s3, invalid, expecting) \<Rightarrow> HOk (Some (HPar c nxt), s3, invalid, expecting)
            else HOk (Some c, s1, invalid, expecting))"
  by auto
termination
proof (relation "measure (\<lambda>(s, invalid, expecting). 2 * length s + (if expecting then 1 else 0))")
  fix s :: "byte list" and invalid expecting x y c s1 xa xb xc xd
  assume a: "hw_parseexec s = HOk x" "(c, s1) = x" "xa = peek [AMP] s1" "xb = skip_ws s1"
    "\<not> invalid \<and> xa \<or> expecting" "xc = (xa \<or> \<not> expecting)" "xd = (if xc then hw_eat xb else xb)"
  have l: "length xb \<le> length s"
    using a hw_exec_shorter[of 9 "[]" s c s1] skip_ws_le[of s1] by (simp add: hw_parseexec_def)
  have "peek [SEMI, AMP] xb" if xa
    using that a(3,4) by (auto simp: peek_def skip_ws_def dropWhile_idem)
  then have "length xd < length s \<and> xc \<or> length xd \<le> length s \<and> \<not> xc \<and> expecting"
    using l a(5-7) hw_eat_less[of xb] by auto
  then show "((xd, invalid, xc), s, invalid, expecting)
      \<in> measure (\<lambda>(s, invalid, expecting). 2 * length s + (if expecting then 1 else 0))"
    by auto
qed simp

declare hw_parseparallel.simps [simp del]

lemma hw_par_shorter: "hw_parseparallel s invalid expecting = HOk (c, s', i', e') \<Longrightarrow> length s' \<le> length s"
proof (induction s invalid expecting arbitrary: c s' i' e' rule: hw_parseparallel.induct)
  case (1 s invalid expecting)
  show ?case
  proof (cases "expecting \<and> s = []")
    case True
    then show ?thesis using 1(2) unfolding hw_parseparallel.simps[of s] by simp
  next
    case False
    with 1(2) obtain c1 s1 where p: "hw_parseexec s = HOk (c1, s1)"
      by (auto simp: hw_parseparallel.simps[of s] split: hres.splits)
    let ?t = "skip_ws s1"
    let ?x = "peek [AMP] s1 \<or> \<not> expecting"
    let ?s2 = "if ?x then hw_eat ?t else ?t"
    have l: "length ?t \<le> length s" "length ?s2 \<le> length s"
      using p hw_exec_shorter[of 9 "[]" s c1 s1] skip_ws_le[of s1] hw_eat_le[of ?t] by (auto simp: hw_parseexec_def)
    show ?thesis
    proof (cases "\<not> invalid \<and> peek [AMP] s1 \<or> expecting")
      case go: True
      show ?thesis
      proof (cases "?x \<and> peek [SEMI] ?s2")
        case True
        then show ?thesis
          using 1(2) False p go l skip_ws_le[of ?s2] by (simp add: hw_parseparallel.simps[of s] Let_def split: if_splits)
      next
        case semi: False
        then obtain n where "hw_parseparallel ?s2 invalid ?x = HOk (n, s', i', e')"
          using 1(2) False p go by (auto simp: hw_parseparallel.simps[of s] Let_def split: hres.splits if_splits)
        from 1(1)[OF False p refl refl refl go refl refl semi this] l show ?thesis by simp
      qed
    next
      case False
      then show ?thesis
        using 1(2) \<open>\<not> (expecting \<and> s = [])\<close> p l by (simp add: hw_parseparallel.simps[of s] Let_def split: if_splits)
    qed
  qed
qed

text \<open>\<open>parseline\<close> and \<open>parsesequence\<close>, which only \<open>parseline\<close> calls.\<close>

function hw_parseline :: "byte list \<Rightarrow> bool \<Rightarrow> hwres" where
  "hw_parseline s expecting =
     (if peek [AMP] s then HOk (None, skip_ws s, True, expecting)
      else case hw_parseparallel (skip_ws s) False expecting of
          HExit e \<Rightarrow> HExit e
        | HOk (c, s1, invalid, expecting) \<Rightarrow>
            if \<not> invalid \<and> peek [SEMI] s1 then
              (case hw_parseline (hw_eat s1) expecting of
                 HExit e \<Rightarrow> HExit e
               | HOk (nxt, s2, invalid, expecting) \<Rightarrow> HOk (Some (HSeq c nxt), s2, invalid, expecting))
            else HOk (c, s1, invalid, expecting))"
  by auto
termination
proof (relation "measure (\<lambda>(s, e). length s)")
  fix s :: "byte list" and expecting x c y s1 ya invalid e'
  assume a: "hw_parseparallel (skip_ws s) False expecting = HOk x" "(c, y) = x" "(s1, ya) = y" "(invalid, e') = ya"
    "\<not> invalid \<and> peek [SEMI] s1"
  have "length s1 \<le> length s"
    using hw_par_shorter[of "skip_ws s" False expecting c s1 invalid e'] a skip_ws_le[of s] by auto
  moreover have "length (hw_eat s1) < length s1" using a(5) by (intro hw_eat_less) (auto simp: peek_def)
  ultimately show "((hw_eat s1, e'), s, expecting) \<in> measure (\<lambda>(s, e). length s)" by simp
qed simp

declare hw_parseline.simps [simp del]

definition hw_parsecmd :: "byte list \<Rightarrow> hwcmd option hres" where
  "hw_parsecmd s =
     (case hw_parseline s False of
        HExit e \<Rightarrow> HExit e
      | HOk (c, s, invalid, _) \<Rightarrow>
          if invalid then (case hw_parseexec s of HExit e \<Rightarrow> HExit e | HOk _ \<Rightarrow> HOk (Some HInvalid))
          else if skip_ws s \<noteq> [] then HExit ''leftovers''
          else HOk c)"

section \<open>Running\<close>

text \<open>
  The argument vectors \<open>runcmd\<close> hands to \<open>execvp\<close>, in the order of the forks; \<open>None\<close> when it follows a pointer
  that is not set. The loop for parallel commands reads each element of the list as a \<open>parallelcmd\<close>; an
  \<open>execcmd\<close> without arguments read this way is null in both fields, which ends the loop.
\<close>

fun hw_run :: "hwcmd \<Rightarrow> byte list list list option" and
    hw_run_par :: "hwcmd \<Rightarrow> byte list list list option" where
  "hw_run (HExec argv) = Some [argv]"
| "hw_run (HSeq c n) =
     (case (c, n) of (Some c, Some n) \<Rightarrow>
        (case (hw_run c, hw_run n) of (Some xs, Some ys) \<Rightarrow> Some (xs @ ys) | _ \<Rightarrow> None)
      | _ \<Rightarrow> None)"
| "hw_run (HPar c n) =
     (case n of None \<Rightarrow> None | Some n \<Rightarrow>
        (case (hw_run c, hw_run_par n) of (Some xs, Some ys) \<Rightarrow> Some (xs @ ys) | _ \<Rightarrow> None))"
| "hw_run HInvalid = Some []"
| "hw_run_par (HExec argv) = (if argv = [] then Some [] else None)"
| "hw_run_par (HPar c n) =
     (case n of None \<Rightarrow> None | Some n \<Rightarrow>
        (case (hw_run c, hw_run_par n) of (Some xs, Some ys) \<Rightarrow> Some (xs @ ys) | _ \<Rightarrow> None))"
| "hw_run_par (HSeq c n) = None"
| "hw_run_par HInvalid = None"

section \<open>Lines of commands\<close>

text \<open>A line is a list of groups that run one after the other; the commands of a group run in parallel.\<close>

fun show_group :: "byte list list list \<Rightarrow> byte list" where
  "show_group [] = []"
| "show_group [c] = show_words c"
| "show_group (c # cs) = show_words c @ [AMP, 32] @ show_group cs"

fun show_line :: "byte list list list list \<Rightarrow> byte list" where
  "show_line [] = []"
| "show_line [g] = show_group g"
| "show_line (g # gs) = show_group g @ [SEMI, 32] @ show_line gs"

definition hw_word :: "byte list \<Rightarrow> bool" where
  "hw_word w \<longleftrightarrow> w \<noteq> [] \<and> list_all hw_char w"

definition wf_words :: "byte list list \<Rightarrow> bool" where
  "wf_words c \<longleftrightarrow> c \<noteq> [] \<and> length c < MAXARGS \<and> list_all hw_word c"

definition wf_group :: "byte list list list \<Rightarrow> bool" where
  "wf_group g \<longleftrightarrow> g \<noteq> [] \<and> list_all wf_words g"

fun par_chain :: "byte list list list \<Rightarrow> hwcmd" where
  "par_chain [] = HExec []"
| "par_chain (c # cs) = HPar (HExec c) (Some (par_chain cs))"

definition group_cmd :: "byte list list list \<Rightarrow> hwcmd" where
  "group_cmd g = (case g of [c] \<Rightarrow> HExec c | _ \<Rightarrow> par_chain g)"

fun line_cmd :: "byte list list list list \<Rightarrow> hwcmd" where
  "line_cmd [] = HExec []"
| "line_cmd [g] = group_cmd g"
| "line_cmd (g # gs) = HSeq (Some (group_cmd g)) (Some (line_cmd gs))"

lemma skip_ws_hw_word: "hw_word w \<Longrightarrow> skip_ws (w @ k) = w @ k"
  by (cases w) (auto simp: hw_word_def hw_char_def skip_ws_def)

lemma peek_hw_word: "hw_word w \<Longrightarrow> set ds \<subseteq> set hw_symbols \<Longrightarrow> \<not> peek ds (w @ k)"
  using skip_ws_hw_word[of w k] by (cases w) (auto simp: peek_def hw_word_def hw_char_def)

lemma hw_gettoken_word:
  assumes "hw_word w"
  shows "hw_gettoken (w @ 32 # k) = (WORD, w, skip_ws k)"
proof -
  obtain c w' where w: "w = c # w'" "hw_char c" using assms by (cases w) (auto simp: hw_word_def)
  have t: "takeWhile hw_char (w @ 32 # k) = w" "dropWhile hw_char (w @ 32 # k) = 32 # k"
    using assms by (auto simp: hw_word_def list_all_iff takeWhile_append dropWhile_append hw_char_def whitespace_def)
  have "c \<noteq> SEMI" "c \<noteq> AMP" using w(2) by (auto simp: hw_char_def hw_symbols_def)
  then show ?thesis
    using skip_ws_hw_word[OF assms, of "32 # k"] t unfolding w(1) by (simp add: hw_gettoken_def)
qed

lemma hw_words_front:
  assumes "wf_words c"
  shows "skip_ws (show_words c @ k) = show_words c @ k" "set ds \<subseteq> set hw_symbols \<Longrightarrow> \<not> peek ds (show_words c @ k)"
    "show_words c @ k \<noteq> []"
  using assms skip_ws_hw_word[of "hd c"] peek_hw_word[of "hd c"]
  by (cases c; auto simp: show_words_def wf_words_def hw_word_def)+

abbreviation (input) HENDERS :: "byte list" where "HENDERS \<equiv> [SEMI, AMP]"

lemma hw_exec_loop_end:
  assumes "stops HENDERS k"
  shows "hw_exec_loop n argv k = HOk (HExec argv, k)"
proof (cases "k = []")
  case True
  then show ?thesis by (simp add: hw_exec_loop.simps[of n argv "[]"] peek_def skip_ws_def hw_gettoken_def)
next
  case False
  then have "peek HENDERS k" using assms by (auto simp: peek_stops[OF assms] stops_def)
  then show ?thesis by (simp add: hw_exec_loop.simps[of n argv k] skip_ws_stops[OF assms])
qed

lemma hw_exec_loop_words:
  assumes "list_all hw_word ws" "length ws \<le> n" "skip_ws k = k"
  shows "hw_exec_loop n argv (show_words ws @ k) = hw_exec_loop (n - length ws) (argv @ ws) k"
  using assms(1,2)
proof (induction ws arbitrary: n argv)
  case (Cons w ws)
  obtain m where m: "n = Suc m" using Cons.prems by (cases n) auto
  have w: "hw_word w" using Cons.prems by simp
  have t: "show_words (w # ws) @ k = w @ 32 # show_words ws @ k" by (simp add: show_words_def)
  have "\<not> peek HENDERS (w @ 32 # show_words ws @ k)" by (rule peek_hw_word[OF w]) (simp add: hw_symbols_def)
  moreover have "skip_ws (show_words ws @ k) = show_words ws @ k"
    using Cons.prems assms(3) skip_ws_hw_word[of "hd ws"] by (cases ws) (auto simp: show_words_def)
  ultimately show ?case
    using Cons unfolding t m
    by (simp add: hw_exec_loop.simps[of "Suc m" argv "w @ 32 # show_words ws @ k"] hw_gettoken_word[OF w])
qed (simp add: show_words_def)

lemma hw_parseexec_words:
  "wf_words c \<Longrightarrow> stops HENDERS k \<Longrightarrow> hw_parseexec (show_words c @ k) = HOk (HExec c, k)"
  by (simp add: hw_parseexec_def wf_words_def hw_exec_loop_words skip_ws_stops hw_exec_loop_end)

lemma hw_parseexec_end: "stops HENDERS k \<Longrightarrow> hw_parseexec k = HOk (HExec [], k)"
  by (simp add: hw_parseexec_def hw_exec_loop_end)

lemma hw_eat_sym: "c = SEMI \<or> c = AMP \<Longrightarrow> hw_eat (c # 32 # k) = skip_ws k"
  using skip_ws_sym[of c "32 # k"] by (auto simp: hw_eat_def hw_gettoken_def symbols_def)

lemma stops_semi_cases: "stops [SEMI] k \<Longrightarrow> stops HENDERS k \<and> \<not> peek [AMP] k \<and> skip_ws k = k"
  using peek_stops[of "[SEMI]" k "[AMP]"] by (auto simp: stops_def skip_ws_stops[of "[SEMI]"])

lemma show_group_words: "wf_group g \<Longrightarrow> \<exists>c k'. wf_words c \<and> show_group g @ k = show_words c @ k'"
  by (cases g rule: show_group.cases) (auto simp: wf_group_def)

lemma show_group_front:
  assumes "wf_group g"
  shows "skip_ws (show_group g @ k) = show_group g @ k" "set ds \<subseteq> set hw_symbols \<Longrightarrow> \<not> peek ds (show_group g @ k)"
  using show_group_words[OF assms, of k] hw_words_front by metis+

lemma hw_par_end: "stops [SEMI] k \<Longrightarrow> hw_parseparallel k False False = HOk (Some (HExec []), k, False, False)"
  using stops_semi_cases[of k] by (simp add: hw_parseparallel.simps[of k] hw_parseexec_end)

lemma hw_par_step:
  assumes "wf_words c" "wf_group g"
  shows "hw_parseparallel (show_words c @ AMP # 32 # show_group g @ k) False e =
    (case hw_parseparallel (show_group g @ k) False True of
       HExit m \<Rightarrow> HExit m | HOk (n, s, i, e) \<Rightarrow> HOk (Some (HPar (HExec c) n), s, i, e))"
proof -
  let ?k = "AMP # 32 # show_group g @ k"
  have "hw_parseexec (show_words c @ ?k) = HOk (HExec c, ?k)"
    by (rule hw_parseexec_words[OF assms(1)]) (simp add: stops_sym symbols_def)
  moreover have "peek [AMP] ?k" "skip_ws ?k = ?k" by (simp_all add: peek_sym skip_ws_sym symbols_def)
  moreover have "hw_eat ?k = show_group g @ k" by (simp add: hw_eat_sym show_group_front(1)[OF assms(2)])
  moreover have "\<not> peek [SEMI] (show_group g @ k)" by (rule show_group_front(2)[OF assms(2)]) (simp add: hw_symbols_def)
  ultimately show ?thesis
    using hw_words_front(3)[OF assms(1), of ?k] by (simp add: hw_parseparallel.simps[of "show_words c @ ?k"])
qed

lemma hw_par_chain:
  assumes "wf_group g" "stops [SEMI] k"
  shows "hw_parseparallel (show_group g @ k) False True = HOk (Some (par_chain g), k, False, False)"
  using assms(1)
proof (induction g rule: show_group.induct)
  case (2 c)
  then have c: "wf_words c" by (simp add: wf_group_def)
  then show ?case
    using hw_words_front(3)[OF c, of k] stops_semi_cases[OF assms(2)] hw_par_end[OF assms(2)]
    by (simp add: hw_parseparallel.simps[of "show_words c @ k"] hw_parseexec_words)
next
  case (3 c d cs)
  then have "wf_words c" "wf_group (d # cs)" by (simp_all add: wf_group_def)
  then show ?case using 3(1) hw_par_step[of c "d # cs" k True] by simp
qed (simp add: wf_group_def)

lemma hw_par_group:
  assumes "wf_group g" "stops [SEMI] k"
  shows "hw_parseparallel (show_group g @ k) False False = HOk (Some (group_cmd g), k, False, False)"
proof (cases "\<exists>c. g = [c]")
  case True
  then obtain c where g: "g = [c]" and c: "wf_words c" using assms(1) by (auto simp: wf_group_def)
  then show ?thesis
    using stops_semi_cases[OF assms(2)]
    by (simp add: hw_parseparallel.simps[of "show_words c @ k"] hw_parseexec_words group_cmd_def)
next
  case False
  then obtain c d cs where g: "g = c # d # cs" using assms(1) unfolding wf_group_def by (metis list.exhaust)
  then have w: "wf_words c" "wf_group (d # cs)" using assms(1) by (simp_all add: wf_group_def)
  show ?thesis
    using hw_par_step[OF w, of k False] hw_par_chain[OF w(2) assms(2)] by (simp add: g group_cmd_def)
qed

lemma peek_Nil: "\<not> peek ds []"
  by (simp add: peek_def skip_ws_def)

lemma hw_line_show:
  assumes "gs \<noteq> []" "list_all wf_group gs"
  shows "hw_parseline (show_line gs) False = HOk (Some (line_cmd gs), [], False, False)"
  using assms
proof (induction gs rule: show_line.induct)
  case (2 g)
  then have g: "wf_group g" by simp
  have "\<not> peek [AMP] (show_group g)" "skip_ws (show_group g) = show_group g"
    using show_group_front(1)[OF g, of "[]"] show_group_front(2)[OF g, of "[AMP]" "[]"] by (simp_all add: hw_symbols_def)
  then show ?case
    using hw_par_group[OF g, of "[]"] by (simp add: hw_parseline.simps[of "show_group g"] stops_def peek_Nil)
next
  case (3 g h gs)
  let ?k = "SEMI # 32 # show_line (h # gs)"
  have g: "wf_group g" and h: "wf_group h" using 3 by simp_all
  have f: "\<not> peek [AMP] (show_group g @ ?k)" "skip_ws (show_group g @ ?k) = show_group g @ ?k"
    using show_group_front(1)[OF g, of ?k] show_group_front(2)[OF g, of "[AMP]" ?k] by (simp_all add: hw_symbols_def)
  have "skip_ws (show_line (h # gs)) = show_line (h # gs)"
    using show_group_front(1)[OF h, of "[]"] show_group_front(1)[OF h] by (cases gs) auto
  then have "hw_eat ?k = show_line (h # gs)" by (simp add: hw_eat_sym)
  moreover have "hw_parseparallel (show_group g @ ?k) False False = HOk (Some (group_cmd g), ?k, False, False)"
    by (rule hw_par_group[OF g]) (simp add: stops_sym symbols_def)
  ultimately show ?case
    using 3 f by (simp add: hw_parseline.simps[of "show_group g @ ?k"] peek_sym symbols_def)
qed simp

lemma hw_run_chain: "hw_run_par (par_chain g) = Some g"
  by (induction g) auto

lemma hw_run_group: "g \<noteq> [] \<Longrightarrow> hw_run (group_cmd g) = Some g"
  by (cases g; cases "tl g") (auto simp: group_cmd_def hw_run_chain)

lemma hw_run_line: "list_all wf_group gs \<Longrightarrow> gs \<noteq> [] \<Longrightarrow> hw_run (line_cmd gs) = Some (concat gs)"
  by (induction gs rule: line_cmd.induct) (auto simp: wf_group_def hw_run_group)



text \<open>
  C38: The symbols of pipes and redirections are not supported and not reported as such: the parser reads empty
  words at the symbol until there are too many, and the shell process exits with \<open>too many args\<close>.
\<close>

theorem hwsh_rejects_redirection:
  assumes "wf_words c" "b = LESS \<or> b = PIPE_CH \<or> b = GREATER"
  shows "hw_parsecmd (show_words c @ b # k) = HExit ''too many args''"
proof -
  have b: "skip_ws (b # k) = b # k" using skip_ws_sym[of b k] assms(2) by (auto simp: symbols_def)
  have g: "hw_gettoken (b # k) = (WORD, [], b # k)"
    using b assms(2) by (auto simp: hw_gettoken_def hw_char_def hw_symbols_def)
  have np: "\<not> peek HENDERS (b # k)" using b assms(2) by (auto simp: peek_def)
  have "hw_exec_loop n argv (b # k) = HExit ''too many args''" for n argv
    by (induction n arbitrary: argv) (simp_all add: hw_exec_loop.simps[of _ _ "b # k"] np g)
  then have "hw_parseexec (show_words c @ b # k) = HExit ''too many args''"
    using assms(1) b by (simp add: hw_parseexec_def hw_exec_loop_words wf_words_def)
  moreover have "\<not> peek [AMP] (show_words c @ b # k)" "skip_ws (show_words c @ b # k) = show_words c @ b # k"
    using hw_words_front(1)[OF assms(1), of "b # k"] hw_words_front(2)[OF assms(1), of "[AMP]" "b # k"]
    by (simp_all add: hw_symbols_def)
  ultimately show ?thesis
    by (simp add: hw_parsecmd_def hw_parseline.simps[of "show_words c @ b # k"]
      hw_parseparallel.simps[of "show_words c @ b # k"])
qed

theorem hwsh_rejects_redirection_witness:
  "hw_parsecmd (show_words [[108, 115]] @ GREATER # [32, 102]) = HExit ''too many args''"
  by (rule hwsh_rejects_redirection)
    (simp_all add: wf_words_def hw_word_def hw_char_def whitespace_def hw_symbols_def)

end
