(* ===== verification/Spec2Isabelle.thy ===== *)
theory Spec2Isabelle
  imports Cstring Shm_Map Trap_Count Fs_Boot Malloc_Safe Boot Grep Sh_Run Hwsh
begin

text \<open>
  \<^bold>\<open>The program.\<close> The repository holds three course projects. HW1 is a small shell (\<open>src/HW1/hwsh.c\<close>). HW2 is the
  teaching kernel xv6 (\<open>src/HW2/src\<close>) with counters of traps and system calls per process; HW3 (\<open>src/HW3/xv6-src\<close>)
  changes some files of it to give processes shared memory. The kernel is layered: spin locks and interrupt nesting;
  the page allocator and page tables; processes, sleeping and scheduling; sleep locks, the buffer cache and the
  write-ahead log on the disk; inodes, directories and path names; pipes and the file table; system calls, traps and
  the start of the processors. Around it are \<open>mkfs\<close>, which builds the file system image, and user programs with
  their library.

  \<^bold>\<open>The state.\<close> \<open>Kstate\<close> collects the structures of the header files as records and every global variable of the
  kernel as a field of the record \<open>kernel\<close>. Memory is a map from 32-bit addresses to bytes; page tables, the free list
  of pages and the user heap are read and written in it word by word, as the code does. Pointers into static tables
  are indices. Machine integers are words and wrap; \<open>int\<close> is used for C integers whose overflow the code never
  reaches, with the conversions written out.

  \<^bold>\<open>Programs.\<close> Stateful code is written in the outcome monad of \<open>Prelude\<close>: an operation returns, panics, waits for
  something that never happens, or leaves the defined behaviour of C. Where the code gives up the processor or lets
  interrupts in, the environment acts: the second component of a kernel state is the list of what other processors,
  processes and interrupt handlers do at these points, and a theorem that keeps it arbitrary holds for all of them.
  \<open>wp m Q s\<close> is total: \<open>m\<close> returns from \<open>s\<close>, and \<open>Q\<close> holds of the result. Loops that may run for ever are
  \<open>partial_function (option)\<close> or stop as \<open>Blocked\<close>; the theorems then show that they return.

  \<^bold>\<open>The theories and the code they model.\<close>
  \<^item> \<open>Prelude\<close>: words, byte memory, the monad, weakest preconditions. \<open>Kstate\<close>: the header files.
  \<^item> \<open>Cstring\<close>: \<open>string.c\<close> and the string routines of \<open>ulib.c\<close>, and what they compute on regions and strings.
  \<^item> \<open>Boot\<close>: \<open>bootmain.c\<close>; the disk controller is a parameter, with what it delivers as a named hypothesis.
  \<^item> \<open>Spinlock\<close>: \<open>spinlock.c\<close> and \<open>mycpu\<close>, \<open>myproc\<close> of \<open>proc.c\<close>. Mutual exclusion is an invariant of an interleaving
    of any number of processors; \<open>synced\<close> says that a state differs from another by balanced locking only.
  \<^item> \<open>Console_Out\<close>, \<open>Console_In\<close>: \<open>console.c\<close>, \<open>kbd.c\<close>, \<open>uart.c\<close>.
  \<^item> \<open>Kalloc\<close>: \<open>kalloc.c\<close>, refined to a stack of pages; its interface is the locale \<open>page_allocator\<close>.
  \<^item> \<open>Vm\<close>: \<open>vm.c\<close>, with the lookup function that a page table in memory defines. \<open>Shm\<close>, \<open>Shm_Map\<close>: the changes of HW3
    to \<open>vm.c\<close>, \<open>proc.c\<close> and \<open>sysproc.c\<close>, and that a shared region appears in every process that asks for it.
  \<^item> \<open>Sched\<close>, \<open>Proc_Life\<close>: \<open>proc.c\<close>.
  \<^item> \<open>Quiet\<close>: the judgement \<open>runs\<close>, for operations that find their locks free; the proofs about the file system use it.
  \<^item> \<open>Bio\<close>, \<open>Bcache\<close>: \<open>sleeplock.c\<close>, \<open>memide.c\<close> and \<open>bio.c\<close>, and that the cache is a block device.
  \<^item> \<open>Log\<close>, \<open>Crash\<close>: \<open>log.c\<close>, and that a commit is atomic under a crash between any two writes to the disk.
  \<^item> \<open>Fs_Inode\<close>, \<open>Fs_Dir\<close>, \<open>Fs_Read\<close>: \<open>fs.c\<close>, and what \<open>readi\<close> and \<open>dirlookup\<close> return.
  \<^item> \<open>Mkfs\<close>, \<open>Fs_Boot\<close>: \<open>mkfs.c\<close>, the image it builds, and that the kernel reads the files back from it.
  \<^item> \<open>Ring\<close>, \<open>File\<close>: the locale \<open>byte_queue\<close> of bounded queues; \<open>pipe.c\<close>, which implements it, and \<open>file.c\<close>.
  \<^item> \<open>Sysargs\<close>, \<open>Sysfile\<close>: the argument checks of \<open>syscall.c\<close>, \<open>exec.c\<close>, \<open>sysfile.c\<close>.
  \<^item> \<open>Trap\<close>, \<open>Trap_Count\<close>: \<open>sysproc.c\<close>, \<open>syscall.c\<close>, \<open>trap.c\<close> and the start of a processor in \<open>main.c\<close>, and the path of
    \<open>countTraps\<close> from the trap to its result.
  \<^item> \<open>Umalloc\<close>, \<open>Malloc_Safe\<close>: \<open>umalloc.c\<close>, and what it promises a program.
  \<^item> \<open>Grep\<close>: \<open>grep.c\<close> and \<open>wc.c\<close>. \<open>Sh_Parse\<close>, \<open>Sh_Run\<close>: \<open>sh.c\<close> of HW2, and \<open>runcmd\<close> of HW3. \<open>Hwsh\<close>: \<open>hwsh.c\<close>.

  \<^bold>\<open>What the theorems show.\<close> The boot loader places every segment of the kernel. For the disk: \<open>bread\<close> returns the block as last written, \<open>commit\<close> and recovery are atomic,
  files are found and read as they are on the disk, and an image of \<open>mkfs\<close> can be read by the kernel. For processes:
  no lost wakeup in \<open>sleep\<close>, exactness of \<open>wakeup\<close>, fresh process numbers, bounds of system call arguments. For
  memory: the page allocator is a stack, a mapped page is found and nothing else changes, a shared region is shared,
  and blocks of \<open>malloc\<close> are the program's own, with nothing lost when they are freed. For pipes and shells: bytes
  leave a pipe in order, a pipeline is connected as written, no descriptor leaks, and the parsers end and invert the
  printing of commands. The errors found in the code are theorems as well, where they concern a modelled path.

  \<^bold>\<open>Bounds.\<close> Loops over virtual addresses have fuel \<open>2 ^ 20 + 1\<close>, one more than the pages of the address space; walks along
  the buffer list \<open>NBUF + 1\<close>, one more than the buffers; the parser of \<open>sh.c\<close> has fuel linear in the line, which
  \<open>parsecmd_returns\<close> shows to be enough. Waiting ends with the list of environment actions.

  \<^bold>\<open>Not modelled.\<close> Assembly (\<open>bootasm.S\<close>, \<open>entry.S\<close>, \<open>entryother.S\<close>, \<open>swtch.S\<close>, \<open>trapasm.S\<close>, \<open>initcode.S\<close>, \<open>usys.S\<close>) and the
  scripts that generate it: a context switch is the point where the environment acts, a trap is a call of the handler
  with a frame. The interrupt controllers and processor discovery (\<open>lapic.c\<close>, \<open>ioapic.c\<close>, \<open>picirq.c\<close>, \<open>mp.c\<close>), and
  \<open>main\<close> and \<open>startothers\<close> of \<open>main.c\<close> program devices by port and register. The interrupt-driven disk
  driver \<open>ide.c\<close> is replaced by the memory disk \<open>memide.c\<close> of the same interface. User programs that only pass
  arguments to system calls (\<open>cat\<close>, \<open>echo\<close>, \<open>init\<close>, \<open>kill\<close>, \<open>ln\<close>, \<open>ls\<close>, \<open>mkdir\<close>, \<open>rm\<close>, \<open>zombie\<close>), the user \<open>printf\<close>, the test
  programs, and the copies in HW3 of functions that HW2 has in the same form are left out.
\<close>

end
